(* ===== verification/Prelude.thy ===== *)
theory Prelude
  imports Main "HOL-Library.Word"
begin

text \<open>
  Shared vocabulary of the development: machine integers as words, the outcome of a C call,
  C strings, and the \<open>printf\<close> conversions that the tools use for their output files.

  A C string is represented by the list of its characters before the terminating NUL; the
  characters are those of the 8-bit signed \<open>char\<close> of the target.  A NULL pointer to a string
  is \<^term>\<open>None\<close>.  An access outside an object, a NULL dereference or a failed \<open>assert\<close> is the
  outcome \<open>Undef\<close>: nothing is assumed of what the program does then.
\<close>

unbundle bit_operations_syntax

type_synonym u8 = "8 word"
type_synonym u16 = "16 word"
type_synonym u32 = "32 word"
type_synonym u64 = "64 word"
type_synonym i32 = "32 word" \<comment> \<open>a C \<open>int\<close>, read with \<^const>\<open>sint\<close>\<close>

text \<open>The definitions to unfold when the model is run on a concrete input by \<open>simp\<close>.\<close>

named_theorems exec_simps \<open>definitions that run the model\<close>

section \<open>Outcomes of C calls\<close>

text \<open>
  \<open>Good\<close> carries the values a successful call produces, \<open>Fail\<close> the reason of an error return
  or of \<open>exit(1)\<close>, and \<open>Undef\<close> stands for undefined behaviour or a crash.
\<close>

datatype ('a, 'e) outcome = Good 'a | Fail 'e | Undef

primrec obind :: "('a, 'e) outcome \<Rightarrow> ('a \<Rightarrow> ('b, 'e) outcome) \<Rightarrow> ('b, 'e) outcome" where
  "obind (Good x) f = f x"
| "obind (Fail e) f = Fail e"
| "obind Undef f = Undef"

lemma obind_Good [simp]: "obind r Good = r"
  by (cases r) simp_all

lemma obind_assoc: "obind (obind r f) g = obind r (\<lambda>x. obind (f x) g)"
  by (cases r) simp_all

lemma obind_eq_Good: "obind r f = Good y \<longleftrightarrow> (\<exists>x. r = Good x \<and> f x = Good y)"
  by (cases r) simp_all

lemma obind_GoodE:
  assumes "obind r f = Good y"
  obtains x where "r = Good x" and "f x = Good y"
  using assms by (auto simp: obind_eq_Good)

section \<open>C strings\<close>

text \<open>\<open>s[i]\<close> as a byte: the terminating NUL can be read, nothing beyond it.\<close>

definition c_index :: "string \<Rightarrow> nat \<Rightarrow> u8 option" where
  "c_index s i =
     (if i < length s then Some (of_char (s ! i))
      else if i = length s then Some 0 else None)"

text \<open>The value of a (signed) \<open>char\<close> after the integer promotion.\<close>

definition c_char :: "u8 \<Rightarrow> i32" where
  "c_char c = scast c"

text \<open>\<open>strncmp(s, t, n) == 0\<close>, for strings without an inner NUL.\<close>

definition strncmp_eq :: "string \<Rightarrow> string \<Rightarrow> nat \<Rightarrow> bool" where
  "strncmp_eq s t n \<longleftrightarrow> take n s = take n t"

text \<open>
  \<open>atoi\<close>: leading white space, an optional sign, decimal digits.  A value outside the range of \<open>int\<close>
  is undefined in C.
\<close>

definition c_isspace :: "char \<Rightarrow> bool" where
  "c_isspace c \<longleftrightarrow> of_char c \<in> {9, 10, 11, 12, 13, 32 :: nat}"

definition c_isdigit :: "char \<Rightarrow> bool" where
  "c_isdigit c \<longleftrightarrow> 48 \<le> (of_char c :: nat) \<and> (of_char c :: nat) \<le> 57"

fun atoi_digits :: "string \<Rightarrow> int \<Rightarrow> int" where
  "atoi_digits [] acc = acc"
| "atoi_digits (c # cs) acc =
     (if c_isdigit c then atoi_digits cs (10 * acc + (of_char c - 48)) else acc)"

definition atoi_value :: "string \<Rightarrow> int" where
  "atoi_value s =
     (case dropWhile c_isspace s of
        [] \<Rightarrow> 0
      | c # r \<Rightarrow>
          if c = CHR ''-'' then - atoi_digits r 0
          else if c = CHR ''+'' then atoi_digits r 0
          else atoi_digits (c # r) 0)"

definition atoi :: "string \<Rightarrow> i32 option" where
  "atoi s =
     (let v = atoi_value s in
      if - (2 ^ 31) \<le> v \<and> v < 2 ^ 31 then Some (word_of_int v) else None)"

section \<open>Output conversions\<close>

text \<open>The digits of a number in a base up to 16, most significant first.\<close>

definition hex_digit :: "nat \<Rightarrow> char" where
  "hex_digit n = ''0123456789abcdef'' ! n"

fun digits_in :: "nat \<Rightarrow> nat \<Rightarrow> string" where
  "digits_in b n =
     (if b \<le> 1 \<or> n < b then [hex_digit n] else digits_in b (n div b) @ [hex_digit (n mod b)])"

declare digits_in.simps [simp del]

definition pad_left :: "nat \<Rightarrow> char \<Rightarrow> string \<Rightarrow> string" where
  "pad_left w c s = replicate (w - length s) c @ s"

definition pad_right :: "nat \<Rightarrow> char \<Rightarrow> string \<Rightarrow> string" where
  "pad_right w c s = s @ replicate (w - length s) c"

text \<open>\<open>%0wx\<close> of an unsigned value, \<open>%d\<close> of an \<open>int\<close>, and \<open>%-ws\<close>.\<close>

definition fmt_x :: "nat \<Rightarrow> u32 \<Rightarrow> string" where
  "fmt_x w v = pad_left w (CHR ''0'') (digits_in 16 (unat v))"

definition fmt_d :: "i32 \<Rightarrow> string" where
  "fmt_d v = (if sint v < 0 then ''-'' else []) @ digits_in 10 (nat \<bar>sint v\<bar>)"

definition newline :: char where "newline = CHR 0x0A"
definition tab_char :: char where "tab_char = CHR 0x09"


section \<open>Stores to consecutive addresses\<close>

text \<open>A 16-bit word memory as a function of its address; the address wraps around.\<close>

fun store_words :: "u16 list \<Rightarrow> u16 \<Rightarrow> (u16 \<Rightarrow> u16) \<Rightarrow> u16 \<Rightarrow> u16" where
  "store_words [] a m = m"
| "store_words (w # ws) a m = store_words ws (a + 1) (m(a := w))"

lemma store_words_append:
  "store_words (ws @ vs) a m = store_words vs (a + of_nat (length ws)) (store_words ws a m)"
  by (induction ws arbitrary: a m) (simp_all add: algebra_simps)

lemma store_words_other:
  assumes "\<And>i. i < length ws \<Longrightarrow> b \<noteq> a + of_nat i"
  shows "store_words ws a m b = m b"
  using assms
proof (induction ws arbitrary: a m)
  case (Cons w ws)
  have "b \<noteq> a" using Cons.prems[of 0] by simp
  moreover have "b \<noteq> (a + 1) + of_nat i" if "i < length ws" for i
    using Cons.prems[of "Suc i"] that by (simp add: algebra_simps)
  ultimately show ?case by (simp add: Cons.IH)
qed simp

lemma of_nat_u16_inj: "i < 65536 \<Longrightarrow> j < 65536 \<Longrightarrow> (of_nat i :: u16) = of_nat j \<Longrightarrow> i = j"
  by (simp add: word_of_nat_eq_iff take_bit_eq_mod)

lemma store_words_nth:
  assumes "i < length ws" "length ws \<le> 65536"
  shows "store_words ws a m (a + of_nat i) = ws ! i"
  using assms
proof (induction ws arbitrary: a m i)
  case (Cons w ws)
  show ?case
  proof (cases i)
    case 0
    have "a \<noteq> a + 1 + of_nat j" if "j < length ws" for j
      using of_nat_u16_inj[of 0 "Suc j"] that Cons.prems by auto
    with 0 show ?thesis by (simp add: store_words_other)
  next
    case (Suc j)
    have "store_words ws (a + 1) (m(a := w)) ((a + 1) + of_nat j) = ws ! j"
      using Suc Cons.prems by (intro Cons.IH) auto
    with Suc show ?thesis by (simp add: algebra_simps)
  qed
qed simp

section \<open>Words as integers\<close>

lemma sint_eq_uint_small: "uint (x :: i32) < 2 ^ 31 \<Longrightarrow> sint x = uint x"
  by (simp add: sint_uint signed_take_bit_int_eq_self uint_nonnegative order_trans [OF _ uint_nonnegative])

lemma uint_eq_sint_pos: "0 \<le> sint (x :: i32) \<Longrightarrow> uint x = sint x"
  by (simp add: uint_sint take_bit_int_eq_self_iff) (use sint_lt [of x] in simp)

lemma uint_minus_one: "1 \<le> sint (x :: i32) \<Longrightarrow> uint (x - 1) = sint x - 1"
  using uint_sub_if'[of x 1] by (simp add: uint_eq_sint_pos)

lemma ucast_and_not: "(ucast ((x :: u32) AND NOT k) :: u16) = ucast x AND ucast (NOT k)"
  by (rule bit_word_eqI) (auto simp: bit_simps)

lemma ucast_add_u16: "(ucast ((x :: u32) + y) :: u16) = ucast x + ucast y"
  by (simp add: word_uint_eq_iff unsigned_ucast_eq uint_word_ariths take_bit_eq_mod mod_mod_cancel mod_add_eq)

lemma uint_ucast_u16: "uint (ucast (a :: u16) :: u32) = uint a"
  using uint_bounded[of a] by (simp add: unsigned_ucast_eq take_bit_int_eq_self_iff)

lemma ucast_ucast_u16: "ucast (ucast (a :: u16) :: u32) = a"
  by (rule bit_word_eqI) (auto simp: bit_simps)

lemma ucast_ucast_u32: "ucast (ucast (w :: u32) :: u64) = w"
  by (rule bit_word_eqI) (auto simp: bit_simps)

lemma sint_two_power: "m < 31 \<Longrightarrow> sint (2 ^ m :: i32) = 2 ^ m"
proof -
  assume "m < 31"
  then have "(2 :: int) ^ m \<le> 2 ^ 30" by (intro power_increasing) auto
  moreover have "uint (2 ^ m :: i32) = 2 ^ m"
    using uint_word_of_int_eq[of "2 ^ m", where 'a = 32] \<open>m < 31\<close> by simp
  ultimately show ?thesis by (simp add: sint_eq_uint_small)
qed

lemma replicate_numeral: "replicate (numeral k) x = x # replicate (pred_numeral k) x"
  by (simp add: numeral_eq_Suc)

lemmas prelude_exec [exec_simps] = c_index_def c_char_def strncmp_eq_def atoi_def atoi_value_def
  c_isspace_def c_isdigit_def replicate_numeral Let_def

end
