(* ===== verification/AsmTypes.thy ===== *)
theory AsmTypes
  imports Prelude
begin

text \<open>
  The data types of \<open>sw/tools/asm/asm.h\<close>: what the parser hands to the assembler (operands,
  instructions, bundles and data elements, each a singly linked list in C and a HOL list here)
  and the instruction definitions of the instruction table.

  A field prefix (\<open>op_\<close>, \<open>inst_\<close>, \<open>ib_\<close>, \<open>de_\<close>, \<open>od_\<close>, \<open>id_\<close>) keeps the record selectors apart.
  The function pointer \<open>encode\<close> of an operand definition is one of eight functions of
  \<open>asm.c\<close>; the datatype \<open>encoder\<close> names the function, and \<^term>\<open>None\<close> is the NULL pointer of a
  zero-initialised array element.
\<close>

definition PAR_BIT :: nat where "PAR_BIT = 0"
definition SIZE_BIT :: nat where "SIZE_BIT = 1"
definition MAX_OPERANDS :: nat where "MAX_OPERANDS = 8"

datatype operand_type = REG | REG_WITH_OFFSET | INTEGER | SYMBOL_REF

record operand =
  op_type :: operand_type
  op_name :: "string option"
  op_offset :: i32

record instruction =
  inst_pred :: "string option"
  inst_pred_neg :: i32
  inst_mnemonic :: string
  inst_ops :: "operand list"
  inst_lineno :: i32

record inst_bundle =
  ib_insts :: "instruction list"
  ib_label :: "string option"
  ib_align :: i32

record data_element =
  de_label :: "string option"
  de_symref :: "string option"
  de_value :: i32
  de_skip_length :: i32

datatype encoder =
    Enc_spec | Enc_acc | Enc_acc_half | Enc_ptr | Enc_pred | Enc_reg | Enc_int | Enc_symref

datatype insn_size = INST_16 | INST_32

record operand_def =
  od_type :: operand_type
  od_offset :: u32
  od_width :: u32
  od_encode :: "encoder option"

record inst_def =
  id_mnemonic :: string
  id_nr_operands :: nat
  id_pattern :: u32
  id_size :: insn_size
  id_operands :: "operand_def list"

text \<open>
  The array \<open>operands\<close> has \<open>MAX_OPERANDS\<close> elements; those without an initialiser are zero, which
  for the enumeration \<open>type\<close> is \<open>REG\<close> and for \<open>encode\<close> the NULL pointer.
\<close>

definition zero_operand_def :: operand_def where
  "zero_operand_def = \<lparr>od_type = REG, od_offset = 0, od_width = 0, od_encode = None\<rparr>"

definition operand_array :: "inst_def \<Rightarrow> operand_def list" where
  "operand_array d =
     id_operands d @ replicate (MAX_OPERANDS - length (id_operands d)) zero_operand_def"

text \<open>
  Operand fields of an instruction word: \<open>((1 << width) - 1) << offset\<close>, and the update
  \<open>p |= (v & ((1 << width) - 1)) << offset\<close> that every encoder performs.
\<close>

definition width_mask :: "operand_def \<Rightarrow> u32" where
  "width_mask d = push_bit (unat (od_width d)) 1 - 1"

definition field_mask :: "operand_def \<Rightarrow> u32" where
  "field_mask d = push_bit (unat (od_offset d)) (width_mask d)"

definition put_field :: "operand_def \<Rightarrow> u32 \<Rightarrow> u32 \<Rightarrow> u32" where
  "put_field d v p = p OR push_bit (unat (od_offset d)) (v AND width_mask d)"

definition get_field :: "operand_def \<Rightarrow> u32 \<Rightarrow> u32" where
  "get_field d p = drop_bit (unat (od_offset d)) p AND width_mask d"

text \<open>A field lies inside the 32-bit word and is not empty.\<close>

definition wf_field :: "operand_def \<Rightarrow> bool" where
  "wf_field d \<longleftrightarrow> 0 < unat (od_width d) \<and> unat (od_offset d) + unat (od_width d) \<le> 32"

lemma bit_width_mask: "bit (width_mask d) n \<longleftrightarrow> n < unat (od_width d) \<and> n < 32"
proof -
  have "width_mask d = mask (unat (od_width d))"
    by (simp add: width_mask_def mask_eq_exp_minus_1 push_bit_eq_mult)
  then show ?thesis by (auto simp: bit_mask_iff)
qed

lemma bit_field_mask:
  "bit (field_mask d) n \<longleftrightarrow>
     unat (od_offset d) \<le> n \<and> n < unat (od_offset d) + unat (od_width d) \<and> n < 32"
  by (auto simp: field_mask_def bit_push_bit_iff bit_width_mask)

lemma bit_put_field:
  "bit (put_field d v p) n \<longleftrightarrow>
     bit p n \<or> (bit (field_mask d) n \<and> bit v (n - unat (od_offset d)))"
  by (auto simp: put_field_def field_mask_def bit_simps bit_width_mask)

lemma bit_get_field:
  "bit (get_field d p) n \<longleftrightarrow> n < unat (od_width d) \<and> n < 32 \<and> bit p (unat (od_offset d) + n)"
  by (auto simp: get_field_def bit_simps bit_width_mask)

text \<open>Writing a value that fits into a clear field and reading the field gives it back.\<close>

lemma get_put_field:
  assumes "wf_field d" "p AND field_mask d = 0" "v AND NOT (width_mask d) = 0"
  shows "get_field d (put_field d v p) = v"
proof (rule bit_word_eqI)
  fix n assume n: "n < LENGTH(32)"
  have clear: "\<not> bit p (unat (od_offset d) + n)" if "n < unat (od_width d)"
  proof
    assume "bit p (unat (od_offset d) + n)"
    moreover from that assms(1) have "bit (field_mask d) (unat (od_offset d) + n)"
      by (auto simp: bit_field_mask wf_field_def)
    ultimately have "bit (p AND field_mask d) (unat (od_offset d) + n)"
      by (simp add: bit_and_iff)
    with assms(2) show False by simp
  qed
  have fits: "n < unat (od_width d)" if "bit v n"
  proof (rule ccontr)
    assume "\<not> n < unat (od_width d)"
    with that n have "bit (v AND NOT (width_mask d)) n"
      by (auto simp: bit_simps bit_width_mask)
    with assms(3) show False by simp
  qed
  show "bit (get_field d (put_field d v p)) n \<longleftrightarrow> bit v n"
    using n clear fits assms(1)
    by (auto simp: bit_get_field bit_put_field bit_field_mask wf_field_def)
qed

lemma get_field_cong:
  assumes "\<And>n. bit (field_mask f) n \<Longrightarrow> bit w n = bit v n" "wf_field f"
  shows "get_field f w = get_field f v"
proof (rule bit_word_eqI)
  fix n :: nat
  show "bit (get_field f w) n \<longleftrightarrow> bit (get_field f v) n"
    using assms(1)[of "unat (od_offset f) + n"] assms(2)
    by (auto simp: bit_get_field bit_field_mask wf_field_def)
qed

lemmas types_exec [exec_simps] = put_field_def width_mask_def operand_array_def MAX_OPERANDS_def
  PAR_BIT_def SIZE_BIT_def

end
