(* ===== verification/Symtab.thy ===== *)
theory Symtab
  imports AsmTypes
begin

text \<open>
  The symbol table of \<open>sw/tools/asm/symtab.c\<close>: a linked list, the newest entry first, that lives
  in the static variable \<open>symtab_p\<close>; \<open>symtab_add\<close> pushes an entry and \<open>symtab_lookup\<close> returns the
  first entry of that name.  The interface the assembler relies on is the locale
  \<open>symbol_table\<close>.
\<close>

record symtab_entry =
  se_name :: string
  se_address :: u32

type_synonym symtab = "symtab_entry list"

definition symtab_add :: "string \<Rightarrow> u32 \<Rightarrow> symtab \<Rightarrow> symtab" where
  "symtab_add nm addr tab = \<lparr>se_name = nm, se_address = addr\<rparr> # tab"

text \<open>
  \<^term>\<open>Some\<close> of the address is \<open>RES_GOOD\<close> with \<open>*address_p\<close> set; \<^term>\<open>None\<close> is \<open>RES_BAD\<close>, where
  the C function stores 0.
\<close>

fun symtab_lookup :: "string \<Rightarrow> symtab \<Rightarrow> u32 option" where
  "symtab_lookup nm [] = None"
| "symtab_lookup nm (node # rest) =
     (if se_name node = nm then Some (se_address node) else symtab_lookup nm rest)"

text \<open>The map file: one line \<open>%-32s 0x%04x\<close> per entry, the newest first.\<close>

fun symtab_output_mapfile :: "symtab \<Rightarrow> string" where
  "symtab_output_mapfile [] = []"
| "symtab_output_mapfile (node # rest) =
     pad_right 32 (CHR '' '') (se_name node) @ '' 0x'' @ fmt_x 4 (se_address node) @ [newline] @
     symtab_output_mapfile rest"

section \<open>The interface\<close>

locale symbol_table =
  fixes empty :: "'t"
    and add :: "string \<Rightarrow> 'a \<Rightarrow> 't \<Rightarrow> 't"
    and lookup :: "string \<Rightarrow> 't \<Rightarrow> 'a option"
  assumes lookup_empty: "lookup n empty = None"
    and lookup_add: "lookup n (add m a t) = (if m = n then Some a else lookup n t)"
begin

text \<open>Definitions that are added only when their name is fresh keep all earlier bindings.\<close>

fun add_all :: "(string \<times> 'a) list \<Rightarrow> 't \<Rightarrow> 't" where
  "add_all [] t = t"
| "add_all ((n, a) # ds) t = add_all ds (add n a t)"

lemma lookup_add_fresh:
  assumes "lookup m t = None" "lookup n t = Some b"
  shows "lookup n (add m a t) = Some b"
  using assms by (auto simp: lookup_add)

lemma lookup_add_all_notin:
  "n \<notin> fst ` set ds \<Longrightarrow> lookup n (add_all ds t) = lookup n t"
  by (induction ds t rule: add_all.induct) (auto simp: lookup_add)

lemma lookup_add_all_distinct:
  assumes "distinct (map fst ds)" "(n, a) \<in> set ds"
  shows "lookup n (add_all ds t) = Some a"
  using assms
proof (induction ds t rule: add_all.induct)
  case (1 t)
  then show ?case by simp
next
  case (2 m b ds t)
  show ?case
  proof (cases "(n, a) \<in> set ds")
    case True
    with 2 show ?thesis by simp
  next
    case False
    with 2 have "m = n" "b = a" "n \<notin> fst ` set ds" by auto
    then show ?thesis by (simp add: lookup_add_all_notin lookup_add)
  qed
qed

lemma lookup_add_all_dom:
  "lookup n (add_all ds t) \<noteq> None \<longleftrightarrow> n \<in> fst ` set ds \<or> lookup n t \<noteq> None"
  by (induction ds t rule: add_all.induct) (auto simp: lookup_add)

end

interpretation st: symbol_table "[]" symtab_add symtab_lookup
  by unfold_locales (auto simp: symtab_add_def)

lemmas symtab_exec [exec_simps] = symtab_add_def

end
