(* ===== verification/Encode.thy ===== *)
theory Encode
  imports Symtab
begin

text \<open>
  The operand encoders of \<open>sw/tools/asm/asm.c\<close>.  Each takes an operand definition, an operand and
  the instruction word built so far, and either ORs the operand's bits into its field or rejects
  the operand.  \<open>Good p\<close> is \<open>RES_GOOD\<close> with \<open>*pattern_p = p\<close>, \<open>Fail ()\<close> is \<open>RES_BAD\<close>.

  Register numbers are read from fixed positions of the name (\<open>name[3] - '0'\<close>); a name that is
  too short makes the C function read beyond the string, which is \<open>Undef\<close>.
\<close>

section \<open>Special registers\<close>

definition SpecialRegs :: "(string \<times> u32) list" where
  "SpecialRegs =
    [(''retpc'', 1),
     (''sp'', 2),
     (''satctrl'', 3),
     (''mulsign'', 4),

     (''masksel'', 5),
     (''mask0'', 6),
     (''mask1'', 7),

     (''modsel'', 8),
     (''mod0'', 9),
     (''mod1'', 10),
     (''bitrev'', 11),

     (''retipc'', 12),
     (''pred'', 13),
     (''bkrepcnt'', 14),

     (''gpio2'', 30),
     (''gpio'', 31)]"

text \<open>The search loop of \<open>encode_spec\<close>; \<open>reg\<close> keeps its initial value when nothing matches.\<close>

fun find_special :: "(string \<times> u32) list \<Rightarrow> string \<Rightarrow> u32 \<Rightarrow> u32" where
  "find_special [] nm reg = reg"
| "find_special ((n, r) # rest) nm reg = (if nm = n then r else find_special rest nm reg)"

section \<open>The encoders\<close>

type_synonym encode_fn = "operand_def \<Rightarrow> operand \<Rightarrow> u32 \<Rightarrow> (u32, unit) outcome"

text \<open>\<open>name[i] - '0'\<close>, converted to \<open>uint32\<close>.\<close>

definition digit_value :: "u8 \<Rightarrow> u32" where
  "digit_value c = c_char c - 48"

definition encode_spec :: encode_fn where
  "encode_spec d op p =
     (case op_name op of
        None \<Rightarrow> Undef
      | Some nm \<Rightarrow>
          let reg = find_special SpecialRegs nm 0xffffffff in
          if 64 < reg then Fail ()
          else Good (put_field d reg p))"

definition encode_acc :: encode_fn where
  "encode_acc d op p =
     (case op_name op of
        None \<Rightarrow> Undef
      | Some nm \<Rightarrow>
          if \<not> strncmp_eq nm ''acc'' 3 then Fail ()
          else (case (c_index nm 3, c_index nm 4) of
              (Some c3, Some c4) \<Rightarrow>
                if c4 \<noteq> 0 then Fail ()
                else Good (put_field d (digit_value c3) p)
            | _ \<Rightarrow> Undef))"

text \<open>The half-register suffix: \<open>l\<close> selects register \<open>2n\<close>, \<open>h\<close> register \<open>2n + 1\<close>.\<close>

definition half_number :: "u8 \<Rightarrow> u32 \<Rightarrow> u32 option" where
  "half_number c reg =
     (if c = of_char (CHR ''l'') then Some (push_bit 1 reg + 0)
      else if c = of_char (CHR ''h'') then Some (push_bit 1 reg + 1)
      else None)"

definition encode_acc_half :: encode_fn where
  "encode_acc_half d op p =
     (case op_name op of
        None \<Rightarrow> Undef
      | Some nm \<Rightarrow>
          if \<not> strncmp_eq nm ''acc'' 3 then Fail ()
          else (case (c_index nm 3, c_index nm 4) of
              (Some c3, Some c4) \<Rightarrow>
                (case half_number c4 (digit_value c3) of
                   None \<Rightarrow> Fail ()
                 | Some reg \<Rightarrow> Good (put_field d reg p))
            | _ \<Rightarrow> Undef))"

definition encode_ptr :: encode_fn where
  "encode_ptr d op p =
     (case op_name op of
        None \<Rightarrow> Undef
      | Some nm \<Rightarrow>
          if \<not> strncmp_eq nm ''ptr'' 3 then Fail ()
          else (case c_index nm 3 of
              Some c3 \<Rightarrow> Good (put_field d (digit_value c3) p)
            | None \<Rightarrow> Undef))"

definition encode_pred :: encode_fn where
  "encode_pred d op p =
     (case op_name op of
        None \<Rightarrow> Undef
      | Some nm \<Rightarrow>
          if \<not> strncmp_eq nm ''pred'' 4 then Fail ()
          else (case c_index nm 4 of
              Some c4 \<Rightarrow> Good (put_field d (digit_value c4) p)
            | None \<Rightarrow> Undef))"

text \<open>The extra bit of \<open>encode_reg\<close> marks an accumulator half: \<open>1 << (width - 1 + offset)\<close>.\<close>

definition encode_reg :: encode_fn where
  "encode_reg d op p =
     (case op_name op of
        None \<Rightarrow> Undef
      | Some nm \<Rightarrow>
          if strncmp_eq nm ''ptr'' 3 then
            (case c_index nm 3 of
               Some c3 \<Rightarrow> Good (put_field d (digit_value c3) p)
             | None \<Rightarrow> Undef)
          else if strncmp_eq nm ''acc'' 3 then
            (case (c_index nm 3, c_index nm 4) of
               (Some c3, Some c4) \<Rightarrow>
                 (case half_number c4 (digit_value c3) of
                    None \<Rightarrow> Fail ()
                  | Some reg \<Rightarrow>
                      Good (put_field d reg p OR push_bit (unat (od_width d - 1 + od_offset d)) 1))
             | _ \<Rightarrow> Undef)
          else Fail ())"

definition encode_int :: encode_fn where
  "encode_int d op p =
     (if sint (push_bit (unat (od_width d)) (1 :: i32)) \<le> sint (op_offset op) then Fail ()
      else Good (put_field d (op_offset op) p))"

text \<open>
  \<open>encode_symref\<close> depends on the static flag \<open>ignore_sym_refs\<close> and on the symbol table.  A NULL
  name is only dereferenced when the table has an entry to compare it with.
\<close>

definition encode_symref :: "bool \<Rightarrow> symtab \<Rightarrow> encode_fn" where
  "encode_symref ignore_sym_refs tab d op p =
     (if ignore_sym_refs then Good p
      else (case op_name op of
          None \<Rightarrow> if tab = [] then Fail () else Undef
        | Some nm \<Rightarrow>
            (case symtab_lookup nm tab of
               Some address \<Rightarrow> Good (put_field d address p)
             | None \<Rightarrow> Fail ())))"

text \<open>The call through the function pointer \<open>encode\<close>.\<close>

fun run_encode :: "bool \<Rightarrow> symtab \<Rightarrow> encoder \<Rightarrow> encode_fn" where
  "run_encode ign tab Enc_spec = encode_spec"
| "run_encode ign tab Enc_acc = encode_acc"
| "run_encode ign tab Enc_acc_half = encode_acc_half"
| "run_encode ign tab Enc_ptr = encode_ptr"
| "run_encode ign tab Enc_pred = encode_pred"
| "run_encode ign tab Enc_reg = encode_reg"
| "run_encode ign tab Enc_int = encode_int"
| "run_encode ign tab Enc_symref = encode_symref ign tab"

lemmas encode_defs [exec_simps] = encode_spec_def encode_acc_def encode_acc_half_def encode_ptr_def
  encode_pred_def encode_reg_def encode_int_def encode_symref_def

lemmas number_exec [exec_simps] = half_number_def digit_value_def

section \<open>The contract of an operand encoder\<close>

text \<open>
  An encoder decides from the operand alone, and what it adds to the word lies inside the
  operand's field.
\<close>

locale field_encoder =
  fixes enc :: encode_fn
  assumes accumulates: "enc d op p = Good q \<Longrightarrow> \<exists>c. enc d op 0 = Good c \<and> q = p OR c"
    and uniform: "enc d op 0 = Good c \<Longrightarrow> enc d op p = Good (p OR c)"
    and inside: "wf_field d \<Longrightarrow> enc d op 0 = Good c \<Longrightarrow> c AND NOT (field_mask d) = 0"
begin

lemma bit_enc:
  assumes "wf_field d" "enc d op p = Good q"
  obtains c where "\<And>n. bit q n \<longleftrightarrow> bit p n \<or> (bit c n \<and> bit (field_mask d) n)"
    and "enc d op 0 = Good c"
proof -
  from accumulates[OF assms(2)] obtain c where c: "enc d op 0 = Good c" "q = p OR c" by blast
  have "bit (field_mask d) n" if "bit c n" for n
  proof (rule ccontr)
    assume "\<not> bit (field_mask d) n"
    moreover have "n < 32" using bit_imp_le_length[OF that] by simp
    ultimately have "bit (c AND NOT (field_mask d)) n" using that by (simp add: bit_simps)
    with inside[OF assms(1) c(1)] show False by simp
  qed
  with c show thesis by (intro that[of c]) (auto simp: bit_simps)
qed

text \<open>Bits outside the field are those of the word the encoder was given.\<close>

lemma frame:
  assumes "wf_field d" "enc d op p = Good q" "\<not> bit (field_mask d) n"
  shows "bit q n \<longleftrightarrow> bit p n"
  using assms by (elim bit_enc) auto

lemma keeps_bits: "wf_field d \<Longrightarrow> enc d op p = Good q \<Longrightarrow> bit p n \<Longrightarrow> bit q n"
  by (elim bit_enc) auto

lemma keeps_outside:
  assumes "wf_field d" "enc d op p = Good q" "m AND field_mask d = 0"
  shows "q AND m = p AND m"
proof (rule bit_word_eqI)
  fix n :: nat
  have "bit (m AND field_mask d) n = bit (0 :: u32) n" using assms(3) by simp
  then have "\<not> (bit m n \<and> bit (field_mask d) n)" by (simp add: bit_simps)
  then show "bit (q AND m) n \<longleftrightarrow> bit (p AND m) n"
    using frame[OF assms(1,2)] by (auto simp: bit_and_iff)
qed

lemma succeeds_anywhere: "enc d op p = Good q \<Longrightarrow> \<exists>q'. enc d op p' = Good q'"
  using accumulates uniform by blast

end

text \<open>Every encoder meets the contract, so the call through the function pointer does.\<close>

lemma field_bits_inside:
  "(push_bit (unat (od_offset d)) v AND push_bit (unat (od_offset d)) (width_mask d))
     AND NOT (field_mask d) = 0"
  by (rule bit_word_eqI) (auto simp: bit_simps bit_field_mask bit_width_mask)

lemma acc_flag_inside:
  assumes "wf_field d"
  shows "2 ^ unat (od_width d - 1 + od_offset d) AND NOT (field_mask d) = 0"
proof -
  have w: "0 < unat (od_width d)" "unat (od_offset d) + unat (od_width d) \<le> 32"
    using assms by (auto simp: wf_field_def)
  then have "od_width d \<noteq> 0" by auto
  then have "unat (od_width d - 1) = unat (od_width d) - 1" by (rule unat_minus_one)
  with w have "unat (od_width d - 1 + od_offset d) = unat (od_width d) - 1 + unat (od_offset d)"
    by (simp add: unat_word_ariths(1))
  with w show ?thesis 
    by (intro bit_word_eqI) (auto simp: bit_simps bit_field_mask)
qed

lemma or_inside:
  "(a :: u32) AND NOT m = 0 \<Longrightarrow> b AND NOT m = 0 \<Longrightarrow> (a OR b) AND NOT m = 0"
  by (simp add: bit.conj_disj_distrib2)

lemmas encoder_laws = put_field_def field_bits_inside acc_flag_inside or_inside or.assoc Let_def

interpretation spec_enc: field_encoder encode_spec
  by unfold_locales (auto simp: encode_spec_def encoder_laws split: option.splits if_splits)
interpretation acc_enc: field_encoder encode_acc
  by unfold_locales (auto simp: encode_acc_def encoder_laws split: option.splits if_splits)
interpretation acc_half_enc: field_encoder encode_acc_half
  by unfold_locales (auto simp: encode_acc_half_def encoder_laws split: option.splits if_splits)
interpretation ptr_enc: field_encoder encode_ptr
  by unfold_locales (auto simp: encode_ptr_def encoder_laws split: option.splits if_splits)
interpretation pred_enc: field_encoder encode_pred
  by unfold_locales (auto simp: encode_pred_def encoder_laws split: option.splits if_splits)
interpretation reg_enc: field_encoder encode_reg
  by unfold_locales (auto simp: encode_reg_def encoder_laws split: option.splits if_splits)
interpretation int_enc: field_encoder encode_int
  by unfold_locales (auto simp: encode_int_def encoder_laws split: option.splits if_splits)
interpretation symref_enc: field_encoder "encode_symref ign tab" for ign tab
  by unfold_locales (auto simp: encode_symref_def encoder_laws split: option.splits if_splits)
interpretation run_enc: field_encoder "run_encode ign tab e" for ign tab e
  by (cases e)
    (simp_all only: run_encode.simps spec_enc.field_encoder_axioms acc_enc.field_encoder_axioms
      acc_half_enc.field_encoder_axioms ptr_enc.field_encoder_axioms pred_enc.field_encoder_axioms
      reg_enc.field_encoder_axioms int_enc.field_encoder_axioms symref_enc.field_encoder_axioms)

section \<open>Properties\<close>

lemma encode_int_cases:
  "unat (od_width d) < 31 \<Longrightarrow> encode_int d op p =
     (if sint (op_offset op) < 2 ^ unat (od_width d) then Good (put_field d (op_offset op) p) else Fail ())"
  by (simp add: encode_int_def push_bit_eq_mult sint_two_power)

lemma width_mask_eq: "width_mask d = mask (unat (od_width d))"
  by (simp add: width_mask_def mask_eq_exp_minus_1 push_bit_eq_mult)

lemma fits_width: "uint v < 2 ^ unat (od_width d) \<Longrightarrow> v AND NOT (width_mask d) = 0"
proof -
  assume "uint v < 2 ^ unat (od_width d)"
  then have v: "v AND mask (unat (od_width d)) = v" by (simp add: mask_eq_iff)
  have "v AND NOT (mask (unat (od_width d))) = (v AND mask (unat (od_width d))) AND NOT (mask (unat (od_width d)))"
    by (simp only: v)
  also have "\<dots> = 0" by (rule bit_word_eqI) (simp add: bit_simps)
  finally show ?thesis by (simp add: width_mask_eq)
qed

lemma fits_width_nat:
  assumes "n < 2 ^ unat (od_width d)" "unat (od_width d) \<le> 32"
  shows "(of_nat n :: u32) AND NOT (width_mask d) = 0"
proof (rule fits_width)
  have "uint (of_nat n :: u32) \<le> int n" by (simp add: unsigned_of_nat)
  also have "int n < 2 ^ unat (od_width d)" using assms(1) by (metis of_nat_less_numeral_power_cancel_iff)
  finally show "uint (of_nat n :: u32) < 2 ^ unat (od_width d)" .
qed

text \<open>What reading the field gives after the value has been written, whether it fits or not.\<close>

lemma get_put_field_masked:
  assumes "wf_field d" "p AND field_mask d = 0"
  shows "get_field d (put_field d v p) = v AND width_mask d"
proof -
  have "put_field d v p = put_field d (v AND width_mask d) p"
    by (simp add: put_field_def and.assoc)
  moreover have "(v AND width_mask d) AND NOT (width_mask d) = 0"
    by (rule bit_word_eqI) (simp add: bit_simps)
  ultimately show ?thesis using get_put_field[OF assms] by simp
qed

text \<open>A non-negative integer operand is accepted exactly when it fits into its field, and then the
  field holds it.\<close>

theorem encode_int_exact:
  assumes "wf_field d" "unat (od_width d) < 31" "p AND field_mask d = 0" "0 \<le> sint (op_offset op)"
  shows "if sint (op_offset op) < 2 ^ unat (od_width d)
     then \<exists>q. encode_int d op p = Good q \<and> get_field d q = op_offset op
     else encode_int d op p = Fail ()"
proof -
  have "op_offset op AND NOT (width_mask d) = 0" if "sint (op_offset op) < 2 ^ unat (od_width d)"
    by (rule fits_width) (use that assms(4) in \<open>simp add: uint_eq_sint_pos\<close>)
  then show ?thesis using get_put_field[OF assms(1,3)] by (simp add: encode_int_cases[OF assms(2)])
qed

definition int_field :: operand_def where
  "int_field = \<lparr>od_type = INTEGER, od_offset = 9, od_width = 4, od_encode = Some Enc_int\<rparr>"

definition int_operand :: "i32 \<Rightarrow> operand" where
  "int_operand v = \<lparr>op_type = INTEGER, op_name = None, op_offset = v\<rparr>"

definition reg_operand :: "string \<Rightarrow> operand" where
  "reg_operand nm = \<lparr>op_type = REG, op_name = Some nm, op_offset = 0\<rparr>"

declare int_operand_def [exec_simps] reg_operand_def [exec_simps]

lemmas field_eval = int_field_def int_operand_def reg_operand_def wf_field_def field_mask_def
  width_mask_def get_field_def put_field_def

theorem encode_int_exact_witness:
  "\<exists>q. encode_int int_field (int_operand 13) 0x20 = Good q \<and> get_field int_field q = 13"
  using encode_int_exact[of int_field "0x20" "int_operand 13"] by (simp add: field_eval)

text \<open>There is no lower bound: every negative integer operand is accepted, and the field holds its
  value modulo the size of the field.\<close>

theorem encode_int_negative:
  assumes "wf_field d" "unat (od_width d) < 31" "p AND field_mask d = 0" "sint (op_offset op) < 0"
  shows "\<exists>q. encode_int d op p = Good q \<and>
    sint (get_field d q) = sint (op_offset op) mod 2 ^ unat (od_width d)"
proof -
  have "sint (op_offset op) < 2 ^ unat (od_width d)" using assms(4) by (rule less_trans) simp
  moreover have "sint (op_offset op AND width_mask d) = sint (op_offset op) mod 2 ^ unat (od_width d)"
  proof -
    have "uint (op_offset op AND mask (unat (od_width d))) = take_bit (unat (od_width d)) (uint (op_offset op))"
      by (simp add: take_bit_eq_mask [symmetric] unsigned_take_bit_eq)
    also have "\<dots> = take_bit (unat (od_width d)) (take_bit 32 (sint (op_offset op)))"
      by (subst uint_sint) simp
    also have "\<dots> = sint (op_offset op) mod 2 ^ unat (od_width d)"
      using assms(2) by (simp add: take_bit_eq_mod [symmetric] min_def)
    finally have "uint (op_offset op AND mask (unat (od_width d))) = sint (op_offset op) mod 2 ^ unat (od_width d)" .
    moreover have "sint (op_offset op) mod 2 ^ unat (od_width d) < 2 ^ 31"
      by (rule order_less_le_trans[OF pos_mod_bound], simp, rule power_increasing) (use assms(2) in auto)
    ultimately show ?thesis unfolding width_mask_eq by (simp add: sint_eq_uint_small)
  qed
  ultimately show ?thesis
    using get_put_field_masked[OF assms(1,3)] by (simp add: encode_int_cases[OF assms(2)])
qed

theorem encode_int_negative_witness:
  "\<exists>q. encode_int int_field (int_operand (- 3)) 0x20 = Good q \<and> sint (get_field int_field q) = 13"
  using encode_int_negative[of int_field "0x20" "int_operand (- 3)"] by (simp add: field_eval)

section \<open>Registers\<close>

definition digit :: "nat \<Rightarrow> char" where
  "digit n = ''0123456789'' ! n"

lemma digit_value_digit:
  assumes "n < 10"
  shows "digit_value (of_char (digit n)) = of_nat n"
proof -
  have "\<forall>n\<in>set [0..<10]. digit_value (of_char (digit n)) = of_nat n"
    by (simp add: upt_rec digit_def digit_value_def c_char_def)
  with assms show ?thesis by simp
qed

lemma half_numbers:
  "half_number (of_char CHR ''l'') r = Some (2 * r)" "half_number (of_char CHR ''h'') r = Some (2 * r + 1)"
  by (simp_all add: half_number_def push_bit_eq_mult mult.commute)

lemmas name_eval = reg_operand_def strncmp_eq_def c_index_def half_numbers [simplified] Let_def

lemma encode_names:
  assumes "n < 10"
  shows "encode_acc d (reg_operand (''acc'' @ [digit n])) p = Good (put_field d (of_nat n) p)"
    and "encode_acc_half d (reg_operand (''acc'' @ [digit n, CHR ''l''])) p = Good (put_field d (2 * of_nat n) p)"
    and "encode_acc_half d (reg_operand (''acc'' @ [digit n, CHR ''h''])) p = Good (put_field d (2 * of_nat n + 1) p)"
    and "encode_ptr d (reg_operand (''ptr'' @ digit n # s)) p = Good (put_field d (of_nat n) p)"
    and "encode_pred d (reg_operand (''pred'' @ digit n # s)) p = Good (put_field d (of_nat n) p)"
    and "encode_reg d (reg_operand (''ptr'' @ digit n # s)) p = Good (put_field d (of_nat n) p)"
  using assms by (simp_all add: encode_defs name_eval digit_value_digit)

lemmas encode_names_eval = encode_names [simplified]

text \<open>A register operand puts the number of the register into its field: \<open>acc\<close>\<open>n\<close>,
  \<open>ptr\<close>\<open>n\<close> and \<open>pred\<close>\<open>n\<close> the number \<open>n\<close>, the halves \<open>acc\<close>\<open>n\<close>\<open>l\<close> and \<open>acc\<close>\<open>n\<close>\<open>h\<close> the numbers
  \<open>2n\<close> and \<open>2n + 1\<close>, whenever the number fits.\<close>

theorem register_fields:
  assumes "wf_field d" "p AND field_mask d = 0" "n < 10"
  shows "(n < 2 ^ unat (od_width d) \<longrightarrow>
       (\<forall>(enc, nm) \<in> set [(encode_acc, ''acc''), (encode_ptr, ''ptr''), (encode_pred, ''pred'')].
          \<exists>q. enc d (reg_operand (nm @ [digit n])) p = Good q \<and> get_field d q = of_nat n)) \<and>
    (2 * n + 1 < 2 ^ unat (od_width d) \<longrightarrow>
       (\<forall>(h, c) \<in> set [(0, CHR ''l''), (1, CHR ''h'')].
          \<exists>q. encode_acc_half d (reg_operand (''acc'' @ [digit n, c])) p = Good q \<and>
              get_field d q = of_nat (2 * n + h)))"
proof -
  have w: "unat (od_width d) \<le> 32" using assms(1) by (simp add: wf_field_def)
  have get: "get_field d (put_field d (of_nat m) p) = of_nat m" if "m < 2 ^ unat (od_width d)" for m
    by (rule get_put_field[OF assms(1,2) fits_width_nat[OF that w]])
  show ?thesis
    using get[of n] get[of "2 * n"] get[of "2 * n + 1"]
    by (auto simp: encode_names_eval[OF assms(3)] add.commute)
qed

definition half_field :: operand_def where
  "half_field = \<lparr>od_type = REG, od_offset = 13, od_width = 4, od_encode = Some Enc_acc_half\<rparr>"

theorem register_fields_witness:
  "\<exists>q. encode_acc_half half_field (reg_operand ''acc5h'') 0x20 = Good q \<and> get_field half_field q = 11"
  using register_fields[of half_field "0x20" 5]
  by (simp add: half_field_def field_eval digit_def)

lemma acc_flag_put:
  assumes "wf_field d" "od_width d = 5"
  shows "put_field d v p OR push_bit (unat (od_width d - 1 + od_offset d)) 1 = put_field d (v OR 16) p"
proof -
  have o: "unat (od_offset d) \<le> 27" using assms by (simp add: wf_field_def)
  then have "unat (4 + od_offset d) = unat (od_offset d) + 4"
    by (simp add: unat_word_ariths(1))
  then have "push_bit (unat (od_width d - 1 + od_offset d)) (1 :: u32) = push_bit (unat (od_offset d)) 16"
    using assms(2) by (simp add: push_bit_eq_mult power_add)
  moreover have "(v OR 16) AND 31 = (v AND 31) OR 16"
    by (simp add: bit.conj_disj_distrib2)
  ultimately show ?thesis
    using assms(2) by (simp add: put_field_def width_mask_def push_bit_or or.assoc)
qed

text \<open>The five-bit register operand of \<open>mv\<close>, \<open>push\<close> and \<open>pop\<close> keeps pointers and accumulator
  halves apart: \<open>ptr\<close>\<open>n\<close> is the number \<open>n\<close>, \<open>acc\<close>\<open>n\<close>\<open>l\<close> is \<open>16 + 2n\<close> and \<open>acc\<close>\<open>n\<close>\<open>h\<close>
  is \<open>17 + 2n\<close>.\<close>

theorem core_register_fields:
  assumes "wf_field d" "od_width d = 5" "p AND field_mask d = 0" "n < 8"
  shows "\<forall>(nm, v) \<in> set [(''ptr'' @ [digit n], n), (''acc'' @ [digit n, CHR ''l''], 16 + 2 * n),
      (''acc'' @ [digit n, CHR ''h''], 17 + 2 * n)].
    \<exists>q. encode_reg d (reg_operand nm) p = Good q \<and> get_field d q = of_nat v"
proof -
  have get: "get_field d (put_field d (of_nat m) p) = of_nat m" if "m < 32" for m
    using assms(2) that by (intro get_put_field[OF assms(1,3)] fits_width_nat) auto
  have h: "encode_reg d (reg_operand (''acc'' @ [digit n, c])) p = Good (put_field d (v OR 16) p)"
    if "half_number (of_char c) (of_nat n) = Some v" for c v
    using assms(4) that acc_flag_put[OF assms(1,2), of v p]
    by (simp add: encode_reg_def name_eval digit_value_digit)
  have "n \<in> set [0..<8]" using assms(4) by simp
  then have o: "(2 * of_nat n :: u32) OR 16 = of_nat (16 + 2 * n)" "(2 * of_nat n + 1 :: u32) OR 16 = of_nat (17 + 2 * n)"
    by (auto simp: upt_rec)
  show ?thesis
    using get[of n] get[of "16 + 2 * n"] get[of "17 + 2 * n"] assms(4)
      h[OF half_numbers(1)] h[OF half_numbers(2)]
    by (simp add: o encode_names_eval(6)[of n d "[]" p])
qed

theorem core_register_fields_witness:
  "\<exists>q. encode_reg \<lparr>od_type = REG, od_offset = 8, od_width = 5, od_encode = Some Enc_reg\<rparr>
      (reg_operand ''acc2h'') 0x40 = Good q \<and>
    get_field \<lparr>od_type = REG, od_offset = 8, od_width = 5, od_encode = Some Enc_reg\<rparr> q = 21"
  using core_register_fields[of "\<lparr>od_type = REG, od_offset = 8, od_width = 5, od_encode = Some Enc_reg\<rparr>" "0x40" 2]
  by (simp add: wf_field_def field_mask_def width_mask_def digit_def)

lemma find_special_cases:
  "find_special regs nm r0 = (case map_of regs nm of Some r \<Rightarrow> r | None \<Rightarrow> r0)"
  by (induction regs nm r0 rule: find_special.induct) auto

lemma special_numbers: "map_of SpecialRegs nm = Some r \<Longrightarrow> \<not> 64 < r"
proof -
  have "\<forall>(n, r) \<in> set SpecialRegs. \<not> 64 < r" by (simp add: SpecialRegs_def)
  then show "map_of SpecialRegs nm = Some r \<Longrightarrow> \<not> 64 < r" by (auto dest: map_of_SomeD)
qed

text \<open>A special-register operand is accepted exactly when its name is in the table, and then the
  field gets its number; no two special registers share a name or a number.\<close>

theorem encode_spec_exact:
  "encode_spec d (reg_operand nm) p =
     (case map_of SpecialRegs nm of Some r \<Rightarrow> Good (put_field d r p) | None \<Rightarrow> Fail ()) \<and>
   distinct (map fst SpecialRegs) \<and> distinct (map snd SpecialRegs)"
proof -
  have "distinct (map fst SpecialRegs)" "distinct (map snd SpecialRegs)"
    by (simp_all add: SpecialRegs_def)
  then show ?thesis
    using special_numbers by (auto simp: encode_spec_def reg_operand_def find_special_cases Let_def
        split: option.splits simp del: linorder_not_less not_less)
qed

text \<open>The encoders of pointers, predicates and accumulator halves look at a fixed number of
  characters only: whatever follows in the name is ignored, so \<open>$ptr10\<close> is \<open>$ptr1\<close>.\<close>

theorem register_names_cut:
  "encode_ptr d (reg_operand (''ptr'' @ c # s)) p = encode_ptr d (reg_operand (''ptr'' @ [c])) p \<and>
    encode_pred d (reg_operand (''pred'' @ c # s)) p = encode_pred d (reg_operand (''pred'' @ [c])) p \<and>
    encode_acc_half d (reg_operand (''acc'' @ c # h # s)) p = encode_acc_half d (reg_operand (''acc'' @ [c, h])) p"
  by (simp add: encode_defs name_eval)

text \<open>A symbol operand is left out in pass 0; in pass 1 it is accepted exactly when the symbol is
  defined, and then the field holds the symbol's address modulo the size of the field.\<close>

theorem encode_symref_exact:
  assumes "wf_field d" "p AND field_mask d = 0" "op_name op = Some nm"
  shows "encode_symref True tab d op p = Good p \<and>
    (case symtab_lookup nm tab of
       None \<Rightarrow> encode_symref False tab d op p = Fail ()
     | Some a \<Rightarrow> \<exists>q. encode_symref False tab d op p = Good q \<and> get_field d q = a AND width_mask d)"
  using get_put_field_masked[OF assms(1,2)] assms(3)
  by (auto simp: encode_symref_def split: option.splits)

theorem encode_symref_exact_witness:
  "\<exists>q. encode_symref False [\<lparr>se_name = ''x'', se_address = 0x1F3\<rparr>] int_field
       \<lparr>op_type = SYMBOL_REF, op_name = Some ''x'', op_offset = 0\<rparr> 0x20 = Good q \<and> get_field int_field q = 3"
  using encode_symref_exact[of int_field "0x20" "\<lparr>op_type = SYMBOL_REF, op_name = Some ''x'', op_offset = 0\<rparr>" "''x''"
      "[\<lparr>se_name = ''x'', se_address = 0x1F3\<rparr>]"]
  by (simp add: field_eval)

end
