(* ===== verification/InsnTable.thy ===== *)
theory InsnTable
  imports Encode
begin

text \<open>
  The instruction table \<open>ajardsp_insns\<close> of \<open>sw/tools/asm/ajardsp-insns.c\<close>, entry by entry and in the
  order of the source, with the \<open>#define\<close>d opcode fields it is built from.  The entries inside
  \<open>#if 0\<close> are not part of the program, and the sentinel with a NULL mnemonic is the end of the
  list.  The second half states what makes the table a usable instruction set and checks it.
\<close>

section \<open>Opcode fields\<close>

definition FU_PCU :: u32 where "FU_PCU = push_bit 2 0"
definition FU_LSU :: u32 where "FU_LSU = push_bit 2 1"
definition FU_CU :: u32 where "FU_CU = push_bit 2 2"
definition FU_BMU :: u32 where "FU_BMU = push_bit 2 3"
definition PCU_ITYPE_BKREP :: u32 where "PCU_ITYPE_BKREP = push_bit 4 0x1"
definition PCU_ITYPE_CALL_ABS :: u32 where "PCU_ITYPE_CALL_ABS = push_bit 4 0x2"
definition PCU_ITYPE_RETS :: u32 where "PCU_ITYPE_RETS = push_bit 4 0x3"
definition PCU_ITYPE_JUMP_ABS :: u32 where "PCU_ITYPE_JUMP_ABS = push_bit 4 0x4"
definition PCU_ITYPE_HALT :: u32 where "PCU_ITYPE_HALT = push_bit 4 0xf"
definition PCU_ITYPE_RETI :: u32 where "PCU_ITYPE_RETI = push_bit 4 0x5"
definition PCU_ITYPE_EINT :: u32 where "PCU_ITYPE_EINT = push_bit 4 0x6"
definition PCU_ITYPE_DINT :: u32 where "PCU_ITYPE_DINT = push_bit 4 0x7"
definition BMU_OP_SIZE_16 :: u32 where "BMU_OP_SIZE_16 = push_bit 21 1"
definition BMU_SHIFT_LEFT :: u32 where "BMU_SHIFT_LEFT = push_bit 23 1"
definition BMU_ITYPE_AND_16_32 :: u32 where "BMU_ITYPE_AND_16_32 = push_bit 4 0x01"
definition BMU_ITYPE_NOT_16_32 :: u32 where "BMU_ITYPE_NOT_16_32 = push_bit 4 0x02"
definition BMU_ITYPE_OR_16_32 :: u32 where "BMU_ITYPE_OR_16_32 = push_bit 4 0x03"
definition BMU_ITYPE_XOR_16_32 :: u32 where "BMU_ITYPE_XOR_16_32 = push_bit 4 0x04"
definition BMU_ITYPE_SHIFTA_16_32 :: u32 where "BMU_ITYPE_SHIFTA_16_32 = push_bit 4 0x05"
definition BMU_ITYPE_SHIFTL_16_32 :: u32 where "BMU_ITYPE_SHIFTL_16_32 = push_bit 4 0x06"
definition CU_ITYPE_ADD_16 :: u32 where "CU_ITYPE_ADD_16 = push_bit 4 1"
definition CU_ITYPE_SUB_16 :: u32 where "CU_ITYPE_SUB_16 = push_bit 4 2"
definition CU_ITYPE_ADD_32 :: u32 where "CU_ITYPE_ADD_32 = push_bit 4 3"
definition CU_ITYPE_SUB_32 :: u32 where "CU_ITYPE_SUB_32 = push_bit 4 4"
definition CU_ITYPE_MPY_16 :: u32 where "CU_ITYPE_MPY_16 = push_bit 4 5"
definition CU_ITYPE_MAC_16 :: u32 where "CU_ITYPE_MAC_16 = push_bit 4 6"
definition CU_ITYPE_CMP_16 :: u32 where "CU_ITYPE_CMP_16 = push_bit 4 0x1"
definition CU_ITYPE_CMP_32 :: u32 where "CU_ITYPE_CMP_32 = push_bit 4 0x2"
definition CMP_EQ :: u32 where "CMP_EQ = push_bit 26 0x0"
definition CMP_NE :: u32 where "CMP_NE = push_bit 26 0x1"
definition CMP_LT :: u32 where "CMP_LT = push_bit 26 0x2"
definition CMP_LE :: u32 where "CMP_LE = push_bit 26 0x3"
definition CMP_GT :: u32 where "CMP_GT = push_bit 26 0x4"
definition CMP_GE :: u32 where "CMP_GE = push_bit 26 0x5"
definition LSU_ITYPE_LD_16 :: u32 where "LSU_ITYPE_LD_16 = push_bit 4 0x1"
definition LSU_ITYPE_LD_INC_16 :: u32 where "LSU_ITYPE_LD_INC_16 = push_bit 4 0x2"
definition LSU_ITYPE_ST_16 :: u32 where "LSU_ITYPE_ST_16 = push_bit 4 0x3"
definition LSU_ITYPE_ST_INC_16 :: u32 where "LSU_ITYPE_ST_INC_16 = push_bit 4 0x4"
definition LSU_ITYPE_LD_32 :: u32 where "LSU_ITYPE_LD_32 = push_bit 4 0x5"
definition LSU_ITYPE_LD_INC_32 :: u32 where "LSU_ITYPE_LD_INC_32 = push_bit 4 0x6"
definition LSU_ITYPE_ST_32 :: u32 where "LSU_ITYPE_ST_32 = push_bit 4 0x7"
definition LSU_ITYPE_ST_INC_32 :: u32 where "LSU_ITYPE_ST_INC_32 = push_bit 4 0x8"
definition LSU_ITYPE_PUSH_POP_16_32 :: u32 where "LSU_ITYPE_PUSH_POP_16_32 = push_bit 4 0x9"
definition LSU_ITYPE_MV_ACC_PTR_16 :: u32 where "LSU_ITYPE_MV_ACC_PTR_16 = push_bit 4 0xa"
definition LSU_ITYPE_MV_ACC_ACC_16 :: u32 where "LSU_ITYPE_MV_ACC_ACC_16 = push_bit 4 0xb"
definition LSU_ITYPE_MV_PTR_PTR_16 :: u32 where "LSU_ITYPE_MV_PTR_PTR_16 = push_bit 4 0xc"
definition LSU_ITYPE_MVTS_16 :: u32 where "LSU_ITYPE_MVTS_16 = push_bit 4 0x1"
definition LSU_ITYPE_MVFS_16 :: u32 where "LSU_ITYPE_MVFS_16 = push_bit 4 0x2"
definition LSU_ITYPE_LD_OFF_16 :: u32 where "LSU_ITYPE_LD_OFF_16 = push_bit 4 0x4"
definition LSU_ITYPE_LD_OFF_32 :: u32 where "LSU_ITYPE_LD_OFF_32 = push_bit 4 0x5"
definition LSU_ITYPE_ST_OFF_16 :: u32 where "LSU_ITYPE_ST_OFF_16 = push_bit 4 0x6"
definition LSU_ITYPE_ST_OFF_32 :: u32 where "LSU_ITYPE_ST_OFF_32 = push_bit 4 0x7"
definition LSU_ITYPE_ADDPTR_16 :: u32 where "LSU_ITYPE_ADDPTR_16 = push_bit 4 0x8"
definition LSU_ITYPE_LD_IMM_PTR_16 :: u32 where "LSU_ITYPE_LD_IMM_PTR_16 = push_bit 4 0x9"
definition LSU_ITYPE_LD_IMM_ACC_16 :: u32 where "LSU_ITYPE_LD_IMM_ACC_16 = push_bit 4 0xa"
definition LSU_ITYPE_LD_EXT_32 :: u32 where "LSU_ITYPE_LD_EXT_32 = push_bit 4 0xb"
definition LSU_ITYPE_ST_EXT_32 :: u32 where "LSU_ITYPE_ST_EXT_32 = push_bit 4 0xc"
definition LSU_ITYPE_EXT_BURST :: u32 where "LSU_ITYPE_EXT_BURST = push_bit 4 0xd"
definition INSN_ENC_32 :: u32 where "INSN_ENC_32 = push_bit 29 1"

lemmas opcode_defs =
   FU_PCU_def FU_LSU_def FU_CU_def FU_BMU_def PCU_ITYPE_BKREP_def PCU_ITYPE_CALL_ABS_def
   PCU_ITYPE_RETS_def PCU_ITYPE_JUMP_ABS_def PCU_ITYPE_HALT_def PCU_ITYPE_RETI_def
   PCU_ITYPE_EINT_def PCU_ITYPE_DINT_def BMU_OP_SIZE_16_def BMU_SHIFT_LEFT_def
   BMU_ITYPE_AND_16_32_def BMU_ITYPE_NOT_16_32_def BMU_ITYPE_OR_16_32_def BMU_ITYPE_XOR_16_32_def
   BMU_ITYPE_SHIFTA_16_32_def BMU_ITYPE_SHIFTL_16_32_def CU_ITYPE_ADD_16_def CU_ITYPE_SUB_16_def
   CU_ITYPE_ADD_32_def CU_ITYPE_SUB_32_def CU_ITYPE_MPY_16_def CU_ITYPE_MAC_16_def
   CU_ITYPE_CMP_16_def CU_ITYPE_CMP_32_def CMP_EQ_def CMP_NE_def CMP_LT_def CMP_LE_def CMP_GT_def
   CMP_GE_def LSU_ITYPE_LD_16_def LSU_ITYPE_LD_INC_16_def LSU_ITYPE_ST_16_def
   LSU_ITYPE_ST_INC_16_def LSU_ITYPE_LD_32_def LSU_ITYPE_LD_INC_32_def LSU_ITYPE_ST_32_def
   LSU_ITYPE_ST_INC_32_def LSU_ITYPE_PUSH_POP_16_32_def LSU_ITYPE_MV_ACC_PTR_16_def
   LSU_ITYPE_MV_ACC_ACC_16_def LSU_ITYPE_MV_PTR_PTR_16_def LSU_ITYPE_MVTS_16_def
   LSU_ITYPE_MVFS_16_def LSU_ITYPE_LD_OFF_16_def LSU_ITYPE_LD_OFF_32_def LSU_ITYPE_ST_OFF_16_def
   LSU_ITYPE_ST_OFF_32_def LSU_ITYPE_ADDPTR_16_def LSU_ITYPE_LD_IMM_PTR_16_def
   LSU_ITYPE_LD_IMM_ACC_16_def LSU_ITYPE_LD_EXT_32_def LSU_ITYPE_ST_EXT_32_def
   LSU_ITYPE_EXT_BURST_def INSN_ENC_32_def

section \<open>The table\<close>

definition opnd :: "operand_type \<Rightarrow> u32 \<Rightarrow> u32 \<Rightarrow> encoder \<Rightarrow> operand_def" where
  "opnd ty off width enc =
     \<lparr>od_type = ty, od_offset = off, od_width = width, od_encode = Some enc\<rparr>"

definition insn :: "string \<Rightarrow> insn_size \<Rightarrow> u32 \<Rightarrow> nat \<Rightarrow> operand_def list \<Rightarrow> inst_def" where
  "insn mn sz pat nr ops =
     \<lparr>id_mnemonic = mn, id_nr_operands = nr, id_pattern = pat, id_size = sz,
      id_operands = ops\<rparr>"

definition nop_insns :: "inst_def list" where
  "nop_insns =
    [insn ''nop'' INST_16 0 0
       []]"

definition bmu_logic32_insns :: "inst_def list" where
  "bmu_logic32_insns =
    [insn ''and32'' INST_32 (INSN_ENC_32 OR BMU_ITYPE_AND_16_32 OR FU_BMU) 3
       [opnd REG 10 3 Enc_acc,
        opnd REG 14 3 Enc_acc,
        opnd REG 18 3 Enc_acc],
     insn ''or32'' INST_32 (INSN_ENC_32 OR BMU_ITYPE_OR_16_32 OR FU_BMU) 3
       [opnd REG 10 3 Enc_acc,
        opnd REG 14 3 Enc_acc,
        opnd REG 18 3 Enc_acc],
     insn ''xor32'' INST_32 (INSN_ENC_32 OR BMU_ITYPE_XOR_16_32 OR FU_BMU) 3
       [opnd REG 10 3 Enc_acc,
        opnd REG 14 3 Enc_acc,
        opnd REG 18 3 Enc_acc],
     insn ''not32'' INST_32 (INSN_ENC_32 OR BMU_ITYPE_NOT_16_32 OR FU_BMU) 2
       [opnd REG 10 3 Enc_acc,
        opnd REG 18 3 Enc_acc]]"

definition bmu_shift32_insns :: "inst_def list" where
  "bmu_shift32_insns =
    [insn ''shiftra32'' INST_32 (INSN_ENC_32 OR BMU_ITYPE_SHIFTA_16_32 OR FU_BMU) 3
       [opnd REG 10 3 Enc_acc,
        opnd REG 13 4 Enc_acc_half,
        opnd REG 18 3 Enc_acc],
     insn ''shiftrl32'' INST_32 (INSN_ENC_32 OR BMU_ITYPE_SHIFTL_16_32 OR FU_BMU) 3
       [opnd REG 10 3 Enc_acc,
        opnd REG 13 4 Enc_acc_half,
        opnd REG 18 3 Enc_acc],
     insn ''shiftll32'' INST_32 (INSN_ENC_32 OR BMU_SHIFT_LEFT OR BMU_ITYPE_SHIFTL_16_32 OR FU_BMU) 3
       [opnd REG 10 3 Enc_acc,
        opnd REG 13 4 Enc_acc_half,
        opnd REG 18 3 Enc_acc]]"

definition bmu_logic16_insns :: "inst_def list" where
  "bmu_logic16_insns =
    [insn ''and16'' INST_32 (INSN_ENC_32 OR BMU_OP_SIZE_16 OR BMU_ITYPE_AND_16_32 OR FU_BMU) 3
       [opnd REG 9 4 Enc_acc_half,
        opnd REG 13 4 Enc_acc_half,
        opnd REG 17 4 Enc_acc_half],
     insn ''or16'' INST_32 (INSN_ENC_32 OR BMU_OP_SIZE_16 OR BMU_ITYPE_OR_16_32 OR FU_BMU) 3
       [opnd REG 9 4 Enc_acc_half,
        opnd REG 13 4 Enc_acc_half,
        opnd REG 17 4 Enc_acc_half],
     insn ''xor16'' INST_32 (INSN_ENC_32 OR BMU_OP_SIZE_16 OR BMU_ITYPE_XOR_16_32 OR FU_BMU) 3
       [opnd REG 9 4 Enc_acc_half,
        opnd REG 13 4 Enc_acc_half,
        opnd REG 17 4 Enc_acc_half],
     insn ''not16'' INST_32 (INSN_ENC_32 OR BMU_OP_SIZE_16 OR BMU_ITYPE_NOT_16_32 OR FU_BMU) 2
       [opnd REG 9 4 Enc_acc_half,
        opnd REG 17 4 Enc_acc_half]]"

definition bmu_shift16_insns :: "inst_def list" where
  "bmu_shift16_insns =
    [insn ''shiftra16'' INST_32 (INSN_ENC_32 OR BMU_OP_SIZE_16 OR BMU_ITYPE_SHIFTA_16_32 OR FU_BMU) 3
       [opnd REG 9 4 Enc_acc_half,
        opnd REG 13 4 Enc_acc_half,
        opnd REG 17 4 Enc_acc_half],
     insn ''shiftrl16'' INST_32 (INSN_ENC_32 OR BMU_OP_SIZE_16 OR BMU_ITYPE_SHIFTL_16_32 OR FU_BMU) 3
       [opnd REG 9 4 Enc_acc_half,
        opnd REG 13 4 Enc_acc_half,
        opnd REG 17 4 Enc_acc_half],
     insn ''shiftll16'' INST_32 (INSN_ENC_32 OR BMU_OP_SIZE_16 OR BMU_SHIFT_LEFT OR BMU_ITYPE_SHIFTL_16_32 OR FU_BMU) 3
       [opnd REG 9 4 Enc_acc_half,
        opnd REG 13 4 Enc_acc_half,
        opnd REG 17 4 Enc_acc_half]]"

definition cu_addsub_insns :: "inst_def list" where
  "cu_addsub_insns =
    [insn ''add32'' INST_16 (CU_ITYPE_ADD_32 OR FU_CU) 3
       [opnd REG 7 3 Enc_acc,
        opnd REG 10 3 Enc_acc,
        opnd REG 13 3 Enc_acc],
     insn ''sub32'' INST_16 (CU_ITYPE_SUB_32 OR FU_CU) 3
       [opnd REG 7 3 Enc_acc,
        opnd REG 10 3 Enc_acc,
        opnd REG 13 3 Enc_acc],
     insn ''add16'' INST_16 (CU_ITYPE_ADD_16 OR FU_CU) 2
       [opnd REG 11 4 Enc_acc_half,
        opnd REG 7 4 Enc_acc_half],
     insn ''sub16'' INST_16 (CU_ITYPE_SUB_16 OR FU_CU) 2
       [opnd REG 11 4 Enc_acc_half,
        opnd REG 7 4 Enc_acc_half]]"

definition cu_mul_insns :: "inst_def list" where
  "cu_mul_insns =
    [insn ''mpy16'' INST_16 (CU_ITYPE_MPY_16 OR FU_CU) 3
       [opnd REG 7 3 Enc_acc_half,
        opnd REG 10 3 Enc_acc_half,
        opnd REG 13 3 Enc_acc],
     insn ''mac16'' INST_16 (CU_ITYPE_MAC_16 OR FU_CU) 3
       [opnd REG 7 3 Enc_acc_half,
        opnd REG 10 3 Enc_acc_half,
        opnd REG 13 3 Enc_acc]]"

definition cu_cmp_eq_lt_insns :: "inst_def list" where
  "cu_cmp_eq_lt_insns =
    [insn ''cmp16eq'' INST_32 (INSN_ENC_32 OR CMP_EQ OR CU_ITYPE_CMP_16 OR FU_CU) 3
       [opnd REG 9 4 Enc_acc_half,
        opnd REG 13 4 Enc_acc_half,
        opnd REG 24 2 Enc_pred],
     insn ''cmp16ne'' INST_32 (INSN_ENC_32 OR CMP_NE OR CU_ITYPE_CMP_16 OR FU_CU) 3
       [opnd REG 9 4 Enc_acc_half,
        opnd REG 13 4 Enc_acc_half,
        opnd REG 24 2 Enc_pred],
     insn ''cmp16lt'' INST_32 (INSN_ENC_32 OR CMP_LT OR CU_ITYPE_CMP_16 OR FU_CU) 3
       [opnd REG 9 4 Enc_acc_half,
        opnd REG 13 4 Enc_acc_half,
        opnd REG 24 2 Enc_pred],
     insn ''cmp16ltu'' INST_32 (INSN_ENC_32 OR CMP_LT OR CU_ITYPE_CMP_16 OR FU_CU) 3
       [opnd REG 9 4 Enc_acc_half,
        opnd REG 13 4 Enc_acc_half,
        opnd REG 24 2 Enc_pred]]"

definition cu_cmp_le_gt_insns :: "inst_def list" where
  "cu_cmp_le_gt_insns =
    [insn ''cmp16le'' INST_32 (INSN_ENC_32 OR CMP_LE OR CU_ITYPE_CMP_16 OR FU_CU) 3
       [opnd REG 9 4 Enc_acc_half,
        opnd REG 13 4 Enc_acc_half,
        opnd REG 24 2 Enc_pred],
     insn ''cmp16leu'' INST_32 (INSN_ENC_32 OR CMP_LE OR CU_ITYPE_CMP_16 OR FU_CU) 3
       [opnd REG 9 4 Enc_acc_half,
        opnd REG 13 4 Enc_acc_half,
        opnd REG 24 2 Enc_pred],
     insn ''cmp16gt'' INST_32 (INSN_ENC_32 OR CMP_GT OR CU_ITYPE_CMP_16 OR FU_CU) 3
       [opnd REG 9 4 Enc_acc_half,
        opnd REG 13 4 Enc_acc_half,
        opnd REG 24 2 Enc_pred],
     insn ''cmp16gtu'' INST_32 (INSN_ENC_32 OR CMP_GT OR CU_ITYPE_CMP_16 OR FU_CU) 3
       [opnd REG 9 4 Enc_acc_half,
        opnd REG 13 4 Enc_acc_half,
        opnd REG 24 2 Enc_pred]]"

definition cu_cmp_ge_insns :: "inst_def list" where
  "cu_cmp_ge_insns =
    [insn ''cmp16ge'' INST_32 (INSN_ENC_32 OR CMP_GE OR CU_ITYPE_CMP_16 OR FU_CU) 3
       [opnd REG 9 4 Enc_acc_half,
        opnd REG 13 4 Enc_acc_half,
        opnd REG 24 2 Enc_pred],
     insn ''cmp16geu'' INST_32 (INSN_ENC_32 OR CMP_GE OR CU_ITYPE_CMP_16 OR FU_CU) 3
       [opnd REG 9 4 Enc_acc_half,
        opnd REG 13 4 Enc_acc_half,
        opnd REG 24 2 Enc_pred]]"

definition lsu_ldst16_insns :: "inst_def list" where
  "lsu_ldst16_insns =
    [insn ''ld16'' INST_16 (LSU_ITYPE_LD_16 OR FU_LSU) 2
       [opnd REG 8 3 Enc_ptr,
        opnd REG 11 5 Enc_reg],
     insn ''ldinc16'' INST_16 (LSU_ITYPE_LD_INC_16 OR FU_LSU) 2
       [opnd REG 8 3 Enc_ptr,
        opnd REG 11 5 Enc_reg],
     insn ''st16'' INST_16 (LSU_ITYPE_ST_16 OR FU_LSU) 2
       [opnd REG 11 5 Enc_reg,
        opnd REG 8 3 Enc_ptr],
     insn ''stinc16'' INST_16 (LSU_ITYPE_ST_INC_16 OR FU_LSU) 2
       [opnd REG 11 5 Enc_reg,
        opnd REG 8 3 Enc_ptr]]"

definition lsu_ldst32_insns :: "inst_def list" where
  "lsu_ldst32_insns =
    [insn ''ld32'' INST_16 (LSU_ITYPE_LD_32 OR FU_LSU) 2
       [opnd REG 8 3 Enc_ptr,
        opnd REG 11 3 Enc_acc],
     insn ''ldinc32'' INST_16 (LSU_ITYPE_LD_INC_32 OR FU_LSU) 2
       [opnd REG 8 3 Enc_ptr,
        opnd REG 11 3 Enc_acc],
     insn ''st32'' INST_16 (LSU_ITYPE_ST_32 OR FU_LSU) 2
       [opnd REG 11 3 Enc_acc,
        opnd REG 8 3 Enc_ptr],
     insn ''stinc32'' INST_16 (LSU_ITYPE_ST_INC_32 OR FU_LSU) 2
       [opnd REG 11 3 Enc_acc,
        opnd REG 8 3 Enc_ptr]]"

definition lsu_ldimm_insns :: "inst_def list" where
  "lsu_ldimm_insns =
    [insn ''ldimm16'' INST_32 (INSN_ENC_32 OR LSU_ITYPE_LD_IMM_ACC_16 OR FU_LSU) 2
       [opnd INTEGER 12 16 Enc_int,
        opnd REG 8 4 Enc_acc_half],
     insn ''ldimm16'' INST_32 (INSN_ENC_32 OR LSU_ITYPE_LD_IMM_PTR_16 OR FU_LSU) 2
       [opnd INTEGER 12 16 Enc_int,
        opnd REG 8 4 Enc_ptr],
     insn ''ldimm16'' INST_32 (INSN_ENC_32 OR LSU_ITYPE_LD_IMM_PTR_16 OR FU_LSU) 2
       [opnd SYMBOL_REF 12 16 Enc_symref,
        opnd REG 8 4 Enc_ptr],
     insn ''ldimm16'' INST_32 (INSN_ENC_32 OR LSU_ITYPE_LD_IMM_PTR_16 OR FU_LSU) 2
       [opnd SYMBOL_REF 12 16 Enc_symref,
        opnd REG 8 4 Enc_acc_half]]"

definition lsu_ldoff_insns :: "inst_def list" where
  "lsu_ldoff_insns =
    [insn ''ldoff16'' INST_32 (INSN_ENC_32 OR LSU_ITYPE_LD_OFF_16 OR FU_LSU) 3
       [opnd REG 25 3 Enc_ptr,
        opnd INTEGER 13 12 Enc_int,
        opnd REG 8 5 Enc_reg],
     insn ''ldoff16'' INST_32 (INSN_ENC_32 OR LSU_ITYPE_LD_OFF_16 OR FU_LSU) 3
       [opnd REG 25 3 Enc_ptr,
        opnd SYMBOL_REF 13 12 Enc_symref,
        opnd REG 8 5 Enc_reg],
     insn ''ldoff32'' INST_32 (INSN_ENC_32 OR LSU_ITYPE_LD_OFF_32 OR FU_LSU) 3
       [opnd REG 25 3 Enc_ptr,
        opnd INTEGER 13 12 Enc_int,
        opnd REG 9 3 Enc_acc],
     insn ''ldoff32'' INST_32 (INSN_ENC_32 OR LSU_ITYPE_LD_OFF_32 OR FU_LSU) 3
       [opnd REG 25 3 Enc_ptr,
        opnd SYMBOL_REF 13 12 Enc_symref,
        opnd REG 9 3 Enc_acc]]"

definition lsu_stoff_insns :: "inst_def list" where
  "lsu_stoff_insns =
    [insn ''stoff16'' INST_32 (INSN_ENC_32 OR LSU_ITYPE_ST_OFF_16 OR FU_LSU) 3
       [opnd REG 8 5 Enc_reg,
        opnd REG 25 3 Enc_ptr,
        opnd INTEGER 13 12 Enc_int],
     insn ''stoff16'' INST_32 (INSN_ENC_32 OR LSU_ITYPE_ST_OFF_16 OR FU_LSU) 3
       [opnd REG 8 5 Enc_reg,
        opnd REG 25 3 Enc_ptr,
        opnd SYMBOL_REF 13 12 Enc_symref],
     insn ''stoff32'' INST_32 (INSN_ENC_32 OR LSU_ITYPE_ST_OFF_32 OR FU_LSU) 3
       [opnd REG 9 3 Enc_acc,
        opnd REG 25 3 Enc_ptr,
        opnd INTEGER 13 12 Enc_int],
     insn ''stoff32'' INST_32 (INSN_ENC_32 OR LSU_ITYPE_ST_OFF_32 OR FU_LSU) 3
       [opnd REG 9 3 Enc_acc,
        opnd REG 25 3 Enc_ptr,
        opnd SYMBOL_REF 13 12 Enc_symref]]"

definition lsu_addptr_spec_insns :: "inst_def list" where
  "lsu_addptr_spec_insns =
    [insn ''addptr16'' INST_32 (INSN_ENC_32 OR LSU_ITYPE_ADDPTR_16 OR FU_LSU) 2
       [opnd INTEGER 13 12 Enc_int,
        opnd REG 25 3 Enc_ptr],
     insn ''mvts16'' INST_32 (INSN_ENC_32 OR LSU_ITYPE_MVTS_16 OR FU_LSU) 2
       [opnd REG 8 5 Enc_reg,
        opnd REG 13 6 Enc_spec],
     insn ''mvfs16'' INST_32 (INSN_ENC_32 OR LSU_ITYPE_MVFS_16 OR FU_LSU) 2
       [opnd REG 13 6 Enc_spec,
        opnd REG 8 5 Enc_reg]]"

definition lsu_push_pop_insns :: "inst_def list" where
  "lsu_push_pop_insns =
    [insn ''push16'' INST_16 (push_bit 8 1 OR LSU_ITYPE_PUSH_POP_16_32 OR FU_LSU) 1
       [opnd REG 11 5 Enc_reg],
     insn ''push16'' INST_16 (push_bit 10 1 OR push_bit 8 1 OR LSU_ITYPE_PUSH_POP_16_32 OR FU_LSU) 1
       [opnd REG 11 5 Enc_spec],
     insn ''push32'' INST_16 (push_bit 15 1 OR push_bit 9 1 OR push_bit 8 1 OR LSU_ITYPE_PUSH_POP_16_32 OR FU_LSU) 1
       [opnd REG 12 3 Enc_acc],
     insn ''pop16'' INST_16 (LSU_ITYPE_PUSH_POP_16_32 OR FU_LSU) 1
       [opnd REG 11 5 Enc_reg],
     insn ''pop16'' INST_16 (push_bit 10 1 OR LSU_ITYPE_PUSH_POP_16_32 OR FU_LSU) 1
       [opnd REG 11 5 Enc_spec],
     insn ''pop32'' INST_16 (push_bit 15 1 OR push_bit 9 1 OR LSU_ITYPE_PUSH_POP_16_32 OR FU_LSU) 1
       [opnd REG 12 3 Enc_acc]]"

definition lsu_mv_insns :: "inst_def list" where
  "lsu_mv_insns =
    [insn ''mv16'' INST_16 (push_bit 8 0 OR LSU_ITYPE_MV_ACC_PTR_16 OR FU_LSU) 2
       [opnd REG 9 3 Enc_ptr,
        opnd REG 12 4 Enc_acc_half],
     insn ''mv16'' INST_16 (push_bit 8 1 OR LSU_ITYPE_MV_ACC_PTR_16 OR FU_LSU) 2
       [opnd REG 12 4 Enc_acc_half,
        opnd REG 9 3 Enc_ptr],
     insn ''mv16'' INST_16 (LSU_ITYPE_MV_PTR_PTR_16 OR FU_LSU) 2
       [opnd REG 9 3 Enc_ptr,
        opnd REG 12 3 Enc_ptr],
     insn ''mv16'' INST_16 (LSU_ITYPE_MV_ACC_ACC_16 OR FU_LSU) 2
       [opnd REG 12 4 Enc_acc_half,
        opnd REG 8 4 Enc_acc_half]]"

definition lsu_ext_insns :: "inst_def list" where
  "lsu_ext_insns =
    [insn ''stext32'' INST_32 (INSN_ENC_32 OR LSU_ITYPE_ST_EXT_32 OR FU_LSU) 3
       [opnd REG 14 3 Enc_acc,
        opnd REG 8 3 Enc_ptr,
        opnd REG 11 3 Enc_ptr],
     insn ''ldext32'' INST_32 (INSN_ENC_32 OR LSU_ITYPE_LD_EXT_32 OR FU_LSU) 3
       [opnd REG 8 3 Enc_ptr,
        opnd REG 11 3 Enc_ptr,
        opnd REG 14 3 Enc_acc],
     insn ''extburst'' INST_32 (INSN_ENC_32 OR LSU_ITYPE_EXT_BURST OR FU_LSU) 4
       [opnd INTEGER 17 8 Enc_int,
        opnd REG 8 3 Enc_ptr,
        opnd REG 11 3 Enc_ptr,
        opnd REG 14 3 Enc_acc]]"

definition pcu_bra_insns :: "inst_def list" where
  "pcu_bra_insns =
    [insn ''bra'' INST_32 (INSN_ENC_32 OR PCU_ITYPE_JUMP_ABS OR FU_PCU) 1
       [opnd SYMBOL_REF 8 16 Enc_symref],
     insn ''bra.2ds'' INST_32 (push_bit 24 2 OR INSN_ENC_32 OR PCU_ITYPE_JUMP_ABS OR FU_PCU) 1
       [opnd SYMBOL_REF 8 16 Enc_symref],
     insn ''bra.1ds'' INST_32 (push_bit 24 1 OR INSN_ENC_32 OR PCU_ITYPE_JUMP_ABS OR FU_PCU) 1
       [opnd SYMBOL_REF 8 16 Enc_symref]]"

definition pcu_call_insns :: "inst_def list" where
  "pcu_call_insns =
    [insn ''call'' INST_32 (INSN_ENC_32 OR PCU_ITYPE_CALL_ABS OR FU_PCU) 1
       [opnd SYMBOL_REF 8 16 Enc_symref],
     insn ''call.2ds'' INST_32 (push_bit 24 2 OR INSN_ENC_32 OR PCU_ITYPE_CALL_ABS OR FU_PCU) 1
       [opnd SYMBOL_REF 8 16 Enc_symref],
     insn ''call.1ds'' INST_32 (push_bit 24 1 OR INSN_ENC_32 OR PCU_ITYPE_CALL_ABS OR FU_PCU) 1
       [opnd SYMBOL_REF 8 16 Enc_symref]]"

definition pcu_ret_insns :: "inst_def list" where
  "pcu_ret_insns =
    [insn ''rets'' INST_16 (PCU_ITYPE_RETS OR FU_PCU) 0
       [],
     insn ''rets.2ds'' INST_16 (push_bit 12 2 OR PCU_ITYPE_RETS OR FU_PCU) 0
       [],
     insn ''rets.1ds'' INST_16 (push_bit 12 1 OR PCU_ITYPE_RETS OR FU_PCU) 0
       [],
     insn ''reti'' INST_16 (PCU_ITYPE_RETI OR FU_PCU) 0
       [],
     insn ''reti.2ds'' INST_16 (push_bit 12 2 OR PCU_ITYPE_RETI OR FU_PCU) 0
       [],
     insn ''reti.1ds'' INST_16 (push_bit 12 1 OR PCU_ITYPE_RETI OR FU_PCU) 0
       [],
     insn ''eint'' INST_16 (PCU_ITYPE_EINT OR FU_PCU) 0
       [],
     insn ''dint'' INST_16 (PCU_ITYPE_DINT OR FU_PCU) 0
       []]"

definition pcu_bkrep_halt_insns :: "inst_def list" where
  "pcu_bkrep_halt_insns =
    [insn ''bkrep'' INST_32 (INSN_ENC_32 OR PCU_ITYPE_BKREP OR FU_PCU) 1
       [opnd SYMBOL_REF 8 16 Enc_symref],
     insn ''halt'' INST_16 (PCU_ITYPE_HALT OR FU_PCU) 0
       []]"

definition ajardsp_insns :: "inst_def list" where
  "ajardsp_insns =
     nop_insns @
     bmu_logic32_insns @
     bmu_shift32_insns @
     bmu_logic16_insns @
     bmu_shift16_insns @
     cu_addsub_insns @
     cu_mul_insns @
     cu_cmp_eq_lt_insns @
     cu_cmp_le_gt_insns @
     cu_cmp_ge_insns @
     lsu_ldst16_insns @
     lsu_ldst32_insns @
     lsu_ldimm_insns @
     lsu_ldoff_insns @
     lsu_stoff_insns @
     lsu_addptr_spec_insns @
     lsu_push_pop_insns @
     lsu_mv_insns @
     lsu_ext_insns @
     pcu_bra_insns @
     pcu_call_insns @
     pcu_ret_insns @
     pcu_bkrep_halt_insns"

lemmas insn_group_defs =
  nop_insns_def bmu_logic32_insns_def bmu_shift32_insns_def
  bmu_logic16_insns_def bmu_shift16_insns_def cu_addsub_insns_def
  cu_mul_insns_def cu_cmp_eq_lt_insns_def cu_cmp_le_gt_insns_def
  cu_cmp_ge_insns_def lsu_ldst16_insns_def lsu_ldst32_insns_def
  lsu_ldimm_insns_def lsu_ldoff_insns_def lsu_stoff_insns_def
  lsu_addptr_spec_insns_def lsu_push_pop_insns_def lsu_mv_insns_def
  lsu_ext_insns_def pcu_bra_insns_def pcu_call_insns_def
  pcu_ret_insns_def pcu_bkrep_halt_insns_def
section \<open>What makes the table an instruction set\<close>

text \<open>All bits that operands can set.\<close>

definition fields_mask :: "operand_def list \<Rightarrow> u32" where
  "fields_mask ops = foldr (\<lambda>f m. field_mask f OR m) ops 0"

fun fields_disjoint :: "operand_def list \<Rightarrow> bool" where
  "fields_disjoint [] = True"
| "fields_disjoint (f # fs) = (field_mask f AND fields_mask fs = 0 \<and> fields_disjoint fs)"

text \<open>
  Bits no operand may touch: the parallel bit, the size bit, the functional unit and opcode bits,
  for a 16-bit instruction everything above bit 15, for a 32-bit instruction the predicate bits.
\<close>

definition reserved_mask :: "insn_size \<Rightarrow> u32" where
  "reserved_mask sz = (case sz of INST_16 \<Rightarrow> 0xFFFF007F | INST_32 \<Rightarrow> 0xF00000FF)"

text \<open>Bits the opcode pattern leaves to the assembler: parallel, size and predicate bits.\<close>

definition variable_mask :: "insn_size \<Rightarrow> u32" where
  "variable_mask sz = (case sz of INST_16 \<Rightarrow> 0xFFFF0003 | INST_32 \<Rightarrow> 0xC0000003)"

definition wf_insn :: "inst_def \<Rightarrow> bool" where
  "wf_insn d \<longleftrightarrow>
     id_nr_operands d = length (id_operands d) \<and> length (id_operands d) \<le> MAX_OPERANDS \<and>
     list_all (\<lambda>f. od_encode f \<noteq> None \<and> wf_field f) (id_operands d) \<and>
     fields_disjoint (id_operands d) \<and>
     fields_mask (id_operands d) AND reserved_mask (id_size d) = 0 \<and>
     fields_mask (id_operands d) AND id_pattern d = 0 \<and>
     id_pattern d AND variable_mask (id_size d) = 0 \<and>
     (id_size d = INST_32 \<longleftrightarrow> bit (id_pattern d) 29)"

text \<open>Pairs of encoders that never accept the same operand.\<close>

definition encoder_clash :: "encoder \<Rightarrow> encoder \<Rightarrow> bool" where
  "encoder_clash e1 e2 \<longleftrightarrow>
     (e1, e2) \<in> set [(Enc_ptr, Enc_acc_half), (Enc_acc_half, Enc_ptr),
                     (Enc_reg, Enc_spec), (Enc_spec, Enc_reg)]"

definition operand_clash :: "operand_def \<times> operand_def \<Rightarrow> bool" where
  "operand_clash fg \<longleftrightarrow>
     od_type (fst fg) \<noteq> od_type (snd fg) \<or>
     (case (od_encode (fst fg), od_encode (snd fg)) of
        (Some e1, Some e2) \<Rightarrow> encoder_clash e1 e2 | _ \<Rightarrow> False)"

definition exclusive :: "inst_def \<Rightarrow> inst_def \<Rightarrow> bool" where
  "exclusive d e \<longleftrightarrow>
     id_mnemonic d \<noteq> id_mnemonic e \<or> id_nr_operands d \<noteq> id_nr_operands e \<or>
     list_ex operand_clash (zip (id_operands d) (id_operands e))"

fun all_pairs :: "('a \<Rightarrow> 'a \<Rightarrow> bool) \<Rightarrow> 'a list \<Rightarrow> bool" where
  "all_pairs P [] = True"
| "all_pairs P (x # xs) = (list_all (P x) xs \<and> all_pairs P xs)"

lemmas table_eval [exec_simps] = ajardsp_insns_def insn_group_defs insn_def opnd_def opcode_defs

lemma table_wf: "list_all wf_insn ajardsp_insns"
  by (simp add: table_eval wf_insn_def fields_mask_def reserved_mask_def variable_mask_def
      wf_field_def field_mask_def width_mask_def MAX_OPERANDS_def)

lemma table_exclusive: "all_pairs exclusive ajardsp_insns"
  by (simp add: table_eval exclusive_def operand_clash_def encoder_clash_def)

text \<open>The interface the assembler's loops rely on.\<close>

locale insn_set =
  fixes tab :: "inst_def list"
  assumes all_wf: "list_all wf_insn tab"
    and pairwise_exclusive: "all_pairs exclusive tab"
begin

lemma entry_wf: "d \<in> set tab \<Longrightarrow> wf_insn d"
  using all_wf by (simp add: list_all_iff)

end

interpretation ajardsp: insn_set ajardsp_insns
  by unfold_locales (rule table_wf table_exclusive)+

section \<open>Alternatives of a mnemonic exclude each other\<close>

lemma find_special_bound:
  assumes "\<not> 64 < find_special SpecialRegs nm 0xffffffff"
  shows "\<not> strncmp_eq nm ''ptr'' 3 \<and> \<not> strncmp_eq nm ''acc'' 3"
  using assms by (simp add: SpecialRegs_def strncmp_eq_def split: if_splits)

lemma strncmp_ptr_acc: "strncmp_eq nm ''ptr'' 3 \<Longrightarrow> \<not> strncmp_eq nm ''acc'' 3"
  by (simp add: strncmp_eq_def)

lemma encoder_clash_exclusive:
  assumes "encoder_clash e1 e2" "run_encode ign tab e1 d op p = Good q"
  shows "run_encode ign' tab' e2 d' op p' \<noteq> Good q'"
  using assms
  by (auto simp: encoder_clash_def encode_ptr_def encode_acc_half_def encode_reg_def encode_spec_def
      Let_def dest: find_special_bound strncmp_ptr_acc split: option.splits if_splits)

lemma all_pairs_append:
  "all_pairs P (xs @ ys) \<longleftrightarrow>
     all_pairs P xs \<and> all_pairs P ys \<and> (\<forall>x\<in>set xs. \<forall>y\<in>set ys. P x y)"
  by (induction xs) (auto simp: list_all_iff)

section \<open>Bits of an instruction word\<close>

lemma bit_fields_mask: "bit (fields_mask ops) n \<longleftrightarrow> (\<exists>f\<in>set ops. bit (field_mask f) n)"
  by (induction ops) (auto simp: fields_mask_def bit_or_iff)

lemma and_zero_bit: "(a :: u32) AND b = 0 \<Longrightarrow> bit a n \<Longrightarrow> \<not> bit b n"
  by (metis bit_0_eq bit_and_iff bot_apply bot_bool_def)

end
