(* ===== verification/Assemble.thy ===== *)
theory Assemble
  imports InsnTable
begin

text \<open>
  Assembling one instruction bundle: \<open>operand_match\<close> and \<open>try_assemble_inst_bundle\<close> of
  \<open>sw/tools/asm/asm.c\<close>, and the static state of that file.

  The static variables \<open>imem\<close>, \<open>imem_addr\<close>, \<open>dmem\<close>, \<open>dmem_addr\<close>, \<open>ignore_sym_refs\<close>, the symbol
  table of \<open>symtab.c\<close> and the text written to \<open>lineno_fp\<close> are the record \<open>asm_state\<close>.  Both memories
  have 0x10000 elements, exactly the range of the 16-bit addresses.  A failing call carries its
  reason; the state it leaves behind is not modelled, because every caller ends with \<open>exit(1)\<close>.
\<close>

record asm_state =
  ignore_sym_refs :: bool
  imem :: "u16 \<Rightarrow> u16"
  imem_addr :: u16
  dmem :: "u16 \<Rightarrow> u16"
  dmem_addr :: u16
  symtab_p :: symtab
  lineno_fp :: string

datatype asm_error =
    Could_not_encode string
  | VLIW_size_exceeded string
  | Assemble_failure i32 asm_error
  | Multiply_defined string
  | Unknown_data_symbol string

definition PRED_NEG_BIT :: u32 where "PRED_NEG_BIT = push_bit 28 1"

section \<open>Matching operands\<close>

text \<open>
  The loop of \<open>operand_match\<close> over the first \<open>nr_operands\<close> definitions.  When the operand list ends
  early the loop still executes \<open>op_p = op_p->next_p\<close> with \<open>op_p\<close> NULL.
\<close>

fun operand_match_loop :: "operand_def list \<Rightarrow> operand list \<Rightarrow> (unit, unit) outcome" where
  "operand_match_loop [] [] = Good ()"
| "operand_match_loop [] (op # ops) = Fail ()"
| "operand_match_loop (d # ds) [] = Undef"
| "operand_match_loop (d # ds) (op # ops) =
     (if od_type d \<noteq> op_type op then Fail () else operand_match_loop ds ops)"

definition operand_match :: "inst_def \<Rightarrow> instruction \<Rightarrow> (unit, unit) outcome" where
  "operand_match d inst = operand_match_loop (take (id_nr_operands d) (operand_array d)) (inst_ops inst)"

section \<open>Encoding one instruction with one table entry\<close>

text \<open>
  The \<open>while (op_p)\<close> loop; a NULL \<open>encode\<close> fails the \<open>assert\<close>, an operand beyond the array is read
  out of bounds.
\<close>

fun encode_operands ::
    "bool \<Rightarrow> symtab \<Rightarrow> operand_def list \<Rightarrow> operand list \<Rightarrow> u32 \<Rightarrow> (u32, unit) outcome" where
  "encode_operands ign tab ds [] p = Good p"
| "encode_operands ign tab [] (op # ops) p = Undef"
| "encode_operands ign tab (d # ds) (op # ops) p =
     (case od_encode d of
        None \<Rightarrow> Undef
      | Some e \<Rightarrow>
          obind (run_encode ign tab e d op p) (\<lambda>q. encode_operands ign tab ds ops q))"

definition encode_predicate :: "instruction \<Rightarrow> u32 \<Rightarrow> (u32, unit) outcome" where
  "encode_predicate inst p =
     (case inst_pred inst of
        None \<Rightarrow> Good p
      | Some pr \<Rightarrow>
          if strncmp_eq pr ''pred'' 4 then
            (case atoi (drop 4 pr) of
               None \<Rightarrow> Undef
             | Some reg \<Rightarrow>
                 let p1 = (if inst_pred_neg inst \<noteq> 0 then p OR PRED_NEG_BIT else p);
                     p2 = p1 AND 0x3fffffff
                 in Good (p2 OR push_bit 30 (reg AND 0x3)))
          else Fail ())"

text \<open>The pattern up to the size bit; \<open>has_next\<close> tells that \<open>next_p\<close> is not NULL.\<close>

definition encode_insn ::
    "bool \<Rightarrow> symtab \<Rightarrow> inst_def \<Rightarrow> instruction \<Rightarrow> bool \<Rightarrow> (u32, unit) outcome" where
  "encode_insn ign tab d inst has_next =
     (let p = (if has_next then id_pattern d OR push_bit PAR_BIT 1 else id_pattern d) in
      obind (encode_operands ign tab (operand_array d) (inst_ops inst) p) (encode_predicate inst))"

definition is_32 :: "inst_def \<Rightarrow> instruction \<Rightarrow> bool" where
  "is_32 d inst \<longleftrightarrow> id_size d = INST_32 \<or> inst_pred inst \<noteq> None"

text \<open>
  Storing the words.  \<open>imem[imem_addr + 1]\<close> is indexed with an \<open>int\<close>: at the last address it lies
  outside the array.
\<close>

definition emit_insn ::
    "inst_def \<Rightarrow> instruction \<Rightarrow> u32 \<Rightarrow> asm_state \<times> nat \<Rightarrow> (asm_state \<times> nat, asm_error) outcome" where
  "emit_insn d inst pattern s =
     (case s of (st, total_size) \<Rightarrow>
        if is_32 d inst then
          let p = pattern OR push_bit SIZE_BIT 1; a = imem_addr st in
          if a = 0xffff then Undef
          else Good (st\<lparr>imem := (imem st)(a := ucast (p AND 0xffff), a + 1 := ucast (drop_bit 16 p)),
                        imem_addr := a + 2\<rparr>, total_size + 2)
        else
          let p = pattern AND NOT (push_bit SIZE_BIT 1); a = imem_addr st in
          Good (st\<lparr>imem := (imem st)(a := ucast (p AND 0xffff)), imem_addr := a + 1\<rparr>,
                total_size + 1))"

section \<open>The search through the table\<close>

text \<open>
  The \<open>for\<close> loop does not stop at the first entry that encodes the instruction: it tries every
  entry, and each that succeeds emits its words.
\<close>

fun try_defs ::
    "inst_def list \<Rightarrow> instruction \<Rightarrow> bool \<Rightarrow> asm_state \<times> nat \<Rightarrow> bool
       \<Rightarrow> ((asm_state \<times> nat) \<times> bool, asm_error) outcome" where
  "try_defs [] inst has_next s properly_encoded = Good (s, properly_encoded)"
| "try_defs (d # ds) inst has_next s properly_encoded =
     (if id_mnemonic d = inst_mnemonic inst then
        (case operand_match d inst of
           Undef \<Rightarrow> Undef
         | Fail _ \<Rightarrow> try_defs ds inst has_next s properly_encoded
         | Good _ \<Rightarrow>
             (case encode_insn (ignore_sym_refs (fst s)) (symtab_p (fst s)) d inst has_next of
                Undef \<Rightarrow> Undef
              | Fail _ \<Rightarrow> try_defs ds inst has_next s properly_encoded
              | Good p \<Rightarrow> obind (emit_insn d inst p s) (\<lambda>s'. try_defs ds inst has_next s' True)))
      else try_defs ds inst has_next s properly_encoded)"

fun bundle_loop ::
    "inst_def list \<Rightarrow> instruction list \<Rightarrow> asm_state \<times> nat \<Rightarrow> (asm_state \<times> nat, asm_error) outcome" where
  "bundle_loop tab [] s = Good s"
| "bundle_loop tab (inst # rest) s =
     obind (try_defs tab inst (rest \<noteq> []) s False)
       (\<lambda>(s', properly_encoded).
          if \<not> properly_encoded then Fail (Could_not_encode (inst_mnemonic inst))
          else if snd s' > 4 then Fail (VLIW_size_exceeded (inst_mnemonic inst))
          else bundle_loop tab rest s')"

definition try_assemble_inst_bundle ::
    "inst_bundle \<Rightarrow> asm_state \<Rightarrow> (asm_state, asm_error) outcome" where
  "try_assemble_inst_bundle ib st =
     obind (bundle_loop ajardsp_insns (ib_insts ib) (st, 0)) (\<lambda>s. Good (fst s))"

section \<open>Matching and encoding, characterised\<close>

lemma operand_match_loop_Good:
  "operand_match_loop ds ops = Good u \<longleftrightarrow> list_all2 (\<lambda>d op. od_type d = op_type op) ds ops"
  by (induction ds ops rule: operand_match_loop.induct) auto

lemma operand_match_loop_Undef:
  "operand_match_loop ds ops = Undef \<longleftrightarrow>
     length ops < length ds \<and> list_all2 (\<lambda>d op. od_type d = op_type op) (take (length ops) ds) ops"
  by (induction ds ops rule: operand_match_loop.induct) auto

lemma take_operand_array:
  "wf_insn d \<Longrightarrow> take (id_nr_operands d) (operand_array d) = id_operands d"
  by (simp add: wf_insn_def operand_array_def)

lemma operand_match_Good:
  "wf_insn d \<Longrightarrow> operand_match d inst = Good u \<longleftrightarrow>
     list_all2 (\<lambda>f op. od_type f = op_type op) (id_operands d) (inst_ops inst)"
  by (simp add: operand_match_def take_operand_array operand_match_loop_Good)

lemma encode_operands_append:
  "length ds = length ops \<Longrightarrow>
     encode_operands ign tab (ds @ es) ops p = encode_operands ign tab ds ops p"
  by (induction ign tab ds ops p rule: encode_operands.induct)
    (auto split: option.splits intro!: arg_cong2[where f = obind])

lemma encode_operands_nth:
  assumes "encode_operands ign tab ds ops p = Good q" "i < length ops"
  shows "i < length ds \<and>
    (\<exists>e p' q'. od_encode (ds ! i) = Some e \<and> run_encode ign tab e (ds ! i) (ops ! i) p' = Good q')"
  using assms
proof (induction ign tab ds ops p arbitrary: i rule: encode_operands.induct)
  case (3 ign tab d ds op ops p)
  from "3.prems"(1) obtain e r where e: "od_encode d = Some e"
    and r: "run_encode ign tab e d op p = Good r" "encode_operands ign tab ds ops r = Good q"
    by (auto simp: obind_eq_Good split: option.splits)
  show ?case
  proof (cases i)
    case 0
    with e r show ?thesis by auto
  next
    case (Suc j)
    with "3.IH"[OF e r(2), of j] "3.prems"(2) show ?thesis by simp
  qed
qed auto

text \<open>What the operands leave alone and what they keep.\<close>

lemma encode_operands_bits:
  assumes "encode_operands ign tab ds ops p = Good q" "length ds = length ops"
    and "list_all wf_field ds"
  shows "(bit p n \<longrightarrow> bit q n) \<and> (\<not> bit (fields_mask ds) n \<longrightarrow> bit q n = bit p n)"
  using assms
proof (induction ign tab ds ops p rule: encode_operands.induct)
  case (3 ign tab d ds op ops p)
  from "3.prems"(1) obtain e r where e: "od_encode d = Some e"
    and r: "run_encode ign tab e d op p = Good r" "encode_operands ign tab ds ops r = Good q"
    by (auto simp: obind_eq_Good split: option.splits)
  from "3.prems" have wf: "wf_field d" by simp
  from "3.IH"[OF e r(2)] "3.prems" have IH: "(bit r n \<longrightarrow> bit q n) \<and>
      (\<not> bit (fields_mask ds) n \<longrightarrow> bit q n = bit r n)" by simp
  with run_enc.frame[OF wf r(1)] run_enc.keeps_bits[OF wf r(1)] show ?case
    by (auto simp: bit_fields_mask)
qed auto

section \<open>At most one entry assembles an instruction\<close>

definition assembles ::
    "bool \<Rightarrow> symtab \<Rightarrow> inst_def \<Rightarrow> instruction \<Rightarrow> bool \<Rightarrow> u32 \<Rightarrow> bool" where
  "assembles ign tab d inst has_next p \<longleftrightarrow>
     id_mnemonic d = inst_mnemonic inst \<and> operand_match d inst = Good () \<and>
     encode_insn ign tab d inst has_next = Good p"

lemma assembles_operands:
  assumes "wf_insn d" "assembles ign tab d inst has_next p"
  shows "list_all2 (\<lambda>f op. od_type f = op_type op) (id_operands d) (inst_ops inst)"
    and "\<exists>q. encode_operands ign tab (id_operands d) (inst_ops inst)
              (if has_next then id_pattern d OR 1 else id_pattern d) = Good q
            \<and> encode_predicate inst q = Good p"
proof -
  show l: "list_all2 (\<lambda>f op. od_type f = op_type op) (id_operands d) (inst_ops inst)"
    using assms by (simp add: assembles_def operand_match_Good)
  show "\<exists>q. encode_operands ign tab (id_operands d) (inst_ops inst)
              (if has_next then id_pattern d OR 1 else id_pattern d) = Good q
            \<and> encode_predicate inst q = Good p"
    using assms list_all2_lengthD[OF l]
    by (auto simp: assembles_def encode_insn_def operand_array_def obind_eq_Good PAR_BIT_def
        encode_operands_append)
qed

lemma assembles_exclusive:
  assumes wf: "wf_insn d" "wf_insn e" and ex: "exclusive d e"
    and a: "assembles ign tab d inst has_next p" and b: "assembles ign' tab' e inst has_next' p'"
  shows False
proof -
  note da = assembles_operands[OF wf(1) a] and eb = assembles_operands[OF wf(2) b]
  have mn: "id_mnemonic d = id_mnemonic e" using a b by (simp add: assembles_def)
  have len: "length (id_operands d) = length (inst_ops inst)"
    "length (id_operands e) = length (inst_ops inst)"
    using da(1) eb(1) by (auto dest: list_all2_lengthD)
  then have nr: "id_nr_operands d = id_nr_operands e" using wf by (simp add: wf_insn_def)
  from ex mn nr obtain i where i: "i < length (inst_ops inst)"
    and clash: "operand_clash (id_operands d ! i, id_operands e ! i)"
    using len by (auto simp: exclusive_def list_ex_iff in_set_zip)
  have "od_type (id_operands d ! i) = od_type (id_operands e ! i)"
    using da(1) eb(1) i len by (auto simp: list_all2_conv_all_nth)
  moreover obtain e1 p1 q1 where
    "od_encode (id_operands d ! i) = Some e1"
    "run_encode ign tab e1 (id_operands d ! i) (inst_ops inst ! i) p1 = Good q1"
    using da(2) encode_operands_nth[OF _ i] by blast
  moreover obtain e2 p2 q2 where
    "od_encode (id_operands e ! i) = Some e2"
    "run_encode ign' tab' e2 (id_operands e ! i) (inst_ops inst ! i) p2 = Good q2"
    using eb(2) encode_operands_nth[OF _ i] by blast
  ultimately show False
    using clash encoder_clash_exclusive by (auto simp: operand_clash_def)
qed

lemma emit_insn_frame:
  "emit_insn d inst p s = Good s' \<Longrightarrow>
     ignore_sym_refs (fst s') = ignore_sym_refs (fst s) \<and> symtab_p (fst s') = symtab_p (fst s)"
  by (cases s) (auto simp: emit_insn_def Let_def split: if_splits)

lemma try_defs_Cons:
  "try_defs (d # ds) inst has_next s b = Good r \<Longrightarrow>
     (\<exists>p s'. assembles (ignore_sym_refs (fst s)) (symtab_p (fst s)) d inst has_next p \<and>
        emit_insn d inst p s = Good s' \<and> try_defs ds inst has_next s' True = Good r) \<or>
     ((\<forall>p. \<not> assembles (ignore_sym_refs (fst s)) (symtab_p (fst s)) d inst has_next p) \<and>
        try_defs ds inst has_next s b = Good r)"
  by (auto simp: assembles_def obind_eq_Good split: if_splits outcome.splits)

lemma try_defs_none:
  assumes "try_defs ds inst has_next s b = Good r"
    and "\<And>d p. d \<in> set ds \<Longrightarrow> \<not> assembles (ignore_sym_refs (fst s)) (symtab_p (fst s)) d inst has_next p"
  shows "r = (s, b)"
  using assms
proof (induction ds)
  case (Cons d ds)
  from try_defs_Cons[OF Cons.prems(1)] Cons.prems(2)[of d] 
  have "try_defs ds inst has_next s b = Good r" by auto
  then show ?case by (rule Cons.IH) (use Cons.prems(2) in auto)
qed simp

lemma try_defs_Good:
  assumes "try_defs ds inst has_next s False = Good (s', b)"
    and "list_all wf_insn ds" "all_pairs exclusive ds"
  shows "if b then \<exists>d\<in>set ds. \<exists>p. emit_insn d inst p s = Good s' \<and>
                 assembles (ignore_sym_refs (fst s)) (symtab_p (fst s)) d inst has_next p
         else s' = s"
  using assms
proof (induction ds)
  case (Cons d ds)
  from try_defs_Cons[OF Cons.prems(1)] show ?case
  proof (elim disjE exE conjE)
    fix p s1
    assume a: "assembles (ignore_sym_refs (fst s)) (symtab_p (fst s)) d inst has_next p"
      and e: "emit_insn d inst p s = Good s1"
      and t: "try_defs ds inst has_next s1 True = Good (s', b)"
    have "(s', b) = (s1, True)"
    proof (rule try_defs_none[OF t])
      fix d' p' assume "d' \<in> set ds"
      with Cons.prems have "wf_insn d" "wf_insn d'" "exclusive d d'"
        by (auto simp: list_all_iff)
      from assembles_exclusive[OF this a]
      show "\<not> assembles (ignore_sym_refs (fst s1)) (symtab_p (fst s1)) d' inst has_next p'" by blast
    qed
    with a e show ?thesis by auto
  next
    assume "try_defs ds inst has_next s False = Good (s', b)"
    with Cons.IH Cons.prems show ?thesis by (auto split: if_splits)
  qed
qed simp

section \<open>What a bundle emits\<close>

text \<open>Consecutive stores through \<open>imem[imem_addr++]\<close>.\<close>

fun write_imem :: "u16 list \<Rightarrow> asm_state \<Rightarrow> asm_state" where
  "write_imem [] st = st"
| "write_imem (w # ws) st =
     write_imem ws (st\<lparr>imem := (imem st)(imem_addr st := w), imem_addr := imem_addr st + 1\<rparr>)"

lemma write_imem_append: "write_imem (ws @ vs) st = write_imem vs (write_imem ws st)"
  by (induction ws arbitrary: st) simp_all

lemma write_imem_frame [simp]:
  "ignore_sym_refs (write_imem ws st) = ignore_sym_refs st"
  "symtab_p (write_imem ws st) = symtab_p st"
  "dmem (write_imem ws st) = dmem st"
  "dmem_addr (write_imem ws st) = dmem_addr st"
  "lineno_fp (write_imem ws st) = lineno_fp st"
  by (induction ws arbitrary: st) simp_all

lemma imem_addr_write_imem [simp]:
  "imem_addr (write_imem ws st) = imem_addr st + of_nat (length ws)"
  by (induction ws arbitrary: st) (simp_all add: algebra_simps)

lemma imem_write_imem: "imem (write_imem ws st) = store_words ws (imem_addr st) (imem st)"
  by (induction ws arbitrary: st) simp_all

text \<open>The words of one assembled instruction.\<close>

definition final_word :: "inst_def \<Rightarrow> instruction \<Rightarrow> u32 \<Rightarrow> u32" where
  "final_word d inst p = (if is_32 d inst then p OR push_bit SIZE_BIT 1 else p AND NOT (push_bit SIZE_BIT 1))"

definition insn_words :: "inst_def \<Rightarrow> instruction \<Rightarrow> u32 \<Rightarrow> u16 list" where
  "insn_words d inst p =
     (let w = final_word d inst p in
      if is_32 d inst then [ucast w, ucast (drop_bit 16 w)] else [ucast w])"

lemma ucast_and_ffff: "(ucast ((w :: u32) AND 0xffff) :: u16) = ucast w"
proof -
  have m: "(0xffff :: u32) = mask 16" by (simp add: mask_eq_exp_minus_1)
  show ?thesis unfolding m by (rule bit_word_eqI) (auto simp: bit_simps)
qed

lemma emit_insn_Good:
  "emit_insn d inst p (st, n) = Good (st', n') \<longleftrightarrow>
     \<not> (is_32 d inst \<and> imem_addr st = 0xffff) \<and>
     st' = write_imem (insn_words d inst p) st \<and> n' = n + length (insn_words d inst p)"
  by (auto simp: emit_insn_def insn_words_def final_word_def Let_def ucast_and_ffff)

text \<open>
  The abstract result of a bundle: for each instruction the entry that assembles it and the
  pattern it gives, \<open>has_next\<close> being true for all instructions but the last.
\<close>

fun assembled ::
    "bool \<Rightarrow> symtab \<Rightarrow> inst_def list \<Rightarrow> instruction list \<Rightarrow> (inst_def \<times> u32) list \<Rightarrow> bool" where
  "assembled ign sy tab [] ps = (ps = [])"
| "assembled ign sy tab (inst # rest) ps =
     (case ps of [] \<Rightarrow> False
      | (d, p) # ps' \<Rightarrow> d \<in> set tab \<and> assembles ign sy d inst (rest \<noteq> []) p
          \<and> assembled ign sy tab rest ps')"

fun bundle_words :: "instruction list \<Rightarrow> (inst_def \<times> u32) list \<Rightarrow> u16 list" where
  "bundle_words (inst # rest) ((d, p) # ps) = insn_words d inst p @ bundle_words rest ps"
| "bundle_words _ _ = []"

context insn_set
begin

lemma unique_entry:
  assumes "d \<in> set tab" "e \<in> set tab"
    and "assembles ign sy d inst has_next p" "assembles ign' sy' e inst has_next' p'"
  shows "d = e"
proof -
  have "d = e \<or> exclusive d e \<or> exclusive e d"
    using pairwise_exclusive assms(1,2) by (induction tab) (auto simp: list_all_iff)
  then show ?thesis
    using assembles_exclusive[OF _ _ _ assms(3,4)] assembles_exclusive[OF _ _ _ assms(4,3)]
      entry_wf assms(1,2) by blast
qed

lemma bundle_loop_Good:
  assumes "bundle_loop tab insts (st, n) = Good (st', n')"
  shows "\<exists>ps. assembled (ignore_sym_refs st) (symtab_p st) tab insts ps \<and>
           st' = write_imem (bundle_words insts ps) st \<and>
           n' = n + length (bundle_words insts ps) \<and> (insts \<noteq> [] \<longrightarrow> n' \<le> 4)"
  using assms
proof (induction insts arbitrary: st n)
  case (Cons inst rest)
  from Cons.prems obtain st1 n1 where t: "try_defs tab inst (rest \<noteq> []) (st, n) False = Good ((st1, n1), True)"
    and n1: "n1 \<le> 4" and b: "bundle_loop tab rest (st1, n1) = Good (st', n')"
    by (auto simp: obind_eq_Good split: if_splits prod.splits)
  from try_defs_Good[OF t all_wf pairwise_exclusive] obtain d p where
    d: "d \<in> set tab" "assembles (ignore_sym_refs st) (symtab_p st) d inst (rest \<noteq> []) p"
    and e: "emit_insn d inst p (st, n) = Good (st1, n1)" by auto
  then have st1: "st1 = write_imem (insn_words d inst p) st" "n1 = n + length (insn_words d inst p)"
    by (auto simp: emit_insn_Good)
  from Cons.IH[OF b] st1 obtain ps where
    "assembled (ignore_sym_refs st) (symtab_p st) tab rest ps"
    "st' = write_imem (bundle_words rest ps) st1"
    "n' = n1 + length (bundle_words rest ps)" "rest \<noteq> [] \<longrightarrow> n' \<le> 4" by auto
  with d st1 n1 show ?case
    by (intro exI[of _ "(d, p) # ps"]) (auto simp: write_imem_append)
qed simp

lemma assembled_same_entries:
  assumes "assembled ign sy tab insts ps" "assembled ign' sy' tab insts ps'"
  shows "map fst ps = map fst ps'"
  using assms
proof (induction insts arbitrary: ps ps')
  case (Cons inst rest)
  from Cons.prems(1) obtain d p qs where ps: "ps = (d, p) # qs" "d \<in> set tab"
    "assembles ign sy d inst (rest \<noteq> []) p" "assembled ign sy tab rest qs"
    by (auto split: list.splits)
  from Cons.prems(2) obtain d' p' qs' where ps': "ps' = (d', p') # qs'" "d' \<in> set tab"
    "assembles ign' sy' d' inst (rest \<noteq> []) p'" "assembled ign' sy' tab rest qs'"
    by (auto split: list.splits)
  have "d = d'" by (rule unique_entry[OF ps(2) ps'(2) ps(3) ps'(3)])
  with Cons.IH[OF ps(4) ps'(4)] ps(1) ps'(1) show ?case by simp
qed simp

end

lemma length_bundle_words:
  assumes "map fst ps = map fst ps'"
  shows "length (bundle_words insts ps) = length (bundle_words insts ps')"
  using assms
proof (induction insts ps arbitrary: ps' rule: bundle_words.induct)
  case (1 inst rest d p ps)
  from "1.prems" obtain p' qs where ps': "ps' = (d, p') # qs" and qs: "map fst ps = map fst qs"
    by (cases ps') auto
  show ?case by (simp add: ps' insn_words_def Let_def "1.IH"[OF qs])
qed simp_all

lemma try_assemble_words:
  assumes "try_assemble_inst_bundle ib st = Good st'"
  shows "\<exists>ps. assembled (ignore_sym_refs st) (symtab_p st) ajardsp_insns (ib_insts ib) ps \<and>
           st' = write_imem (bundle_words (ib_insts ib) ps) st \<and>
           length (bundle_words (ib_insts ib) ps) \<le> 4"
proof -
  from assms obtain n where "bundle_loop ajardsp_insns (ib_insts ib) (st, 0) = Good (st', n)"
    by (auto simp: try_assemble_inst_bundle_def obind_eq_Good)
  from ajardsp.bundle_loop_Good[OF this] show ?thesis by (cases "ib_insts ib") auto
qed

lemmas assemble_exec [exec_simps] = try_assemble_inst_bundle_def operand_match_def encode_insn_def
  encode_predicate_def emit_insn_def is_32_def PRED_NEG_BIT_def

end
