(* ===== verification/Passes.thy ===== *)
theory Passes
  imports Assemble
begin

text \<open>
  The two passes of the assembler (\<open>init\<close>, \<open>asm_do_pass_0\<close>, \<open>asm_do_pass_1\<close>, \<open>output_hex\<close> and
  \<open>asm_gen_opcodes\<close> of \<open>sw/tools/asm/asm.c\<close>).  Pass 0 walks the data elements and the bundles to
  give every label its address; pass 1 walks them again with the symbol table complete and fills
  the memories.  A duplicate label, a bundle that cannot be assembled and an unknown symbol end the
  program (\<open>exit(1)\<close>), which is \<open>Fail\<close>.  Arithmetic on \<open>int\<close> wraps around.

  The listing written to \<open>lineno_fp\<close> is kept as text; the three output files of \<open>output_hex\<close> are the
  record \<open>hex_files\<close>.  Opening and naming the files is not modelled.
\<close>

definition DMEM_UNINIT_VALUE :: u16 where "DMEM_UNINIT_VALUE = 0xdead"

text \<open>The state that \<open>init\<close> prepares, on top of the static initialisers of \<open>asm.c\<close> and \<open>symtab.c\<close>.\<close>

definition init :: asm_state where
  "init =
     \<lparr>ignore_sym_refs = False, imem = (\<lambda>_. 0), imem_addr = 0,
      dmem = (\<lambda>_. DMEM_UNINIT_VALUE), dmem_addr = 0, symtab_p = [], lineno_fp = []\<rparr>"

section \<open>Pass 0: addresses\<close>

text \<open>The label case, the same for data and code: the symbol must be new.\<close>

definition define_label :: "string \<Rightarrow> u16 \<Rightarrow> asm_state \<Rightarrow> (asm_state, asm_error) outcome" where
  "define_label l addr st =
     (case symtab_lookup l (symtab_p st) of
        Some _ \<Rightarrow> Fail (Multiply_defined l)
      | None \<Rightarrow> Good (st\<lparr>symtab_p := symtab_add l (ucast addr) (symtab_p st)\<rparr>))"

definition pass_0_data_element :: "data_element \<Rightarrow> asm_state \<Rightarrow> (asm_state, asm_error) outcome" where
  "pass_0_data_element data st =
     (case de_label data of
        Some l \<Rightarrow> define_label l (dmem_addr st) st
      | None \<Rightarrow>
          if de_skip_length data \<noteq> 0 then
            Good (st\<lparr>dmem_addr := dmem_addr st + ucast (de_skip_length data)\<rparr>)
          else Good (st\<lparr>dmem_addr := dmem_addr st + 1\<rparr>))"

text \<open>\<open>imem_addr += align - 1; imem_addr &= ~(align - 1)\<close> on the 16-bit address.\<close>

definition align_addr :: "i32 \<Rightarrow> u16 \<Rightarrow> u16" where
  "align_addr align addr = (addr + ucast (align - 1)) AND ucast (NOT (align - 1))"

text \<open>A bundle that cannot be assembled reports the line of its first instruction.\<close>

definition assemble_bundle :: "inst_bundle \<Rightarrow> asm_state \<Rightarrow> (asm_state, asm_error) outcome" where
  "assemble_bundle ib st =
     (case try_assemble_inst_bundle ib st of
        Fail e \<Rightarrow>
          (case ib_insts ib of
             [] \<Rightarrow> Undef
           | inst # _ \<Rightarrow> Fail (Assemble_failure (inst_lineno inst) e))
      | r \<Rightarrow> r)"

definition pass_0_bundle :: "inst_bundle \<Rightarrow> asm_state \<Rightarrow> (asm_state, asm_error) outcome" where
  "pass_0_bundle ib st =
     (case ib_label ib of
        Some l \<Rightarrow> define_label l (imem_addr st) st
      | None \<Rightarrow>
          if ib_align ib \<noteq> 0 then Good (st\<lparr>imem_addr := align_addr (ib_align ib) (imem_addr st)\<rparr>)
          else assemble_bundle ib st)"

text \<open>A \<open>while\<close> loop over a linked list, stopping at the first failure.\<close>

fun walk :: "('b \<Rightarrow> 's \<Rightarrow> ('s, 'e) outcome) \<Rightarrow> 'b list \<Rightarrow> 's \<Rightarrow> ('s, 'e) outcome" where
  "walk f [] st = Good st"
| "walk f (x # xs) st = obind (f x st) (walk f xs)"

definition asm_do_pass_0 ::
    "inst_bundle list \<Rightarrow> data_element list \<Rightarrow> asm_state \<Rightarrow> (asm_state, asm_error) outcome" where
  "asm_do_pass_0 ibs data st = obind (walk pass_0_data_element data st) (walk pass_0_bundle ibs)"

section \<open>Pass 1: contents\<close>

text \<open>\<open>dmem[dmem_addr++] = w\<close>.\<close>

fun write_dmem :: "u16 list \<Rightarrow> asm_state \<Rightarrow> asm_state" where
  "write_dmem [] st = st"
| "write_dmem (w # ws) st =
     write_dmem ws (st\<lparr>dmem := (dmem st)(dmem_addr st := w), dmem_addr := dmem_addr st + 1\<rparr>)"

definition pass_1_data_element :: "data_element \<Rightarrow> asm_state \<Rightarrow> (asm_state, asm_error) outcome" where
  "pass_1_data_element data st =
     (case de_label data of
        Some _ \<Rightarrow> Good st
      | None \<Rightarrow>
          if de_skip_length data \<noteq> 0 then
            Good (write_dmem (replicate (nat (sint (de_skip_length data))) DMEM_UNINIT_VALUE) st)
          else
            (case de_symref data of
               Some s \<Rightarrow>
                 (case symtab_lookup s (symtab_p st) of
                    Some symvalue \<Rightarrow> Good (write_dmem [ucast symvalue] st)
                  | None \<Rightarrow> Fail (Unknown_data_symbol s))
             | None \<Rightarrow> Good (write_dmem [ucast (de_value data)] st)))"

text \<open>
  The padding of \<open>.align\<close>, computed in \<open>int\<close>: \<open>nop\<close>s with the parallel bit set, the last one without,
  so that the padding is one bundle.
\<close>

definition nops_to_add :: "i32 \<Rightarrow> u16 \<Rightarrow> i32" where
  "nops_to_add align addr =
     (let aligned_imem_addr = (ucast addr + align - 1) AND NOT (align - 1)
      in aligned_imem_addr - ucast addr)"

definition pad_align :: "i32 \<Rightarrow> asm_state \<Rightarrow> asm_state" where
  "pad_align align st =
     (let n = nops_to_add align (imem_addr st) in
      if 0 < sint n then write_imem (replicate (nat (sint n - 1)) 0x0001 @ [0x0000]) st else st)"

section \<open>The listing\<close>

definition list_operand :: "operand \<Rightarrow> string" where
  "list_operand op =
     (case op_type op of REG \<Rightarrow> '' $'' | SYMBOL_REF \<Rightarrow> '' #'' | _ \<Rightarrow> '' '') @
     (case op_name op of Some nm \<Rightarrow> nm | None \<Rightarrow> '' 0x'' @ fmt_x 8 (op_offset op))"

fun list_operands :: "operand list \<Rightarrow> string" where
  "list_operands [] = []"
| "list_operands (op # ops) = list_operand op @ (if ops \<noteq> [] then '','' else []) @ list_operands ops"

fun list_insts :: "instruction list \<Rightarrow> string" where
  "list_insts [] = []"
| "list_insts (inst # rest) =
     inst_mnemonic inst @ list_operands (inst_ops inst) @
     (if rest \<noteq> [] then '' | '' else []) @ list_insts rest"

definition list_line :: "u16 \<Rightarrow> instruction list \<Rightarrow> i32 \<Rightarrow> string" where
  "list_line addr insts lineno =
     ''0x'' @ fmt_x 4 (ucast addr) @ '':'' @ fmt_d lineno @ [tab_char] @ list_insts insts @ [newline]"

definition list_label :: "string \<Rightarrow> string" where
  "list_label l = [newline] @ ''<'' @ l @ ''>:'' @ [newline]"

text \<open>In the last case \<open>ib_p->insts_p->lineno\<close> is read first: an empty bundle is a NULL dereference.\<close>

definition pass_1_bundle :: "inst_bundle \<Rightarrow> asm_state \<Rightarrow> (asm_state, asm_error) outcome" where
  "pass_1_bundle ib st =
     (case ib_label ib of
        Some l \<Rightarrow> Good (st\<lparr>lineno_fp := lineno_fp st @ list_label l\<rparr>)
      | None \<Rightarrow>
          if ib_align ib \<noteq> 0 then Good (pad_align (ib_align ib) st)
          else
            (case ib_insts ib of
               [] \<Rightarrow> Undef
             | inst # _ \<Rightarrow>
                 assemble_bundle ib
                   (st\<lparr>lineno_fp := lineno_fp st @
                         list_line (imem_addr st) (ib_insts ib) (inst_lineno inst)\<rparr>)))"

definition asm_do_pass_1 ::
    "inst_bundle list \<Rightarrow> data_element list \<Rightarrow> asm_state \<Rightarrow> (asm_state, asm_error) outcome" where
  "asm_do_pass_1 ibs data st = obind (walk pass_1_data_element data st) (walk pass_1_bundle ibs)"

section \<open>Output\<close>

record hex_files =
  dmem_file :: string
  imem_file :: string
  map_file :: string

definition output_dmem :: "nat \<Rightarrow> asm_state \<Rightarrow> string" where
  "output_dmem n st = concat (map (\<lambda>i. fmt_x 4 (ucast (dmem st (of_nat i))) @ [newline]) [0..<n])"

text \<open>Four words a line, the highest address first.\<close>

definition imem_line :: "asm_state \<Rightarrow> nat \<Rightarrow> string" where
  "imem_line st i =
     fmt_x 4 (ucast (imem st (of_nat (i + 3)))) @ fmt_x 4 (ucast (imem st (of_nat (i + 2)))) @
     fmt_x 4 (ucast (imem st (of_nat (i + 1)))) @ fmt_x 4 (ucast (imem st (of_nat (i + 0)))) @
     [newline]"

definition output_imem :: "nat \<Rightarrow> asm_state \<Rightarrow> string" where
  "output_imem n st = concat (map (\<lambda>k. imem_line st (4 * k)) [0..<(n + 3) div 4])"

definition output_hex :: "bool \<Rightarrow> asm_state \<Rightarrow> hex_files" where
  "output_hex option_fill_mems st =
     \<lparr>dmem_file = output_dmem (if option_fill_mems then 0x10000 else unat (dmem_addr st)) st,
      imem_file = output_imem (if option_fill_mems then 0x10000 else unat (imem_addr st)) st,
      map_file = symtab_output_mapfile (symtab_p st)\<rparr>"

definition asm_gen_opcodes ::
    "bool \<Rightarrow> data_element list \<Rightarrow> inst_bundle list \<Rightarrow> asm_state
       \<Rightarrow> (asm_state \<times> hex_files, asm_error) outcome" where
  "asm_gen_opcodes option_fill_mems data_section ibs st =
     obind (asm_do_pass_0 ibs data_section
              (st\<lparr>imem_addr := 0, dmem_addr := 0, ignore_sym_refs := True\<rparr>))
       (\<lambda>st1. obind (asm_do_pass_1 ibs data_section
                       (st1\<lparr>ignore_sym_refs := False, imem_addr := 0, dmem_addr := 0\<rparr>))
          (\<lambda>st2. Good (st2, output_hex option_fill_mems st2)))"

lemmas passes_exec [exec_simps] = init_def asm_gen_opcodes_def asm_do_pass_0_def asm_do_pass_1_def
  pass_0_bundle_def pass_1_bundle_def pass_0_data_element_def pass_1_data_element_def
  assemble_bundle_def define_label_def align_addr_def pad_align_def nops_to_add_def

end
