(* ===== verification/Samples.thy ===== *)
theory Samples
  imports Passes
begin

text \<open>
  Small programs on which the properties of the following theories are instantiated: constructors for
  the parser's records, one instruction with its table entry, and one program with code, data, labels
  and an alignment, each run by evaluation of the model.
\<close>

definition sym_operand :: "string \<Rightarrow> operand" where
  "sym_operand nm = \<lparr>op_type = SYMBOL_REF, op_name = Some nm, op_offset = 0\<rparr>"

definition plain_inst :: "string \<Rightarrow> operand list \<Rightarrow> instruction" where
  "plain_inst m ops = \<lparr>inst_pred = None, inst_pred_neg = 0, inst_mnemonic = m, inst_ops = ops, inst_lineno = 7\<rparr>"

definition code_bundle :: "instruction list \<Rightarrow> inst_bundle" where
  "code_bundle insts = \<lparr>ib_insts = insts, ib_label = None, ib_align = 0\<rparr>"

definition label_bundle :: "string \<Rightarrow> inst_bundle" where
  "label_bundle l = \<lparr>ib_insts = [], ib_label = Some l, ib_align = 0\<rparr>"

definition align_bundle :: "i32 \<Rightarrow> inst_bundle" where
  "align_bundle n = \<lparr>ib_insts = [], ib_label = None, ib_align = n\<rparr>"

definition data_item :: "string option \<Rightarrow> string option \<Rightarrow> i32 \<Rightarrow> i32 \<Rightarrow> data_element" where
  "data_item l s v n = \<lparr>de_label = l, de_symref = s, de_value = v, de_skip_length = n\<rparr>"

definition sample_code :: "inst_bundle list" where
  "sample_code =
    [code_bundle [plain_inst ''nop'' []],
     align_bundle 4,
     label_bundle ''main'',
     code_bundle [plain_inst ''ldimm16'' [int_operand 0x1234, reg_operand ''acc1l''], plain_inst ''nop'' []],
     code_bundle [plain_inst ''bra'' [sym_operand ''main'']]]"

definition sample_data :: "data_element list" where
  "sample_data =
    [data_item None None 42 0, data_item None None 0 3, data_item (Some ''tab'') None 0 0, data_item None (Some ''main'') 0 0]"

definition sample_inst :: instruction where
  "sample_inst = plain_inst ''ldimm16'' [int_operand 0x1234, reg_operand ''acc1l'']"

definition sample_entry :: inst_def where
  "sample_entry = hd lsu_ldimm_insns"

definition sample_bundle :: inst_bundle where
  "sample_bundle = code_bundle [sample_inst, plain_inst ''nop'' []]"

declare sym_operand_def [exec_simps] plain_inst_def [exec_simps] code_bundle_def [exec_simps]
  label_bundle_def [exec_simps] align_bundle_def [exec_simps] data_item_def [exec_simps]
  sample_code_def [exec_simps] sample_data_def [exec_simps]

lemma sample_run:
  "\<exists>st2. asm_gen_opcodes False sample_data sample_code init = Good (st2, output_hex False st2) \<and>
     symtab_p st2 = [\<lparr>se_name = ''main'', se_address = 4\<rparr>, \<lparr>se_name = ''tab'', se_address = 4\<rparr>]"
  by (simp add: exec_simps)

lemma sample_pass_0:
  "\<exists>st1. asm_do_pass_0 sample_code sample_data
       (init\<lparr>imem_addr := 0, dmem_addr := 0, ignore_sym_refs := True\<rparr>) = Good st1 \<and>
     symtab_p st1 = [\<lparr>se_name = ''main'', se_address = 4\<rparr>, \<lparr>se_name = ''tab'', se_address = 4\<rparr>]"
  by (simp add: exec_simps)

lemma sample_entry_in: "sample_entry \<in> set ajardsp_insns"
  by (simp add: sample_entry_def ajardsp_insns_def lsu_ldimm_insns_def)

lemma sample_assembles: "assembles False [] sample_entry sample_inst True 0x212342A5"
  by (simp add: assembles_def sample_inst_def sample_entry_def exec_simps)

lemma sample_pred_assembles:
  "assembles False [] sample_entry (sample_inst\<lparr>inst_pred := Some ''pred2''\<rparr>) True 0xA12342A5"
  by (simp add: assembles_def sample_inst_def sample_entry_def exec_simps)

lemma sample_bundle_run: "\<exists>st'. try_assemble_inst_bundle sample_bundle init = Good st'"
  by (simp add: sample_bundle_def sample_inst_def exec_simps)

end
