(* ===== verification/Packet.thy ===== *)
theory Packet
  imports Samples
begin

text \<open>
  The encoding of a bundle as a packet: how instruction words follow each other, with the parallel
  bit telling that another instruction of the bundle follows and the size bit that the instruction
  has a second word.  \<open>split_packet\<close> is the abstract decoder of that format; the decoder of the
  hardware, \<open>rtl/verilog/vliwdec.v\<close>, is \<open>vliwdec\<close>.  The words the assembler emits for a bundle are
  recovered by both.
\<close>

section \<open>The bits of an assembled word\<close>

lemma mask_literals:
  "(0x3fffffff :: u32) = mask 30"
  "(0xFFFF007F :: u32) = NOT (mask 16) OR mask 7"
  "(0xFFFF0003 :: u32) = NOT (mask 16) OR mask 2"
  "(0xF00000FF :: u32) = NOT (mask 28) OR mask 8"
  "(0xC0000003 :: u32) = NOT (mask 30) OR mask 2"
  by (simp_all add: mask_eq_exp_minus_1)

lemma encode_predicate_bits:
  assumes "encode_predicate inst q = Good p" "n < 28"
  shows "bit p n = bit q n"
proof -
  have m: "bit (0x3fffffff :: u32) n"
    using assms(2) by (simp add: mask_literals bit_simps)
  have neg: "\<not> bit PRED_NEG_BIT n"
    unfolding PRED_NEG_BIT_def bit_push_bit_iff using assms(2) by simp
  show ?thesis using assms m neg
    by (auto simp: encode_predicate_def Let_def bit_simps
        split: option.splits if_splits)
qed

text \<open>Outside the operand fields an assembled word is the opcode pattern and the parallel bit.\<close>

lemma assembles_bit:
  assumes "wf_insn d" "assembles ign sy d inst has_next p"
    and "n < 28" "\<not> bit (fields_mask (id_operands d)) n"
  shows "bit p n \<longleftrightarrow> n = 0 \<and> has_next \<or> bit (id_pattern d) n"
proof -
  from assembles_operands[OF assms(1,2)] obtain q where
    q: "encode_operands ign sy (id_operands d) (inst_ops inst)
          (if has_next then id_pattern d OR 1 else id_pattern d) = Good q"
    and p: "encode_predicate inst q = Good p"
    and len: "length (id_operands d) = length (inst_ops inst)"
    by (auto dest: list_all2_lengthD)
  have "list_all wf_field (id_operands d)"
    using assms(1) by (auto simp: wf_insn_def list_all_iff)
  with encode_operands_bits[OF q len] assms(4) encode_predicate_bits[OF p assms(3)]
  show ?thesis by (auto simp: bit_simps)
qed

lemma low_bits_reserved:
  assumes "wf_insn d" "n < 2"
  shows "\<not> bit (fields_mask (id_operands d)) n" "\<not> bit (id_pattern d) n"
proof -
  have "bit (reserved_mask sz) n" "bit (variable_mask sz) n" for sz
    using assms(2) by (cases sz; auto simp: reserved_mask_def variable_mask_def mask_literals bit_simps)+
  with assms(1) show "\<not> bit (fields_mask (id_operands d)) n" "\<not> bit (id_pattern d) n"
    by (auto simp: wf_insn_def dest: and_zero_bit)
qed

lemma assembles_low_bits:
  assumes "wf_insn d" "assembles ign sy d inst has_next p"
  shows "bit (final_word d inst p) 0 = has_next" "bit (final_word d inst p) 1 = is_32 d inst"
proof -
  have "bit p 0 = has_next" "\<not> bit p 1"
    using assembles_bit[OF assms, of 0] assembles_bit[OF assms, of 1] low_bits_reserved[OF assms(1)]
    by auto
  then show "bit (final_word d inst p) 0 = has_next" "bit (final_word d inst p) 1 = is_32 d inst"
    by (auto simp: final_word_def bit_simps SIZE_BIT_def)
qed

text \<open>An unpredicated 16-bit instruction has nothing in the upper half.\<close>

lemma assembles_16_high:
  assumes "wf_insn d" "assembles ign sy d inst has_next p" "\<not> is_32 d inst" "16 \<le> n"
  shows "\<not> bit (final_word d inst p) n"
proof (cases "n < 32")
  case True
  from assms(3) have sz: "id_size d = INST_16" and np: "inst_pred inst = None"
    by (auto simp: is_32_def intro: insn_size.exhaust)
  from assembles_operands[OF assms(1,2)] np obtain
    q: "encode_operands ign sy (id_operands d) (inst_ops inst)
          (if has_next then id_pattern d OR 1 else id_pattern d) = Good p"
    and len: "length (id_operands d) = length (inst_ops inst)"
    by (auto simp: encode_predicate_def dest: list_all2_lengthD)
  have wf: "list_all wf_field (id_operands d)"
    using assms(1) by (auto simp: wf_insn_def list_all_iff)
  have m: "bit (0xFFFF007F :: u32) n" "bit (0xFFFF0003 :: u32) n"
    using assms(4) True by (auto simp: mask_literals bit_simps)
  then have "\<not> bit (fields_mask (id_operands d)) n" "\<not> bit (id_pattern d) n"
    using assms(1) sz by (auto simp: wf_insn_def reserved_mask_def variable_mask_def dest: and_zero_bit)
  with encode_operands_bits[OF q len wf, of n] assms(3,4) show ?thesis
    by (auto simp: final_word_def bit_simps)
qed (auto dest: bit_imp_le_length)


section \<open>Packets\<close>

definition insn_image :: "u16 \<Rightarrow> u16 \<Rightarrow> u32" where
  "insn_image lo hi = ucast lo OR push_bit 16 (ucast hi)"

text \<open>The instruction words of the packet at the head of a word list, and the words after it.\<close>

fun split_packet :: "u16 list \<Rightarrow> (u32 list \<times> u16 list) option" where
  "split_packet [] = None"
| "split_packet [w] =
     (if bit w SIZE_BIT \<or> bit w PAR_BIT then None else Some ([insn_image w 0], []))"
| "split_packet (w # v # rest) =
     (if bit w SIZE_BIT then
        (if bit w PAR_BIT then map_option (\<lambda>(ws, r). (insn_image w v # ws, r)) (split_packet rest)
         else Some ([insn_image w v], rest))
      else
        (if bit w PAR_BIT then map_option (\<lambda>(ws, r). (insn_image w 0 # ws, r)) (split_packet (v # rest))
         else Some ([insn_image w 0], v # rest)))"

lemma insn_image_ucast: "insn_image (ucast w) (ucast (drop_bit 16 w)) = w"
  by (rule bit_word_eqI) (auto simp: insn_image_def bit_simps)

lemma insn_image_low: "(\<And>n. 16 \<le> n \<Longrightarrow> \<not> bit w n) \<Longrightarrow> insn_image (ucast w) 0 = w"
  by (rule bit_word_eqI) (auto simp: insn_image_def bit_simps intro: leI)

text \<open>The instruction words of a bundle.\<close>

definition bundle_insns :: "instruction list \<Rightarrow> (inst_def \<times> u32) list \<Rightarrow> u32 list" where
  "bundle_insns insts ps = map (\<lambda>(inst, d, p). final_word d inst p) (zip insts ps)"

lemma split_packet_16:
  assumes "\<not> bit w SIZE_BIT"
  shows "split_packet (w # rest) =
    (if bit w PAR_BIT then map_option (\<lambda>(ws, r). (insn_image w 0 # ws, r)) (split_packet rest)
     else Some ([insn_image w 0], rest))"
  using assms by (cases rest) auto

lemma split_packet_insn:
  assumes "wf_insn d" "assembles ign sy d inst has_next p"
  shows "split_packet (insn_words d inst p @ rest) =
    (if has_next then map_option (\<lambda>(ws, r). (final_word d inst p # ws, r)) (split_packet rest)
     else Some ([final_word d inst p], rest))"
proof -
  let ?w = "final_word d inst p"
  have b: "bit (ucast ?w :: u16) 0 = has_next" "bit (ucast ?w :: u16) (Suc 0) = is_32 d inst"
    using assembles_low_bits[OF assms] by (simp_all add: bit_simps)
  show ?thesis
  proof (cases "is_32 d inst")
    case True
    with b show ?thesis
      by (simp add: insn_words_def Let_def SIZE_BIT_def PAR_BIT_def insn_image_ucast)
  next
    case False
    then have "insn_image (ucast ?w) 0 = ?w"
      by (intro insn_image_low assembles_16_high[OF assms])
    with False b show ?thesis
      by (simp add: insn_words_def Let_def split_packet_16 SIZE_BIT_def PAR_BIT_def)
  qed
qed

lemma split_packet_bundle:
  assumes "assembled ign sy ajardsp_insns insts ps" "insts \<noteq> []"
  shows "split_packet (bundle_words insts ps @ rest) = Some (bundle_insns insts ps, rest)"
  using assms
proof (induction insts arbitrary: ps)
  case (Cons inst insts)
  from Cons.prems(1) obtain d p qs where ps: "ps = (d, p) # qs" "d \<in> set ajardsp_insns"
    "assembles ign sy d inst (insts \<noteq> []) p" "assembled ign sy ajardsp_insns insts qs"
    by (auto split: list.splits)
  note step = split_packet_insn[OF ajardsp.entry_wf[OF ps(2)] ps(3)]
  show ?case
  proof (cases "insts = []")
    case True
    with ps step show ?thesis by (simp add: bundle_insns_def)
  next
    case False
    with ps step Cons.IH[OF ps(4) False] show ?thesis by (simp add: bundle_insns_def)
  qed
qed simp


section \<open>The hardware decoder\<close>

text \<open>
  \<open>vliwdec.v\<close>: a combinational decoder of a 64-bit fetch window, the word of the lowest address in
  the lowest bits.  The outputs are a record; \<open>inst_n_valid\<close> and \<open>inst_n\<close> are lists indexed by \<open>n\<close>.
\<close>

record vliw_outputs =
  vliw_len :: nat
  inst_valid :: "bool list"
  inst_word :: "u32 list"
  invalid_packet :: bool

definition slice32 :: "nat \<Rightarrow> u64 \<Rightarrow> u32" where "slice32 n v = ucast (drop_bit n v)"
definition slice16 :: "nat \<Rightarrow> u64 \<Rightarrow> u32" where "slice16 n v = ucast (ucast (drop_bit n v) :: u16)"

definition vliwdec :: "u64 \<Rightarrow> vliw_outputs" where
  "vliwdec v =
     (let out = (\<lambda>len v1 i1 v2 i2 v3 i3 inv.
            \<lparr>vliw_len = len, inst_valid = [True, v1, v2, v3],
             inst_word = [slice32 0 v, i1, i2, i3], invalid_packet = inv\<rparr>)
      in
      if bit v 0 then
        (if bit v 1 then
           (let i1 = slice32 32 v in
            if bit v 32 then
              (if bit v 33 then out 0 True i1 False 0 False 0 True
               else out 4 True i1 True (slice16 48 v) False 0 False)
            else out (if bit v 33 then 4 else 3) True i1 False 0 False 0 False)
         else
           (let i1 = slice32 16 v in
            if bit v 16 then
              (if bit v 17 then out 4 True i1 True (slice16 48 v) False 0 False
               else
                 (let i2 = slice32 32 v in
                  if bit v 32 then out 4 True i1 True i2 True (slice16 48 v) False
                  else out (if bit v 33 then 4 else 3) True i1 True i2 False 0 False))
            else out (if bit v 17 then 3 else 2) True i1 False 0 False 0 False))
      else out (if bit v 1 then 2 else 1) False 0 False 0 False 0 False)"

text \<open>The fetch window of four words, lowest address first.\<close>

definition fetch_window :: "u16 \<Rightarrow> u16 \<Rightarrow> u16 \<Rightarrow> u16 \<Rightarrow> u64" where
  "fetch_window w0 w1 w2 w3 =
     ucast w0 OR push_bit 16 (ucast w1) OR push_bit 32 (ucast w2) OR push_bit 48 (ucast w3)"

lemma bit_fetch_window:
  "n < 16 \<Longrightarrow> bit (fetch_window w0 w1 w2 w3) n = bit w0 n"
  "16 \<le> n \<Longrightarrow> n < 32 \<Longrightarrow> bit (fetch_window w0 w1 w2 w3) n = bit w1 (n - 16)"
  "32 \<le> n \<Longrightarrow> n < 48 \<Longrightarrow> bit (fetch_window w0 w1 w2 w3) n = bit w2 (n - 32)"
  "48 \<le> n \<Longrightarrow> n < 64 \<Longrightarrow> bit (fetch_window w0 w1 w2 w3) n = bit w3 (n - 48)"
  by (auto simp: fetch_window_def bit_simps dest: bit_imp_le_length)

lemma slices:
  "slice32 0 (fetch_window w0 w1 w2 w3) = insn_image w0 w1"
  "slice32 16 (fetch_window w0 w1 w2 w3) = insn_image w1 w2"
  "slice32 32 (fetch_window w0 w1 w2 w3) = insn_image w2 w3"
  "slice16 48 (fetch_window w0 w1 w2 w3) = insn_image w3 0"
  by (rule bit_word_eqI; auto simp: slice32_def slice16_def fetch_window_def insn_image_def bit_simps
        dest: bit_imp_le_length)+

text \<open>What a functional unit takes from an instruction word: all of it, or its lower half.\<close>

definition insn_view :: "u32 \<Rightarrow> u32" where
  "insn_view w = (if bit w SIZE_BIT then w else w AND 0xffff)"

lemma insn_view_image:
  "insn_view (insn_image w v) = (if bit w SIZE_BIT then insn_image w v else insn_image w 0)"
proof -
  have b: "bit (insn_image w v) SIZE_BIT = bit w SIZE_BIT"
    by (auto simp: insn_image_def bit_simps SIZE_BIT_def)
  have m: "(0xffff :: u32) = mask 16" by (simp add: mask_eq_exp_minus_1)
  have "insn_image w v AND 0xffff = insn_image w 0"
    unfolding m by (rule bit_word_eqI) (auto simp: insn_image_def bit_simps dest: bit_imp_le_length)
  with b show ?thesis by (simp add: insn_view_def)
qed

text \<open>
  A packet that \<open>split_packet\<close> finds in the window is decoded by the hardware: same length, same
  number of instructions, each seen by the functional units as the word of the packet.
\<close>

definition decodes :: "u16 list \<Rightarrow> vliw_outputs \<Rightarrow> bool" where
  "decodes ws out \<longleftrightarrow>
     (case split_packet ws of
        None \<Rightarrow> False
      | Some (insns, rest) \<Rightarrow>
          \<not> invalid_packet out \<and> vliw_len out = length ws - length rest \<and>
          inst_valid out = map (\<lambda>i. i < length insns) [0, 1, 2, 3] \<and>
          map insn_view (take (length insns) (inst_word out)) = insns)"

lemma vliwdec_decodes:
  assumes "split_packet [w0, w1, w2, w3] \<noteq> None"
  shows "decodes [w0, w1, w2, w3] (vliwdec (fetch_window w0 w1 w2 w3))"
  using assms
  by (auto simp: decodes_def vliwdec_def Let_def slices bit_fetch_window insn_view_image
      SIZE_BIT_def PAR_BIT_def split: if_splits)


lemma assembled_length: "assembled ign sy tab insts ps \<Longrightarrow> length ps = length insts"
  by (induction ign sy tab insts ps rule: assembled.induct) (auto split: list.splits)

lemma window_words:
  assumes "length ws \<le> 4" "\<And>i. i < length ws \<Longrightarrow> m (a + of_nat i) = ws ! i"
  shows "\<exists>rest. [m a, m (a + 1), m (a + 2), m (a + 3)] = ws @ rest"
proof -
  let ?l = "[m a, m (a + 1), m (a + 2), m (a + 3)]"
  have "?l ! i = m (a + of_nat i)" if "i < 4" for i
    using that by (auto simp: numeral_eq_Suc less_Suc_eq)
  with assms have "take (length ws) ?l = ws" by (intro nth_equalityI) auto
  then show ?thesis by (metis append_take_drop_id)
qed

text \<open>C6: the words that the assembler stores for a bundle are a packet of at most four words; the
  splitter recovers from them, whatever follows, exactly the instruction words of the table entries
  that assemble the instructions.\<close>

theorem bundle_packet_roundtrip:
  assumes "try_assemble_inst_bundle ib st = Good st'" "ib_insts ib \<noteq> []"
  shows "\<exists>ps ws. assembled (ignore_sym_refs st) (symtab_p st) ajardsp_insns (ib_insts ib) ps \<and>
    length ws \<le> 4 \<and> imem_addr st' = imem_addr st + of_nat (length ws) \<and>
    (\<forall>i<length ws. imem st' (imem_addr st + of_nat i) = ws ! i) \<and>
    (\<forall>rest. split_packet (ws @ rest) = Some (bundle_insns (ib_insts ib) ps, rest))"
proof -
  from try_assemble_words[OF assms(1)] obtain ps where
    ps: "assembled (ignore_sym_refs st) (symtab_p st) ajardsp_insns (ib_insts ib) ps"
      "st' = write_imem (bundle_words (ib_insts ib) ps) st"
      "length (bundle_words (ib_insts ib) ps) \<le> 4" by blast
  with split_packet_bundle[OF ps(1) assms(2)] show ?thesis
    by (intro exI[of _ ps] exI[of _ "bundle_words (ib_insts ib) ps"])
      (simp add: imem_write_imem store_words_nth)
qed

text \<open>C7: the hardware decoder, given the four words at the address where a bundle was assembled,
  finds a valid packet whose length is the length of the bundle and issues exactly the instruction
  words of the bundle.\<close>

theorem hardware_decodes_bundle:
  assumes "try_assemble_inst_bundle ib st = Good st'" "ib_insts ib \<noteq> []"
  shows "\<exists>ps. assembled (ignore_sym_refs st) (symtab_p st) ajardsp_insns (ib_insts ib) ps \<and>
    (let a = imem_addr st; n = length (ib_insts ib);
         out = vliwdec (fetch_window (imem st' a) (imem st' (a + 1)) (imem st' (a + 2)) (imem st' (a + 3)))
     in \<not> invalid_packet out \<and> imem_addr st' = a + of_nat (vliw_len out) \<and>
        inst_valid out = map (\<lambda>i. i < n) [0, 1, 2, 3] \<and>
        map insn_view (take n (inst_word out)) = bundle_insns (ib_insts ib) ps)"
proof -
  from try_assemble_words[OF assms(1)] obtain ps where
    ps: "assembled (ignore_sym_refs st) (symtab_p st) ajardsp_insns (ib_insts ib) ps"
      "st' = write_imem (bundle_words (ib_insts ib) ps) st"
      "length (bundle_words (ib_insts ib) ps) \<le> 4" by blast
  let ?ws = "bundle_words (ib_insts ib) ps" and ?a = "imem_addr st"
  let ?l = "[imem st' ?a, imem st' (?a + 1), imem st' (?a + 2), imem st' (?a + 3)]"
  have "imem st' (?a + of_nat i) = ?ws ! i" if "i < length ?ws" for i
    using that ps(3) by (simp add: ps(2) imem_write_imem store_words_nth)
  with ps(3) obtain rest where rest: "?l = ?ws @ rest"
    using window_words[of ?ws "imem st'" ?a] by blast
  then have sp: "split_packet ?l = Some (bundle_insns (ib_insts ib) ps, rest)"
    using split_packet_bundle[OF ps(1) assms(2)] by simp
  have "length ?l - length rest = length ?ws" by (simp only: rest) simp
  moreover have len: "length (bundle_insns (ib_insts ib) ps) = length (ib_insts ib)"
    using assembled_length[OF ps(1)] by (simp add: bundle_insns_def)
  moreover from len assms(2) have "bundle_insns (ib_insts ib) ps \<noteq> []" by auto
  ultimately show ?thesis
    using vliwdec_decodes[of "imem st' ?a" "imem st' (?a + 1)" "imem st' (?a + 2)" "imem st' (?a + 3)"]
      sp ps(1,2) assms(2)
    by (intro exI[of _ ps]) (simp add: decodes_def Let_def)
qed

section \<open>Completeness of the search\<close>

text \<open>No table entry reads beyond the operands of the instruction.\<close>

definition no_crash :: "bool \<Rightarrow> symtab \<Rightarrow> instruction \<Rightarrow> inst_def \<Rightarrow> bool" where
  "no_crash ign sy inst d \<longleftrightarrow> id_mnemonic d = inst_mnemonic inst \<longrightarrow>
     operand_match d inst \<noteq> Undef \<and>
     (operand_match d inst = Good () \<longrightarrow> (\<forall>has_next. encode_insn ign sy d inst has_next \<noteq> Undef))"

lemma try_defs_skip:
  assumes "\<And>d. d \<in> set ds \<Longrightarrow> no_crash (ignore_sym_refs (fst s)) (symtab_p (fst s)) inst d"
    and "\<And>d p. d \<in> set ds \<Longrightarrow> \<not> assembles (ignore_sym_refs (fst s)) (symtab_p (fst s)) d inst has_next p"
  shows "try_defs ds inst has_next s b = Good (s, b)"
  using assms
proof (induction ds)
  case (Cons d ds)
  have "try_defs ds inst has_next s b = Good (s, b)" using Cons by simp
  moreover have "no_crash (ignore_sym_refs (fst s)) (symtab_p (fst s)) inst d"
    "\<And>p. \<not> assembles (ignore_sym_refs (fst s)) (symtab_p (fst s)) d inst has_next p"
    using Cons.prems by simp_all
  ultimately show ?case
    by (auto simp: no_crash_def assembles_def split: outcome.splits)
qed simp

lemma try_defs_complete:
  assumes "d \<in> set ds" "assembles (ignore_sym_refs (fst s)) (symtab_p (fst s)) d inst has_next p"
    and "emit_insn d inst p s = Good s'" "list_all wf_insn ds" "all_pairs exclusive ds"
    and "\<And>d. d \<in> set ds \<Longrightarrow> no_crash (ignore_sym_refs (fst s)) (symtab_p (fst s)) inst d"
  shows "try_defs ds inst has_next s b = Good (s', True)"
  using assms
proof (induction ds)
  case (Cons e ds)
  note frame = emit_insn_frame[OF Cons.prems(3)]
  show ?case
  proof (cases "e = d")
    case True
    have "try_defs ds inst has_next s' True = Good (s', True)"
    proof (rule try_defs_skip)
      fix e' q assume e': "e' \<in> set ds"
      show "no_crash (ignore_sym_refs (fst s')) (symtab_p (fst s')) inst e'"
        using Cons.prems(6) e' frame by simp
      from e' Cons.prems True have "wf_insn d" "wf_insn e'" "exclusive d e'"
        by (auto simp: list_all_iff)
      from assembles_exclusive[OF this Cons.prems(2)]
      show "\<not> assembles (ignore_sym_refs (fst s')) (symtab_p (fst s')) e' inst has_next q" by blast
    qed
    with True Cons.prems(2,3) show ?thesis by (simp add: assembles_def)
  next
    case False
    with Cons.prems(1) have d: "d \<in> set ds" by simp
    with Cons.prems(4,5) have "wf_insn e" "wf_insn d" "exclusive e d" by (auto simp: list_all_iff)
    then have "\<not> assembles (ignore_sym_refs (fst s)) (symtab_p (fst s)) e inst has_next q" for q
      using assembles_exclusive Cons.prems(2) by blast
    with Cons.prems(6)[of e] Cons.IH[OF d Cons.prems(2,3)] Cons.prems(4-6) show ?thesis
      by (auto simp: no_crash_def assembles_def split: outcome.splits)
  qed
qed simp

context insn_set
begin

lemma bundle_loop_complete:
  assumes "assembled (ignore_sym_refs st) (symtab_p st) tab insts ps"
    and "n + length (bundle_words insts ps) \<le> 4"
    and "unat (imem_addr st) + length (bundle_words insts ps) \<le> 65536"
    and "\<forall>inst\<in>set insts. \<forall>d\<in>set tab. no_crash (ignore_sym_refs st) (symtab_p st) inst d"
  shows "bundle_loop tab insts (st, n) =
    Good (write_imem (bundle_words insts ps) st, n + length (bundle_words insts ps))"
  using assms
proof (induction insts arbitrary: st n ps)
  case (Cons inst rest)
  from Cons.prems(1) obtain d p qs where ps: "ps = (d, p) # qs" "d \<in> set tab"
    "assembles (ignore_sym_refs st) (symtab_p st) d inst (rest \<noteq> []) p"
    "assembled (ignore_sym_refs st) (symtab_p st) tab rest qs" by (auto split: list.splits)
  let ?ws = "insn_words d inst p"
  have len: "length ?ws = (if is_32 d inst then 2 else 1)" by (simp add: insn_words_def Let_def)
  have "imem_addr st \<noteq> 0xffff" if "is_32 d inst"
  proof
    assume "imem_addr st = 0xffff"
    with Cons.prems(3) ps(1) len that show False by simp
  qed
  then have "emit_insn d inst p (st, n) = Good (write_imem ?ws st, n + length ?ws)"
    by (auto simp: emit_insn_Good)
  from try_defs_complete[OF ps(2) _ this all_wf pairwise_exclusive] ps(3) Cons.prems(4)
  have t: "try_defs tab inst (rest \<noteq> []) (st, n) False = Good ((write_imem ?ws st, n + length ?ws), True)"
    by simp
  have b: "bundle_loop tab rest (write_imem ?ws st, n + length ?ws) =
    Good (write_imem (bundle_words rest qs) (write_imem ?ws st), n + length ?ws + length (bundle_words rest qs))"
  proof (cases "rest = []")
    case True
    with ps(4) show ?thesis by simp
  next
    case False
    with ps(4) obtain e q qs' inst' rest' where "qs = (e, q) # qs'" "rest = inst' # rest'"
      by (cases rest; cases qs) auto
    then have pos: "0 < length (bundle_words rest qs)" by (simp add: insn_words_def Let_def)
    have lt: "unat (imem_addr st) + length ?ws < 65536"
      using Cons.prems(3) ps(1) pos by (simp del: length_greater_0_conv)
    then have "unat (imem_addr st + of_nat (length ?ws)) = unat (imem_addr st) + length ?ws"
      by (simp add: unat_word_ariths(1) unat_of_nat)
    then show ?thesis using ps Cons.prems by (intro Cons.IH) auto
  qed
  with t ps(1) Cons.prems(2) show ?case by (simp add: write_imem_append)
qed simp

end

section \<open>Properties\<close>

text \<open>How a table entry is matched with an instruction: it is taken when the operands agree in
  number and types with its definitions, rejected when they differ or there are too many, and when all
  the operands agree but there are too few of them, a NULL pointer is dereferenced.\<close>

theorem operand_match_outcomes:
  assumes "wf_insn d"
  shows "operand_match d inst =
    (if list_all2 (\<lambda>f op. od_type f = op_type op) (id_operands d) (inst_ops inst) then Good ()
     else if length (inst_ops inst) < length (id_operands d) \<and>
             list_all2 (\<lambda>f op. od_type f = op_type op) (take (length (inst_ops inst)) (id_operands d)) (inst_ops inst)
     then Undef else Fail ())"
  using operand_match_loop_Good[of "id_operands d" "inst_ops inst" "()"]
    operand_match_loop_Undef[of "id_operands d" "inst_ops inst"]
  by (cases "operand_match_loop (id_operands d) (inst_ops inst)")
    (auto simp: operand_match_def take_operand_array[OF assms])

theorem operand_match_outcomes_witness:
  "operand_match sample_entry (plain_inst ''ldimm16'' [int_operand 1]) = Undef"
  using operand_match_outcomes[OF ajardsp.entry_wf[OF sample_entry_in], of "plain_inst ''ldimm16'' [int_operand 1]"]
  by (simp add: sample_entry_def lsu_ldimm_insns_def insn_def opnd_def plain_inst_def int_operand_def)

text \<open>C9: an instruction is assembled by at most one entry of the table, although the search does not
  stop at the first: two entries that both encode it, in any two symbol tables and passes, are the
  same entry.\<close>

theorem entry_unique:
  assumes "d \<in> set ajardsp_insns" "e \<in> set ajardsp_insns"
    and "assembles ign sy d inst has_next p" "assembles ign' sy' e inst has_next' p'"
  shows "d = e"
  by (rule ajardsp.unique_entry[OF assms])

theorem entry_unique_witness:
  "\<exists>!d. d \<in> set ajardsp_insns \<and> (\<exists>p. assembles False [] d sample_inst True p)"
  using sample_entry_in sample_assembles entry_unique[OF _ sample_entry_in _ sample_assembles] by blast

text \<open>C8: a bundle is assembled exactly when every instruction has an entry that encodes it and the
  words are at most four; then the words are stored one after the other.  This holds where no entry
  of the mnemonic makes the matcher crash and the bundle ends within the instruction memory.\<close>

theorem bundle_assembles_iff:
  assumes "\<forall>inst\<in>set (ib_insts ib). \<forall>d\<in>set ajardsp_insns. no_crash (ignore_sym_refs st) (symtab_p st) inst d"
    and "unat (imem_addr st) \<le> 65532"
  shows "try_assemble_inst_bundle ib st = Good st' \<longleftrightarrow>
    (\<exists>ps. assembled (ignore_sym_refs st) (symtab_p st) ajardsp_insns (ib_insts ib) ps \<and>
          length (bundle_words (ib_insts ib) ps) \<le> 4 \<and> st' = write_imem (bundle_words (ib_insts ib) ps) st)"
proof
  assume "\<exists>ps. assembled (ignore_sym_refs st) (symtab_p st) ajardsp_insns (ib_insts ib) ps \<and>
          length (bundle_words (ib_insts ib) ps) \<le> 4 \<and> st' = write_imem (bundle_words (ib_insts ib) ps) st"
  then obtain ps where
    ps: "assembled (ignore_sym_refs st) (symtab_p st) ajardsp_insns (ib_insts ib) ps"
      "length (bundle_words (ib_insts ib) ps) \<le> 4" "st' = write_imem (bundle_words (ib_insts ib) ps) st" by blast
  show "try_assemble_inst_bundle ib st = Good st'"
    using ajardsp.bundle_loop_complete[OF ps(1), of 0] ps(2,3) assms
    by (simp add: try_assemble_inst_bundle_def)
qed (use try_assemble_words in blast)

theorem bundle_assembles_iff_witness:
  "\<exists>ps. assembled False [] ajardsp_insns (ib_insts sample_bundle) ps \<and>
     length (bundle_words (ib_insts sample_bundle) ps) \<le> 4"
proof -
  have "\<forall>inst\<in>set (ib_insts sample_bundle). \<forall>d\<in>set ajardsp_insns.
      no_crash (ignore_sym_refs init) (symtab_p init) inst d"
    by (simp add: no_crash_def sample_bundle_def sample_inst_def exec_simps)
  from bundle_assembles_iff[OF this] sample_bundle_run show ?thesis by (auto simp: init_def)
qed

text \<open>Assembling a bundle writes at most four consecutive words from the current address on and
  advances the address by their number; no other cell and nothing else of the state changes.\<close>

theorem bundle_frame:
  assumes "try_assemble_inst_bundle ib st = Good st'"
  shows "\<exists>n\<le>4. imem_addr st' = imem_addr st + of_nat n \<and>
    (\<forall>a. (\<forall>i<n. a \<noteq> imem_addr st + of_nat i) \<longrightarrow> imem st' a = imem st a) \<and>
    st' = st\<lparr>imem := imem st', imem_addr := imem_addr st'\<rparr>"
proof -
  from try_assemble_words[OF assms] obtain ws where ws: "st' = write_imem ws st" "length ws \<le> 4" by blast
  have "write_imem ws st = st\<lparr>imem := imem (write_imem ws st), imem_addr := imem_addr (write_imem ws st)\<rparr>"
    by simp
  with ws show ?thesis
    by (intro exI[of _ "length ws"]) (auto simp: imem_write_imem store_words_other)
qed

theorem bundle_frame_witness:
  "\<exists>st' n. try_assemble_inst_bundle sample_bundle init = Good st' \<and> n \<le> 4 \<and> imem_addr st' = of_nat n"
  using sample_bundle_run bundle_frame[of sample_bundle init] by (fastforce simp: init_def)

text \<open>A predicated instruction always takes two words, whatever its format: the size bit is set,
  the top two bits are the number of the predicate register and a negation sets bit 28.\<close>

theorem predicated_words:
  assumes "d \<in> set ajardsp_insns" "assembles ign sy d inst has_next p"
    and "inst_pred inst = Some (''pred'' @ ds)" "atoi ds = Some k"
  shows "length (insn_words d inst p) = 2 \<and> bit (final_word d inst p) 1 \<and>
    drop_bit 30 (final_word d inst p) = k AND 3 \<and>
    (inst_pred_neg inst \<noteq> 0 \<longrightarrow> bit (final_word d inst p) 28)"
proof -
  have is32: "is_32 d inst" using assms(3) by (simp add: is_32_def)
  from assembles_operands[OF ajardsp.entry_wf[OF assms(1)] assms(2)] obtain q where
    "encode_predicate inst q = Good p" by blast
  then have p: "p = ((if inst_pred_neg inst \<noteq> 0 then q OR PRED_NEG_BIT else q) AND mask 30) OR push_bit 30 (k AND 3)"
    using assms(3,4) by (simp add: encode_predicate_def strncmp_eq_def Let_def mask_literals)
  have three: "(3 :: u32) = mask 2" by (simp add: mask_eq_exp_minus_1)
  have "drop_bit 30 (final_word d inst p) = k AND 3"
    unfolding three by (rule bit_word_eqI)
      (auto simp: final_word_def is32 p three SIZE_BIT_def bit_simps dest: bit_imp_le_length)
  moreover have "bit PRED_NEG_BIT 28" unfolding PRED_NEG_BIT_def bit_push_bit_iff by simp
  then have "inst_pred_neg inst \<noteq> 0 \<longrightarrow> bit (final_word d inst p) 28"
    by (auto simp: final_word_def is32 p bit_simps)
  moreover have "bit (final_word d inst p) 1"
    using assembles_low_bits(2)[OF ajardsp.entry_wf[OF assms(1)] assms(2)] is32 by simp
  ultimately show ?thesis using is32 by (simp add: insn_words_def Let_def)
qed

theorem predicated_words_witness:
  "drop_bit 30 (final_word sample_entry (sample_inst\<lparr>inst_pred := Some ''pred2''\<rparr>) 0xA12342A5) = 2"
  using predicated_words[OF sample_entry_in sample_pred_assembles, of "''2''" 2]
  by (simp add: exec_simps)

theorem bundle_packet_roundtrip_witness:
  "\<exists>ps ws. assembled False [] ajardsp_insns (ib_insts sample_bundle) ps \<and>
     split_packet (ws @ [0xffff]) = Some (bundle_insns (ib_insts sample_bundle) ps, [0xffff])"
proof -
  obtain st' where "try_assemble_inst_bundle sample_bundle init = Good st'" using sample_bundle_run by blast
  from bundle_packet_roundtrip[OF this] show ?thesis
    by (auto simp: sample_bundle_def code_bundle_def init_def)
qed

theorem hardware_decodes_bundle_witness:
  "\<exists>ps v. assembled False [] ajardsp_insns (ib_insts sample_bundle) ps \<and>
     inst_valid (vliwdec v) = [True, True, False, False] \<and>
     map insn_view (take 2 (inst_word (vliwdec v))) = bundle_insns (ib_insts sample_bundle) ps"
proof -
  obtain st' where "try_assemble_inst_bundle sample_bundle init = Good st'" using sample_bundle_run by blast
  moreover have n: "ib_insts sample_bundle \<noteq> []" "length (ib_insts sample_bundle) = 2"
    by (simp_all add: sample_bundle_def code_bundle_def)
  ultimately show ?thesis
    using hardware_decodes_bundle[of sample_bundle init st'] by (auto simp: n(2) init_def Let_def)
qed

end
