(* ===== verification/Layout.thy ===== *)
theory Layout
  imports Samples
begin

text \<open>
  The two passes agree.  Pass 0 gives a label the address at which pass 1 then places what follows
  it, so a reference to a label is a reference to the code or the data behind it.  What pass 1
  leaves in the memories is described independently of the order of the stores: \<open>code_image\<close> for
  the instruction memory and \<open>data_image\<close> for the data memory.
\<close>

section \<open>Walking a list\<close>

lemma obind_cong: "r = r' \<Longrightarrow> (\<And>x. r' = Good x \<Longrightarrow> f x = g x) \<Longrightarrow> obind r f = obind r' g"
  by (cases r'; simp)

lemma walk_append: "walk f (xs @ ys) st = obind (walk f xs st) (walk f ys)"
  by (induction xs arbitrary: st) (simp_all add: obind_assoc cong: obind_cong)

lemma walk_append_Good:
  "walk f (xs @ ys) st = Good st' \<longleftrightarrow> (\<exists>s. walk f xs st = Good s \<and> walk f ys s = Good st')"
  by (simp add: walk_append obind_eq_Good)

text \<open>A relation between two states that two step functions keep is kept by two walks.\<close>

lemma walk_sim:
  assumes step: "\<And>x s s' t t'. x \<in> set xs \<Longrightarrow> R s t \<Longrightarrow> f x s = Good s' \<Longrightarrow> g x t = Good t' \<Longrightarrow> R s' t'"
    and "R s t" "walk f xs s = Good s'" "walk g xs t = Good t'"
  shows "R s' t'"
  using assms
proof (induction xs arbitrary: s t)
  case (Cons x xs)
  from Cons.prems(3,4) obtain s1 t1 where 1: "f x s = Good s1" "walk f xs s1 = Good s'"
    "g x t = Good t1" "walk g xs t1 = Good t'" by (auto simp: obind_eq_Good)
  have "R s1 t1" by (rule Cons.prems(1)[OF _ Cons.prems(2) 1(1,3)]) simp
  show ?case
    by (rule Cons.IH[OF Cons.prems(1) \<open>R s1 t1\<close> 1(2,4)]) simp_all
qed simp

lemma walk_invariant:
  assumes "\<And>x s s'. x \<in> set xs \<Longrightarrow> P s \<Longrightarrow> f x s = Good s' \<Longrightarrow> P s'"
    and "P s" "walk f xs s = Good s'"
  shows "P s'"
  using walk_sim[of xs "\<lambda>s t. P s" f f s s s' s'] assms by blast

section \<open>The alignment arithmetic\<close>

text \<open>\<open>(a + k) & ~k\<close> is at least \<open>a\<close> when \<open>a + k\<close> stays below the sign bit.\<close>

lemma and_not_minus: "(x :: 'a :: len word) AND NOT k = x - (x AND k)"
proof -
  have d: "(x AND NOT k) AND (x AND k) = 0" "(x AND NOT k) OR (x AND k) = x"
    by (rule bit_word_eqI; auto simp: bit_simps)+
  have "x = (x AND NOT k) + (x AND k)"
    using word_plus_and_or[of "x AND NOT k" "x AND k"] by (simp add: d)
  then show ?thesis by (metis add_diff_cancel_right')
qed

lemma aligned_ge:
  fixes a k :: u32
  assumes "uint a + uint k < 2 ^ 31"
  shows "uint a \<le> uint ((a + k) AND NOT k) \<and> uint ((a + k) AND NOT k) \<le> uint a + uint k"
proof -
  have s: "uint (a + k) = uint a + uint k" using assms by (simp add: uint_word_ariths(1))
  have m: "uint ((a + k) AND k) \<le> uint k"
    by (simp add: uint_and AND_upper2)
  have "uint ((a + k) - ((a + k) AND k)) = uint (a + k) - uint ((a + k) AND k)"
    by (rule uint_sub_if' [THEN trans]) (use s order_trans [OF m, of "uint (a + k)"] in simp)
  with s m assms uint_nonnegative[of "(a + k) AND k"] show ?thesis
    unfolding and_not_minus by linarith
qed

definition good_align :: "i32 \<Rightarrow> bool" where
  "good_align align \<longleftrightarrow> 1 \<le> sint align \<and> sint align \<le> 0x7fff0000"

lemma nops_to_add:
  assumes "good_align align"
  shows "0 \<le> sint (nops_to_add align addr)"
    and "sint (nops_to_add align addr) < sint align"
    and "addr + of_nat (nat (sint (nops_to_add align addr))) = align_addr align addr"
proof -
  let ?a = "ucast addr :: u32" and ?k = "align - 1"
  let ?x = "(?a + ?k) AND NOT ?k" and ?n = "nops_to_add align addr"
  have k: "uint ?k = sint align - 1" using assms by (simp add: good_align_def uint_minus_one)
  have "uint addr < 2 ^ 16" using uint_bounded [of addr] by simp
  then have "uint ?a + uint ?k < 2 ^ 31"
    using assms unfolding k by (simp add: good_align_def uint_ucast_u16)
  from this aligned_ge[OF this] have x: "uint ?a \<le> uint ?x" "uint ?x < 2 ^ 31"
    "uint ?x \<le> uint ?a + uint ?k" by auto
  have n: "?n = ?x - ?a" by (simp add: nops_to_add_def algebra_simps)
  have un: "uint ?n = uint ?x - uint ?a" unfolding n by (rule uint_sub_if' [THEN trans]) (use x in simp)
  have sn: "sint ?n = uint ?n"
    by (rule sint_eq_uint_small) (use un x uint_nonnegative [of ?a] in linarith)
  show "0 \<le> sint ?n" by (simp add: sn)
  show "sint ?n < sint align" using x(3) k by (simp add: sn un)
  have "of_nat (nat (sint ?n)) = (ucast ?n :: u16)"
    by (simp add: sn)
  moreover have "(ucast ?n :: u16) + addr = ucast (?n + ?a)"
    by (simp add: ucast_add_u16 ucast_ucast_u16)
  moreover have "\<dots> = align_addr align addr"
    by (simp add: n align_addr_def ucast_and_not ucast_add_u16 ucast_ucast_u16)
  ultimately show "addr + of_nat (nat (sint ?n)) = align_addr align addr"
    by (simp add: add.commute)
qed

section \<open>The addresses of pass 0 are those of pass 1\<close>

text \<open>The directives for which both passes reserve the same space.\<close>

definition good_skip :: "data_element \<Rightarrow> bool" where
  "good_skip data \<longleftrightarrow> 0 \<le> sint (de_skip_length data)"

definition good_bundle :: "inst_bundle \<Rightarrow> bool" where
  "good_bundle ib \<longleftrightarrow> ib_align ib = 0 \<or> good_align (ib_align ib)"

lemma assemble_bundle_Good:
  "assemble_bundle ib st = Good st' \<longleftrightarrow> try_assemble_inst_bundle ib st = Good st'"
  by (auto simp: assemble_bundle_def split: outcome.splits list.splits)

lemma pad_align_addr:
  assumes "good_align align"
  shows "imem_addr (pad_align align st) = align_addr align (imem_addr st)"
proof -
  note n = nops_to_add[OF assms, of "imem_addr st"]
  let ?n = "nops_to_add align (imem_addr st)"
  show ?thesis
  proof (cases "0 < sint ?n")
    case True
    then have "of_nat (nat (sint ?n)) = (of_nat (nat (sint ?n - 1)) + 1 :: u16)"
      by (metis Suc_nat_eq_nat_zadd1 add.commute diff_add_cancel int_one_le_iff_zero_less of_nat_Suc zle_diff1_eq diff_ge_0_iff_ge)
    with True n(3) show ?thesis by (simp add: pad_align_def Let_def add.assoc)
  next
    case False
    with n show ?thesis by (simp add: pad_align_def Let_def)
  qed
qed

lemma pass_bundle_addr:
  assumes "good_bundle ib" "imem_addr s = imem_addr t"
    and "pass_0_bundle ib s = Good s'" "pass_1_bundle ib t = Good t'"
  shows "imem_addr s' = imem_addr t'"
proof (cases "ib_label ib \<noteq> None \<or> ib_align ib \<noteq> 0")
  case True
  with assms show ?thesis
    by (auto simp: pass_0_bundle_def pass_1_bundle_def define_label_def good_bundle_def
        pad_align_addr split: option.splits)
next
  case False
  with assms(3,4) obtain u where "try_assemble_inst_bundle ib s = Good s'"
    "try_assemble_inst_bundle ib u = Good t'" and u: "imem_addr u = imem_addr t"
    by (auto simp: pass_0_bundle_def pass_1_bundle_def assemble_bundle_Good split: list.splits)
  then obtain ps qs where
    "assembled (ignore_sym_refs s) (symtab_p s) ajardsp_insns (ib_insts ib) ps"
    "s' = write_imem (bundle_words (ib_insts ib) ps) s"
    "assembled (ignore_sym_refs u) (symtab_p u) ajardsp_insns (ib_insts ib) qs"
    "t' = write_imem (bundle_words (ib_insts ib) qs) u"
    using try_assemble_words by blast
  moreover from this length_bundle_words[OF ajardsp.assembled_same_entries]
  have "length (bundle_words (ib_insts ib) ps) = length (bundle_words (ib_insts ib) qs)" by blast
  ultimately show ?thesis using assms(2) u by simp
qed

lemma write_dmem_frame [simp]:
  "ignore_sym_refs (write_dmem ws st) = ignore_sym_refs st"
  "symtab_p (write_dmem ws st) = symtab_p st"
  "imem (write_dmem ws st) = imem st"
  "imem_addr (write_dmem ws st) = imem_addr st"
  "lineno_fp (write_dmem ws st) = lineno_fp st"
  by (induction ws arbitrary: st) simp_all

lemma dmem_addr_write_dmem [simp]:
  "dmem_addr (write_dmem ws st) = dmem_addr st + of_nat (length ws)"
  by (induction ws arbitrary: st) (simp_all add: algebra_simps)

lemma of_nat_sint_u16: "0 \<le> sint (v :: i32) \<Longrightarrow> of_nat (nat (sint v)) = (ucast v :: u16)"
  by (simp add: uint_eq_sint_pos [symmetric])

lemma pass_data_addr:
  assumes "good_skip data" "dmem_addr s = dmem_addr t"
    and "pass_0_data_element data s = Good s'" "pass_1_data_element data t = Good t'"
  shows "dmem_addr s' = dmem_addr t'"
  using assms of_nat_sint_u16
  by (auto simp: pass_0_data_element_def pass_1_data_element_def define_label_def good_skip_def
      split: option.splits if_splits)

section \<open>The symbol table\<close>

lemma define_label_Good:
  "define_label l addr s = Good s' \<longleftrightarrow>
     symtab_lookup l (symtab_p s) = None \<and> s' = s\<lparr>symtab_p := symtab_add l (ucast addr) (symtab_p s)\<rparr>"
  by (auto simp: define_label_def split: option.splits)

lemma assemble_frame:
  assumes "assemble_bundle ib s = Good s'"
  shows "symtab_p s' = symtab_p s" "ignore_sym_refs s' = ignore_sym_refs s"
    "dmem s' = dmem s" "dmem_addr s' = dmem_addr s"
  using assms try_assemble_words[of ib s s'] by (auto simp: assemble_bundle_Good)

lemma lookup_None_iff: "symtab_lookup n tab = None \<longleftrightarrow> n \<notin> se_name ` set tab"
  by (induction tab) auto

text \<open>The contract of both halves of pass 0: a step with a label adds it, fresh, at the current address.\<close>

locale label_pass =
  fixes step :: "'b \<Rightarrow> asm_state \<Rightarrow> (asm_state, asm_error) outcome"
    and label_of :: "'b \<Rightarrow> string option"
    and here :: "asm_state \<Rightarrow> u16"
  assumes step_symtab: "step x s = Good s' \<Longrightarrow>
      symtab_p s' = (case label_of x of None \<Rightarrow> symtab_p s
                     | Some l \<Rightarrow> symtab_add l (ucast (here s)) (symtab_p s))"
    and step_fresh: "step x s = Good s' \<Longrightarrow> label_of x = Some l \<Longrightarrow> symtab_lookup l (symtab_p s) = None"
begin

lemma step_keeps:
  assumes "step x s = Good s'" "symtab_lookup n (symtab_p s) = Some a"
  shows "symtab_lookup n (symtab_p s') = Some a"
  using assms(2) step_symtab[OF assms(1)] step_fresh[OF assms(1)] st.lookup_add_fresh
  by (auto split: option.splits)

lemma walk_keeps:
  assumes "walk step xs s = Good s'" "symtab_lookup n (symtab_p s) = Some a"
  shows "symtab_lookup n (symtab_p s') = Some a"
  using walk_invariant[where P = "\<lambda>s. symtab_lookup n (symtab_p s) = Some a", OF step_keeps assms(2,1)] .

text \<open>The label of \<open>x\<close> is bound to the address reached before \<open>x\<close>, and stays so.\<close>

lemma walk_binds:
  assumes "walk step (pre @ x # post) s = Good s'" "label_of x = Some l"
  obtains s1 where "walk step pre s = Good s1" "symtab_lookup l (symtab_p s') = Some (ucast (here s1))"
proof -
  from assms(1) obtain s1 s2 where 1: "walk step pre s = Good s1" and 2: "step x s1 = Good s2"
    and 3: "walk step post s2 = Good s'" by (auto simp: walk_append_Good obind_eq_Good)
  have "symtab_lookup l (symtab_p s2) = Some (ucast (here s1))"
    using step_symtab[OF 2] assms(2) by (simp add: symtab_add_def)
  from 1 walk_keeps[OF 3 this] show thesis by (rule that)
qed

text \<open>Nothing else is added.\<close>

lemma walk_names:
  assumes "walk step xs s = Good s'"
  shows "map se_name (symtab_p s') = rev (List.map_filter label_of xs) @ map se_name (symtab_p s)"
  using assms
proof (induction xs arbitrary: s)
  case (Cons x xs)
  from Cons.prems obtain s1 where 1: "step x s = Good s1" and 2: "walk step xs s1 = Good s'"
    by (auto simp: obind_eq_Good)
  from Cons.IH[OF 2] step_symtab[OF 1] show ?case
    by (auto simp: List.map_filter_simps symtab_add_def split: option.splits)
qed (simp add: List.map_filter_simps)

lemma step_distinct:
  assumes "distinct (map se_name (symtab_p s))" "step x s = Good s'"
  shows "distinct (map se_name (symtab_p s'))"
  using assms(1) step_symtab[OF assms(2)] step_fresh[OF assms(2)]
  by (auto simp: symtab_add_def lookup_None_iff split: option.splits)

lemma walk_distinct:
  assumes "walk step xs s = Good s'" "distinct (map se_name (symtab_p s))"
  shows "distinct (map se_name (symtab_p s'))"
  using walk_invariant[where P = "\<lambda>s. distinct (map se_name (symtab_p s))", OF step_distinct assms(2,1)] .

end

interpretation code_pass: label_pass pass_0_bundle ib_label imem_addr
  by unfold_locales
    (auto simp: pass_0_bundle_def define_label_Good assemble_frame split: option.splits if_splits)

interpretation data_pass: label_pass pass_0_data_element de_label dmem_addr
  by unfold_locales
    (auto simp: pass_0_data_element_def define_label_Good split: option.splits if_splits)

text \<open>Pass 1 only reads it.\<close>

lemma pass_1_bundle_frame:
  assumes "pass_1_bundle ib t = Good t'"
  shows "symtab_p t' = symtab_p t \<and> ignore_sym_refs t' = ignore_sym_refs t \<and>
    dmem t' = dmem t \<and> dmem_addr t' = dmem_addr t"
  using assms
  by (auto simp: pass_1_bundle_def pad_align_def assemble_frame Let_def split: option.splits list.splits if_splits)

lemma pass_1_data_frame:
  assumes "pass_1_data_element data t = Good t'"
  shows "symtab_p t' = symtab_p t \<and> ignore_sym_refs t' = ignore_sym_refs t \<and>
    imem t' = imem t \<and> imem_addr t' = imem_addr t"
  using assms
  by (auto simp: pass_1_data_element_def split: option.splits if_splits)

lemma pass_0_bundle_frame:
  assumes "pass_0_bundle ib s = Good s'"
  shows "dmem s' = dmem s \<and> dmem_addr s' = dmem_addr s"
  using assms
  by (auto simp: pass_0_bundle_def define_label_Good assemble_frame split: option.splits if_splits)

lemma pass_0_data_frame:
  assumes "pass_0_data_element data s = Good s'"
  shows "imem s' = imem s \<and> imem_addr s' = imem_addr s \<and> dmem s' = dmem s"
  using assms
  by (auto simp: pass_0_data_element_def define_label_Good split: option.splits if_splits)

section \<open>The memory images\<close>

text \<open>
  What one bundle puts into the instruction memory when it starts at address \<open>a\<close> and the symbol
  table is \<open>sy\<close>: nothing for a label, \<open>nop\<close>s for an alignment, the words of its instructions
  otherwise.
\<close>

definition align_words :: "i32 \<Rightarrow> u16 \<Rightarrow> u16 list" where
  "align_words align a =
     (let n = sint (nops_to_add align a) in
      if 0 < n then replicate (nat (n - 1)) 0x0001 @ [0x0000] else [])"

definition bundle_image :: "symtab \<Rightarrow> inst_bundle \<Rightarrow> u16 \<Rightarrow> u16 list \<Rightarrow> bool" where
  "bundle_image sy ib a ws \<longleftrightarrow>
     (if ib_label ib \<noteq> None then ws = []
      else if ib_align ib \<noteq> 0 then ws = align_words (ib_align ib) a
      else \<exists>ps. assembled False sy ajardsp_insns (ib_insts ib) ps \<and>
             ws = bundle_words (ib_insts ib) ps \<and> length ws \<le> 4)"

inductive code_image :: "symtab \<Rightarrow> inst_bundle list \<Rightarrow> u16 \<Rightarrow> u16 list \<Rightarrow> bool" for sy where
  image_Nil: "code_image sy [] a []"
| image_Cons: "bundle_image sy ib a ws \<Longrightarrow> code_image sy ibs (a + of_nat (length ws)) vs
     \<Longrightarrow> code_image sy (ib # ibs) a (ws @ vs)"

inductive_simps code_image_Nil [simp]: "code_image sy [] a ws"
inductive_cases code_image_ConsE: "code_image sy (ib # ibs) a ws"

lemma pad_align_words: "pad_align align st = write_imem (align_words align (imem_addr st)) st"
  by (simp add: pad_align_def align_words_def Let_def)

lemma pass_1_bundle_image:
  assumes "pass_1_bundle ib t = Good t'" "\<not> ignore_sym_refs t"
  obtains ws where "bundle_image (symtab_p t) ib (imem_addr t) ws"
    and "imem t' = store_words ws (imem_addr t) (imem t)" "imem_addr t' = imem_addr t + of_nat (length ws)"
proof (cases "ib_label ib \<noteq> None \<or> ib_align ib \<noteq> 0")
  case True
  with assms show thesis
    by (auto simp: pass_1_bundle_def bundle_image_def pad_align_words imem_write_imem split: option.splits
        intro!: that)
next
  case False
  with assms(1) obtain i rest where insts: "ib_insts ib = i # rest" and
    "try_assemble_inst_bundle ib (t\<lparr>lineno_fp := lineno_fp t @
       list_line (imem_addr t) (ib_insts ib) (inst_lineno i)\<rparr>) = Good t'"
    by (auto simp: pass_1_bundle_def assemble_bundle_Good split: list.splits)
  from try_assemble_words[OF this(2)] False assms(2) show thesis
    by (auto simp: bundle_image_def imem_write_imem intro!: that)
qed

lemma walk_pass_1_image:
  assumes "walk pass_1_bundle ibs t = Good t'" "\<not> ignore_sym_refs t"
  shows "\<exists>ws. code_image (symtab_p t) ibs (imem_addr t) ws \<and> imem t' = store_words ws (imem_addr t) (imem t) \<and>
           imem_addr t' = imem_addr t + of_nat (length ws)"
  using assms
proof (induction ibs arbitrary: t)
  case (Cons ib ibs)
  from Cons.prems(1) obtain t1 where 1: "pass_1_bundle ib t = Good t1"
    and 2: "walk pass_1_bundle ibs t1 = Good t'" by (auto simp: obind_eq_Good)
  note frame = pass_1_bundle_frame[OF 1]
  from pass_1_bundle_image[OF 1 Cons.prems(2)] obtain ws where
    ws: "bundle_image (symtab_p t) ib (imem_addr t) ws" "imem t1 = store_words ws (imem_addr t) (imem t)"
      "imem_addr t1 = imem_addr t + of_nat (length ws)" by blast
  from Cons.IH[OF 2] frame Cons.prems(2) obtain vs where
    vs: "code_image (symtab_p t) ibs (imem_addr t1) vs" "imem t' = store_words vs (imem_addr t1) (imem t1)"
      "imem_addr t' = imem_addr t1 + of_nat (length vs)" by auto
  have "imem t' = store_words (ws @ vs) (imem_addr t) (imem t)"
    by (simp add: vs(2) ws store_words_append)
  moreover have "code_image (symtab_p t) (ib # ibs) (imem_addr t) (ws @ vs)"
    using image_Cons[OF ws(1)] vs(1) ws(3) by simp
  ultimately show ?case
    using vs(3) ws(3) by (intro exI[of _ "ws @ vs"]) (simp add: add.assoc)
qed simp

text \<open>Data elements: a function, \<^term>\<open>None\<close> for an unknown symbol.\<close>

definition data_words :: "symtab \<Rightarrow> data_element \<Rightarrow> u16 list option" where
  "data_words sy d =
     (if de_label d \<noteq> None then Some []
      else if de_skip_length d \<noteq> 0 then
        Some (replicate (nat (sint (de_skip_length d))) DMEM_UNINIT_VALUE)
      else case de_symref d of
        None \<Rightarrow> Some [ucast (de_value d)]
      | Some s \<Rightarrow> map_option (\<lambda>a. [ucast a]) (symtab_lookup s sy))"

fun data_image :: "symtab \<Rightarrow> data_element list \<Rightarrow> u16 list option" where
  "data_image sy [] = Some []"
| "data_image sy (d # ds) =
     (case data_words sy d of
        None \<Rightarrow> None
      | Some ws \<Rightarrow> map_option ((@) ws) (data_image sy ds))"

lemma write_dmem_append: "write_dmem (ws @ vs) st = write_dmem vs (write_dmem ws st)"
  by (induction ws arbitrary: st) simp_all

lemma pass_1_data_words:
  "pass_1_data_element d t = Good t' \<longleftrightarrow>
     (\<exists>ws. data_words (symtab_p t) d = Some ws \<and> t' = write_dmem ws t)"
  by (auto simp: pass_1_data_element_def data_words_def split: option.splits)

lemma walk_pass_1_data:
  "walk pass_1_data_element ds t = Good t' \<longleftrightarrow>
     (\<exists>ws. data_image (symtab_p t) ds = Some ws \<and> t' = write_dmem ws t)"
  by (induction ds arbitrary: t)
    (auto simp: obind_eq_Good pass_1_data_words write_dmem_append split: option.splits)

lemma dmem_write_dmem: "dmem (write_dmem ws st) = store_words ws (dmem_addr st) (dmem st)"
  by (induction ws arbitrary: st) simp_all

section \<open>The whole run\<close>

text \<open>The states between the four walks of \<open>asm_gen_opcodes\<close>.\<close>

lemma asm_gen_opcodes_stages:
  assumes "asm_gen_opcodes fill data ibs st = Good (st2, files)"
  obtains d0 c0 d1 where
    "walk pass_0_data_element data (st\<lparr>imem_addr := 0, dmem_addr := 0, ignore_sym_refs := True\<rparr>) = Good d0"
    "walk pass_0_bundle ibs d0 = Good c0"
    "walk pass_1_data_element data (c0\<lparr>ignore_sym_refs := False, imem_addr := 0, dmem_addr := 0\<rparr>) = Good d1"
    "walk pass_1_bundle ibs d1 = Good st2"
    "files = output_hex fill st2"
  using assms
  by (auto simp: asm_gen_opcodes_def asm_do_pass_0_def asm_do_pass_1_def obind_eq_Good)

lemma walk_frame:
  "walk pass_1_bundle ibs t = Good t' \<Longrightarrow>
     symtab_p t' = symtab_p t \<and> dmem t' = dmem t \<and> dmem_addr t' = dmem_addr t"
  "walk pass_0_data_element data t = Good t' \<Longrightarrow>
     imem t' = imem t \<and> imem_addr t' = imem_addr t \<and> dmem t' = dmem t"
  "walk pass_0_bundle ibs t = Good t' \<Longrightarrow> dmem t' = dmem t \<and> dmem_addr t' = dmem_addr t"
  using walk_invariant[where f = pass_1_bundle and P = "\<lambda>u. symtab_p u = symtab_p t \<and> dmem u = dmem t \<and>
           dmem_addr u = dmem_addr t", OF _ _]
    walk_invariant[where f = pass_0_data_element and P = "\<lambda>u. imem u = imem t \<and> imem_addr u = imem_addr t \<and>
           dmem u = dmem t", OF _ _]
    walk_invariant[where f = pass_0_bundle and P = "\<lambda>u. dmem u = dmem t \<and> dmem_addr u = dmem_addr t", OF _ _]
    pass_1_bundle_frame pass_0_data_frame pass_0_bundle_frame
  by metis+

lemma code_image_split:
  assumes "code_image sy (pre @ post) a ws"
  shows "\<exists>us vs. ws = us @ vs \<and> code_image sy pre a us \<and> code_image sy post (a + of_nat (length us)) vs"
  using assms
proof (induction pre arbitrary: a ws)
  case (Cons ib pre)
  from Cons.prems obtain us vs where b: "bundle_image sy ib a us" "ws = us @ vs"
    "code_image sy (pre @ post) (a + of_nat (length us)) vs" by (auto elim: code_image_ConsE)
  from Cons.IH[OF b(3)] obtain us' vs' where "vs = us' @ vs'"
    "code_image sy pre (a + of_nat (length us)) us'"
    "code_image sy post (a + of_nat (length us) + of_nat (length us')) vs'" by blast
  with b show ?case
    by (intro exI[of _ "us @ us'"] exI[of _ vs']) (auto intro: image_Cons simp: algebra_simps)
qed auto

lemma data_image_append:
  "data_image sy (pre @ post) = Some ws \<longleftrightarrow>
     (\<exists>us vs. ws = us @ vs \<and> data_image sy pre = Some us \<and> data_image sy post = Some vs)"
  by (induction pre arbitrary: ws) (auto split: option.splits)

lemma walk_pass_addr:
  assumes "list_all good_bundle ibs" "imem_addr s = imem_addr t"
    and "walk pass_0_bundle ibs s = Good s'" "walk pass_1_bundle ibs t = Good t'"
  shows "imem_addr s' = imem_addr t'"
  by (rule walk_sim[where R = "\<lambda>s t. imem_addr s = imem_addr t", OF _ assms(2-4)])
    (use assms(1) in \<open>auto simp: list_all_iff intro: pass_bundle_addr\<close>)

lemma walk_data_addr:
  assumes "list_all good_skip data" "dmem_addr s = dmem_addr t"
    and "walk pass_0_data_element data s = Good s'" "walk pass_1_data_element data t = Good t'"
  shows "dmem_addr s' = dmem_addr t'"
  by (rule walk_sim[where R = "\<lambda>s t. dmem_addr s = dmem_addr t", OF _ assms(2-4)])
    (use assms(1) in \<open>auto simp: list_all_iff intro: pass_data_addr\<close>)

text \<open>What both memories and the table hold after a successful run.\<close>

lemma run_images:
  assumes "asm_gen_opcodes fill data ibs st = Good (st2, files)"
  obtains ws vs where "code_image (symtab_p st2) ibs 0 ws" "data_image (symtab_p st2) data = Some vs"
    and "imem_addr st2 = of_nat (length ws)" "dmem_addr st2 = of_nat (length vs)"
    and "length ws \<le> 65536 \<Longrightarrow> \<forall>i<length ws. imem st2 (of_nat i) = ws ! i"
    and "dmem st2 = store_words vs 0 (dmem st)"
proof -
  from assms obtain d0 c0 d1 where
    w: "walk pass_0_data_element data (st\<lparr>imem_addr := 0, dmem_addr := 0, ignore_sym_refs := True\<rparr>) = Good d0"
    "walk pass_0_bundle ibs d0 = Good c0"
    "walk pass_1_data_element data (c0\<lparr>ignore_sym_refs := False, imem_addr := 0, dmem_addr := 0\<rparr>) = Good d1"
    "walk pass_1_bundle ibs d1 = Good st2" by (elim asm_gen_opcodes_stages) blast
  note frames = walk_frame(2)[OF w(1)] walk_frame(3)[OF w(2)] walk_frame(1)[OF w(4)]
  from w(3) obtain vs where vs: "data_image (symtab_p c0) data = Some vs"
    "d1 = write_dmem vs (c0\<lparr>ignore_sym_refs := False, imem_addr := 0, dmem_addr := 0\<rparr>)"
    by (auto simp: walk_pass_1_data)
  from walk_pass_1_image[OF w(4)] vs(2) obtain ws where
    ws: "code_image (symtab_p d1) ibs 0 ws" "imem st2 = store_words ws 0 (imem d1)"
      "imem_addr st2 = of_nat (length ws)" by auto
  have nth: "\<forall>i<length ws. imem st2 (of_nat i) = ws ! i" if "length ws \<le> 65536"
    using store_words_nth[OF _ that, of _ 0 "imem d1"] by (simp add: ws(2))
  show thesis
    by (rule that[of ws vs]) (use vs ws nth frames in \<open>auto simp: dmem_write_dmem\<close>)
qed

lemma run_names:
  assumes "asm_gen_opcodes fill data ibs st = Good (st2, files)"
  shows "map se_name (symtab_p st2) =
      rev (List.map_filter ib_label ibs) @ rev (List.map_filter de_label data) @ map se_name (symtab_p st)"
    and "distinct (map se_name (symtab_p st)) \<Longrightarrow> distinct (map se_name (symtab_p st2))"
proof -
  from assms obtain d0 c0 d1 where
    w: "walk pass_0_data_element data (st\<lparr>imem_addr := 0, dmem_addr := 0, ignore_sym_refs := True\<rparr>) = Good d0"
    "walk pass_0_bundle ibs d0 = Good c0"
    "walk pass_1_data_element data (c0\<lparr>ignore_sym_refs := False, imem_addr := 0, dmem_addr := 0\<rparr>) = Good d1"
    "walk pass_1_bundle ibs d1 = Good st2" by (elim asm_gen_opcodes_stages) blast
  from w(3) walk_frame(1)[OF w(4)] have s: "symtab_p st2 = symtab_p c0"
    by (auto simp: walk_pass_1_data)
  show "map se_name (symtab_p st2) =
      rev (List.map_filter ib_label ibs) @ rev (List.map_filter de_label data) @ map se_name (symtab_p st)"
    unfolding s using code_pass.walk_names[OF w(2)] data_pass.walk_names[OF w(1)] by simp
  show "distinct (map se_name (symtab_p st2))" if "distinct (map se_name (symtab_p st))"
    unfolding s using code_pass.walk_distinct[OF w(2)] data_pass.walk_distinct[OF w(1)] that by simp
qed

lemma walk_keeps_mode:
  "walk pass_1_bundle ibs t = Good t' \<Longrightarrow> ignore_sym_refs t' = ignore_sym_refs t"
  by (rule walk_invariant[where P = "\<lambda>u. ignore_sym_refs u = ignore_sym_refs t"])
    (use pass_1_bundle_frame in auto)

section \<open>Properties\<close>

lemma code_label_placed:
  assumes "asm_gen_opcodes fill data (pre @ ib # post) st = Good (st2, files)"
    and "list_all good_bundle pre" "ib_label ib = Some l"
  shows "\<exists>ws vs. code_image (symtab_p st2) pre 0 ws \<and>
    code_image (symtab_p st2) (ib # post) (of_nat (length ws)) vs \<and>
    symtab_lookup l (symtab_p st2) = Some (ucast (of_nat (length ws) :: u16)) \<and>
    (length (ws @ vs) \<le> 65536 \<longrightarrow> (\<forall>i<length (ws @ vs). imem st2 (of_nat i) = (ws @ vs) ! i))"
proof -
  from assms(1) obtain d0 c0 d1 where
    w: "walk pass_0_data_element data (st\<lparr>imem_addr := 0, dmem_addr := 0, ignore_sym_refs := True\<rparr>) = Good d0"
    "walk pass_0_bundle (pre @ ib # post) d0 = Good c0"
    "walk pass_1_data_element data (c0\<lparr>ignore_sym_refs := False, imem_addr := 0, dmem_addr := 0\<rparr>) = Good d1"
    "walk pass_1_bundle (pre @ ib # post) d1 = Good st2" by (elim asm_gen_opcodes_stages) blast
  from code_pass.walk_binds[OF w(2) assms(3)] obtain s1 where
    s1: "walk pass_0_bundle pre d0 = Good s1"
      "symtab_lookup l (symtab_p c0) = Some (ucast (imem_addr s1))" .
  from w(4) obtain t1 where t1: "walk pass_1_bundle pre d1 = Good t1"
    by (auto simp: walk_append_Good)
  have d1: "imem_addr d1 = 0" "\<not> ignore_sym_refs d1" "symtab_p d1 = symtab_p c0"
    using w(3) by (auto simp: walk_pass_1_data)
  have sy: "symtab_p st2 = symtab_p d1" using walk_frame(1)[OF w(4)] by simp
  have "imem_addr s1 = imem_addr t1"
    using walk_frame(2)[OF w(1)] d1 by (intro walk_pass_addr[OF assms(2) _ s1(1) t1]) simp
  moreover from walk_pass_1_image[OF t1 d1(2)] d1 sy obtain ws where
    ws: "code_image (symtab_p st2) pre 0 ws" "imem t1 = store_words ws 0 (imem d1)"
      "imem_addr t1 = of_nat (length ws)" by auto
  moreover obtain vs where
    vs: "code_image (symtab_p st2) (ib # post) (of_nat (length ws)) vs"
      "imem st2 = store_words vs (of_nat (length ws)) (imem t1)"
  proof -
    have f: "symtab_p t1 = symtab_p d1" "\<not> ignore_sym_refs t1"
      using walk_frame(1)[OF t1] walk_keeps_mode[OF t1] d1 by simp_all
    from w(4) t1 have "walk pass_1_bundle (ib # post) t1 = Good st2"
      by (auto simp: walk_append_Good)
    from walk_pass_1_image[OF this f(2)] f sy ws(3) show thesis by (auto intro: that)
  qed
  moreover have "imem st2 (of_nat i) = (ws @ vs) ! i" if "length (ws @ vs) \<le> 65536" "i < length (ws @ vs)" for i
    using store_words_nth[OF that(2,1), of 0 "imem d1"] by (simp add: vs(2) ws(2) store_words_append)
  ultimately show ?thesis using s1(2) sy d1 by (intro exI[of _ ws] exI[of _ vs]) auto
qed

text \<open>C2: a code label that occurs in an assembled program is bound to the instruction address of
  what follows it: the code before the label fills exactly the words below that address, the code
  after it starts there, and both are in the instruction memory.\<close>

theorem code_label_resolved:
  assumes "asm_gen_opcodes fill data (pre @ ib # post) st = Good (st2, files)"
    and "list_all good_bundle pre" "ib_label ib = Some l"
  shows "\<exists>ws vs. code_image (symtab_p st2) pre 0 ws \<and>
    code_image (symtab_p st2) (ib # post) (of_nat (length ws)) vs \<and>
    symtab_lookup l (symtab_p st2) = Some (ucast (of_nat (length ws) :: u16)) \<and>
    (length (ws @ vs) \<le> 65536 \<longrightarrow> (\<forall>i<length (ws @ vs). imem st2 (of_nat i) = (ws @ vs) ! i))"
  by (rule code_label_placed[OF assms])

text \<open>C3: a data label that occurs in an assembled program is bound to the data address of the word
  that follows it, and the data memory holds there what the directives ask for.\<close>

theorem data_label_resolved:
  assumes "asm_gen_opcodes fill (pre @ d # post) ibs st = Good (st2, files)"
    and "list_all good_skip pre" "de_label d = Some l"
  shows "\<exists>ws vs. data_image (symtab_p st2) pre = Some ws \<and> data_image (symtab_p st2) (d # post) = Some vs \<and>
    symtab_lookup l (symtab_p st2) = Some (ucast (of_nat (length ws) :: u16)) \<and>
    (length (ws @ vs) \<le> 65536 \<longrightarrow> (\<forall>i<length (ws @ vs). dmem st2 (of_nat i) = (ws @ vs) ! i))"
proof -
  from assms(1) obtain d0 c0 d1 where
    w: "walk pass_0_data_element (pre @ d # post) (st\<lparr>imem_addr := 0, dmem_addr := 0, ignore_sym_refs := True\<rparr>) = Good d0"
    "walk pass_0_bundle ibs d0 = Good c0"
    "walk pass_1_data_element (pre @ d # post) (c0\<lparr>ignore_sym_refs := False, imem_addr := 0, dmem_addr := 0\<rparr>) = Good d1"
    "walk pass_1_bundle ibs d1 = Good st2" by (elim asm_gen_opcodes_stages) blast
  from data_pass.walk_binds[OF w(1) assms(3)] obtain s1 where
    s1: "walk pass_0_data_element pre (st\<lparr>imem_addr := 0, dmem_addr := 0, ignore_sym_refs := True\<rparr>) = Good s1"
      "symtab_lookup l (symtab_p d0) = Some (ucast (dmem_addr s1))" .
  from w(3) obtain t1 where
    t1: "walk pass_1_data_element pre (c0\<lparr>ignore_sym_refs := False, imem_addr := 0, dmem_addr := 0\<rparr>) = Good t1"
    by (auto simp: walk_append_Good)
  have "dmem_addr s1 = dmem_addr t1"
    by (rule walk_data_addr[OF assms(2) _ s1(1) t1]) simp
  moreover have sy: "symtab_p st2 = symtab_p c0" using w(3) walk_frame(1)[OF w(4)]
    by (auto simp: walk_pass_1_data)
  moreover from t1 obtain ws where
    "data_image (symtab_p c0) pre = Some ws" "dmem_addr t1 = of_nat (length ws)"
    by (auto simp: walk_pass_1_data)
  moreover from run_images[OF assms(1)] obtain us where
    us: "data_image (symtab_p st2) (pre @ d # post) = Some us" "dmem st2 = store_words us 0 (dmem st)"
    by metis
  moreover have "dmem st2 (of_nat i) = us ! i" if "length us \<le> 65536" "i < length us" for i
    using store_words_nth[OF that(2,1), of 0] by (simp add: us(2))
  moreover have "symtab_lookup l (symtab_p c0) = Some (ucast (dmem_addr s1))"
    by (rule code_pass.walk_keeps[OF w(2) s1(2)])
  ultimately show ?thesis unfolding data_image_append by auto
qed

text \<open>C5: after a successful run the instruction memory holds, from address 0, the image of the
  bundles under the final symbol table, and the data memory the image of the data elements with
  every other cell at the fill value \<open>0xdead\<close>.\<close>

theorem memory_contents:
  assumes "asm_gen_opcodes fill data ibs init = Good (st2, files)"
  shows "\<exists>ws vs. code_image (symtab_p st2) ibs 0 ws \<and> data_image (symtab_p st2) data = Some vs \<and>
    (length ws \<le> 65536 \<longrightarrow> (\<forall>i<length ws. imem st2 (of_nat i) = ws ! i)) \<and>
    (length vs \<le> 65536 \<longrightarrow>
       (\<forall>a. dmem st2 a = (if unat a < length vs then vs ! unat a else DMEM_UNINIT_VALUE)))"
proof -
  from run_images[OF assms] obtain ws vs where
    c: "code_image (symtab_p st2) ibs 0 ws" and d: "data_image (symtab_p st2) data = Some vs"
    and ws: "length ws \<le> 65536 \<Longrightarrow> \<forall>i<length ws. imem st2 (of_nat i) = ws ! i"
    and vs: "dmem st2 = store_words vs 0 (dmem init)" by metis
  have "dmem st2 a = (if unat a < length vs then vs ! unat a else DMEM_UNINIT_VALUE)"
    if len: "length vs \<le> 65536" for a
  proof (cases "unat a < length vs")
    case True
    with store_words_nth[OF True len, of 0] show ?thesis by (simp add: vs)
  next
    case False
    then have "a \<noteq> 0 + of_nat i" if "i < length vs" for i
      using that len by (auto simp: unat_of_nat)
    with False show ?thesis by (simp add: vs store_words_other init_def)
  qed
  with c d ws show ?thesis by blast
qed

text \<open>C14: a program that assembles defines no label twice, and the symbol table holds exactly its
  labels.\<close>

theorem labels_unique:
  assumes "asm_gen_opcodes fill data ibs init = Good (st2, files)"
  shows "distinct (List.map_filter de_label data @ List.map_filter ib_label ibs) \<and>
    map se_name (symtab_p st2) = rev (List.map_filter de_label data @ List.map_filter ib_label ibs)"
  using run_names[OF assms] by (auto simp: init_def)

lemma align_power:
  assumes "m \<le> 16"
  shows "sint (2 ^ m :: i32) = 2 ^ m" "good_align (2 ^ m)"
proof -
  have "(2 :: int) ^ m \<le> 2 ^ 16" using assms by (intro power_increasing) simp_all
  then have u: "uint (2 ^ m :: i32) = 2 ^ m" "(2 :: int) ^ m \<le> 65536"
    using assms uint_word_of_int_eq[of "2 ^ m", where 'a = 32] by (simp_all add: take_bit_int_eq_self)
  then show s: "sint (2 ^ m :: i32) = 2 ^ m" by (simp add: sint_eq_uint_small)
  show "good_align (2 ^ m)" using u s by (simp add: good_align_def)
qed

lemma length_align_words: "length (align_words align a) = nat (sint (nops_to_add align a))"
  by (simp add: align_words_def Let_def Suc_nat_eq_nat_zadd1)

text \<open>C15: \<open>.align\<close> with a power of two pads with fewer \<open>nop\<close>s than the alignment and ends at a
  multiple of it.\<close>

theorem align_reaches_boundary:
  assumes "m \<le> 16"
  shows "unat (imem_addr (pad_align (2 ^ m) st)) mod 2 ^ m = 0 \<and>
    length (align_words (2 ^ m) (imem_addr st)) < 2 ^ m"
proof
  have m: "(ucast (NOT (2 ^ m - 1 :: i32)) :: u16) = NOT (mask m)"
    using assms by (intro bit_word_eqI) (auto simp: bit_simps mask_eq_exp_minus_1 [symmetric])
  have "take_bit m (imem_addr (pad_align (2 ^ m) st)) = 0"
    unfolding pad_align_addr[OF align_power(2)[OF assms]] align_addr_def m
    by (rule bit_word_eqI) (auto simp: bit_simps)
  then show "unat (imem_addr (pad_align (2 ^ m) st)) mod 2 ^ m = 0"
    by (metis take_bit_eq_mod unat_0 unsigned_take_bit_eq)
next
  have "sint (nops_to_add (2 ^ m) (imem_addr st)) < 2 ^ m"
    using nops_to_add(2)[OF align_power(2)[OF assms]] by (simp add: align_power(1)[OF assms])
  then show "length (align_words (2 ^ m) (imem_addr st)) < 2 ^ m"
    by (simp add: length_align_words nat_less_iff)
qed

section \<open>Pass 1 does not fail where pass 0 succeeded\<close>

text \<open>Two calls that return in the same way, with possibly different values.\<close>

definition same_kind :: "('a, 'e) outcome \<Rightarrow> ('b, 'f) outcome \<Rightarrow> bool" where
  "same_kind r r' \<longleftrightarrow> ((\<exists>x. r = Good x) \<longleftrightarrow> (\<exists>y. r' = Good y)) \<and> (r = Undef \<longleftrightarrow> r' = Undef)"

lemma same_kind_simps [simp]:
  "same_kind (Good x) r \<longleftrightarrow> (\<exists>y. r = Good y)" "same_kind Undef r \<longleftrightarrow> r = Undef"
  "same_kind (Fail e) r \<longleftrightarrow> (\<exists>e'. r = Fail e')"
  by (cases r; simp add: same_kind_def)+

lemma same_kind_obind:
  assumes "same_kind r r'" "\<And>x y. same_kind (f x) (g y)"
  shows "same_kind (obind r f) (obind r' g)"
  using assms by (cases r; cases r'; simp)

definition op_resolved :: "symtab \<Rightarrow> operand \<Rightarrow> bool" where
  "op_resolved sy op \<longleftrightarrow> op_type op = SYMBOL_REF \<longrightarrow>
     (\<exists>n a. op_name op = Some n \<and> symtab_lookup n sy = Some a)"

definition inst_resolved :: "symtab \<Rightarrow> instruction \<Rightarrow> bool" where
  "inst_resolved sy inst \<longleftrightarrow> list_all (op_resolved sy) (inst_ops inst)"

definition symref_typed :: "operand_def \<Rightarrow> bool" where
  "symref_typed f \<longleftrightarrow> od_encode f = Some Enc_symref \<longrightarrow> od_type f = SYMBOL_REF"

lemma table_symref_typed: "list_all (\<lambda>d. list_all symref_typed (id_operands d)) ajardsp_insns"
  by (simp add: table_eval symref_typed_def)

lemma run_encode_kind:
  assumes "op_resolved sy op" "e = Enc_symref \<longrightarrow> op_type op = SYMBOL_REF"
  shows "same_kind (run_encode True sy' e d op p) (run_encode False sy e d op q)"
  using assms
  by (cases e)
    (auto simp: encode_defs op_resolved_def Let_def split: option.splits)

lemma encode_operands_kind:
  assumes "list_all2 (\<lambda>f op. od_type f = op_type op) ds ops"
    and "list_all symref_typed ds" "list_all (op_resolved sy) ops"
  shows "same_kind (encode_operands True sy' ds ops p) (encode_operands False sy ds ops q)"
  using assms
proof (induction ds ops arbitrary: p q rule: list_all2_induct)
  case (Cons d ds op ops)
  show ?case
  proof (cases "od_encode d")
    case (Some e)
    have "e = Enc_symref \<longrightarrow> op_type op = SYMBOL_REF"
      using Cons Some by (auto simp: symref_typed_def)
    with Cons Some show ?thesis
      by (auto intro!: same_kind_obind run_encode_kind)
  qed simp
qed simp

lemma encode_predicate_kind: "same_kind (encode_predicate inst p) (encode_predicate inst q)"
  by (auto simp: encode_predicate_def Let_def split: option.splits)

lemma encode_insn_kind:
  assumes "wf_insn d" "list_all symref_typed (id_operands d)" "inst_resolved sy inst"
    and "operand_match d inst = Good ()"
  shows "same_kind (encode_insn True sy' d inst has_next) (encode_insn False sy d inst has_next)"
proof -
  have l: "list_all2 (\<lambda>f op. od_type f = op_type op) (id_operands d) (inst_ops inst)"
    using assms by (simp add: operand_match_Good)
  show ?thesis
    using encode_operands_kind[OF l assms(2)] assms(3) list_all2_lengthD[OF l]
    by (auto simp: encode_insn_def Let_def operand_array_def encode_operands_append inst_resolved_def
        intro!: same_kind_obind encode_predicate_kind)
qed

text \<open>States at the same instruction address, the first in pass 0, the second in pass 1.\<close>

definition pass_sim :: "asm_state \<Rightarrow> asm_state \<Rightarrow> bool" where
  "pass_sim s t \<longleftrightarrow> imem_addr s = imem_addr t \<and> ignore_sym_refs s \<and> \<not> ignore_sym_refs t"

lemma emit_insn_sim:
  assumes "emit_insn d inst p (s, n) = Good (s1, n1)" "pass_sim s t"
  shows "\<exists>t1. emit_insn d inst q (t, n) = Good (t1, n1) \<and> pass_sim s1 t1 \<and> symtab_p t1 = symtab_p t"
  using assms by (auto simp: emit_insn_Good pass_sim_def insn_words_def Let_def)

lemma try_defs_sim:
  assumes "try_defs ds inst has_next (s, n) b = Good ((s1, n1), b1)" "pass_sim s t"
    and "inst_resolved (symtab_p t) inst"
    and "\<And>d. d \<in> set ds \<Longrightarrow> wf_insn d \<and> list_all symref_typed (id_operands d)"
  shows "\<exists>t1. try_defs ds inst has_next (t, n) b = Good ((t1, n1), b1) \<and> pass_sim s1 t1 \<and>
           symtab_p t1 = symtab_p t"
  using assms
proof (induction ds arbitrary: s t n b)
  case (Cons d ds)
  show ?case
  proof (cases "id_mnemonic d = inst_mnemonic inst \<and> operand_match d inst = Good ()")
    case False
    with Cons show ?thesis by (auto split: outcome.splits)
  next
    case True
    have mode: "ignore_sym_refs s" "\<not> ignore_sym_refs t" using Cons.prems(2) by (auto simp: pass_sim_def)
    have sk: "same_kind (encode_insn True (symtab_p s) d inst has_next)
        (encode_insn False (symtab_p t) d inst has_next)"
      using Cons.prems(3) Cons.prems(4)[of d] True by (intro encode_insn_kind) auto
    show ?thesis
    proof (cases "encode_insn True (symtab_p s) d inst has_next")
      case (Good p)
      with Cons.prems(1) True mode obtain s2 n2 where
        e: "emit_insn d inst p (s, n) = Good (s2, n2)"
        and r: "try_defs ds inst has_next (s2, n2) True = Good ((s1, n1), b1)"
        by (auto simp: obind_eq_Good)
      from sk Good obtain q where q: "encode_insn False (symtab_p t) d inst has_next = Good q"
        by auto
      from emit_insn_sim[OF e Cons.prems(2)] obtain t2 where
        t2: "emit_insn d inst q (t, n) = Good (t2, n2)" "pass_sim s2 t2" "symtab_p t2 = symtab_p t" by blast
      from Cons.IH[OF r t2(2)] Cons.prems(3,4) t2(3) True q mode t2(1) show ?thesis by auto
    next
      case (Fail e)
      with sk obtain e' where "encode_insn False (symtab_p t) d inst has_next = Fail e'" by auto
      with Fail Cons True mode show ?thesis by auto
    next
      case Undef
      with Cons.prems(1) True mode show ?thesis by simp
    qed
  qed
qed simp

lemma bundle_loop_sim:
  assumes "bundle_loop ajardsp_insns insts (s, n) = Good (s1, n1)" "pass_sim s t"
    and "list_all (inst_resolved (symtab_p t)) insts"
  shows "\<exists>t1. bundle_loop ajardsp_insns insts (t, n) = Good (t1, n1) \<and> pass_sim s1 t1 \<and>
           symtab_p t1 = symtab_p t"
  using assms
proof (induction insts arbitrary: s t n)
  case (Cons inst rest)
  from Cons.prems(1) obtain s2 n2 where
    t: "try_defs ajardsp_insns inst (rest \<noteq> []) (s, n) False = Good ((s2, n2), True)"
    and n2: "n2 \<le> 4" and b: "bundle_loop ajardsp_insns rest (s2, n2) = Good (s1, n1)"
    by (auto simp: obind_eq_Good split: if_splits prod.splits)
  from try_defs_sim[OF t Cons.prems(2)] Cons.prems(3) ajardsp.entry_wf table_symref_typed
  obtain t2 where t2: "try_defs ajardsp_insns inst (rest \<noteq> []) (t, n) False = Good ((t2, n2), True)"
    "pass_sim s2 t2" "symtab_p t2 = symtab_p t" by (auto simp: list_all_iff)
  from Cons.IH[OF b t2(2)] Cons.prems(3) t2 n2 show ?case by auto
qed simp

definition bundle_ok :: "symtab \<Rightarrow> inst_bundle \<Rightarrow> bool" where
  "bundle_ok sy ib \<longleftrightarrow> good_bundle ib \<and>
     (ib_label ib = None \<and> ib_align ib = 0 \<longrightarrow>
        ib_insts ib \<noteq> [] \<and> list_all (inst_resolved sy) (ib_insts ib))"

lemma align_words_addr:
  "good_align align \<Longrightarrow> a + of_nat (length (align_words align a)) = align_addr align a"
  using nops_to_add(3)[of align a] by (simp only: length_align_words)

lemma pass_bundle_sim:
  assumes "pass_0_bundle ib s = Good s1" "pass_sim s t" "bundle_ok (symtab_p t) ib"
  shows "\<exists>t1. pass_1_bundle ib t = Good t1 \<and> pass_sim s1 t1 \<and> symtab_p t1 = symtab_p t"
proof (cases "ib_label ib \<noteq> None \<or> ib_align ib \<noteq> 0")
  case True
  with assms show ?thesis
    by (auto simp: pass_0_bundle_def pass_1_bundle_def define_label_Good bundle_ok_def good_bundle_def
        pass_sim_def pad_align_words align_words_addr split: option.splits)
next
  case False
  with assms(3) obtain i rest where insts: "ib_insts ib = i # rest"
    and res: "list_all (inst_resolved (symtab_p t)) (ib_insts ib)"
    by (auto simp: bundle_ok_def neq_Nil_conv)
  let ?t = "t\<lparr>lineno_fp := lineno_fp t @ list_line (imem_addr t) (ib_insts ib) (inst_lineno i)\<rparr>"
  from assms(1) False obtain n where
    b: "bundle_loop ajardsp_insns (ib_insts ib) (s, 0) = Good (s1, n)"
    by (auto simp: pass_0_bundle_def assemble_bundle_Good try_assemble_inst_bundle_def obind_eq_Good)
  have "pass_sim s ?t" using assms(2) by (simp add: pass_sim_def)
  from bundle_loop_sim[OF b this] res obtain t1 where
    "bundle_loop ajardsp_insns (ib_insts ib) (?t, 0) = Good (t1, n)" "pass_sim s1 t1"
    "symtab_p t1 = symtab_p t" by auto
  then show ?thesis using False insts
    by (simp add: pass_1_bundle_def assemble_bundle_def try_assemble_inst_bundle_def)
qed

lemma walk_pass_sim:
  assumes "walk pass_0_bundle ibs s = Good s1" "pass_sim s t" "list_all (bundle_ok (symtab_p t)) ibs"
  shows "\<exists>t1. walk pass_1_bundle ibs t = Good t1"
  using assms
proof (induction ibs arbitrary: s t)
  case (Cons ib ibs)
  from Cons.prems(1) obtain s2 where 1: "pass_0_bundle ib s = Good s2"
    and 2: "walk pass_0_bundle ibs s2 = Good s1" by (auto simp: obind_eq_Good)
  from pass_bundle_sim[OF 1 Cons.prems(2)] Cons.prems(3) obtain t2 where
    t2: "pass_1_bundle ib t = Good t2" "pass_sim s2 t2" "symtab_p t2 = symtab_p t" by auto
  from Cons.IH[OF 2 t2(2)] Cons.prems(3) t2 show ?case by simp
qed simp

definition data_ok :: "symtab \<Rightarrow> data_element \<Rightarrow> bool" where
  "data_ok sy d \<longleftrightarrow> de_label d = None \<and> de_skip_length d = 0 \<longrightarrow>
     (case de_symref d of None \<Rightarrow> True | Some s \<Rightarrow> symtab_lookup s sy \<noteq> None)"

lemma data_image_total: "list_all (data_ok sy) ds \<Longrightarrow> \<exists>ws. data_image sy ds = Some ws"
  by (induction ds) (auto simp: data_ok_def data_words_def split: option.splits)

lemma walk_data_mode:
  "walk pass_0_data_element data s = Good s' \<Longrightarrow> ignore_sym_refs s' = ignore_sym_refs s"
  by (rule walk_invariant[where P = "\<lambda>u. ignore_sym_refs u = ignore_sym_refs s"])
    (auto simp: pass_0_data_element_def define_label_Good split: option.splits if_splits)

text \<open>C4: when pass 0 succeeds, every referenced symbol is defined and the directives are in range,
  the whole run succeeds: pass 1 finds for every instruction the entry that pass 0 found.\<close>

theorem pass_1_succeeds:
  assumes "asm_do_pass_0 ibs data (st\<lparr>imem_addr := 0, dmem_addr := 0, ignore_sym_refs := True\<rparr>) = Good st1"
    and "list_all (bundle_ok (symtab_p st1)) ibs" "list_all (data_ok (symtab_p st1)) data"
  shows "\<exists>st2. asm_gen_opcodes fill data ibs st = Good (st2, output_hex fill st2)"
proof -
  let ?st = "st\<lparr>imem_addr := 0, dmem_addr := 0, ignore_sym_refs := True\<rparr>"
  let ?st1 = "st1\<lparr>ignore_sym_refs := False, imem_addr := 0, dmem_addr := 0\<rparr>"
  from assms(1) obtain d0 where d0: "walk pass_0_data_element data ?st = Good d0"
    "walk pass_0_bundle ibs d0 = Good st1" by (auto simp: asm_do_pass_0_def obind_eq_Good)
  from data_image_total[OF assms(3)] obtain vs where "data_image (symtab_p st1) data = Some vs" ..
  then have d1: "walk pass_1_data_element data ?st1 = Good (write_dmem vs ?st1)"
    by (simp add: walk_pass_1_data)
  have "pass_sim d0 (write_dmem vs ?st1)"
    using walk_frame(2)[OF d0(1)] walk_data_mode[OF d0(1)] by (simp add: pass_sim_def)
  from walk_pass_sim[OF d0(2) this] assms(2) obtain st2 where
    "walk pass_1_bundle ibs (write_dmem vs ?st1) = Good st2" by auto
  with assms(1) d1 show ?thesis
    by (simp add: asm_gen_opcodes_def asm_do_pass_1_def)
qed

section \<open>The properties on the sample program\<close>

lemma sample_label_main:
  "sample_code = take 2 sample_code @ label_bundle ''main'' # drop 3 sample_code"
  by (simp add: sample_code_def)

lemma sample_label_tab:
  "sample_data = take 2 sample_data @ data_item (Some ''tab'') None 0 0 # drop 3 sample_data"
  by (simp add: sample_data_def)

theorem code_label_resolved_witness:
  "\<exists>st2 ws. asm_gen_opcodes False sample_data sample_code init = Good (st2, output_hex False st2) \<and>
     code_image (symtab_p st2) (take 2 sample_code) 0 ws \<and>
     symtab_lookup ''main'' (symtab_p st2) = Some (ucast (of_nat (length ws) :: u16))"
proof -
  obtain st2 where run: "asm_gen_opcodes False sample_data sample_code init = Good (st2, output_hex False st2)"
    using sample_run by blast
  have "list_all good_bundle (take 2 sample_code)"
    by (simp add: sample_code_def good_bundle_def good_align_def align_bundle_def code_bundle_def)
  moreover have run': "asm_gen_opcodes False sample_data
      (take 2 sample_code @ label_bundle ''main'' # drop 3 sample_code) init = Good (st2, output_hex False st2)"
    by (subst sample_label_main [symmetric]) (rule run)
  ultimately show ?thesis
    using code_label_resolved[OF run', of "''main''"] run by (auto simp: label_bundle_def)
qed

theorem data_label_resolved_witness:
  "\<exists>st2 ws. asm_gen_opcodes False sample_data sample_code init = Good (st2, output_hex False st2) \<and>
     data_image (symtab_p st2) (take 2 sample_data) = Some ws \<and>
     symtab_lookup ''tab'' (symtab_p st2) = Some (ucast (of_nat (length ws) :: u16))"
proof -
  obtain st2 where run: "asm_gen_opcodes False sample_data sample_code init = Good (st2, output_hex False st2)"
    using sample_run by blast
  have "list_all good_skip (take 2 sample_data)"
    by (simp add: sample_data_def good_skip_def data_item_def)
  moreover have run': "asm_gen_opcodes False
      (take 2 sample_data @ data_item (Some ''tab'') None 0 0 # drop 3 sample_data) sample_code init
      = Good (st2, output_hex False st2)"
    by (subst sample_label_tab [symmetric]) (rule run)
  ultimately show ?thesis
    using data_label_resolved[OF run', of "''tab''"] run by (auto simp: data_item_def)
qed

theorem memory_contents_witness:
  "\<exists>st2 vs. asm_gen_opcodes False sample_data sample_code init = Good (st2, output_hex False st2) \<and>
     data_image (symtab_p st2) sample_data = Some vs \<and>
     (length vs \<le> 65536 \<longrightarrow> (\<forall>a. dmem st2 a = (if unat a < length vs then vs ! unat a else DMEM_UNINIT_VALUE)))"
  using sample_run memory_contents[of False sample_data sample_code] by blast

theorem labels_unique_witness:
  "\<exists>st2. asm_gen_opcodes False sample_data sample_code init = Good (st2, output_hex False st2) \<and>
     map se_name (symtab_p st2) = [''main'', ''tab'']"
proof -
  obtain st2 where run: "asm_gen_opcodes False sample_data sample_code init = Good (st2, output_hex False st2)"
    using sample_run by blast
  from labels_unique[OF this] run show ?thesis
    by (auto simp: sample_code_def sample_data_def data_item_def code_bundle_def label_bundle_def
        align_bundle_def List.map_filter_simps)
qed

theorem align_reaches_boundary_witness:
  "unat (imem_addr (pad_align 8 (init\<lparr>imem_addr := 13\<rparr>))) mod 8 = 0 \<and> length (align_words 8 13) < 8"
  using align_reaches_boundary[of 3 "init\<lparr>imem_addr := 13\<rparr>"] by simp

theorem pass_1_succeeds_witness:
  "\<exists>st2. asm_gen_opcodes True sample_data sample_code init = Good (st2, output_hex True st2)"
proof -
  obtain st1 where run: "asm_do_pass_0 sample_code sample_data
      (init\<lparr>imem_addr := 0, dmem_addr := 0, ignore_sym_refs := True\<rparr>) = Good st1"
    and "symtab_p st1 = [\<lparr>se_name = ''main'', se_address = 4\<rparr>, \<lparr>se_name = ''tab'', se_address = 4\<rparr>]"
    using sample_pass_0 by blast
  then show ?thesis
    by (intro pass_1_succeeds[OF run])
      (simp_all add: sample_code_def sample_data_def bundle_ok_def data_ok_def good_bundle_def good_align_def
        inst_resolved_def op_resolved_def sample_inst_def sym_operand_def plain_inst_def int_operand_def
        reg_operand_def code_bundle_def label_bundle_def align_bundle_def data_item_def)
qed

end
