(* ===== verification/Disasm.thy ===== *)
theory Disasm
  imports Packet Layout
begin

text \<open>
  The disassembler \<open>sw/tools/asm/disasm.c\<close>: the recogniser \<open>disasm\<close> over the same instruction
  table, the hexadecimal reader \<open>str2int\<close>, and the loop of \<open>main\<close> over the lines of the input file.
  \<^term>\<open>None\<close> as the result of \<open>disasm\<close> is \<open>RES_BAD\<close>, which leaves the text buffer as it was.

  The lemmas relate it to the assembler: an assembled word is recognised under its mnemonic up to
  the aliases that share an opcode, and the memory file is read back as the words it was written from.
\<close>

section \<open>Recognising an instruction word\<close>

text \<open>The compare mask built from the operand fields of one entry.\<close>

fun mask_loop :: "operand_def list \<Rightarrow> u32 \<Rightarrow> u32" where
  "mask_loop [] msk = msk"
| "mask_loop (f # fs) msk =
     mask_loop fs (msk OR push_bit (unat (od_offset f)) (push_bit (unat (od_width f)) 1 - 1))"

definition compare_mask :: "inst_def \<Rightarrow> u32" where
  "compare_mask d = NOT (mask_loop (take (id_nr_operands d) (operand_array d)) 0)"

definition compare_pattern :: "inst_def \<Rightarrow> u32" where
  "compare_pattern d =
     (if id_size d = INST_32 then id_pattern d OR push_bit SIZE_BIT 1 else id_pattern d)"

fun disasm_loop :: "inst_def list \<Rightarrow> u32 \<Rightarrow> string option" where
  "disasm_loop [] w = None"
| "disasm_loop (d # ds) w =
     (if w AND compare_mask d = compare_pattern d then Some (id_mnemonic d) else disasm_loop ds w)"

text \<open>The parallel and predicate bits are cleared, and the upper half when the size bit is clear.\<close>

definition disasm_word :: "u32 \<Rightarrow> u32" where
  "disasm_word insn_word =
     (let w = insn_word AND NOT (push_bit PAR_BIT 1) AND 0x3FFFFFFF
      in if w AND push_bit SIZE_BIT 1 \<noteq> 0 then w else w AND 0x0000FFFF)"

definition disasm :: "u32 \<Rightarrow> string option" where
  "disasm insn_word = disasm_loop ajardsp_insns (disasm_word insn_word)"

section \<open>Reading hexadecimal numbers\<close>

text \<open>
  One digit, in the arithmetic of \<open>unsigned char\<close>; the \<open>char\<close> read is promoted to \<open>int\<close> before
  \<open>'0'\<close> is subtracted and the result is truncated.
\<close>

definition hex_value :: "u8 \<Rightarrow> u8" where
  "hex_value c =
     (let x = ucast (c_char c - 48);
          y = (if 9 < x then x - 7 else x)
      in if 15 < y then y - 32 else y)"

fun str2int_loop :: "string \<Rightarrow> nat list \<Rightarrow> u64 \<Rightarrow> u64 option" where
  "str2int_loop data [] result = Some result"
| "str2int_loop data (j # js) result =
     (case c_index data j of
        None \<Rightarrow> None
      | Some c \<Rightarrow> str2int_loop data js (push_bit 4 result + ucast (hex_value c)))"

definition str2int :: "string \<Rightarrow> u8 \<Rightarrow> u64 option" where
  "str2int data len = str2int_loop data [0..<unat len] 0"

section \<open>The main loop\<close>

text \<open>\<open>fgets(line, 400, stream)\<close>: at most 399 characters, up to and including a newline.\<close>

fun take_line :: "nat \<Rightarrow> string \<Rightarrow> string \<times> string" where
  "take_line 0 s = ([], s)"
| "take_line (Suc n) [] = ([], [])"
| "take_line (Suc n) (c # cs) =
     (if c = newline then ([c], cs) else (let (l, r) = take_line n cs in (c # l, r)))"

lemma take_line_length: "length (snd (take_line n s)) \<le> length s"
  by (induction n s rule: take_line.induct) (auto split: prod.split)

lemma take_line_decreases:
  "s \<noteq> [] \<Longrightarrow> 0 < n \<Longrightarrow> length (snd (take_line n s)) < length s"
  using take_line_length by (cases s; cases n) (auto split: prod.split simp: less_Suc_eq_le, metis snd_conv)

function file_lines :: "string \<Rightarrow> string list" where
  "file_lines s =
     (if s = [] then [] else fst (take_line 399 s) # file_lines (snd (take_line 399 s)))"
  by pat_completeness auto
termination by (relation "measure length") (auto intro: take_line_decreases)

declare file_lines.simps [simp del]

text \<open>
  One half of the loop body: disassemble the eight digits at the start of \<open>data\<close> and print the line.
  A string that is too short is read beyond its end (into what the line buffer held before, which is
  not modelled: \<open>Undef\<close>); \<open>distxt\<close> is uninitialised until the first
  success and keeps the previous text after a failure.
\<close>

definition disasm_half :: "string \<Rightarrow> i32 \<Rightarrow> string option \<Rightarrow> (string \<times> string option, unit) outcome" where
  "disasm_half data addr distxt =
     (case str2int data 8 of
        None \<Rightarrow> Undef
      | Some v \<Rightarrow>
          let insn_word = ucast v :: u32;
              txt = (case disasm insn_word of Some m \<Rightarrow> Some m | None \<Rightarrow> distxt)
          in (case txt of
                None \<Rightarrow> Undef
              | Some t \<Rightarrow>
                  Good (fmt_x 4 addr @ [tab_char] @ fmt_x 8 insn_word @ [tab_char] @ t @
                        (if insn_word AND 1 \<noteq> 0 then '' | '' else [newline]), Some t)))"

definition disasm_line :: "string \<Rightarrow> i32 \<Rightarrow> string option \<Rightarrow> (string \<times> string option, unit) outcome" where
  "disasm_line line addr distxt =
     obind (disasm_half line addr distxt) (\<lambda>(out1, d1).
       obind (disasm_half (drop 8 line) (addr + 1) d1) (\<lambda>(out2, d2).
         Good (out1 @ out2, d2)))"

fun disasm_lines :: "string list \<Rightarrow> i32 \<Rightarrow> string option \<Rightarrow> (string, unit) outcome" where
  "disasm_lines [] addr distxt = Good []"
| "disasm_lines (line # rest) addr distxt =
     obind (disasm_line line addr distxt) (\<lambda>(out, d).
       obind (disasm_lines rest (addr + 2) d) (\<lambda>more_out. Good (out @ more_out)))"

definition disasm_main :: "string \<Rightarrow> (string, unit) outcome" where
  "disasm_main stream = disasm_lines (file_lines stream) 0 None"

section \<open>No two mnemonics share a code\<close>

text \<open>Two compare masks and patterns that no word matches both.\<close>

definition apart :: "inst_def \<Rightarrow> inst_def \<Rightarrow> bool" where
  "apart d e \<longleftrightarrow>
     (compare_pattern d XOR compare_pattern e)
       AND NOT (fields_mask (id_operands d)) AND NOT (fields_mask (id_operands e)) \<noteq> 0"

text \<open>The unsigned comparisons have the code of the signed ones.\<close>

definition canonical :: "string \<Rightarrow> string" where
  "canonical m =
     (if m = ''cmp16ltu'' then ''cmp16lt'' else if m = ''cmp16leu'' then ''cmp16le''
      else if m = ''cmp16gtu'' then ''cmp16gt'' else if m = ''cmp16geu'' then ''cmp16ge'' else m)"

definition distinguished :: "inst_def \<Rightarrow> inst_def \<Rightarrow> bool" where
  "distinguished d e \<longleftrightarrow> canonical (id_mnemonic d) = canonical (id_mnemonic e) \<or> apart d e"

lemma mask_loop_eq: "mask_loop ds m = m OR fields_mask ds"
  by (induction ds m rule: mask_loop.induct)
    (simp_all add: fields_mask_def field_mask_def width_mask_def or.assoc)

lemma compare_mask_eq: "wf_insn d \<Longrightarrow> compare_mask d = NOT (fields_mask (id_operands d))"
  by (simp add: compare_mask_def take_operand_array mask_loop_eq)

lemma apart_exclusive:
  assumes "wf_insn d" "wf_insn e" "apart d e" "w AND compare_mask d = compare_pattern d"
  shows "w AND compare_mask e \<noteq> compare_pattern e"
proof
  assume e: "w AND compare_mask e = compare_pattern e"
  have "(compare_pattern d XOR compare_pattern e)
       AND NOT (fields_mask (id_operands d)) AND NOT (fields_mask (id_operands e)) = 0"
    unfolding assms(4)[symmetric] e[symmetric] compare_mask_eq[OF assms(1)] compare_mask_eq[OF assms(2)]
    by (rule bit_word_eqI) (auto simp: bit_simps)
  with assms(3) show False by (simp add: apart_def)
qed

lemma apart_sym: "apart d e \<Longrightarrow> apart e d"
  by (simp add: apart_def ac_simps)

text \<open>An instruction table whose words can be recognised.\<close>

locale recognisable = insn_set +
  assumes pairwise_distinguished: "all_pairs distinguished tab"
begin

lemma disasm_loop_finds:
  assumes "d \<in> set tab" "w AND compare_mask d = compare_pattern d"
  shows "\<exists>m. disasm_loop tab w = Some m \<and> canonical m = canonical (id_mnemonic d)"
proof -
  have "\<exists>m. disasm_loop ds w = Some m \<and> canonical m = canonical (id_mnemonic d)"
    if "all_pairs distinguished ds" "list_all wf_insn ds" "d \<in> set ds" for ds
    using that
  proof (induction ds)
    case (Cons e ds)
    show ?case
    proof (cases "w AND compare_mask e = compare_pattern e")
      case True
      have "distinguished e d \<or> e = d" using Cons.prems by (auto simp: list_all_iff)
      moreover have "\<not> apart e d"
        using apart_exclusive[of e d w] True assms(2) Cons.prems by (auto simp: list_all_iff)
      ultimately show ?thesis using True by (auto simp: distinguished_def)
    next
      case False
      with assms(2) Cons.prems have "d \<in> set ds" by auto
      with Cons False show ?thesis by simp
    qed
  qed simp
  then show ?thesis using all_wf pairwise_distinguished assms(1) by blast
qed

end

text \<open>
  The codes of the whole table: the opcode bits shared by all formats, the bits of the operand fields,
  the pattern with its size bit, and the name.
\<close>

definition insn_code :: "inst_def \<Rightarrow> u32 \<times> u32 \<times> u32 \<times> string" where
  "insn_code d =
     (compare_pattern d AND 0x7F, fields_mask (id_operands d), compare_pattern d,
      canonical (id_mnemonic d))"

lemma table_codes:
  "map insn_code ajardsp_insns =
    [
     (0x00, 0x00000000, 0x00000000, ''nop''),
     (0x1E, 0x001DDC00, 0x2000001E, ''and32''),
     (0x3E, 0x001DDC00, 0x2000003E, ''or32''),
     (0x4E, 0x001DDC00, 0x2000004E, ''xor32''),
     (0x2E, 0x001C1C00, 0x2000002E, ''not32''),
     (0x5E, 0x001DFC00, 0x2000005E, ''shiftra32''),
     (0x6E, 0x001DFC00, 0x2000006E, ''shiftrl32''),
     (0x6E, 0x001DFC00, 0x2080006E, ''shiftll32''),
     (0x1E, 0x001FFE00, 0x2020001E, ''and16''),
     (0x3E, 0x001FFE00, 0x2020003E, ''or16''),
     (0x4E, 0x001FFE00, 0x2020004E, ''xor16''),
     (0x2E, 0x001E1E00, 0x2020002E, ''not16''),
     (0x5E, 0x001FFE00, 0x2020005E, ''shiftra16''),
     (0x6E, 0x001FFE00, 0x2020006E, ''shiftrl16''),
     (0x6E, 0x001FFE00, 0x20A0006E, ''shiftll16''),
     (0x38, 0x0000FF80, 0x00000038, ''add32''),
     (0x48, 0x0000FF80, 0x00000048, ''sub32''),
     (0x18, 0x00007F80, 0x00000018, ''add16''),
     (0x28, 0x00007F80, 0x00000028, ''sub16''),
     (0x58, 0x0000FF80, 0x00000058, ''mpy16''),
     (0x68, 0x0000FF80, 0x00000068, ''mac16''),
     (0x1A, 0x0301FE00, 0x2000001A, ''cmp16eq''),
     (0x1A, 0x0301FE00, 0x2400001A, ''cmp16ne''),
     (0x1A, 0x0301FE00, 0x2800001A, ''cmp16lt''),
     (0x1A, 0x0301FE00, 0x2800001A, ''cmp16lt''),
     (0x1A, 0x0301FE00, 0x2C00001A, ''cmp16le''),
     (0x1A, 0x0301FE00, 0x2C00001A, ''cmp16le''),
     (0x1A, 0x0301FE00, 0x3000001A, ''cmp16gt''),
     (0x1A, 0x0301FE00, 0x3000001A, ''cmp16gt''),
     (0x1A, 0x0301FE00, 0x3400001A, ''cmp16ge''),
     (0x1A, 0x0301FE00, 0x3400001A, ''cmp16ge''),
     (0x14, 0x0000FF00, 0x00000014, ''ld16''),
     (0x24, 0x0000FF00, 0x00000024, ''ldinc16''),
     (0x34, 0x0000FF00, 0x00000034, ''st16''),
     (0x44, 0x0000FF00, 0x00000044, ''stinc16''),
     (0x54, 0x00003F00, 0x00000054, ''ld32''),
     (0x64, 0x00003F00, 0x00000064, ''ldinc32''),
     (0x74, 0x00003F00, 0x00000074, ''st32''),
     (0x04, 0x00003F00, 0x00000084, ''stinc32''),
     (0x26, 0x0FFFFF00, 0x200000A6, ''ldimm16''),
     (0x16, 0x0FFFFF00, 0x20000096, ''ldimm16''),
     (0x16, 0x0FFFFF00, 0x20000096, ''ldimm16''),
     (0x16, 0x0FFFFF00, 0x20000096, ''ldimm16''),
     (0x46, 0x0FFFFF00, 0x20000046, ''ldoff16''),
     (0x46, 0x0FFFFF00, 0x20000046, ''ldoff16''),
     (0x56, 0x0FFFEE00, 0x20000056, ''ldoff32''),
     (0x56, 0x0FFFEE00, 0x20000056, ''ldoff32''),
     (0x66, 0x0FFFFF00, 0x20000066, ''stoff16''),
     (0x66, 0x0FFFFF00, 0x20000066, ''stoff16''),
     (0x76, 0x0FFFEE00, 0x20000076, ''stoff32''),
     (0x76, 0x0FFFEE00, 0x20000076, ''stoff32''),
     (0x06, 0x0FFFE000, 0x20000086, ''addptr16''),
     (0x16, 0x0007FF00, 0x20000016, ''mvts16''),
     (0x26, 0x0007FF00, 0x20000026, ''mvfs16''),
     (0x14, 0x0000F800, 0x00000194, ''push16''),
     (0x14, 0x0000F800, 0x00000594, ''push16''),
     (0x14, 0x00007000, 0x00008394, ''push32''),
     (0x14, 0x0000F800, 0x00000094, ''pop16''),
     (0x14, 0x0000F800, 0x00000494, ''pop16''),
     (0x14, 0x00007000, 0x00008294, ''pop32''),
     (0x24, 0x0000FE00, 0x000000A4, ''mv16''),
     (0x24, 0x0000FE00, 0x000001A4, ''mv16''),
     (0x44, 0x00007E00, 0x000000C4, ''mv16''),
     (0x34, 0x0000FF00, 0x000000B4, ''mv16''),
     (0x46, 0x0001FF00, 0x200000C6, ''stext32''),
     (0x36, 0x0001FF00, 0x200000B6, ''ldext32''),
     (0x56, 0x01FFFF00, 0x200000D6, ''extburst''),
     (0x42, 0x00FFFF00, 0x20000042, ''bra''),
     (0x42, 0x00FFFF00, 0x22000042, ''bra.2ds''),
     (0x42, 0x00FFFF00, 0x21000042, ''bra.1ds''),
     (0x22, 0x00FFFF00, 0x20000022, ''call''),
     (0x22, 0x00FFFF00, 0x22000022, ''call.2ds''),
     (0x22, 0x00FFFF00, 0x21000022, ''call.1ds''),
     (0x30, 0x00000000, 0x00000030, ''rets''),
     (0x30, 0x00000000, 0x00002030, ''rets.2ds''),
     (0x30, 0x00000000, 0x00001030, ''rets.1ds''),
     (0x50, 0x00000000, 0x00000050, ''reti''),
     (0x50, 0x00000000, 0x00002050, ''reti.2ds''),
     (0x50, 0x00000000, 0x00001050, ''reti.1ds''),
     (0x60, 0x00000000, 0x00000060, ''eint''),
     (0x70, 0x00000000, 0x00000070, ''dint''),
     (0x12, 0x00FFFF00, 0x20000012, ''bkrep''),
     (0x70, 0x00000000, 0x000000F0, ''halt'')]"
  by (simp add: table_eval insn_code_def canonical_def compare_pattern_def
        fields_mask_def field_mask_def width_mask_def SIZE_BIT_def)

fun codes_differ :: "u32 \<times> u32 \<times> u32 \<times> string \<Rightarrow> u32 \<times> u32 \<times> u32 \<times> string \<Rightarrow> bool" where
  "codes_differ (k, m, p, n) (k', m', p', n') \<longleftrightarrow>
     (if k = k' then n = n' \<or> (p XOR p') AND NOT m AND NOT m' \<noteq> 0 else True)"

lemma table_codes_differ: "all_pairs codes_differ (map insn_code ajardsp_insns)"
  by (simp add: table_codes)

lemma all_pairs_map: "all_pairs P (map f xs) \<longleftrightarrow> all_pairs (\<lambda>x y. P (f x) (f y)) xs"
  by (induction xs) (auto simp: list_all_iff)

lemma all_pairs_mono:
  "all_pairs P xs \<Longrightarrow> (\<And>x y. x \<in> set xs \<Longrightarrow> y \<in> set xs \<Longrightarrow> P x y \<Longrightarrow> Q x y) \<Longrightarrow> all_pairs Q xs"
  by (induction xs) (auto simp: list_all_iff)

lemma codes_differ_distinguished:
  assumes "wf_insn d" "wf_insn e" "codes_differ (insn_code d) (insn_code e)"
  shows "distinguished d e"
proof (rule ccontr)
  assume n: "\<not> distinguished d e"
  then have z: "(compare_pattern d XOR compare_pattern e)
       AND NOT (fields_mask (id_operands d)) AND NOT (fields_mask (id_operands e)) = 0"
    by (simp add: distinguished_def apart_def)
  have m: "(0x7F :: u32) = mask 7" by (simp add: mask_eq_exp_minus_1)
  have "compare_pattern d AND 0x7F = compare_pattern e AND 0x7F"
  proof (rule bit_word_eqI)
    fix i :: nat
    have "bit (reserved_mask sz) i" if "i < 7" for sz
      using that by (cases sz; simp add: reserved_mask_def mask_literals bit_simps)
    then have "\<not> bit (fields_mask (id_operands d)) i" "\<not> bit (fields_mask (id_operands e)) i" if "i < 7"
      using assms(1,2) that by (auto simp: wf_insn_def dest: and_zero_bit)
    moreover have "\<not> bit ((compare_pattern d XOR compare_pattern e)
       AND NOT (fields_mask (id_operands d)) AND NOT (fields_mask (id_operands e))) i"
      unfolding z by simp
    ultimately show "bit (compare_pattern d AND 0x7F) i \<longleftrightarrow> bit (compare_pattern e AND 0x7F) i"
      unfolding m by (auto simp: bit_simps dest: bit_imp_le_length)
  qed
  with assms(3) n show False
    by (simp add: insn_code_def distinguished_def apart_def)
qed

interpretation ajardsp_codes: recognisable ajardsp_insns
proof unfold_locales
  show "all_pairs distinguished ajardsp_insns"
    using table_codes_differ ajardsp.entry_wf codes_differ_distinguished
    by (auto simp: all_pairs_map elim: all_pairs_mono)
qed

section \<open>An assembled word matches its own entry\<close>

text \<open>The instructions whose predicate does not reach into the code: see \<open>disasm_word\<close>.\<close>

definition recognised :: "inst_def \<Rightarrow> instruction \<Rightarrow> bool" where
  "recognised d inst \<longleftrightarrow>
     inst_pred inst = None \<or> (id_size d = INST_32 \<and> inst_pred_neg inst = 0)"

lemma encode_predicate_bits_pos:
  assumes "encode_predicate inst q = Good p" "n < 30"
    and "inst_pred inst = None \<or> inst_pred_neg inst = 0"
  shows "bit p n = bit q n"
proof -
  have "bit (0x3fffffff :: u32) n" using assms(2) by (simp add: mask_literals bit_simps)
  then show ?thesis using assms
    by (auto simp: encode_predicate_def Let_def bit_simps split: option.splits if_splits)
qed

lemma assembles_bit_pos:
  assumes "wf_insn d" "assembles ign sy d inst has_next p"
    and "n < 30" "\<not> bit (fields_mask (id_operands d)) n"
    and "inst_pred inst = None \<or> inst_pred_neg inst = 0"
  shows "bit p n \<longleftrightarrow> n = 0 \<and> has_next \<or> bit (id_pattern d) n"
proof -
  from assembles_operands[OF assms(1,2)] obtain q where
    q: "encode_operands ign sy (id_operands d) (inst_ops inst)
          (if has_next then id_pattern d OR 1 else id_pattern d) = Good q"
    and p: "encode_predicate inst q = Good p"
    and len: "length (id_operands d) = length (inst_ops inst)"
    by (auto dest: list_all2_lengthD)
  have "list_all wf_field (id_operands d)"
    using assms(1) by (auto simp: wf_insn_def list_all_iff)
  with encode_operands_bits[OF q len] assms(4) encode_predicate_bits_pos[OF p assms(3,5)]
  show ?thesis by (auto simp: bit_simps)
qed

lemma bit_disasm_word:
  "bit (disasm_word w) n \<longleftrightarrow> bit w n \<and> 0 < n \<and> n < 30 \<and> (bit w 1 \<or> n < 16)"
proof -
  have "(w AND NOT (push_bit PAR_BIT 1) AND 0x3FFFFFFF) AND push_bit SIZE_BIT 1 \<noteq> 0 \<longleftrightarrow> bit w 1"
    (is "?l \<longleftrightarrow> _")
  proof -
    have "(w AND NOT (push_bit PAR_BIT 1) AND 0x3FFFFFFF) AND push_bit SIZE_BIT 1 = (if bit w 1 then 2 else 0)"
      unfolding mask_literals(1) PAR_BIT_def SIZE_BIT_def
      by (rule bit_word_eqI) (auto simp: bit_simps)
    then show ?thesis by simp
  qed
  moreover have m: "(0x0000FFFF :: u32) = mask 16" by (simp add: mask_eq_exp_minus_1)
  ultimately show ?thesis unfolding disasm_word_def Let_def m
    by (auto simp: mask_literals(1) PAR_BIT_def bit_simps dest: bit_imp_le_length)
qed

lemma high_bits:
  "30 \<le> n \<Longrightarrow> n < 32 \<Longrightarrow> bit (variable_mask sz) n"
  "16 \<le> n \<Longrightarrow> n < 32 \<Longrightarrow> bit (variable_mask INST_16) n"
  by (cases sz; simp add: variable_mask_def mask_literals bit_simps)
    (simp add: variable_mask_def mask_literals bit_simps)

lemma bit_compare_pattern:
  "bit (compare_pattern d) n \<longleftrightarrow> bit (id_pattern d) n \<or> (n = 1 \<and> id_size d = INST_32)"
  by (auto simp: compare_pattern_def SIZE_BIT_def bit_simps)

lemma recognised_is_32: "recognised d inst \<Longrightarrow> is_32 d inst \<longleftrightarrow> id_size d = INST_32"
  by (auto simp: recognised_def is_32_def)

lemma assembled_matches:
  assumes "wf_insn d" "assembles ign sy d inst has_next p" "recognised d inst"
  shows "disasm_word (final_word d inst p) AND compare_mask d = compare_pattern d"
proof (rule bit_word_eqI)
  fix n :: nat assume n: "n < LENGTH(32)"
  let ?w = "final_word d inst p" and ?F = "fields_mask (id_operands d)"
  have pos: "inst_pred inst = None \<or> inst_pred_neg inst = 0"
    using assms(3) by (auto simp: recognised_def)
  have size: "bit ?w 1 \<longleftrightarrow> id_size d = INST_32"
    using assembles_low_bits(2)[OF assms(1,2)] recognised_is_32[OF assms(3)] by simp
  have high: "\<not> bit (id_pattern d) n" if "30 \<le> n \<or> (id_size d = INST_16 \<and> 16 \<le> n)"
    using assms(1) that n high_bits[of n] by (auto simp: wf_insn_def dest: and_zero_bit)
  then have high': "bit (id_pattern d) n \<Longrightarrow> n < 30" "bit (id_pattern d) n \<Longrightarrow> id_size d = INST_16 \<Longrightarrow> n < 16"
    by (metis not_le)+
  have field: "\<not> bit (id_pattern d) n" if "bit ?F n"
    using assms(1) that by (auto simp: wf_insn_def dest: and_zero_bit)
  have low: "\<not> bit ?F n" "\<not> bit (id_pattern d) n" if "n < 2"
    using low_bits_reserved[OF assms(1) that] by auto
  have w: "bit ?w n \<longleftrightarrow> bit (id_pattern d) n" if "2 \<le> n" "n < 30" "\<not> bit ?F n"
    using assembles_bit_pos[OF assms(1,2) that(2,3) pos] that(1) n
    by (auto simp: final_word_def SIZE_BIT_def bit_simps)
  have cases: "n = 0 \<or> n = 1 \<or> (2 \<le> n \<and> n < 30) \<or> 30 \<le> n" by auto
  show "bit (disasm_word ?w AND compare_mask d) n \<longleftrightarrow> bit (compare_pattern d) n"
    unfolding bit_and_iff compare_mask_eq[OF assms(1)] bit_not_iff bit_disasm_word bit_compare_pattern
    using n size high' field low w cases by (cases "id_size d") (auto simp: not_le)
qed

text \<open>C10: an instruction word that the assembler produces is disassembled to the mnemonic of the
  source, up to the unsigned comparisons, which are shown as the signed ones with the same code.
  The instruction may be executed in parallel and have any operands; a 16-bit instruction must not
  be predicated and the predicate of a 32-bit one must not be negated.\<close>

theorem disasm_recognises:
  assumes "d \<in> set ajardsp_insns" "assembles ign sy d inst has_next p" "recognised d inst"
  shows "\<exists>m. disasm (final_word d inst p) = Some m \<and>
    canonical m = canonical (inst_mnemonic inst)"
  using ajardsp_codes.disasm_loop_finds[OF assms(1)
      assembled_matches[OF ajardsp.entry_wf[OF assms(1)] assms(2,3)]] assms(2)
  by (simp add: disasm_def assembles_def)

section \<open>Hexadecimal round trip\<close>

fun hex_digits :: "nat \<Rightarrow> nat \<Rightarrow> string" where
  "hex_digits 0 v = []"
| "hex_digits (Suc k) v = hex_digits k (v div 16) @ [hex_digit (v mod 16)]"

lemma hex_digits_value: "n < 16 \<Longrightarrow> hex_value (of_char (hex_digit n)) = of_nat n"
proof -
  have "\<forall>n\<in>set [0..<16]. hex_value (of_char (hex_digit n)) = of_nat n"
    by (simp add: upt_rec hex_digit_def hex_value_def c_char_def Let_def)
  then show "n < 16 \<Longrightarrow> hex_value (of_char (hex_digit n)) = of_nat n" by simp
qed

lemma length_hex_digits [simp]: "length (hex_digits k v) = k"
  by (induction k arbitrary: v) simp_all

text \<open>\<open>%0kx\<close> of a value below \<open>16 ^ k\<close> is exactly its \<open>k\<close> digits.\<close>

lemma pad_digits:
  assumes "0 < k" "v < 16 ^ k"
  shows "pad_left k (CHR ''0'') (digits_in 16 v) = hex_digits k v"
  using assms
proof (induction k arbitrary: v)
  case (Suc k)
  show ?case
  proof (cases "v < 16")
    case True
    have z: "hex_digits j 0 = replicate j (CHR ''0'')" for j
      by (induction j) (simp_all add: hex_digit_def replicate_append_same)
    from True show ?thesis by (simp add: digits_in.simps[of 16 v] pad_left_def z)
  next
    case False
    with Suc.prems have k: "0 < k" "v div 16 < 16 ^ k"
      by (auto intro: gr0I simp: less_mult_imp_div_less mult.commute)
    from Suc.IH[OF k] have "pad_left k (CHR ''0'') (digits_in 16 (v div 16)) = hex_digits k (v div 16)" .
    with False show ?thesis by (simp add: digits_in.simps[of 16 v] pad_left_def)
  qed
qed simp

lemma fmt_x_digits: "0 < k \<Longrightarrow> unat v < 16 ^ k \<Longrightarrow> fmt_x k v = hex_digits k (unat v)"
  by (simp add: fmt_x_def pad_digits)

lemma str2int_loop_append:
  "str2int_loop s (js @ ks) r = (case str2int_loop s js r of None \<Rightarrow> None | Some r' \<Rightarrow> str2int_loop s ks r')"
  by (induction s js r rule: str2int_loop.induct) (auto split: option.splits)

lemma str2int_loop_digits:
  assumes "take k (drop i s) = hex_digits k v" "i + k \<le> length s" "v < 16 ^ k"
  shows "str2int_loop s [i..<i + k] r = Some (push_bit (4 * k) r + of_nat v)"
  using assms
proof (induction k arbitrary: v)
  case (Suc k)
  let ?c = "hex_digit (v mod 16)"
  have split: "take (Suc k) (drop i s) = take k (drop i s) @ [s ! (i + k)]"
    using Suc.prems(2) by (simp add: take_Suc_conv_app_nth)
  then have t: "take k (drop i s) = hex_digits k (v div 16)" "s ! (i + k) = ?c"
    using Suc.prems(1) by simp_all
  from Suc.IH[OF t(1)] Suc.prems have
    "str2int_loop s [i..<i + k] r = Some (push_bit (4 * k) r + of_nat (v div 16))"
    by (simp add: less_mult_imp_div_less mult.commute)
  moreover have "c_index s (i + k) = Some (of_char ?c)"
    using t(2) Suc.prems(2) by (simp add: c_index_def)
  ultimately have "str2int_loop s [i..<i + Suc k] r =
      Some (push_bit 4 (push_bit (4 * k) r + of_nat (v div 16)) + of_nat (v mod 16))"
    using hex_digits_value[of "v mod 16"]
    by (simp add: str2int_loop_append unsigned_of_nat take_bit_nat_eq_self)
  moreover have "(of_nat v :: u64) = 16 * of_nat (v div 16) + of_nat (v mod 16)"
    by (metis mult_div_mod_eq of_nat_add of_nat_mult of_nat_numeral)
  then have "push_bit 4 (push_bit (4 * k) r + of_nat (v div 16)) + of_nat (v mod 16)
      = push_bit (4 * Suc k) r + (of_nat v :: u64)"
    by (simp add: push_bit_eq_mult algebra_simps power_add)
  ultimately show ?case by (simp only:)
qed simp

lemma unat_u32_bound: "unat (v :: u32) < 16 ^ 8"
proof -
  have "unat v < 2 ^ LENGTH(32)" by (rule unsigned_less)
  then show ?thesis by simp
qed

lemma unat_u16_bound: "unat (w :: u16) < 16 ^ 4"
proof -
  have "unat w < 2 ^ LENGTH(16)" by (rule unsigned_less)
  then show ?thesis by simp
qed

lemma length_fmt_x8: "length (fmt_x 8 v) = 8"
  using unat_u32_bound[of v] by (simp add: fmt_x_digits)

lemma drop_fmt_x8: "drop 8 (fmt_x 8 v @ s) = s"
  by (simp add: length_fmt_x8)

lemma str2int_fmt_x8: "str2int (fmt_x 8 v @ s) 8 = Some (ucast v)"
proof -
  have v: "unat v < 16 ^ 8" using unsigned_less[of v] by simp
  then have "take 8 (drop 0 (fmt_x 8 v @ s)) = hex_digits 8 (unat v)" by (simp add: fmt_x_digits)
  from str2int_loop_digits[OF this _ v, of 0] v show ?thesis
    by (simp add: str2int_def fmt_x_digits)
qed

lemma hex_digits_append:
  "b < 16 ^ k \<Longrightarrow> hex_digits j a @ hex_digits k b = hex_digits (j + k) (a * 16 ^ k + b)"
proof (induction k arbitrary: b)
  case (Suc k)
  have "b div 16 < 16 ^ k" using Suc.prems by (simp add: less_mult_imp_div_less mult.commute)
  moreover have "a * 16 ^ Suc k + b = b + 16 * (a * 16 ^ k)" by simp
  ultimately show ?case using Suc.IH[of "b div 16"]
    by (simp only: hex_digits.simps add_Suc_right div_mult_self2 mod_mult_self2 add.commute flip: append_assoc)
qed simp

lemma fmt_x_word: "fmt_x 4 (ucast (w :: u16)) = hex_digits 4 (unat w)"
  using unat_u16_bound[of w] by (simp add: fmt_x_digits unsigned_ucast_eq take_bit_nat_eq_self)

lemma unat_insn_image: "unat (insn_image lo hi) = unat hi * 16 ^ 4 + unat lo"
proof -
  have b: "unat hi < 65536" "unat lo < 65536"
    using unsigned_less[of hi] unsigned_less[of lo] by simp_all
  have "insn_image lo hi = ucast lo + push_bit 16 (ucast hi)"
    unfolding insn_image_def
    by (rule disjunctive_add [symmetric]) (auto simp: bit_simps dest: bit_imp_le_length)
  also have "\<dots> = of_nat (unat hi * 65536 + unat lo)"
    by (simp add: push_bit_eq_mult)
  finally have "unat (insn_image lo hi) = unat (of_nat (unat hi * 65536 + unat lo) :: u32)" by simp
  also have "\<dots> = unat hi * 65536 + unat lo"
    using b by (simp only: unat_of_nat) simp
  finally show ?thesis by simp
qed

lemma fmt_x_pair:
  "fmt_x 4 (ucast hi) @ fmt_x 4 (ucast lo) = fmt_x 8 (insn_image lo hi)"
proof -
  have "unat lo < 16 ^ 4" using unsigned_less[of lo] by simp
  from hex_digits_append[OF this, of 4 "unat hi"]
  have "hex_digits 4 (unat hi) @ hex_digits 4 (unat lo) = hex_digits 8 (unat (insn_image lo hi))"
    by (simp add: unat_insn_image)
  moreover have "unat (insn_image lo hi) < 16 ^ 8" using unsigned_less[of "insn_image lo hi"] by simp
  ultimately show ?thesis by (simp add: fmt_x_word fmt_x_digits)
qed

lemma imem_line_pairs:
  "imem_line st i =
     fmt_x 8 (insn_image (imem st (of_nat (i + 2))) (imem st (of_nat (i + 3)))) @
     fmt_x 8 (insn_image (imem st (of_nat i)) (imem st (of_nat (i + 1)))) @ [newline]"
  by (simp add: imem_line_def fmt_x_pair [symmetric])

section \<open>Reading the instruction memory file\<close>

lemma take_line_line:
  "newline \<notin> set l \<Longrightarrow> length l < n \<Longrightarrow> take_line n (l @ newline # s) = (l @ [newline], s)"
proof (induction l arbitrary: n)
  case Nil
  then show ?case by (cases n) auto
next
  case (Cons c l)
  then show ?case by (cases n) auto
qed

lemma newline_notin_hex: "newline \<notin> set (hex_digits k v)"
proof -
  have "\<forall>n\<in>set [0..<16]. hex_digit n \<noteq> newline"
    by (simp add: upt_rec hex_digit_def newline_def)
  then show ?thesis by (induction k arbitrary: v) (auto, metis atLeastLessThan_iff mod_less_divisor set_upt zero_le zero_less_numeral)
qed

lemma file_lines_line:
  assumes "newline \<notin> set l" "length l < 399"
  shows "file_lines (l @ newline # s) = (l @ [newline]) # file_lines s"
  by (subst file_lines.simps) (simp add: take_line_line[OF assms])

lemma file_lines_imem:
  "file_lines (concat (map (\<lambda>k. imem_line st (4 * k)) ks)) = map (\<lambda>k. imem_line st (4 * k)) ks"
proof (induction ks)
  case Nil
  show ?case by (simp add: file_lines.simps)
next
  case (Cons k ks)
  let ?l = "hex_digits 4 (unat (imem st (of_nat (4 * k + 3)))) @ hex_digits 4 (unat (imem st (of_nat (4 * k + 2)))) @
     hex_digits 4 (unat (imem st (of_nat (4 * k + 1)))) @ hex_digits 4 (unat (imem st (of_nat (4 * k + 0))))"
  have l: "imem_line st (4 * k) = ?l @ [newline]" by (simp add: imem_line_def fmt_x_word)
  have "newline \<notin> set ?l" "length ?l < 399" using newline_notin_hex by auto
  from file_lines_line[OF this] Cons show ?case by (simp only: list.map concat.simps l append_assoc append_Cons append_Nil)
qed

text \<open>C11: the instruction memory file is read back exactly: the reader splits it into the lines that
  were written, and \<open>str2int\<close> finds in the line of the words \<open>4k\<close> to \<open>4k + 3\<close> the upper and the
  lower pair of words.\<close>

theorem imem_file_reads_back:
  "file_lines (output_imem n st) = map (\<lambda>k. imem_line st (4 * k)) [0..<(n + 3) div 4] \<and>
   (\<forall>k. str2int (imem_line st (4 * k)) 8 =
          Some (ucast (insn_image (imem st (of_nat (4 * k + 2))) (imem st (of_nat (4 * k + 3))))) \<and>
        str2int (drop 8 (imem_line st (4 * k))) 8 =
          Some (ucast (insn_image (imem st (of_nat (4 * k))) (imem st (of_nat (4 * k + 1))))))"
  using file_lines_imem[of st "[0..<(n + 3) div 4]"] str2int_fmt_x8
  by (simp only: output_imem_def imem_line_pairs drop_fmt_x8) simp


text \<open>For a line of the instruction memory file the program prints the upper pair of words
  first: the line numbered \<open>addr\<close> shows the words \<open>i + 2\<close> and \<open>i + 3\<close>, and the line numbered
  \<open>addr + 1\<close> the words \<open>i\<close> and \<open>i + 1\<close>, each as one 32-bit instruction.\<close>

theorem disasm_prints_upper_pair_first:
  assumes "w2 = insn_image (imem st (of_nat (i + 2))) (imem st (of_nat (i + 3)))" "disasm w2 = Some m2"
    and "w1 = insn_image (imem st (of_nat i)) (imem st (of_nat (i + 1)))" "disasm w1 = Some m1"
  shows "disasm_line (imem_line st i) addr distxt =
    Good (fmt_x 4 addr @ [tab_char] @ fmt_x 8 w2 @ [tab_char] @ m2 @
            (if w2 AND 1 \<noteq> 0 then '' | '' else [newline]) @
          fmt_x 4 (addr + 1) @ [tab_char] @ fmt_x 8 w1 @ [tab_char] @ m1 @
            (if w1 AND 1 \<noteq> 0 then '' | '' else [newline]), Some m1)"
proof -
  have half: "disasm_half (fmt_x 8 w @ s) a d =
      Good (fmt_x 4 a @ [tab_char] @ fmt_x 8 w @ [tab_char] @ m @
              (if w AND 1 \<noteq> 0 then '' | '' else [newline]), Some m)"
    if "disasm w = Some m" for w s a d m
    using that by (simp add: disasm_half_def str2int_fmt_x8 ucast_ucast_u32)
  show ?thesis
    by (simp only: disasm_line_def imem_line_pairs drop_fmt_x8 assms(1)[symmetric] assms(3)[symmetric]
        half[OF assms(2)] half[OF assms(4)] obind.simps prod.case append_assoc)
qed

section \<open>The properties on concrete words\<close>

theorem disasm_recognises_witness:
  "\<exists>m. disasm (final_word sample_entry sample_inst 0x212342A5) = Some m \<and> canonical m = ''ldimm16''"
  using disasm_recognises[OF sample_entry_in sample_assembles]
  by (simp add: recognised_def sample_inst_def plain_inst_def canonical_def)

theorem disasm_prints_upper_pair_first_witness:
  "\<exists>out. disasm_line (imem_line (init\<lparr>imem := (\<lambda>_. 0)(2 := 1)\<rparr>) 0) 0 None =
     Good (fmt_x 4 0 @ [tab_char] @ fmt_x 8 1 @ [tab_char] @ ''nop'' @ '' | '' @ out, Some ''nop'')"
proof -
  have nop: "disasm 0 = Some ''nop''" "disasm 1 = Some ''nop''"
    by (simp_all add: disasm_def disasm_word_def ajardsp_insns_def nop_insns_def insn_def compare_mask_def
        compare_pattern_def operand_array_def PAR_BIT_def SIZE_BIT_def Let_def)
  show ?thesis
    using disasm_prints_upper_pair_first[of 1 "init\<lparr>imem := (\<lambda>_. 0)(2 := 1)\<rparr>" 0 "''nop''" 0 "''nop''" 0 None] nop
    by (simp add: insn_image_def)
qed

text \<open>No word of the instruction set is claimed by two mnemonics: a word that matches the masks and
  patterns of two entries has the same name in both, up to the unsigned comparisons.\<close>

theorem codes_unambiguous:
  assumes "d \<in> set ajardsp_insns" "e \<in> set ajardsp_insns"
    and "w AND compare_mask d = compare_pattern d" "w AND compare_mask e = compare_pattern e"
  shows "canonical (id_mnemonic d) = canonical (id_mnemonic e)"
proof -
  obtain m m' where "disasm_loop ajardsp_insns w = Some m" "canonical m = canonical (id_mnemonic d)"
    "disasm_loop ajardsp_insns w = Some m'" "canonical m' = canonical (id_mnemonic e)"
    using ajardsp_codes.disasm_loop_finds[OF assms(1,3)] ajardsp_codes.disasm_loop_finds[OF assms(2,4)] by blast
  then show ?thesis by simp
qed

theorem codes_unambiguous_witness:
  "canonical (id_mnemonic (hd nop_insns)) = canonical (id_mnemonic (ajardsp_insns ! 0))"
  by (rule codes_unambiguous[of _ _ 0])
    (simp_all add: ajardsp_insns_def nop_insns_def insn_def compare_mask_def compare_pattern_def operand_array_def)

end
