(* ===== verification/Limits.thy ===== *)
theory Limits
  imports Disasm
begin

text \<open>
  Where the tools do not do what their inputs suggest: instructions that share a code, directives on
  which the two passes disagree, instructions the disassembler does not know, and the end of the
  instruction memory.  Each is stated of the model at concrete inputs or for all inputs of a class.
\<close>

section \<open>Properties\<close>

definition entries :: "string \<Rightarrow> (u32 \<times> operand_def list) list" where
  "entries m = map (\<lambda>d. (id_pattern d, id_operands d)) (filter (\<lambda>d. id_mnemonic d = m) ajardsp_insns)"

text \<open>The unsigned comparisons have the opcode and the fields of the signed ones, so the two cannot be
  told apart in the code.\<close>

theorem unsigned_compares_are_signed:
  "entries ''cmp16ltu'' = entries ''cmp16lt'' \<and> entries ''cmp16leu'' = entries ''cmp16le'' \<and>
   entries ''cmp16gtu'' = entries ''cmp16gt'' \<and> entries ''cmp16geu'' = entries ''cmp16ge'' \<and>
   entries ''cmp16lt'' \<noteq> [] \<and> entries ''cmp16lt'' \<noteq> entries ''cmp16gt''"
  by (simp add: entries_def table_eval)

definition compare_inst :: "string \<Rightarrow> i32 \<Rightarrow> instruction" where
  "compare_inst m neg =
     (plain_inst m [reg_operand ''acc0l'', reg_operand ''acc1l'', reg_operand ''pred1''])
       \<lparr>inst_pred := Some ''pred2'', inst_pred_neg := neg\<rparr>"

text \<open>The bit that negates a predicate is the top bit of the comparison code: under a negated
  predicate \<open>cmp16eq\<close> is assembled to the words of \<open>cmp16gt\<close> under the positive one.\<close>

theorem negated_compare_changes_code:
  "\<exists>st'. try_assemble_inst_bundle (code_bundle [compare_inst ''cmp16eq'' 1]) init = Good st' \<and>
         try_assemble_inst_bundle (code_bundle [compare_inst ''cmp16gt'' 0]) init = Good st'"
  by (simp add: compare_inst_def exec_simps)

text \<open>Loading a symbol's address into an accumulator half is assembled to the load of a pointer
  register: \<open>ldimm16 #x, $acc1l\<close> and \<open>ldimm16 #x, $ptr2\<close> give the same words.\<close>

theorem ldimm_symbol_loads_pointer:
  "let st = init\<lparr>symtab_p := [\<lparr>se_name = ''x'', se_address = 0x123\<rparr>]\<rparr>;
       load = (\<lambda>r. try_assemble_inst_bundle
                     (code_bundle [plain_inst ''ldimm16'' [sym_operand ''x'', reg_operand r]]) st)
   in \<exists>st'. load ''acc1l'' = Good st' \<and> load ''ptr2'' = Good st'"
  by (simp add: exec_simps)

lemma ucast_minus_one: "(ucast (ucast (- 1 :: i32) :: u16) :: u32) = 0xffff"
proof -
  have "(ucast (ucast (- 1 :: i32) :: u16) :: u32) = mask 16"
    by (rule bit_word_eqI) (auto simp: bit_simps)
  then show ?thesis by (simp add: mask_eq_exp_minus_1)
qed

text \<open>For a negative \<open>.skip\<close> the passes disagree: pass 0 moves the data address back, pass 1 does not,
  so the label that follows is bound to another address than the word behind it.\<close>

theorem negative_skip_misplaces_label:
  "\<exists>st2. asm_gen_opcodes False
       [data_item None None 0 (- 1), data_item (Some ''t'') None 0 0, data_item None None 7 0] [] init
     = Good (st2, output_hex False st2) \<and>
   symtab_lookup ''t'' (symtab_p st2) = Some 0xffff \<and> dmem st2 0 = 7 \<and> dmem st2 0xffff = DMEM_UNINIT_VALUE"
  by (simp add: exec_simps ucast_minus_one)

text \<open>\<open>.skip 0\<close> still takes a word, and \<open>.align 0\<close>, which pass 0 ignores, dereferences a NULL pointer
  in pass 1.\<close>

theorem zero_directives:
  "data_words sy (data_item None None 0 0) = Some [0] \<and>
   pass_0_bundle (align_bundle 0) st = Good st \<and> pass_1_bundle (align_bundle 0) st = Undef"
  by (simp add: data_words_def data_item_def pass_0_bundle_def pass_1_bundle_def align_bundle_def
      assemble_bundle_def try_assemble_inst_bundle_def)

text \<open>A two-word instruction at the last address stores its second word outside the instruction
  memory.\<close>

theorem last_word_overflows:
  "try_assemble_inst_bundle (code_bundle [sample_inst]) (init\<lparr>imem_addr := 0xffff\<rparr>) = Undef"
  by (simp add: exec_simps sample_inst_def)

lemma bit_final_29:
  assumes "wf_insn d" "assembles ign sy d inst has_next p" "id_size d = INST_16"
  shows "\<not> bit (final_word d inst p) 29"
proof -
  from assembles_operands[OF assms(1,2)] obtain q where
    q: "encode_operands ign sy (id_operands d) (inst_ops inst)
          (if has_next then id_pattern d OR 1 else id_pattern d) = Good q"
    and p: "encode_predicate inst q = Good p"
    and len: "length (id_operands d) = length (inst_ops inst)"
    by (auto dest: list_all2_lengthD)
  have wf: "list_all wf_field (id_operands d)"
    using assms(1) by (auto simp: wf_insn_def list_all_iff)
  have "bit (reserved_mask INST_16) 29" "bit (variable_mask INST_16) 29"
    by (simp_all add: reserved_mask_def variable_mask_def mask_literals bit_simps)
  with assms(1,3) have "\<not> bit (fields_mask (id_operands d)) 29" "\<not> bit (id_pattern d) 29"
    by (auto simp: wf_insn_def dest: and_zero_bit)
  with encode_operands_bits[OF q len wf, of 29] have "\<not> bit q 29" by (auto simp: bit_simps)
  moreover have "\<not> bit PRED_NEG_BIT 29" unfolding PRED_NEG_BIT_def bit_push_bit_iff by simp
  ultimately have "\<not> bit p 29"
    using p by (auto simp: encode_predicate_def Let_def bit_simps split: option.splits if_splits)
  then show ?thesis by (auto simp: final_word_def SIZE_BIT_def bit_simps)
qed

lemma disasm_loop_None:
  "(\<And>d. d \<in> set ds \<Longrightarrow> w AND compare_mask d \<noteq> compare_pattern d) \<Longrightarrow> disasm_loop ds w = None"
  by (induction ds) auto

text \<open>The disassembler recognises no predicated 16-bit instruction: with the size bit set the word
  matches neither the 16-bit entries nor, without bit 29, the 32-bit ones.\<close>

theorem disasm_misses_predicated_16:
  assumes "d \<in> set ajardsp_insns" "assembles ign sy d inst has_next p"
    and "id_size d = INST_16" "inst_pred inst \<noteq> None"
  shows "disasm (final_word d inst p) = None"
  unfolding disasm_def
proof (rule disasm_loop_None)
  fix e assume "e \<in> set ajardsp_insns"
  then have wf: "wf_insn e" by (rule ajardsp.entry_wf)
  let ?w = "final_word d inst p"
  note wfd = ajardsp.entry_wf[OF assms(1)]
  have one: "bit (disasm_word ?w) 1"
    using assembles_low_bits(2)[OF wfd assms(2)] assms(4) by (simp add: bit_disasm_word is_32_def)
  have n29: "\<not> bit (disasm_word ?w) 29"
    using bit_final_29[OF wfd assms(2,3)] by (simp add: bit_disasm_word)
  show "disasm_word ?w AND compare_mask e \<noteq> compare_pattern e"
  proof
    assume eq: "disasm_word ?w AND compare_mask e = compare_pattern e"
    have "bit (disasm_word ?w AND compare_mask e) 1"
      using one low_bits_reserved(1)[OF wf, of 1] by (simp add: compare_mask_eq[OF wf] bit_simps)
    then have "id_size e = INST_32"
      using low_bits_reserved(2)[OF wf, of 1] unfolding eq bit_compare_pattern by auto
    then have "bit (compare_pattern e) 29"
      using wf by (simp add: bit_compare_pattern wf_insn_def)
    then show False using n29 unfolding eq[symmetric] by (simp add: bit_simps)
  qed
qed

theorem disasm_misses_predicated_16_witness:
  "disasm (final_word (hd nop_insns) (plain_inst ''nop'' []\<lparr>inst_pred := Some ''pred1''\<rparr>) 0x40000000) = None"
  by (rule disasm_misses_predicated_16[where ign = False and sy = "[]" and has_next = False])
    (simp_all add: ajardsp_insns_def nop_insns_def insn_def assembles_def exec_simps)

end
