(* ===== verification/Target.thy ===== *)
theory Target
  imports Disasm
begin

text \<open>
  Loading a program into a board: \<open>sw/tools/target/wb_debug.c\<close>, which reads the memory files of the
  assembler and sends writes to the bus over a serial line (or, as hexadecimal text, to a file), and the
  receiver of that protocol, the byte state machine of \<open>rtl/verilog/soc/wb_debug.v\<close>.

  The files are a parameter: a function from names to contents, \<^term>\<open>None\<close> for a file that cannot be
  opened.  The serial line is two byte streams.  The host is little endian.  A variable that
  \<open>fscanf\<close> did not set is indeterminate, and using it is \<open>Undef\<close>; so is \<open>int\<close> overflow.
\<close>

section \<open>State\<close>

text \<open>
  \<open>uart_hex_files\<close> are the files opened by \<open>--uart-hex\<close> with what was written to them, the current
  \<open>uart_hex_file_fp\<close> first; the empty list is the NULL pointer.
\<close>

record target =
  uart_hex_files :: "(string \<times> string) list"
  uart_out :: "u8 list"
  uart_in :: "u8 list"
  target_stdout :: string

definition CMD_WRITE :: u8 where "CMD_WRITE = 0xc1"
definition CMD_READ :: u8 where "CMD_READ = 0xc2"

datatype target_exit = Usage | Cannot_create string

section \<open>Bus accesses\<close>

text \<open>The bytes of a 32-bit word, lowest first: \<open>0xff & (w >> 8*i)\<close>.\<close>

definition le_bytes :: "u32 \<Rightarrow> u8 list" where
  "le_bytes w = map (\<lambda>i. ucast (0xff AND drop_bit (8 * i) w)) [0..<4]"

definition hex_line :: "u8 \<Rightarrow> string" where
  "hex_line b = fmt_x 2 (ucast b) @ [newline]"

definition w32_bytes :: "u32 \<Rightarrow> u32 \<Rightarrow> u8 list" where
  "w32_bytes addr data = CMD_WRITE # le_bytes addr @ le_bytes data"

definition wb_debug_w32 :: "u32 \<Rightarrow> u32 \<Rightarrow> target \<Rightarrow> target" where
  "wb_debug_w32 addr data t =
     (case uart_hex_files t of
        (f, text) # fs \<Rightarrow>
          t\<lparr>uart_hex_files := (f, text @ concat (map hex_line (w32_bytes addr data))) # fs\<rparr>
      | [] \<Rightarrow> t\<lparr>uart_out := uart_out t @ w32_bytes addr data\<rparr>)"

text \<open>A short \<open>read\<close> leaves bytes of \<open>*data_p\<close> unset.\<close>

definition of_le_bytes :: "u8 list \<Rightarrow> u32" where
  "of_le_bytes bs = foldr (\<lambda>b w. ucast b OR push_bit 8 w) bs 0"

definition wb_debug_r32 :: "u32 \<Rightarrow> target \<Rightarrow> (u32 \<times> target, target_exit) outcome" where
  "wb_debug_r32 addr t =
     (if length (uart_in t) < 4 then Undef
      else Good (of_le_bytes (take 4 (uart_in t)),
                 t\<lparr>uart_out := uart_out t @ CMD_READ # le_bytes addr, uart_in := drop 4 (uart_in t)\<rparr>))"

section \<open>Memory patterns\<close>

definition print_out :: "string \<Rightarrow> target \<Rightarrow> target" where
  "print_out s t = t\<lparr>target_stdout := target_stdout t @ s\<rparr>"

definition hex_upper :: "char \<Rightarrow> char" where
  "hex_upper c = (if c \<in> set ''abcdef'' then char_of (of_char c - 32 :: nat) else c)"

definition fmt_X :: "nat \<Rightarrow> u32 \<Rightarrow> string" where
  "fmt_X w v = map hex_upper (fmt_x w v)"

definition vga_test :: "target \<Rightarrow> target" where
  "vga_test t =
     fold (\<lambda>i. wb_debug_w32 (0xf0000000 + of_nat i) 0x44444444) [0..<320000 div 4]
       (wb_debug_w32 0xf0010000 0x2 (wb_debug_w32 0xf0010004 0x0 t))"

definition nibble_pattern :: "u32 \<Rightarrow> u32" where
  "nibble_pattern i =
     (let nibble = i AND 0xf in
      push_bit 28 nibble OR push_bit 24 nibble OR push_bit 20 nibble OR push_bit 16 nibble OR
      push_bit 12 nibble OR push_bit 8 nibble OR push_bit 4 nibble OR push_bit 0 nibble)"

text \<open>The \<open>int\<close> product \<open>4*i\<close> overflows from \<open>i = 2 ^ 29\<close> on.\<close>

definition pat_mem :: "u32 \<Rightarrow> u32 \<Rightarrow> target \<Rightarrow> (target, target_exit) outcome" where
  "pat_mem addr len t =
     (if 0x20000000 < drop_bit 2 len then Undef
      else Good (fold (\<lambda>i t.
         let a = addr + 4 * of_nat i; value = nibble_pattern (of_nat i) in
         wb_debug_w32 a value
           (print_out (''pat_mem: 0x'' @ fmt_X 8 a @ '' = 0x'' @ fmt_X 8 value @ [newline]) t))
       [0..<unat (drop_bit 2 len)] t))"

definition fill_mem :: "u32 \<Rightarrow> u32 \<Rightarrow> u32 \<Rightarrow> target \<Rightarrow> (target, target_exit) outcome" where
  "fill_mem addr len value t =
     (if 0x20000000 < len then Undef
      else Good (fold (\<lambda>i. wb_debug_w32 (addr + 4 * of_nat i) value) [0..<unat len] t))"

fun dump_words :: "nat \<Rightarrow> u32 \<Rightarrow> target \<Rightarrow> (target, target_exit) outcome" where
  "dump_words 0 addr t = Good t"
| "dump_words (Suc n) addr t =
     obind (wb_debug_r32 addr t) (\<lambda>(data, t1).
       dump_words n (addr + 4) (print_out (''0x'' @ fmt_X 8 addr @ '': 0x'' @ fmt_X 8 data @ [newline]) t1))"

definition dump_mem :: "u32 \<Rightarrow> u32 \<Rightarrow> target \<Rightarrow> (target, target_exit) outcome" where
  "dump_mem addr len t =
     (if 0x7ffffffc < len then Undef
      else obind (dump_words ((unat len + 3) div 4) addr t) (\<lambda>t1. Good (print_out [newline] t1)))"

section \<open>Reading the memory files\<close>

text \<open>
  A stream: what is left of the file, and whether a read has met its end.  \<open>scan_x w\<close> is the
  conversion \<open>%0wx\<close> of \<open>fscanf\<close>: white space, an optional sign, an optional \<open>0x\<close>, digits, at most \<open>w\<close>
  characters after the white space.
\<close>

type_synonym stream = "string \<times> bool"

definition c_isxdigit :: "char \<Rightarrow> bool" where
  "c_isxdigit c \<longleftrightarrow> c \<in> set ''0123456789abcdefABCDEF''"

definition xdigit_value :: "char \<Rightarrow> u32" where
  "xdigit_value c =
     (let n = of_char c :: nat in
      of_nat (if n \<le> 57 then n - 48 else if n \<le> 70 then n - 55 else n - 87))"

definition xdigits_value :: "string \<Rightarrow> u32" where
  "xdigits_value ds = foldl (\<lambda>v c. 16 * v + xdigit_value c) 0 ds"

definition scan_sign :: "nat \<Rightarrow> string \<Rightarrow> bool \<times> nat \<times> string" where
  "scan_sign w s =
     (case s of
        c # r \<Rightarrow> if 0 < w \<and> c \<in> {CHR ''-'', CHR ''+''} then (c = CHR ''-'', w - 1, r) else (False, w, s)
      | [] \<Rightarrow> (False, w, s))"

definition scan_prefix :: "nat \<Rightarrow> string \<Rightarrow> nat \<times> string" where
  "scan_prefix w s =
     (case s of
        z # x # r \<Rightarrow>
          if 1 < w \<and> z = CHR ''0'' \<and> x \<in> {CHR ''x'', CHR ''X''} then (w - 2, r) else (w, s)
      | _ \<Rightarrow> (w, s))"

definition scan_x :: "nat \<Rightarrow> stream \<Rightarrow> u32 option \<times> stream" where
  "scan_x w f =
     (let s0 = dropWhile c_isspace (fst f);
          (neg, w1, s1) = scan_sign w s0;
          (w2, s2) = scan_prefix w1 s1;
          ds = takeWhile c_isxdigit (take w2 s2);
          rest = drop (length ds) s2;
          v = xdigits_value ds
      in (if ds = [] then None else Some (if neg then - v else v),
          (rest, snd f \<or> (rest = [] \<and> length ds < w2))))"

text \<open>
  The loading loops; \<open>len\<close> is the value of the \<open>int\<close> \<open>length\<close>.  The order of the two words of a line is
  that of the file: the upper pair is printed first.
\<close>

function load_imem_loop :: "stream \<Rightarrow> u32 \<Rightarrow> int \<Rightarrow> target \<Rightarrow> (target, target_exit) outcome" where
  "load_imem_loop f address len t =
     (if snd f then Good t
      else case scan_x 8 f of
        (None, _) \<Rightarrow> Undef
      | (Some high, f1) \<Rightarrow>
          (case scan_x 8 f1 of
             (None, _) \<Rightarrow> Undef
           | (Some low, f2) \<Rightarrow>
               if len - 4 < - (2 ^ 31) then Undef
               else
                 let t1 = wb_debug_w32 address low t in
                 if len - 4 \<le> 0 then Good t1
                 else
                   let t2 = wb_debug_w32 (address + 4) high t1 in
                   if len - 8 \<le> 0 then Good t2
                   else load_imem_loop f2 (address + 8) (len - 8) t2))"
  by pat_completeness auto
termination by (relation "measure (\<lambda>(f, a, len, t). nat len)") auto

function load_dmem_loop :: "stream \<Rightarrow> u32 \<Rightarrow> int \<Rightarrow> target \<Rightarrow> (target, target_exit) outcome" where
  "load_dmem_loop f address len t =
     (if snd f \<or> len \<le> 0 then Good t
      else case scan_x 4 f of
        (None, _) \<Rightarrow> Undef
      | (Some low, f1) \<Rightarrow>
          (case scan_x 4 f1 of
             (None, _) \<Rightarrow> Undef
           | (Some high, f2) \<Rightarrow>
               load_dmem_loop f2 (address + 4) (len - 4)
                 (wb_debug_w32 address (push_bit 16 high OR low) t)))"
  by pat_completeness auto
termination by (relation "measure (\<lambda>(f, a, len, t). nat len)") auto

declare load_imem_loop.simps [simp del] load_dmem_loop.simps [simp del]

text \<open>\<open>print_usage\<close> does not return.\<close>

definition target_load_imem ::
    "(string \<Rightarrow> string option) \<Rightarrow> string \<Rightarrow> u32 \<Rightarrow> i32 \<Rightarrow> target \<Rightarrow> (target, target_exit) outcome" where
  "target_load_imem files imemfile address len t =
     (case files imemfile of
        None \<Rightarrow> Fail Usage
      | Some content \<Rightarrow> load_imem_loop (content, False) address (sint len) t)"

definition target_load_dmem ::
    "(string \<Rightarrow> string option) \<Rightarrow> string \<Rightarrow> u32 \<Rightarrow> i32 \<Rightarrow> target \<Rightarrow> (target, target_exit) outcome" where
  "target_load_dmem files dmemfile address len t =
     (case files dmemfile of
        None \<Rightarrow> Fail Usage
      | Some content \<Rightarrow> load_dmem_loop (content, False) address (sint len) t)"

section \<open>The command line\<close>

text \<open>\<open>strtok\<close> with the delimiter \<open>:\<close>: the non-empty pieces.\<close>

fun strtok_loop :: "string \<Rightarrow> string \<Rightarrow> string list" where
  "strtok_loop [] cur = (if cur = [] then [] else [cur])"
| "strtok_loop (c # cs) cur =
     (if c = CHR '':'' then (if cur = [] then [] else [cur]) @ strtok_loop cs []
      else strtok_loop cs (cur @ [c]))"

text \<open>
  \<open>strtoul(s, NULL, 0)\<close>, saturating at \<open>ULONG_MAX\<close> of 64 bits: a prefix \<open>0x\<close> selects base 16, a
  leading \<open>0\<close> base 8; the result is negated after a minus sign.
\<close>

definition digit_in :: "nat \<Rightarrow> char \<Rightarrow> bool" where
  "digit_in base c \<longleftrightarrow> c_isxdigit c \<and> unat (xdigit_value c) < base"

definition strtoul_magnitude :: "nat \<Rightarrow> string \<Rightarrow> nat" where
  "strtoul_magnitude base s =
     foldl (\<lambda>v c. v * base + unat (xdigit_value c)) 0 (takeWhile (digit_in base) s)"

definition strtoul :: "string \<Rightarrow> u64" where
  "strtoul s =
     (let s0 = dropWhile c_isspace s;
          (neg, _, s1) = scan_sign 1 s0;
          v = (case s1 of
                 z # x # d # r \<Rightarrow>
                   if z = CHR ''0'' \<and> x \<in> {CHR ''x'', CHR ''X''} \<and> c_isxdigit d
                   then strtoul_magnitude 16 (d # r)
                   else strtoul_magnitude (if z = CHR ''0'' then 8 else 10) s1
               | z # _ \<Rightarrow> strtoul_magnitude (if z = CHR ''0'' then 8 else 10) s1
               | [] \<Rightarrow> 0)
      in if 2 ^ 64 \<le> v then - 1 else if neg then - of_nat v else of_nat v)"

definition strtoul32 :: "string \<Rightarrow> u32" where
  "strtoul32 s = ucast (strtoul s)"

text \<open>
  One argument.  \<open>args\<close> has 16 elements, the last for the NULL that ends the loop; with no piece at all
  \<open>strcmp\<close> is called with NULL.
\<close>

definition wb_debug_arg ::
    "(string \<Rightarrow> string option) \<Rightarrow> (string \<Rightarrow> bool) \<Rightarrow> string \<Rightarrow> target
       \<Rightarrow> (target, target_exit) outcome" where
  "wb_debug_arg files can_create arg t =
     (if take 2 arg \<noteq> ''--'' then Fail Usage
      else
        let args = strtok_loop (drop 2 arg) []; n = length args in
        if 15 < n then Undef
        else if n = 0 then Undef
        else if args ! 0 = ''uart-hex'' \<and> n = 2 then
          (if can_create (args ! 1) then Good (t\<lparr>uart_hex_files := (args ! 1, []) # uart_hex_files t\<rparr>)
           else Fail (Cannot_create (args ! 1)))
        else if args ! 0 = ''load-imem'' \<and> n = 4 then
          target_load_imem files (args ! 1) (strtoul32 (args ! 2)) (strtoul32 (args ! 3)) t
        else if args ! 0 = ''load-dmem'' \<and> n = 4 then
          target_load_dmem files (args ! 1) (strtoul32 (args ! 2)) (strtoul32 (args ! 3)) t
        else if args ! 0 = ''dump'' \<and> n = 3 then
          dump_mem (strtoul32 (args ! 1)) (strtoul32 (args ! 2)) t
        else if args ! 0 = ''w32'' \<and> n = 3 then
          Good (wb_debug_w32 (strtoul32 (args ! 1)) (strtoul32 (args ! 2)) t)
        else Fail Usage)"

text \<open>The arguments after the program name, in order; with none of them the usage is printed.\<close>

definition wb_debug_main ::
    "(string \<Rightarrow> string option) \<Rightarrow> (string \<Rightarrow> bool) \<Rightarrow> string list \<Rightarrow> target
       \<Rightarrow> (target, target_exit) outcome" where
  "wb_debug_main files can_create argv t =
     (if argv = [] then Fail Usage else walk (wb_debug_arg files can_create) argv t)"

section \<open>The receiver\<close>

text \<open>
  The byte state machine of \<open>wb_debug.v\<close>.  The Wishbone transfer that follows the last byte of a
  command is an output of the step: the serial line is slow enough for the bus to finish before the
  next address byte arrives.
\<close>

datatype rx_phase =
    S_WRITE_ADDR_0 | S_WRITE_ADDR_1 | S_WRITE_ADDR_2 | S_WRITE_ADDR_3
  | S_WRITE_DATA_0 | S_WRITE_DATA_1 | S_WRITE_DATA_2 | S_WRITE_DATA_3
  | S_READ_ADDR_0 | S_READ_ADDR_1 | S_READ_ADDR_2 | S_READ_ADDR_3
  | S_IDLE

record rx_state =
  rx_phase :: rx_phase
  addr_0_r :: u8
  addr_1_r :: u8
  addr_2_r :: u8
  addr_3_r :: u8
  byte0_r :: u8
  byte1_r :: u8
  byte2_r :: u8
  byte3_r :: u8

datatype bus_access = Bus_write u32 u32 | Bus_read u32

definition wb_adr_o :: "rx_state \<Rightarrow> u32" where
  "wb_adr_o r = of_le_bytes [addr_0_r r, addr_1_r r, addr_2_r r, addr_3_r r]"

definition wb_dat_o :: "rx_state \<Rightarrow> u32" where
  "wb_dat_o r = of_le_bytes [byte0_r r, byte1_r r, byte2_r r, byte3_r r]"

definition rx_byte :: "u8 \<Rightarrow> rx_state \<Rightarrow> rx_state \<times> bus_access list" where
  "rx_byte b r =
     (case rx_phase r of
        S_IDLE \<Rightarrow>
          (if b = CMD_WRITE then r\<lparr>rx_phase := S_WRITE_ADDR_0\<rparr>
           else if b = CMD_READ then r\<lparr>rx_phase := S_READ_ADDR_0\<rparr> else r, [])
      | S_WRITE_ADDR_0 \<Rightarrow> (r\<lparr>addr_0_r := b, rx_phase := S_WRITE_ADDR_1\<rparr>, [])
      | S_WRITE_ADDR_1 \<Rightarrow> (r\<lparr>addr_1_r := b, rx_phase := S_WRITE_ADDR_2\<rparr>, [])
      | S_WRITE_ADDR_2 \<Rightarrow> (r\<lparr>addr_2_r := b, rx_phase := S_WRITE_ADDR_3\<rparr>, [])
      | S_WRITE_ADDR_3 \<Rightarrow> (r\<lparr>addr_3_r := b, rx_phase := S_WRITE_DATA_0\<rparr>, [])
      | S_WRITE_DATA_0 \<Rightarrow> (r\<lparr>byte0_r := b, rx_phase := S_WRITE_DATA_1\<rparr>, [])
      | S_WRITE_DATA_1 \<Rightarrow> (r\<lparr>byte1_r := b, rx_phase := S_WRITE_DATA_2\<rparr>, [])
      | S_WRITE_DATA_2 \<Rightarrow> (r\<lparr>byte2_r := b, rx_phase := S_WRITE_DATA_3\<rparr>, [])
      | S_WRITE_DATA_3 \<Rightarrow>
          (let r1 = r\<lparr>byte3_r := b, rx_phase := S_IDLE\<rparr>
           in (r1, [Bus_write (wb_adr_o r1) (wb_dat_o r1)]))
      | S_READ_ADDR_0 \<Rightarrow> (r\<lparr>addr_0_r := b, rx_phase := S_READ_ADDR_1\<rparr>, [])
      | S_READ_ADDR_1 \<Rightarrow> (r\<lparr>addr_1_r := b, rx_phase := S_READ_ADDR_2\<rparr>, [])
      | S_READ_ADDR_2 \<Rightarrow> (r\<lparr>addr_2_r := b, rx_phase := S_READ_ADDR_3\<rparr>, [])
      | S_READ_ADDR_3 \<Rightarrow>
          (let r1 = r\<lparr>addr_3_r := b, rx_phase := S_IDLE\<rparr> in (r1, [Bus_read (wb_adr_o r1)])))"

fun rx_bytes :: "u8 list \<Rightarrow> rx_state \<Rightarrow> rx_state \<times> bus_access list" where
  "rx_bytes [] r = (r, [])"
| "rx_bytes (b # bs) r =
     (let (r1, out1) = rx_byte b r; (r2, out2) = rx_bytes bs r1 in (r2, out1 @ out2))"

section \<open>Bytes on the line\<close>

lemma mask_ff: "(0xff :: u32) = mask 8"
  by (simp add: mask_eq_exp_minus_1)

lemma of_le_bytes_le_bytes [simp]: "of_le_bytes (le_bytes w) = w"
proof (rule bit_word_eqI)
  fix n :: nat assume n: "n < LENGTH(32)"
  consider "n < 8" | "8 \<le> n" "n < 16" | "16 \<le> n" "n < 24" | "24 \<le> n" by linarith
  then show "bit (of_le_bytes (le_bytes w)) n \<longleftrightarrow> bit w n"
    using n by cases (auto simp: of_le_bytes_def le_bytes_def bit_simps upt_rec mask_ff not_less)
qed

text \<open>What a list of bus writes sends, and sending bytes into the current sink.\<close>

definition bus_writes :: "(u32 \<times> u32) list \<Rightarrow> u8 list" where
  "bus_writes ws = concat (map (\<lambda>(a, d). w32_bytes a d) ws)"

definition emit_bytes :: "u8 list \<Rightarrow> target \<Rightarrow> target" where
  "emit_bytes bs t =
     (case uart_hex_files t of
        (f, text) # fs \<Rightarrow> t\<lparr>uart_hex_files := (f, text @ concat (map hex_line bs)) # fs\<rparr>
      | [] \<Rightarrow> t\<lparr>uart_out := uart_out t @ bs\<rparr>)"

lemma w32_emits: "wb_debug_w32 a d t = emit_bytes (w32_bytes a d) t"
  by (simp add: wb_debug_w32_def emit_bytes_def)

lemma emit_bytes_append: "emit_bytes ys (emit_bytes xs t) = emit_bytes (xs @ ys) t"
  by (simp add: emit_bytes_def split: list.split)

lemma emit_bytes_Nil [simp]: "emit_bytes [] t = t"
  by (simp add: emit_bytes_def split: list.split)

lemma bus_writes_simps [simp]:
  "bus_writes [] = []" "bus_writes ((a, d) # ws) = w32_bytes a d @ bus_writes ws"
  "bus_writes (vs @ ws) = bus_writes vs @ bus_writes ws"
  by (simp_all add: bus_writes_def)

lemma rx_bytes_append:
  "rx_bytes (xs @ ys) r =
     (let (r1, o1) = rx_bytes xs r; (r2, o2) = rx_bytes ys r1 in (r2, o1 @ o2))"
  by (induction xs arbitrary: r) (auto simp: Let_def split: prod.splits)

lemma le_bytes_list: "\<exists>b0 b1 b2 b3. le_bytes w = [b0, b1, b2, b3]"
  by (simp add: le_bytes_def upt_rec)

lemma rx_write:
  assumes "rx_phase r = S_IDLE"
  shows "\<exists>r'. rx_bytes (w32_bytes a d) r = (r', [Bus_write a d]) \<and> rx_phase r' = S_IDLE"
proof -
  obtain a0 a1 a2 a3 where a: "le_bytes a = [a0, a1, a2, a3]" using le_bytes_list by blast
  obtain d0 d1 d2 d3 where d: "le_bytes d = [d0, d1, d2, d3]" using le_bytes_list by blast
  have "of_le_bytes [a0, a1, a2, a3] = a" "of_le_bytes [d0, d1, d2, d3] = d"
    using of_le_bytes_le_bytes[of a] of_le_bytes_le_bytes[of d] by (simp_all add: a d)
  then show ?thesis
    using assms by (simp add: w32_bytes_def a d rx_byte_def Let_def wb_adr_o_def wb_dat_o_def)
qed

lemma rx_writes:
  assumes "rx_phase r = S_IDLE"
  shows "\<exists>r'. rx_bytes (bus_writes ws) r = (r', map (\<lambda>(a, d). Bus_write a d) ws) \<and> rx_phase r' = S_IDLE"
  using assms
proof (induction ws arbitrary: r)
  case (Cons w ws)
  obtain a d where w: "w = (a, d)" by (cases w)
  from rx_write[OF Cons.prems, of a d] obtain r1 where
    1: "rx_bytes (w32_bytes a d) r = (r1, [Bus_write a d])" "rx_phase r1 = S_IDLE" by blast
  from Cons.IH[OF 1(2)] 1(1) show ?case by (auto simp: w rx_bytes_append)
qed simp

section \<open>Scanning what the assembler printed\<close>

lemma hex_digit_facts:
  assumes "n < 16"
  shows "c_isxdigit (hex_digit n) \<and> \<not> c_isspace (hex_digit n) \<and> hex_digit n \<noteq> CHR ''-'' \<and>
    hex_digit n \<noteq> CHR ''+'' \<and> hex_digit n \<noteq> CHR ''x'' \<and> hex_digit n \<noteq> CHR ''X'' \<and>
    xdigit_value (hex_digit n) = of_nat n"
proof -
  have "\<forall>n\<in>set [0..<16]. c_isxdigit (hex_digit n) \<and> \<not> c_isspace (hex_digit n) \<and> hex_digit n \<noteq> CHR ''-'' \<and>
    hex_digit n \<noteq> CHR ''+'' \<and> hex_digit n \<noteq> CHR ''x'' \<and> hex_digit n \<noteq> CHR ''X'' \<and>
    xdigit_value (hex_digit n) = of_nat n"
    by (simp add: upt_rec hex_digit_def c_isxdigit_def c_isspace_def xdigit_value_def Let_def)
  with assms show ?thesis by simp
qed

lemma hex_digits_set: "c \<in> set (hex_digits k v) \<Longrightarrow> \<exists>n<16. c = hex_digit n"
  by (induction k arbitrary: v) (auto, metis mod_less_divisor zero_less_numeral)

lemma xdigits_value_hex: "v < 16 ^ k \<Longrightarrow> xdigits_value (hex_digits k v) = of_nat v"
proof (induction k arbitrary: v)
  case (Suc k)
  have "v div 16 < 16 ^ k" using Suc.prems by (simp add: less_mult_imp_div_less mult.commute)
  from Suc.IH[OF this] have "xdigits_value (hex_digits (Suc k) v) = 16 * of_nat (v div 16) + of_nat (v mod 16)"
    using hex_digit_facts[of "v mod 16"] by (simp add: xdigits_value_def)
  also have "\<dots> = of_nat v" by (metis mult_div_mod_eq of_nat_add of_nat_mult of_nat_numeral)
  finally show ?case .
qed (simp add: xdigits_value_def)

lemma scan_x_hex:
  assumes "1 < k" "v < 16 ^ k" "list_all c_isspace ws"
  shows "scan_x k (ws @ hex_digits k v @ s, False) = (Some (of_nat v), (s, False))"
proof -
  obtain c d ds where cd: "hex_digits k v = c # d # ds"
    using assms(1) length_hex_digits[of k v] by (metis One_nat_def length_0_conv length_Cons
        less_irrefl less_numeral_extra(3) list.exhaust nat_neq_iff not_one_less_zero)
  have hex: "\<forall>x\<in>set (hex_digits k v). c_isxdigit x \<and> \<not> c_isspace x \<and> x \<noteq> CHR ''-'' \<and> x \<noteq> CHR ''+'' \<and>
      x \<noteq> CHR ''x'' \<and> x \<noteq> CHR ''X''"
    by (metis hex_digits_set hex_digit_facts)
  have ws: "dropWhile c_isspace (ws @ hex_digits k v @ s) = hex_digits k v @ s"
    using assms(3) hex by (simp add: cd dropWhile_append2 list_all_iff)
  have sign: "scan_sign k (hex_digits k v @ s) = (False, k, hex_digits k v @ s)"
    using hex by (simp add: cd scan_sign_def)
  have pre: "scan_prefix k (hex_digits k v @ s) = (k, hex_digits k v @ s)"
    using hex by (simp add: cd scan_prefix_def)
  have ds: "takeWhile c_isxdigit (hex_digits k v) = hex_digits k v"
    using hex by simp
  have "hex_digits k v \<noteq> []" by (simp add: cd)
  then show ?thesis
    by (simp add: scan_x_def Let_def ws sign pre ds xdigits_value_hex[OF assms(2)])
qed

lemma scan_x_fmt:
  "list_all c_isspace ws \<Longrightarrow> scan_x 8 (ws @ fmt_x 8 v @ s, False) = (Some v, (s, False))"
  using scan_x_hex[of 8 "unat v" ws s] unat_u32_bound[of v] by (simp add: fmt_x_digits)

lemma scan_x_end: "list_all c_isspace ws \<Longrightarrow> fst (scan_x w (ws, False)) = None"
proof -
  assume "list_all c_isspace ws"
  then have "dropWhile c_isspace ws = []" by (simp add: dropWhile_eq_Nil_conv list_all_iff)
  then show ?thesis by (simp del: dropWhile_eq_Nil_conv add: scan_x_def scan_sign_def scan_prefix_def Let_def)
qed

section \<open>Loading the instruction memory\<close>

text \<open>The 32-bit word that the pair of instruction words \<open>2j\<close> and \<open>2j + 1\<close> makes, at its bus address.\<close>

definition imem_pair :: "asm_state \<Rightarrow> nat \<Rightarrow> u32" where
  "imem_pair st j = insn_image (imem st (of_nat (2 * j))) (imem st (of_nat (2 * j + 1)))"

definition imem_write :: "asm_state \<Rightarrow> u32 \<Rightarrow> nat \<Rightarrow> u32 \<times> u32" where
  "imem_write st a j = (a + 4 * of_nat j, imem_pair st j)"

lemma scan_imem_line:
  assumes "list_all c_isspace ws"
  shows "\<exists>f. scan_x 8 (ws @ imem_line st (4 * k) @ s, False) =
      (Some (imem_pair st (2 * k + 1)), f) \<and>
    scan_x 8 f = (Some (imem_pair st (2 * k)), ([newline] @ s, False))"
proof -
  have l: "ws @ imem_line st (4 * k) @ s =
    ws @ fmt_x 8 (imem_pair st (2 * k + 1)) @ fmt_x 8 (imem_pair st (2 * k)) @ [newline] @ s"
    by (simp add: imem_line_pairs imem_pair_def ac_simps)
  have "scan_x 8 ([] @ fmt_x 8 (imem_pair st (2 * k)) @ [newline] @ s, False) =
      (Some (imem_pair st (2 * k)), ([newline] @ s, False))"
    by (rule scan_x_fmt) simp
  then show ?thesis unfolding l
    by (intro exI[of _ "(fmt_x 8 (imem_pair st (2 * k)) @ [newline] @ s, False)"] conjI scan_x_fmt[OF assms]) simp
qed

definition imem_text :: "asm_state \<Rightarrow> nat \<Rightarrow> nat \<Rightarrow> string" where
  "imem_text st k K = concat (map (\<lambda>k. imem_line st (4 * k)) [k..<K])"

lemma imem_text_step: "k < K \<Longrightarrow> imem_text st k K = imem_line st (4 * k) @ imem_text st (Suc k) K"
  by (simp add: imem_text_def upt_conv_Cons)

lemma c_isspace_newline [simp]: "c_isspace newline"
  by (simp add: c_isspace_def newline_def)

lemma newline_space: "list_all c_isspace [newline]"
  by simp

lemma load_imem_lines:
  assumes "list_all c_isspace ws" "0 < len" "len \<le> 8 * int (K - k)" "len < 2 ^ 31"
  shows "load_imem_loop (ws @ imem_text st k K, False) (a + 8 * of_nat k) len t =
    Good (emit_bytes (bus_writes (map (imem_write st a) [2 * k..<2 * k + nat ((len + 3) div 4)])) t)"
  using assms
proof (induction "K - k" arbitrary: k ws len t)
  case (Suc m)
  then have k: "k < K" "m = K - Suc k" by auto
  from scan_imem_line[OF Suc.prems(1), of st k "imem_text st (Suc k) K"] obtain f where
    f: "scan_x 8 (ws @ imem_text st k K, False) = (Some (imem_pair st (2 * k + 1)), f)"
      "scan_x 8 f = (Some (imem_pair st (2 * k)), ([newline] @ imem_text st (Suc k) K, False))"
    unfolding imem_text_step[OF k(1)] by blast
  let ?t1 = "wb_debug_w32 (a + 8 * of_nat k) (imem_pair st (2 * k)) t"
  let ?t2 = "wb_debug_w32 (a + 8 * of_nat k + 4) (imem_pair st (2 * k + 1)) ?t1"
  have t1: "?t1 = emit_bytes (bus_writes [imem_write st a (2 * k)]) t"
    by (simp add: w32_emits imem_write_def)
  have t2: "?t2 = emit_bytes (bus_writes [imem_write st a (2 * k), imem_write st a (2 * k + 1)]) t"
    unfolding t1 by (simp add: w32_emits emit_bytes_append imem_write_def algebra_simps)
  note step = load_imem_loop.simps[of "(ws @ imem_text st k K, False)"]
  consider "len \<le> 4" | "4 < len" "len \<le> 8" | "8 < len" by linarith
  then show ?case
  proof cases
    case 1
    with Suc.prems(2) have "nat ((len + 3) div 4) = 1" by linarith
    with 1 Suc.prems(2) show ?thesis by (subst step) (simp add: f Let_def t1)
  next
    case 2
    then have "nat ((len + 3) div 4) = 2" by linarith
    with 2 show ?thesis by (subst step) (simp add: f Let_def t2[simplified] upt_rec)
  next
    case 3
    define N where "N = nat ((len - 8 + 3) div 4)"
    define X where "X = map (imem_write st a) [2 * Suc k..<2 * Suc k + N]"
    define f2 where "f2 = ([newline] @ imem_text st (Suc k) K, False)"
    have "load_imem_loop f2 (a + 8 * of_nat (Suc k)) (len - 8) ?t2 = Good (emit_bytes (bus_writes X) ?t2)"
      unfolding X_def N_def f2_def by (intro Suc.hyps(1)) (use k Suc.prems 3 in auto)
    moreover have "a + 8 * of_nat (Suc k) = a + 8 * of_nat k + (8 :: u32)" by (simp add: algebra_simps)
    ultimately have ih: "load_imem_loop f2 (a + 8 * of_nat k + 8) (len - 8) ?t2 = Good (emit_bytes (bus_writes X) ?t2)"
      by (simp only:)
    have n: "nat ((len + 3) div 4) = 2 + N" unfolding N_def using 3 by linarith
    have X: "map (imem_write st a) [2 * k..<2 * k + nat ((len + 3) div 4)] =
        [imem_write st a (2 * k), imem_write st a (2 * k + 1)] @ X"
      unfolding n X_def by (simp add: upt_conv_Cons del: upt_Suc)
    have "load_imem_loop (ws @ imem_text st k K, False) (a + 8 * of_nat k) len t =
        load_imem_loop f2 (a + 8 * of_nat k + 8) (len - 8) ?t2"
      using 3 by (subst step) (simp add: f Let_def f2_def)
    also have "\<dots> = Good (emit_bytes (bus_writes X) ?t2)" by (rule ih)
    also have "\<dots> = Good (emit_bytes (bus_writes ([imem_write st a (2 * k), imem_write st a (2 * k + 1)] @ X)) t)"
      unfolding t2 emit_bytes_append by (simp only: bus_writes_simps)
    finally show ?thesis unfolding X .
  qed
qed auto

lemma load_imem_runs_out:
  assumes "list_all c_isspace ws" "8 * int (K - k) < len"
  shows "load_imem_loop (ws @ imem_text st k K, False) a len t = Undef"
  using assms
proof (induction "K - k" arbitrary: k ws len a t)
  case 0
  then have "imem_text st k K = []" by (simp add: imem_text_def)
  moreover from scan_x_end[OF 0(2), of 8] obtain f where "scan_x 8 (ws, False) = (None, f)"
    by (metis prod.collapse)
  ultimately show ?case by (subst load_imem_loop.simps) simp
next
  case (Suc m)
  then have k: "k < K" "m = K - Suc k" by auto
  from scan_imem_line[OF Suc.prems(1), of st k "imem_text st (Suc k) K"] obtain f where
    f: "scan_x 8 (ws @ imem_text st k K, False) = (Some (imem_pair st (2 * k + 1)), f)"
      "scan_x 8 f = (Some (imem_pair st (2 * k)), ([newline] @ imem_text st (Suc k) K, False))"
    unfolding imem_text_step[OF k(1)] by blast
  have "load_imem_loop ([newline] @ imem_text st (Suc k) K, False) a' (len - 8) t' = Undef" for a' t'
    by (rule Suc.hyps(1)) (use k Suc.prems in \<open>auto simp: newline_space\<close>)
  with Suc.prems(2) k show ?case by (subst load_imem_loop.simps) (simp add: f Let_def)
qed

section \<open>Loading the data memory\<close>

definition dmem_write :: "asm_state \<Rightarrow> u32 \<Rightarrow> nat \<Rightarrow> u32 \<times> u32" where
  "dmem_write st a j =
     (a + 4 * of_nat j, insn_image (dmem st (of_nat (2 * j))) (dmem st (of_nat (2 * j + 1))))"

definition dmem_text :: "asm_state \<Rightarrow> nat \<Rightarrow> nat \<Rightarrow> string" where
  "dmem_text st i n = concat (map (\<lambda>i. fmt_x 4 (ucast (dmem st (of_nat i))) @ [newline]) [i..<n])"

lemma dmem_text_step:
  "i < n \<Longrightarrow> dmem_text st i n = fmt_x 4 (ucast (dmem st (of_nat i))) @ [newline] @ dmem_text st (Suc i) n"
  by (simp add: dmem_text_def upt_conv_Cons)

lemma scan_x_fmt4:
  "list_all c_isspace ws \<Longrightarrow> scan_x 4 (ws @ fmt_x 4 (ucast (w :: u16)) @ s, False) = (Some (ucast w), (s, False))"
  using scan_x_hex[of 4 "unat w" ws s] unat_u16_bound[of w] by (simp add: fmt_x_word)

lemma insn_image_or: "push_bit 16 (ucast hi) OR ucast lo = insn_image lo hi"
  by (simp add: insn_image_def or.commute)

lemma load_dmem_lines:
  assumes "list_all c_isspace ws" "len \<le> 2 * int (n - 2 * k)" "2 * k \<le> n" "even n"
  shows "load_dmem_loop (ws @ dmem_text st (2 * k) n, False) (a + 4 * of_nat k) len t =
    Good (emit_bytes (bus_writes (map (dmem_write st a) [k..<k + nat ((len + 3) div 4)])) t)"
  using assms
proof (induction "n - 2 * k" arbitrary: k ws len t rule: less_induct)
  case less
  show ?case
  proof (cases "len \<le> 0")
    case True
    then have "nat ((len + 3) div 4) = 0" by linarith
    with True show ?thesis by (subst load_dmem_loop.simps) simp
  next
    case False
    with less.prems(2) have k: "2 * k < n" by linarith
    with less.prems(4) have k': "Suc (2 * k) < n" by (metis Suc_lessI dvd_triv_left even_Suc)
    have sc: "scan_x 4 (ws @ dmem_text st (2 * k) n, False) =
        (Some (ucast (dmem st (of_nat (2 * k)))), ([newline] @ dmem_text st (Suc (2 * k)) n, False))"
      "scan_x 4 ([newline] @ dmem_text st (Suc (2 * k)) n, False) =
        (Some (ucast (dmem st (of_nat (Suc (2 * k))))), ([newline] @ dmem_text st (2 * Suc k) n, False))"
      using scan_x_fmt4[OF less.prems(1)] scan_x_fmt4[OF newline_space]
      unfolding dmem_text_step[OF k] dmem_text_step[OF k'] by simp_all
    let ?t1 = "emit_bytes (bus_writes [dmem_write st a k]) t"
    define N where "N = nat ((len - 4 + 3) div 4)"
    define X where "X = map (dmem_write st a) [Suc k..<Suc k + N]"
    define f2 where "f2 = ([newline] @ dmem_text st (2 * Suc k) n, False)"
    have "load_dmem_loop f2 (a + 4 * of_nat (Suc k)) (len - 4) ?t1 = Good (emit_bytes (bus_writes X) ?t1)"
      unfolding X_def N_def f2_def using k k' less.prems by (intro less.hyps) auto
    moreover have "a + 4 * of_nat (Suc k) = a + 4 * of_nat k + (4 :: u32)" by (simp add: algebra_simps)
    ultimately have ih: "load_dmem_loop f2 (a + 4 * of_nat k + 4) (len - 4) ?t1 = Good (emit_bytes (bus_writes X) ?t1)"
      by (simp only:)
    have n: "nat ((len + 3) div 4) = Suc N" unfolding N_def using False by linarith
    have X: "map (dmem_write st a) [k..<k + nat ((len + 3) div 4)] = dmem_write st a k # X"
      unfolding n X_def by (simp add: upt_conv_Cons del: upt_Suc)
    have w: "wb_debug_w32 (a + 4 * of_nat k)
        (push_bit 16 (ucast (dmem st (of_nat (Suc (2 * k))))) OR ucast (dmem st (of_nat (2 * k)))) t = ?t1"
      by (simp add: insn_image_or w32_emits dmem_write_def del: of_nat_Suc)
    have "load_dmem_loop (ws @ dmem_text st (2 * k) n, False) (a + 4 * of_nat k) len t =
        load_dmem_loop f2 (a + 4 * of_nat k + 4) (len - 4) ?t1"
      by (subst load_dmem_loop.simps) (use False in \<open>simp only: sc w f2_def [symmetric] prod.case option.case snd_conv if_False simp_thms\<close>)
    also have "\<dots> = Good (emit_bytes (bus_writes X) ?t1)" by (rule ih)
    also have "\<dots> = Good (emit_bytes (bus_writes (dmem_write st a k # X)) t)"
      by (simp add: emit_bytes_append bus_writes_def)
    finally show ?thesis unfolding X .
  qed
qed

section \<open>From the memory files to the bus\<close>

text \<open>C32: loading the instruction memory file of a program whose length covers at most the file makes
  the receiver write, in order, every pair of instruction words (the lower address in the lower half)
  to consecutive bus words from the load address on, up to the length rounded up to words; it is
  ready for the next command afterwards.\<close>

theorem load_imem_reaches_bus:
  assumes "files imemfile = Some (output_imem n st)"
    and "0 < sint len" "sint len \<le> 8 * int ((n + 3) div 4)"
    and "uart_hex_files t = []" "rx_phase r = S_IDLE"
  shows "\<exists>bs r'. target_load_imem files imemfile address len t = Good (t\<lparr>uart_out := uart_out t @ bs\<rparr>) \<and>
    rx_bytes bs r = (r', map (\<lambda>j. Bus_write (address + 4 * of_nat j)
        (insn_image (imem st (of_nat (2 * j))) (imem st (of_nat (2 * j + 1)))))
      [0..<nat ((sint len + 3) div 4)]) \<and>
    rx_phase r' = S_IDLE"
proof -
  let ?ws = "map (imem_write st address) [0..<nat ((sint len + 3) div 4)]"
  have "sint len < 2 ^ 31" using sint_lt[of len] by simp
  with load_imem_lines[of "[]" "sint len" "(n + 3) div 4" 0 st address t] assms(1-3)
  have "target_load_imem files imemfile address len t = Good (emit_bytes (bus_writes ?ws) t)"
    by (simp add: target_load_imem_def imem_text_def output_imem_def)
  with assms(4) have "target_load_imem files imemfile address len t =
      Good (t\<lparr>uart_out := uart_out t @ bus_writes ?ws\<rparr>)"
    by (simp add: emit_bytes_def)
  with rx_writes[OF assms(5), of ?ws] show ?thesis
    by (auto simp: imem_write_def imem_pair_def comp_def)
qed

theorem load_imem_reaches_bus_witness:
  "\<exists>bs. target_load_imem (\<lambda>_. Some (output_imem 3 (init\<lparr>imem := (\<lambda>_. 7)\<rparr>))) ''a.imem'' 0x100 8
      \<lparr>uart_hex_files = [], uart_out = [], uart_in = [], target_stdout = []\<rparr> =
    Good \<lparr>uart_hex_files = [], uart_out = bs, uart_in = [], target_stdout = []\<rparr> \<and>
    snd (rx_bytes bs \<lparr>rx_phase = S_IDLE, addr_0_r = 0, addr_1_r = 0, addr_2_r = 0, addr_3_r = 0,
      byte0_r = 0, byte1_r = 0, byte2_r = 0, byte3_r = 0\<rparr>) = [Bus_write 0x100 0x70007, Bus_write 0x104 0x70007]"
  using load_imem_reaches_bus[of "\<lambda>_. Some (output_imem 3 (init\<lparr>imem := (\<lambda>_. 7)\<rparr>))" "''a.imem''" 3
      "init\<lparr>imem := (\<lambda>_. 7)\<rparr>" 8 "\<lparr>uart_hex_files = [], uart_out = [], uart_in = [], target_stdout = []\<rparr>"
      "\<lparr>rx_phase = S_IDLE, addr_0_r = 0, addr_1_r = 0, addr_2_r = 0, addr_3_r = 0,
        byte0_r = 0, byte1_r = 0, byte2_r = 0, byte3_r = 0\<rparr>" "0x100"]
  by (auto simp: upt_rec insn_image_def)

text \<open>Loading the data memory file writes pairs of data words in the same way, when the file has an
  even number of words and the length covers at most the file.\<close>

theorem load_dmem_reaches_bus:
  assumes "files dmemfile = Some (output_dmem n st)" "even n" "sint len \<le> 2 * int n"
    and "uart_hex_files t = []" "rx_phase r = S_IDLE"
  shows "\<exists>bs r'. target_load_dmem files dmemfile address len t = Good (t\<lparr>uart_out := uart_out t @ bs\<rparr>) \<and>
    rx_bytes bs r = (r', map (\<lambda>j. Bus_write (address + 4 * of_nat j)
        (insn_image (dmem st (of_nat (2 * j))) (dmem st (of_nat (2 * j + 1)))))
      [0..<nat ((sint len + 3) div 4)]) \<and>
    rx_phase r' = S_IDLE"
proof -
  let ?ws = "map (dmem_write st address) [0..<nat ((sint len + 3) div 4)]"
  from load_dmem_lines[of "[]" "sint len" n 0 st address t] assms(1-3)
  have "target_load_dmem files dmemfile address len t = Good (emit_bytes (bus_writes ?ws) t)"
    by (simp add: target_load_dmem_def dmem_text_def output_dmem_def)
  with assms(4) have "target_load_dmem files dmemfile address len t =
      Good (t\<lparr>uart_out := uart_out t @ bus_writes ?ws\<rparr>)"
    by (simp add: emit_bytes_def)
  with rx_writes[OF assms(5), of ?ws] show ?thesis
    by (auto simp: dmem_write_def comp_def)
qed

theorem load_dmem_reaches_bus_witness:
  "\<exists>bs. target_load_dmem (\<lambda>_. Some (output_dmem 2 init)) ''a.dmem'' 0x200 4
      \<lparr>uart_hex_files = [], uart_out = [], uart_in = [], target_stdout = []\<rparr> =
    Good \<lparr>uart_hex_files = [], uart_out = bs, uart_in = [], target_stdout = []\<rparr> \<and>
    snd (rx_bytes bs \<lparr>rx_phase = S_IDLE, addr_0_r = 0, addr_1_r = 0, addr_2_r = 0, addr_3_r = 0,
      byte0_r = 0, byte1_r = 0, byte2_r = 0, byte3_r = 0\<rparr>) = [Bus_write 0x200 0xdeaddead]"
  using load_dmem_reaches_bus[of "\<lambda>_. Some (output_dmem 2 init)" "''a.dmem''" 2
      "init" 4 "\<lparr>uart_hex_files = [], uart_out = [], uart_in = [], target_stdout = []\<rparr>"
      "\<lparr>rx_phase = S_IDLE, addr_0_r = 0, addr_1_r = 0, addr_2_r = 0, addr_3_r = 0,
        byte0_r = 0, byte1_r = 0, byte2_r = 0, byte3_r = 0\<rparr>" "0x200"]
  by (auto simp: upt_rec insn_image_def init_def DMEM_UNINIT_VALUE_def)

text \<open>When the length asks for more than the instruction memory file holds, the loop goes round once
  more at the end of the file, where \<open>feof\<close> does not hold yet, and sends words that were never read.\<close>

theorem load_imem_overrun:
  assumes "files imemfile = Some (output_imem n st)" "8 * int ((n + 3) div 4) < sint len"
  shows "target_load_imem files imemfile address len t = Undef"
  using load_imem_runs_out[of "[]" "(n + 3) div 4" 0 "sint len" st address t] assms
  by (simp add: target_load_imem_def imem_text_def output_imem_def)

theorem load_imem_overrun_witness:
  "target_load_imem (\<lambda>_. Some (output_imem 4 init)) ''a.imem'' 0 12
     \<lparr>uart_hex_files = [], uart_out = [], uart_in = [], target_stdout = []\<rparr> = Undef"
  by (rule load_imem_overrun[of _ _ 4 init]) simp_all

section \<open>Decimal digits\<close>

lemma atoi_digits_append:
  "list_all c_isdigit xs \<Longrightarrow> c_isdigit c \<Longrightarrow> atoi_digits (xs @ [c]) a = 10 * atoi_digits xs a + (of_char c - 48)"
  by (induction xs arbitrary: a) simp_all

lemma hex_digit_decimal: "n < 10 \<Longrightarrow> c_isdigit (hex_digit n) \<and> of_char (hex_digit n) = (48 + int n)"
proof -
  have "\<forall>n\<in>set [0..<10]. c_isdigit (hex_digit n) \<and> of_char (hex_digit n) = (48 + int n)"
    by (simp add: upt_rec hex_digit_def c_isdigit_def)
  then show "n < 10 \<Longrightarrow> c_isdigit (hex_digit n) \<and> of_char (hex_digit n) = (48 + int n)" by simp
qed

lemma digits_10: "list_all c_isdigit (digits_in 10 n) \<and> digits_in 10 n \<noteq> [] \<and> atoi_digits (digits_in 10 n) 0 = int n"
proof (induction n rule: less_induct)
  case (less n)
  show ?case
  proof (cases "n < 10")
    case True
    with hex_digit_decimal[OF True] show ?thesis by (simp add: digits_in.simps[of 10 n])
  next
    case False
    then have "n div 10 < n" by simp
    moreover have "10 * int (n div 10) + int (n mod 10) = int n"
      by (metis mult_div_mod_eq of_nat_add of_nat_mult of_nat_numeral)
    ultimately show ?thesis
      using less.IH[of "n div 10"] False hex_digit_decimal[of "n mod 10"]
      by (simp add: digits_in.simps[of 10 n] atoi_digits_append)
  qed
qed

end
