(* ===== verification/Monitor.thy ===== *)
theory Monitor
  imports Target
begin

text \<open>
  The older loader \<open>sw/tools/target/targetmon.c\<close> with the byte state machine of \<open>rtl/verilog/top_top.v\<close> that
  receives its commands: it sends the memory files of the assembler over a serial line, starts the
  processor and reads the data memory back.

  The serial line is two byte streams; a byte that does not arrive and a number that \<open>fscanf\<close> did not
  set are indeterminate, and using them is \<open>Undef\<close>.  The host is little endian.
\<close>

section \<open>The monitor\<close>

definition MON_DMEM_SIZE :: int where "MON_DMEM_SIZE = 256"
definition MON_IMEM_SIZE :: int where "MON_IMEM_SIZE = 1024"

definition CMD_WRITE_IMEM :: u8 where "CMD_WRITE_IMEM = 0xc0"
definition CMD_WRITE_DMEM :: u8 where "CMD_WRITE_DMEM = 0xc1"
definition CMD_RESET :: u8 where "CMD_RESET = 0xc2"
definition CMD_START :: u8 where "CMD_START = 0xc3"
definition CMD_READ_DMEM :: u8 where "CMD_READ_DMEM = 0xc4"

record serial =
  ser_out :: "u8 list"
  ser_in :: "u8 list"

definition serial_write :: "u8 list \<Rightarrow> serial \<Rightarrow> serial" where
  "serial_write bs s = s\<lparr>ser_out := ser_out s @ bs\<rparr>"

definition short_bytes :: "u16 \<Rightarrow> u8 list" where
  "short_bytes w = [ucast w, ucast (drop_bit 8 w)]"

definition target_reset :: "serial \<Rightarrow> serial" where
  "target_reset s = fold (\<lambda>_. serial_write [CMD_RESET]) [0..<16] s"

definition target_start :: "serial \<Rightarrow> serial" where
  "target_start s = serial_write [CMD_START] s"

text \<open>Conversions \<open>%02x\<close> up to the first that fails, each cut to a byte.\<close>

fun scan_bytes :: "nat \<Rightarrow> stream \<Rightarrow> u8 list \<times> stream" where
  "scan_bytes 0 f = ([], f)"
| "scan_bytes (Suc n) f =
     (case scan_x 2 f of
        (None, f') \<Rightarrow> ([], f')
      | (Some v, f') \<Rightarrow> (let (bs, f'') = scan_bytes n f' in (ucast v # bs, f'')))"

text \<open>A line with fewer than four numbers sends nothing, but counts.\<close>

function write_dmem_loop :: "stream \<Rightarrow> u16 \<Rightarrow> int \<Rightarrow> serial \<Rightarrow> serial" where
  "write_dmem_loop f addr len s =
     (if len \<le> 0 \<or> snd f then s
      else
        let (bs, f') = scan_bytes 4 f in
        write_dmem_loop f' (addr + 2) (len - 2)
          (if length bs = 4 then serial_write bs (serial_write (short_bytes addr) (serial_write [CMD_WRITE_DMEM] s)) else s))"
  by pat_completeness auto
termination by (relation "measure (\<lambda>(f, a, len, s). nat len)") auto

function write_imem_loop :: "stream \<Rightarrow> u16 \<Rightarrow> int \<Rightarrow> serial \<Rightarrow> (serial, unit) outcome" where
  "write_imem_loop f addr len s =
     (if len \<le> 0 \<or> snd f then Good s
      else
        let (bs, f') = scan_bytes 8 f in
        if length bs < 8 then Undef
        else
          write_imem_loop f' (addr + 1) (len - 1)
            (serial_write bs (serial_write (short_bytes addr) (serial_write [CMD_WRITE_IMEM] s))))"
  by pat_completeness auto
termination by (relation "measure (\<lambda>(f, a, len, s). nat len)") auto

declare write_dmem_loop.simps [simp del] write_imem_loop.simps [simp del]

text \<open>The result of \<open>fopen\<close> is not checked.\<close>

definition target_write_dmem :: "(string \<Rightarrow> string option) \<Rightarrow> string \<Rightarrow> int \<Rightarrow> serial \<Rightarrow> (serial, unit) outcome" where
  "target_write_dmem files dmemfile len s =
     (case files dmemfile of Some content \<Rightarrow> Good (write_dmem_loop (content, False) 0 len s) | None \<Rightarrow> Undef)"

definition target_write_imem :: "(string \<Rightarrow> string option) \<Rightarrow> string \<Rightarrow> int \<Rightarrow> serial \<Rightarrow> (serial, unit) outcome" where
  "target_write_imem files imemfile len s =
     (case files imemfile of Some content \<Rightarrow> write_imem_loop (content, False) 0 (len div 4) s | None \<Rightarrow> Undef)"

definition read_line :: "u8 \<Rightarrow> u8 \<Rightarrow> string" where
  "read_line a b = fmt_x 2 (ucast a) @ fmt_x 2 (ucast b) @ [newline]"

fun read_dmem_loop :: "nat \<Rightarrow> u16 \<Rightarrow> serial \<Rightarrow> (serial \<times> string, unit) outcome" where
  "read_dmem_loop 0 addr s = Good (s, [])"
| "read_dmem_loop (Suc n) addr s =
     (let s1 = serial_write (short_bytes addr) (serial_write [CMD_READ_DMEM] s) in
      case ser_in s1 of
        b0 # b1 # b2 # b3 # bs \<Rightarrow>
          obind (read_dmem_loop n (addr + 2) (s1\<lparr>ser_in := bs\<rparr>)) (\<lambda>(s2, t).
            Good (s2, read_line b0 b1 @ read_line b2 b3 @ t))
      | _ \<Rightarrow> Undef)"

definition target_read_dmem :: "int \<Rightarrow> int \<Rightarrow> serial \<Rightarrow> (serial \<times> string, unit) outcome" where
  "target_read_dmem read_length file_length s =
     obind (read_dmem_loop (nat (read_length div 2)) 0 s) (\<lambda>(s1, t).
       Good (s1, t @ concat (replicate (nat (file_length - read_length)) (''dead'' @ [newline]))))"

text \<open>\<open>main\<close> on the line it has opened; the result is the file written.\<close>

definition monitor_main :: "(string \<Rightarrow> string option) \<Rightarrow> string list \<Rightarrow> serial \<Rightarrow> (serial \<times> (string \<times> string) option, unit) outcome" where
  "monitor_main files argv s =
     (let s1 = target_reset s in
      obind (if 0 < length argv then target_write_imem files (argv ! 0) MON_IMEM_SIZE s1 else Good s1) (\<lambda>s2.
      obind (if 1 < length argv then target_write_dmem files (argv ! 1) MON_DMEM_SIZE s2 else Good s2) (\<lambda>s3.
      let s4 = target_start s3 in
      if 2 < length argv then
        obind (target_read_dmem MON_DMEM_SIZE 0xffff s4) (\<lambda>(s5, t). Good (s5, Some (argv ! 2, t)))
      else Good (s4, None))))"

section \<open>The receiver\<close>

text \<open>
  The byte state machine of \<open>top_top.v\<close>.  The accesses to the memory ports of the processor that follow a
  byte are an output of the step; only the lower byte of a data address is connected.
\<close>

datatype mon_phase =
    M_IDLE
  | M_WRITE_IMEM_ADDR_0 | M_WRITE_IMEM_ADDR_1
  | M_WRITE_IMEM_DATA_0 | M_WRITE_IMEM_DATA_1 | M_WRITE_IMEM_DATA_2 | M_WRITE_IMEM_DATA_3
  | M_WRITE_IMEM_DATA_4 | M_WRITE_IMEM_DATA_5 | M_WRITE_IMEM_DATA_6 | M_WRITE_IMEM_DATA_7
  | M_WRITE_DMEM_ADDR_0 | M_WRITE_DMEM_ADDR_1
  | M_WRITE_DMEM_DATA_0 | M_WRITE_DMEM_DATA_1 | M_WRITE_DMEM_DATA_2 | M_WRITE_DMEM_DATA_3
  | M_READ_DMEM_ADDR_0 | M_READ_DMEM_ADDR_1

record board =
  mon_phase :: mon_phase
  core_rst_r :: bool
  imem_addr_0_r :: u8
  imem_addr_1_r :: u8
  imem_word_0_r :: u8
  imem_word_1_r :: u8
  imem_word_2_r :: u8
  imem_word_3_r :: u8
  imem_word_4_r :: u8
  imem_word_5_r :: u8
  imem_word_6_r :: u8
  imem_word_7_r :: u8
  dmem_addr_0_r :: u8
  dmem_addr_1_r :: u8
  dmem_byte0_r :: u8
  dmem_byte1_r :: u8
  dmem_byte2_r :: u8
  dmem_byte3_r :: u8

datatype port_access = Imem_write u16 u64 | Dmem_write u16 u32 | Dmem_read u16

text \<open>A Verilog concatenation of bytes.\<close>

definition concat8 :: "u8 list \<Rightarrow> 'a::len word" where
  "concat8 bs = foldl (\<lambda>v b. push_bit 8 v OR ucast b) 0 bs"

definition imem_data_64_w :: "board \<Rightarrow> u64" where
  "imem_data_64_w r =
     concat8 [imem_word_0_r r, imem_word_1_r r, imem_word_2_r r, imem_word_3_r r,
              imem_word_4_r r, imem_word_5_r r, imem_word_6_r r, imem_word_7_r r]"

definition dmem_wr_data_32_w :: "board \<Rightarrow> u32" where
  "dmem_wr_data_32_w r = concat8 [dmem_byte2_r r, dmem_byte3_r r, dmem_byte0_r r, dmem_byte1_r r]"

definition mon_byte :: "u8 \<Rightarrow> board \<Rightarrow> board \<times> port_access list" where
  "mon_byte b r =
     (case mon_phase r of
        M_IDLE \<Rightarrow>
          (if b = CMD_WRITE_IMEM then r\<lparr>mon_phase := M_WRITE_IMEM_ADDR_0\<rparr>
           else if b = CMD_WRITE_DMEM then r\<lparr>mon_phase := M_WRITE_DMEM_ADDR_0\<rparr>
           else if b = CMD_READ_DMEM then r\<lparr>mon_phase := M_READ_DMEM_ADDR_0\<rparr>
           else if b = CMD_RESET then r\<lparr>core_rst_r := True\<rparr>
           else if b = CMD_START then r\<lparr>core_rst_r := False\<rparr> else r, [])
      | M_WRITE_IMEM_ADDR_0 \<Rightarrow> (r\<lparr>imem_addr_0_r := b, mon_phase := M_WRITE_IMEM_ADDR_1\<rparr>, [])
      | M_WRITE_IMEM_ADDR_1 \<Rightarrow> (r\<lparr>imem_addr_1_r := b, mon_phase := M_WRITE_IMEM_DATA_0\<rparr>, [])
      | M_WRITE_IMEM_DATA_0 \<Rightarrow> (r\<lparr>imem_word_0_r := b, mon_phase := M_WRITE_IMEM_DATA_1\<rparr>, [])
      | M_WRITE_IMEM_DATA_1 \<Rightarrow> (r\<lparr>imem_word_1_r := b, mon_phase := M_WRITE_IMEM_DATA_2\<rparr>, [])
      | M_WRITE_IMEM_DATA_2 \<Rightarrow> (r\<lparr>imem_word_2_r := b, mon_phase := M_WRITE_IMEM_DATA_3\<rparr>, [])
      | M_WRITE_IMEM_DATA_3 \<Rightarrow> (r\<lparr>imem_word_3_r := b, mon_phase := M_WRITE_IMEM_DATA_4\<rparr>, [])
      | M_WRITE_IMEM_DATA_4 \<Rightarrow> (r\<lparr>imem_word_4_r := b, mon_phase := M_WRITE_IMEM_DATA_5\<rparr>, [])
      | M_WRITE_IMEM_DATA_5 \<Rightarrow> (r\<lparr>imem_word_5_r := b, mon_phase := M_WRITE_IMEM_DATA_6\<rparr>, [])
      | M_WRITE_IMEM_DATA_6 \<Rightarrow> (r\<lparr>imem_word_6_r := b, mon_phase := M_WRITE_IMEM_DATA_7\<rparr>, [])
      | M_WRITE_IMEM_DATA_7 \<Rightarrow>
          (let r1 = r\<lparr>imem_word_7_r := b, mon_phase := M_IDLE\<rparr>
           in (r1, [Imem_write (concat8 [imem_addr_1_r r1, imem_addr_0_r r1]) (imem_data_64_w r1)]))
      | M_WRITE_DMEM_ADDR_0 \<Rightarrow> (r\<lparr>dmem_addr_0_r := b, mon_phase := M_WRITE_DMEM_ADDR_1\<rparr>, [])
      | M_WRITE_DMEM_ADDR_1 \<Rightarrow> (r\<lparr>dmem_addr_1_r := b, mon_phase := M_WRITE_DMEM_DATA_0\<rparr>, [])
      | M_WRITE_DMEM_DATA_0 \<Rightarrow> (r\<lparr>dmem_byte0_r := b, mon_phase := M_WRITE_DMEM_DATA_1\<rparr>, [])
      | M_WRITE_DMEM_DATA_1 \<Rightarrow> (r\<lparr>dmem_byte1_r := b, mon_phase := M_WRITE_DMEM_DATA_2\<rparr>, [])
      | M_WRITE_DMEM_DATA_2 \<Rightarrow> (r\<lparr>dmem_byte2_r := b, mon_phase := M_WRITE_DMEM_DATA_3\<rparr>, [])
      | M_WRITE_DMEM_DATA_3 \<Rightarrow>
          (let r1 = r\<lparr>dmem_byte3_r := b, mon_phase := M_IDLE\<rparr>
           in (r1, [Dmem_write (ucast (dmem_addr_0_r r1)) (dmem_wr_data_32_w r1)]))
      | M_READ_DMEM_ADDR_0 \<Rightarrow> (r\<lparr>dmem_addr_0_r := b, mon_phase := M_READ_DMEM_ADDR_1\<rparr>, [])
      | M_READ_DMEM_ADDR_1 \<Rightarrow>
          (let r1 = r\<lparr>dmem_addr_1_r := b, mon_phase := M_IDLE\<rparr>
           in (r1, [Dmem_read (ucast (dmem_addr_0_r r1))])))"

fun mon_bytes :: "u8 list \<Rightarrow> board \<Rightarrow> board \<times> port_access list" where
  "mon_bytes [] r = (r, [])"
| "mon_bytes (b # bs) r =
     (let (r1, out1) = mon_byte b r; (r2, out2) = mon_bytes bs r1 in (r2, out1 @ out2))"

section \<open>The data memory port\<close>

text \<open>
  The external port of \<open>dmem.v\<close> on a memory of 16-bit words, and the four bytes that \<open>top_top.v\<close> sends for a
  read.
\<close>

definition dmem_pair :: "(u16 \<Rightarrow> u16) \<Rightarrow> u16 \<Rightarrow> u32" where
  "dmem_pair m a = push_bit 16 (ucast (m (a OR 1))) OR ucast (m (a AND NOT 1))"

definition dmem_tx :: "u32 \<Rightarrow> u8 list" where
  "dmem_tx d = [ucast (drop_bit 8 d), ucast d, ucast (drop_bit 24 d), ucast (drop_bit 16 d)]"

definition dmem_port :: "port_access \<Rightarrow> (u16 \<Rightarrow> u16) \<times> u8 list \<Rightarrow> (u16 \<Rightarrow> u16) \<times> u8 list" where
  "dmem_port p s =
     (case p of
        Imem_write a d \<Rightarrow> s
      | Dmem_write a d \<Rightarrow> ((fst s)(a OR 1 := ucast (drop_bit 16 d), a AND NOT 1 := ucast d), snd s)
      | Dmem_read a \<Rightarrow> (fst s, snd s @ dmem_tx (dmem_pair (fst s) a)))"

section \<open>Scanning words byte by byte\<close>

definition word_bytes :: "u16 \<Rightarrow> u8 list" where
  "word_bytes w = [ucast (drop_bit 8 w), ucast w]"

lemma length_word_bytes [simp]: "length (word_bytes w) = 2"
  by (simp add: word_bytes_def)

lemma fmt_x_bytes: "fmt_x 4 (ucast (w :: u16)) = hex_digits 2 (unat w div 256) @ hex_digits 2 (unat w mod 256)"
  using hex_digits_append[of "unat w mod 256" 2 2 "unat w div 256"] by (simp add: fmt_x_word)

lemma u16_bytes:
  "of_nat (unat (w :: u16) div 256) = (ucast (drop_bit 8 w) :: u8)"
  "of_nat (unat w mod 256) = (ucast w :: u8)"
  "(ucast (of_nat k :: u32) :: u8) = of_nat k"
proof -
  have "unat w div 256 = unat (drop_bit 8 w)" unfolding unat_drop_bit_eq by (simp only: drop_bit_eq_div) simp
  then show "of_nat (unat w div 256) = (ucast (drop_bit 8 w) :: u8)" by (simp only: of_nat_unat)
  have "of_nat (unat w mod 256) = (of_nat (unat w) :: u8)"
    unfolding word_of_nat_eq_iff by (simp add: take_bit_eq_mod)
  then show "of_nat (unat w mod 256) = (ucast w :: u8)" by (simp only: of_nat_unat)
  show "(ucast (of_nat k :: u32) :: u8) = of_nat k"
    by (simp add: unsigned_of_nat word_of_nat_eq_iff)
qed

lemma scan_bytes_word:
  assumes "list_all c_isspace ws"
  shows "scan_bytes (Suc (Suc n)) (ws @ fmt_x 4 (ucast (w :: u16)) @ s, False) =
    (let (bs, f) = scan_bytes n (s, False) in (word_bytes w @ bs, f))"
proof -
  have w: "unat w div 256 < 16 ^ 2" "unat w mod 256 < 16 ^ 2" using unat_u16_bound[of w] by simp_all
  have 1: "scan_x 2 (ws @ fmt_x 4 (ucast w) @ s, False) = (Some (of_nat (unat w div 256)), (hex_digits 2 (unat w mod 256) @ s, False))"
    using scan_x_hex[OF _ w(1) assms, of "hex_digits 2 (unat w mod 256) @ s"] by (simp add: fmt_x_bytes)
  have 2: "scan_x 2 (hex_digits 2 (unat w mod 256) @ s, False) = (Some (of_nat (unat w mod 256)), (s, False))"
    using scan_x_hex[OF _ w(2), of "[]" s] by simp
  show ?thesis by (simp only: scan_bytes.simps 1 2 prod.case option.case u16_bytes word_bytes_def Let_def) (simp split: prod.splits)
qed

lemmas scan_bytes_word' = scan_bytes_word[where ws = "[]", OF list.pred_inject(1), unfolded append_Nil]

lemma scan_bytes_line:
  assumes "list_all c_isspace ws"
  shows "scan_bytes 8 (ws @ imem_line st (4 * k) @ s, False) =
    (word_bytes (imem st (of_nat (4 * k + 3))) @ word_bytes (imem st (of_nat (4 * k + 2))) @
     word_bytes (imem st (of_nat (4 * k + 1))) @ word_bytes (imem st (of_nat (4 * k))), ([newline] @ s, False))"
proof -
  have n: "(8 :: nat) = Suc (Suc (Suc (Suc (Suc (Suc (Suc (Suc 0)))))))" by simp
  show ?thesis
    unfolding imem_line_def append_assoc n
    by (simp only: scan_bytes_word[OF assms] scan_bytes_word' scan_bytes.simps(1) Let_def prod.case append_Nil2 append_assoc add_0_right)
qed

section \<open>Commands on the line\<close>

lemma concat8_word: "concat8 (bs @ word_bytes w) = push_bit 16 (concat8 bs) OR (ucast w :: 'a::len word)"
  by (rule bit_word_eqI) (auto simp: concat8_def word_bytes_def bit_simps not_less dest: bit_imp_le_length)

lemma mon_bytes_append:
  "mon_bytes (xs @ ys) r = (let (r1, o1) = mon_bytes xs r; (r2, o2) = mon_bytes ys r1 in (r2, o1 @ o2))"
  by (induction xs arbitrary: r) (auto simp: Let_def split: prod.splits)


definition imem_command :: "asm_state \<Rightarrow> nat \<Rightarrow> u8 list" where
  "imem_command st k =
     CMD_WRITE_IMEM # short_bytes (of_nat k) @ word_bytes (imem st (of_nat (4 * k + 3))) @
       word_bytes (imem st (of_nat (4 * k + 2))) @ word_bytes (imem st (of_nat (4 * k + 1))) @
       word_bytes (imem st (of_nat (4 * k)))"

definition imem_packet :: "asm_state \<Rightarrow> nat \<Rightarrow> u64" where
  "imem_packet st k =
     fetch_window (imem st (of_nat (4 * k))) (imem st (of_nat (4 * k + 1)))
       (imem st (of_nat (4 * k + 2))) (imem st (of_nat (4 * k + 3)))"

lemma concat8_address: "concat8 [ucast (drop_bit 8 a), ucast a] = (a :: u16)"
  using concat8_word[of "[]" a, where 'a = 16] by (simp add: concat8_def word_bytes_def)

lemma concat8_fetch:
  "concat8 (word_bytes w3 @ word_bytes w2 @ word_bytes w1 @ word_bytes w0) = fetch_window w0 w1 w2 w3"
proof -
  have "concat8 (((([] @ word_bytes w3) @ word_bytes w2) @ word_bytes w1) @ word_bytes w0) = fetch_window w0 w1 w2 w3"
    unfolding concat8_word by (simp add: concat8_def fetch_window_def push_bit_or ac_simps)
  then show ?thesis by simp
qed

lemma mon_write_imem:
  assumes "mon_phase r = M_IDLE"
  shows "\<exists>r'. mon_bytes (imem_command st k) r = (r', [Imem_write (of_nat k) (imem_packet st k)]) \<and> mon_phase r' = M_IDLE"
proof -
  note cmd = CMD_WRITE_IMEM_def
  show ?thesis
    using assms concat8_address[of "of_nat k"]
      concat8_fetch[of "imem st (of_nat (4 * k + 3))" "imem st (of_nat (4 * k + 2))" "imem st (of_nat (4 * k + 1))" "imem st (of_nat (4 * k))"]
    by (simp add: imem_command_def short_bytes_def word_bytes_def mon_byte_def Let_def imem_data_64_w_def imem_packet_def
        del: of_nat_add of_nat_mult)
qed

lemma mon_chunks:
  assumes "\<And>k r. mon_phase r = M_IDLE \<Longrightarrow> \<exists>r'. mon_bytes (cmd k) r = (r', [port k]) \<and> mon_phase r' = M_IDLE"
    and "mon_phase r = M_IDLE"
  shows "\<exists>r'. mon_bytes (concat (map cmd ks)) r = (r', map port ks) \<and> mon_phase r' = M_IDLE"
  using assms(2)
proof (induction ks arbitrary: r)
  case (Cons k ks)
  from assms(1)[OF Cons.prems, of k] obtain r1 where 1: "mon_bytes (cmd k) r = (r1, [port k])" "mon_phase r1 = M_IDLE" by blast
  from Cons.IH[OF 1(2)] 1(1) show ?case by (auto simp: mon_bytes_append)
qed simp

definition idle_board :: board where
  "idle_board =
     \<lparr>mon_phase = M_IDLE, core_rst_r = True, imem_addr_0_r = 0, imem_addr_1_r = 0,
      imem_word_0_r = 0, imem_word_1_r = 0, imem_word_2_r = 0, imem_word_3_r = 0,
      imem_word_4_r = 0, imem_word_5_r = 0, imem_word_6_r = 0, imem_word_7_r = 0,
      dmem_addr_0_r = 0, dmem_addr_1_r = 0, dmem_byte0_r = 0, dmem_byte1_r = 0, dmem_byte2_r = 0, dmem_byte3_r = 0\<rparr>"

section \<open>Loading the instruction memory\<close>

lemma serial_write_append: "serial_write ys (serial_write xs s) = serial_write (xs @ ys) s"
  by (simp add: serial_write_def)

lemma write_imem_lines:
  assumes "list_all c_isspace ws" "len \<le> int (K - k)"
  shows "write_imem_loop (ws @ imem_text st k K, False) (of_nat k) len s =
    Good (serial_write (concat (map (imem_command st) [k..<k + nat len])) s)"
  using assms
proof (induction "nat len" arbitrary: k ws len s)
  case 0
  then show ?case by (subst write_imem_loop.simps) (simp add: serial_write_def)
next
  case (Suc m)
  then have k: "k < K" by linarith
  define f where "f = ([newline] @ imem_text st (Suc k) K, False)"
  have f: "scan_bytes 8 (ws @ imem_text st k K, False) =
      (word_bytes (imem st (of_nat (4 * k + 3))) @ word_bytes (imem st (of_nat (4 * k + 2))) @
     word_bytes (imem st (of_nat (4 * k + 1))) @ word_bytes (imem st (of_nat (4 * k))), f)" (is "_ = (?bs, f)")
    unfolding imem_text_step[OF k] f_def by (rule scan_bytes_line[OF Suc.prems(1)])
  have "m = nat (len - 1)" using Suc.hyps(2) by simp
  from Suc.hyps(1)[OF this newline_space, of "Suc k"] Suc.prems(2)
  have ih: "write_imem_loop f (of_nat k + 1) (len - 1) s' =
      Good (serial_write (concat (map (imem_command st) [Suc k..<Suc k + m])) s')" for s'
    by (simp add: f_def \<open>m = nat (len - 1)\<close> add.commute)
  have r: "[k..<k + nat len] = k # [Suc k..<Suc k + m]" using Suc.hyps(2) by (simp add: upt_conv_Cons flip: Suc.hyps(2))
  have pos: "\<not> len \<le> 0" using Suc.hyps(2) by linarith
  show ?case
    unfolding r by (subst write_imem_loop.simps) (simp add: pos f ih serial_write_append imem_command_def)
qed

text \<open>C34: the monitor loads the instruction memory of the assembler: from a file of more than 1020 words it sends
  the first 256 lines (and no others), and the receiver writes to each of the 256 addresses of its instruction
  memory port the fetch window of the four words of the line, and waits for the next command.\<close>

theorem monitor_loads_imem:
  assumes "files imemfile = Some (output_imem n st)" "1020 < n" "mon_phase r = M_IDLE"
  shows "\<exists>bs r'. target_write_imem files imemfile MON_IMEM_SIZE s = Good (serial_write bs s) \<and>
    mon_bytes bs r = (r', map (\<lambda>k. Imem_write (of_nat k)
        (fetch_window (imem st (of_nat (4 * k))) (imem st (of_nat (4 * k + 1)))
          (imem st (of_nat (4 * k + 2))) (imem st (of_nat (4 * k + 3))))) [0..<256]) \<and>
    mon_phase r' = M_IDLE"
proof -
  have "256 \<le> int ((n + 3) div 4 - 0)" using assms(2) by linarith
  from write_imem_lines[OF _ this, of "[]" st s]
  have "target_write_imem files imemfile MON_IMEM_SIZE s =
      Good (serial_write (concat (map (imem_command st) [0..<256])) s)"
    by (simp add: target_write_imem_def assms(1) MON_IMEM_SIZE_def output_imem_def imem_text_def)
  with mon_chunks[where cmd = "imem_command st" and port = "\<lambda>k. Imem_write (of_nat k) (imem_packet st k)", OF mon_write_imem assms(3), of "[0..<256]"] show ?thesis
    unfolding imem_packet_def by blast
qed


theorem monitor_loads_imem_witness:
  "\<exists>bs r'. target_write_imem (\<lambda>_. Some (output_imem 65536 (init\<lparr>imem := (\<lambda>a. a)\<rparr>))) ''out.imem'' MON_IMEM_SIZE \<lparr>ser_out = [], ser_in = []\<rparr> =
      Good (serial_write bs \<lparr>ser_out = [], ser_in = []\<rparr>) \<and>
    mon_bytes bs idle_board = (r', map (\<lambda>k. Imem_write (of_nat k)
        (fetch_window (of_nat (4 * k)) (of_nat (4 * k + 1)) (of_nat (4 * k + 2)) (of_nat (4 * k + 3)))) [0..<256])"
  using monitor_loads_imem[of "\<lambda>_. Some (output_imem 65536 (init\<lparr>imem := (\<lambda>a. a)\<rparr>))" "''out.imem''" 65536
      "init\<lparr>imem := (\<lambda>a. a)\<rparr>" idle_board "\<lparr>ser_out = [], ser_in = []\<rparr>", OF refl]
  by (simp add: idle_board_def del: of_nat_add of_nat_mult upt_rec_numeral) blast

section \<open>Synchronising with the receiver\<close>

text \<open>C35: the sixteen reset commands bring the receiver, whatever part of a command it is in, to wait for the next
  command with the processor in reset.\<close>

theorem monitor_resynchronises:
  "\<exists>bs. target_reset s = serial_write bs s \<and> mon_phase (fst (mon_bytes bs r)) = M_IDLE \<and> core_rst_r (fst (mon_bytes bs r))"
proof -
  have t: "target_reset s = serial_write (replicate 16 CMD_RESET) s"
    by (simp add: target_reset_def serial_write_def upt_rec numeral_eq_Suc)
  note cmds = CMD_RESET_def CMD_WRITE_IMEM_def CMD_WRITE_DMEM_def CMD_READ_DMEM_def CMD_START_def
  show ?thesis unfolding t
    by (intro exI[of _ "replicate 16 CMD_RESET"], cases "mon_phase r") (simp_all add: numeral_eq_Suc cmds mon_byte_def Let_def)
qed

text \<open>Eight of them, of which a comment in the source speaks, are not enough.\<close>

lemma eight_resets_not_enough:
  "mon_phase (fst (mon_bytes (replicate 8 CMD_RESET) (idle_board\<lparr>mon_phase := M_WRITE_IMEM_ADDR_0\<rparr>))) \<noteq> M_IDLE"
  by (simp add: numeral_eq_Suc mon_byte_def Let_def)

section \<open>Loading the data memory\<close>

text \<open>What the bytes do to the receiver and to the data memory, and the bytes sent back.\<close>

definition board_run :: "u8 list \<Rightarrow> board \<times> (u16 \<Rightarrow> u16) \<Rightarrow> board \<times> (u16 \<Rightarrow> u16) \<times> u8 list" where
  "board_run bs s = (let (r, ps) = mon_bytes bs (fst s) in (r, fold dmem_port ps (snd s, [])))"

lemma scan_x_space:
  assumes "list_all c_isspace ws" "0 < w"
  shows "scan_x w (ws, b) = (None, ([], True))"
proof -
  have "dropWhile c_isspace ws = []" using assms(1) by (simp add: dropWhile_eq_Nil_conv list_all_iff)
  then show ?thesis using assms(2) by (simp del: dropWhile_eq_Nil_conv add: scan_x_def scan_sign_def scan_prefix_def Let_def)
qed

lemma scan_bytes_space: "list_all c_isspace ws \<Longrightarrow> scan_bytes (Suc n) (ws, b) = ([], ([], True))"
  by (simp add: scan_x_space)

definition dmem_command :: "asm_state \<Rightarrow> nat \<Rightarrow> u8 list" where
  "dmem_command st k =
     CMD_WRITE_DMEM # short_bytes (of_nat (2 * k)) @ word_bytes (dmem st (of_nat (2 * k))) @ word_bytes (dmem st (of_nat (2 * k + 1)))"

lemma scan_dmem_lines:
  assumes "list_all c_isspace ws" "Suc (2 * k) < n"
  shows "scan_bytes 4 (ws @ dmem_text st (2 * k) n, False) =
    (word_bytes (dmem st (of_nat (2 * k))) @ word_bytes (dmem st (of_nat (2 * k + 1))), ([newline] @ dmem_text st (2 * Suc k) n, False))"
proof -
  have n: "scan_bytes 4 f = scan_bytes (Suc (Suc (Suc (Suc 0)))) f" for f by (simp add: numeral_eq_Suc)
  have k: "2 * k < n" using assms(2) by simp
  have t: "ws @ dmem_text st (2 * k) n = ws @ fmt_x 4 (ucast (dmem st (of_nat (2 * k)))) @ [newline] @
      fmt_x 4 (ucast (dmem st (of_nat (2 * k + 1)))) @ [newline] @ dmem_text st (2 * Suc k) n"
    unfolding dmem_text_step[OF k] dmem_text_step[OF assms(2)] by simp
  show ?thesis unfolding t n
    by (simp only: scan_bytes_word[OF assms(1)] scan_bytes_word[OF newline_space] scan_bytes.simps(1) Let_def prod.case append_Nil2)
qed

lemma scan_dmem_end:
  assumes "list_all c_isspace ws" "n \<le> Suc (2 * k)"
  shows "\<exists>bs. scan_bytes 4 (ws @ dmem_text st (2 * k) n, False) = (bs, ([], True)) \<and> length bs \<noteq> 4"
proof (cases "2 * k < n")
  case True
  have t: "ws @ dmem_text st (2 * k) n = ws @ fmt_x 4 (ucast (dmem st (of_nat (2 * k)))) @ [newline]"
    unfolding dmem_text_step[OF True] using assms(2) by (simp add: dmem_text_def)
  have n: "scan_bytes 4 f = scan_bytes (Suc (Suc (Suc (Suc 0)))) f" for f by (simp add: numeral_eq_Suc)
  show ?thesis unfolding t n
    by (simp only: scan_bytes_word[OF assms(1)] scan_bytes_space[OF newline_space] Let_def prod.case append_Nil2) simp
next
  case False
  then have "dmem_text st (2 * k) n = []" by (simp add: dmem_text_def)
  then show ?thesis using scan_bytes_space[OF assms(1), of 3 False] by (simp add: numeral_eq_Suc)
qed

lemma write_dmem_lines:
  assumes "list_all c_isspace ws"
  shows "write_dmem_loop (ws @ dmem_text st (2 * k) n, False) (of_nat (2 * k)) len s =
    serial_write (concat (map (dmem_command st) [k..<min (n div 2) (k + nat ((len + 1) div 2))])) s"
  using assms
proof (induction "nat len" arbitrary: k ws len s rule: less_induct)
  case less
  note step = write_dmem_loop.simps[of "(ws @ dmem_text st (2 * k) n, False)"]
  show ?case
  proof (cases "len \<le> 0")
    case True
    then have "nat ((len + 1) div 2) = 0" by linarith
    with True show ?thesis by (subst step) (simp add: serial_write_def min_def)
  next
    case pos: False
    show ?thesis
    proof (cases "Suc (2 * k) < n")
      case True
      have s: "nat (len - 2) < nat len" using pos by linarith
      define f where "f = ([newline] @ dmem_text st (2 * Suc k) n, False)"
      have a: "of_nat (2 * k) + (2 :: u16) = of_nat (2 * Suc k)" by simp
      from less.hyps[OF s newline_space, of "Suc k"]
      have ih: "write_dmem_loop f (of_nat (2 * k) + 2) (len - 2) s' =
          serial_write (concat (map (dmem_command st) [Suc k..<min (n div 2) (Suc k + nat ((len - 2 + 1) div 2))])) s'" for s'
        unfolding f_def a by blast
      have "nat ((len + 1) div 2) = Suc (nat ((len - 2 + 1) div 2))" using pos by linarith
      moreover have "k < n div 2" using True by linarith
      ultimately have r: "[k..<min (n div 2) (k + nat ((len + 1) div 2))] = k # [Suc k..<min (n div 2) (Suc k + nat ((len - 2 + 1) div 2))]"
        by (simp add: upt_conv_Cons)
      note sc = scan_dmem_lines[OF less.prems True, of st, folded f_def]
      show ?thesis unfolding r
        by (subst step) (use pos in \<open>simp add: sc ih serial_write_append dmem_command_def del: of_nat_mult\<close>)
    next
      case False
      then have "n \<le> Suc (2 * k)" by simp
      from scan_dmem_end[OF less.prems this, of st] obtain bs where
        "scan_bytes 4 (ws @ dmem_text st (2 * k) n, False) = (bs, ([], True))" "length bs \<noteq> 4" by blast
      moreover have r: "[k..<min (n div 2) (k + nat ((len + 1) div 2))] = []" using False by simp
      ultimately show ?thesis unfolding r
        by (subst step) (use pos in \<open>simp add: serial_write_def write_dmem_loop.simps[of "([], True)"]\<close>)
    qed
  qed
qed


lemma dmem_write_word:
  "(concat8 (word_bytes hi @ word_bytes lo) :: u32) = insn_image lo hi"
proof -
  have "(concat8 (([] @ word_bytes hi) @ word_bytes lo) :: u32) = insn_image lo hi"
    unfolding concat8_word by (simp add: concat8_def insn_image_def ac_simps)
  then show ?thesis by simp
qed

lemma low_address: "k < 128 \<Longrightarrow> (ucast (ucast (of_nat (2 * k) :: u16) :: u8) :: u16) = of_nat (2 * k)"
  by (simp add: word_eq_iff_unsigned unsigned_ucast_eq unsigned_of_nat take_bit_nat_eq_self del: of_nat_mult)

lemma mon_write_dmem:
  assumes "mon_phase r = M_IDLE"
  shows "\<exists>r'. mon_bytes (dmem_command st k) r =
      (r', [Dmem_write (ucast (ucast (of_nat (2 * k) :: u16) :: u8)) (insn_image (dmem st (of_nat (2 * k))) (dmem st (of_nat (2 * k + 1))))]) \<and>
    mon_phase r' = M_IDLE"
proof -
  note cmds = CMD_WRITE_IMEM_def CMD_WRITE_DMEM_def
  show ?thesis
    using assms dmem_write_word[of "dmem st (of_nat (2 * k + 1))" "dmem st (of_nat (2 * k))"]
    by (simp add: dmem_command_def short_bytes_def word_bytes_def mon_byte_def Let_def dmem_wr_data_32_w_def cmds
        del: of_nat_add of_nat_mult)
qed

definition read_command :: "nat \<Rightarrow> u8 list" where
  "read_command k = CMD_READ_DMEM # short_bytes (of_nat (2 * k))"

lemma mon_read_dmem:
  assumes "mon_phase r = M_IDLE"
  shows "\<exists>r'. mon_bytes (read_command k) r = (r', [Dmem_read (ucast (ucast (of_nat (2 * k) :: u16) :: u8))]) \<and>
    mon_phase r' = M_IDLE"
  using assms
  by (simp add: read_command_def short_bytes_def mon_byte_def Let_def CMD_WRITE_IMEM_def CMD_WRITE_DMEM_def CMD_READ_DMEM_def
      del: of_nat_mult)

lemma and_not_1: "even x \<Longrightarrow> x AND NOT 1 = (x :: u16)"
proof (rule bit_word_eqI)
  fix n assume "even x" "n < LENGTH(16)"
  then have "bit (NOT 1 :: u16) n \<longleftrightarrow> n \<noteq> 0" "\<not> bit x 0"
    by (simp_all only: bit_not_iff bit_1_iff bit_0) simp_all
  then show "bit (x AND NOT 1) n = bit x n" unfolding bit_and_iff by (cases "n = 0") simp_all
qed

lemma pair_addresses:
  "(of_nat (2 * k) :: u16) OR 1 = of_nat (2 * k + 1)" "(of_nat (2 * k) :: u16) AND NOT 1 = of_nat (2 * k)"
proof -
  have e: "even (of_nat (2 * k) :: u16)" by simp
  from e show "(of_nat (2 * k) :: u16) OR 1 = of_nat (2 * k + 1)" by (simp add: or_one_eq)
  from e show "(of_nat (2 * k) :: u16) AND NOT 1 = of_nat (2 * k)" by (rule and_not_1)
qed

lemma image_halves:
  "ucast (drop_bit 16 (insn_image lo hi)) = hi" "ucast (insn_image lo hi) = lo"
  by (rule bit_word_eqI; auto simp: insn_image_def bit_simps dest: bit_imp_le_length)+

lemma dmem_port_write:
  assumes "k < 128"
  shows "dmem_port (Dmem_write (ucast (ucast (of_nat (2 * k) :: u16) :: u8)) (insn_image lo hi)) (m, tx) =
    (m(of_nat (2 * k + 1) := hi, of_nat (2 * k) := lo), tx)"
  by (simp only: dmem_port_def port_access.case fst_conv snd_conv low_address[OF assms] pair_addresses image_halves)

lemma updated_range:
  assumes "\<And>a. unat a < j \<longleftrightarrow> unat a < i \<or> a = x \<or> a = y"
  shows "(\<lambda>a. if unat a < i then f a else m a)(y := f y, x := f x) = (\<lambda>a. if unat a < j then f a else m a)"
  by (rule ext) (auto simp: assms)

lemma dmem_writes:
  assumes "N \<le> 128"
  shows "fold dmem_port (map (\<lambda>k. Dmem_write (ucast (ucast (of_nat (2 * k) :: u16) :: u8))
      (insn_image (dmem st (of_nat (2 * k))) (dmem st (of_nat (2 * k + 1))))) [0..<N]) (m, tx) =
    (\<lambda>a. if unat a < 2 * N then dmem st a else m a, tx)"
  using assms
proof (induction N)
  case (Suc N)
  have "unat (of_nat (2 * N) :: u16) = 2 * N" "unat (of_nat (2 * N + 1) :: u16) = 2 * N + 1"
    using Suc.prems by (simp_all only: unat_of_nat) simp_all
  then have a: "unat a < 2 * Suc N \<longleftrightarrow> unat a < 2 * N \<or> a = of_nat (2 * N) \<or> a = of_nat (2 * N + 1)" for a :: u16
    unfolding word_unat_eq_iff by (simp only:) arith
  have f: "(\<lambda>a. if unat a < 2 * N then dmem st a else m a)
      (of_nat (2 * N + 1) := dmem st (of_nat (2 * N + 1)), of_nat (2 * N) := dmem st (of_nat (2 * N))) =
      (\<lambda>a. if unat a < 2 * Suc N then dmem st a else m a)"
    by (rule updated_range) (rule a)
  have N: "N < 128" "N \<le> 128" using Suc.prems by simp_all
  show ?case
    by (simp only: upt_Suc_append le0 map_append list.map fold_append fold_simps o_apply Suc.IH[OF N(2)] dmem_port_write[OF N(1)] f)
qed simp

lemma dmem_tx_pair: "dmem_tx (dmem_pair m (of_nat (2 * k))) = word_bytes (m (of_nat (2 * k))) @ word_bytes (m (of_nat (2 * k + 1)))"
proof -
  have "dmem_tx (push_bit 16 (ucast hi) OR ucast lo) = word_bytes lo @ word_bytes hi" for lo hi :: u16
    by (simp add: dmem_tx_def word_bytes_def) (intro conjI bit_word_eqI; auto simp: bit_simps dest: bit_imp_le_length)
  then show ?thesis by (simp only: dmem_pair_def pair_addresses)
qed

lemma read_line_word: "read_line (ucast (drop_bit 8 w)) (ucast w) = fmt_x 4 (ucast (w :: u16)) @ [newline]"
proof -
  have b: "fmt_x 2 (ucast b) = hex_digits 2 (unat b)" for b :: u8
    using unsigned_less[of b, where 'a = nat] by (simp add: fmt_x_digits unsigned_ucast_eq take_bit_nat_eq_self)
  have n: "unat (of_nat x :: u8) = x" if "x < 256" for x using that by (simp add: unat_of_nat)
  have "unat w div 256 < 256" using unat_u16_bound[of w] by simp
  from n[OF this] have "unat (ucast (drop_bit 8 w) :: u8) = unat w div 256" by (simp only: u16_bytes)
  moreover have "unat w mod 256 < 256" by simp
  from n[OF this] have "unat (ucast w :: u8) = unat w mod 256" by (simp only: u16_bytes)
  ultimately show ?thesis by (simp add: read_line_def b fmt_x_bytes)
qed

definition dmem_lines :: "(u16 \<Rightarrow> u16) \<Rightarrow> nat \<Rightarrow> nat \<Rightarrow> string" where
  "dmem_lines m i n = concat (map (\<lambda>i. fmt_x 4 (ucast (m (of_nat i))) @ [newline]) [i..<n])"

lemma read_dmem_step:
  "read_dmem_loop (Suc c) (of_nat (2 * k)) (s\<lparr>ser_in := (word_bytes lo @ word_bytes hi) @ rest\<rparr>) =
     obind (read_dmem_loop c (of_nat (2 * Suc k)) (serial_write (read_command k) s\<lparr>ser_in := rest\<rparr>)) (\<lambda>(s2, t).
       Good (s2, fmt_x 4 (ucast lo) @ [newline] @ fmt_x 4 (ucast hi) @ [newline] @ t))"
proof -
  have a: "of_nat (2 * k) + (2 :: u16) = of_nat (2 * Suc k)" by simp
  have w: "serial_write (short_bytes (of_nat (2 * k))) (serial_write [CMD_READ_DMEM] (s\<lparr>ser_in := x\<rparr>)) =
      serial_write (read_command k) s\<lparr>ser_in := x\<rparr>" for x
    by (simp add: serial_write_def read_command_def)
  show ?thesis
    unfolding read_dmem_loop.simps w a word_bytes_def
    by (simp add: Let_def read_line_word del: of_nat_mult of_nat_add mult_Suc_right)
qed

lemma read_dmem_lines:
  "read_dmem_loop c (of_nat (2 * k)) (s\<lparr>ser_in := concat (map (\<lambda>j. dmem_tx (dmem_pair m (of_nat (2 * j)))) [k..<k + c])\<rparr>) =
     Good (serial_write (concat (map read_command [k..<k + c])) s\<lparr>ser_in := []\<rparr>, dmem_lines m (2 * k) (2 * (k + c)))"
proof (induction c arbitrary: k s)
  case 0
  then show ?case by (simp add: serial_write_def dmem_lines_def)
next
  case (Suc c)
  have r: "[k..<k + Suc c] = k # [Suc k..<Suc k + c]" by (simp add: upt_conv_Cons)
  have l: "dmem_lines m (2 * k) (2 * (k + Suc c)) =
      fmt_x 4 (ucast (m (of_nat (2 * k)))) @ [newline] @ fmt_x 4 (ucast (m (of_nat (2 * k + 1)))) @ [newline] @
      dmem_lines m (2 * Suc k) (2 * (Suc k + c))"
    unfolding dmem_lines_def using upt_conv_Cons[of "2 * k" "2 * (k + Suc c)"] upt_conv_Cons[of "Suc (2 * k)" "2 * (k + Suc c)"]
    by (simp del: upt_Suc)
  show ?case
    unfolding r l list.map concat.simps dmem_tx_pair[of m k] read_dmem_step Suc.IH
    by (simp add: serial_write_append)
qed

text \<open>C36: what the monitor loads into the data memory it reads back: the receiver stores the first 256 words of
  the file (of an odd number all but the last) and leaves the other words alone; reading the memory then sends
  requests whose answers make a file of the first 256 words of the memory in the format of the assembler,
  filled up with \<open>dead\<close>.\<close>

theorem monitor_dmem_roundtrip:
  assumes "files dmemfile = Some (output_dmem n st)" "mon_phase r = M_IDLE"
  shows "\<exists>ws rs r1 m1 r2 tx.
    target_write_dmem files dmemfile MON_DMEM_SIZE s = Good (serial_write ws s) \<and>
    board_run ws (r, m) = (r1, m1, []) \<and>
    m1 = (\<lambda>a. if unat a < 2 * min (n div 2) 128 then dmem st a else m a) \<and>
    board_run rs (r1, m1) = (r2, m1, tx) \<and>
    target_read_dmem MON_DMEM_SIZE len (s'\<lparr>ser_in := tx\<rparr>) =
      Good (serial_write rs s'\<lparr>ser_in := []\<rparr>,
        concat (map (\<lambda>i. fmt_x 4 (ucast (m1 (of_nat i))) @ [newline]) [0..<256]) @
        concat (replicate (nat (len - 256)) (''dead'' @ [newline])))"
proof -
  define m1 where "m1 = (\<lambda>a. if unat a < 2 * min (n div 2) 128 then dmem st a else m a)"
  have w: "target_write_dmem files dmemfile MON_DMEM_SIZE s =
      Good (serial_write (concat (map (dmem_command st) [0..<min (n div 2) 128])) s)"
    using write_dmem_lines[of "[]" st 0 n 256 s]
    by (simp add: target_write_dmem_def assms(1) MON_DMEM_SIZE_def output_dmem_def dmem_text_def)
  have port: "fold dmem_port (map (\<lambda>k. Dmem_write (ucast (ucast (of_nat (2 * k) :: u16) :: u8))
      (insn_image (dmem st (of_nat (2 * k))) (dmem st (of_nat (2 * k + 1))))) [0..<min (n div 2) 128]) (m, []) = (m1, [])"
    unfolding m1_def by (rule dmem_writes) simp
  from mon_chunks[where cmd = "dmem_command st", OF mon_write_dmem assms(2), of "[0..<min (n div 2) 128]"]
  obtain r1 where b: "mon_bytes (concat (map (dmem_command st) [0..<min (n div 2) 128])) r =
      (r1, map (\<lambda>k. Dmem_write (ucast (ucast (of_nat (2 * k) :: u16) :: u8))
        (insn_image (dmem st (of_nat (2 * k))) (dmem st (of_nat (2 * k + 1))))) [0..<min (n div 2) 128])" "mon_phase r1 = M_IDLE"
    by blast
  then have r1: "board_run (concat (map (dmem_command st) [0..<min (n div 2) 128])) (r, m) = (r1, m1, [])"
    by (simp only: board_run_def Let_def fst_conv snd_conv prod.case port)
  have "fold dmem_port (map (\<lambda>k. Dmem_read (ucast (ucast (of_nat (2 * k) :: u16) :: u8))) [0..<N]) (m1, tx) =
      (m1, tx @ concat (map (\<lambda>j. dmem_tx (dmem_pair m1 (of_nat (2 * j)))) [0..<N]))" if "N \<le> 128" for N tx
    using that by (induction N) (simp_all add: dmem_port_def low_address del: of_nat_mult)
  note reads = this[of 128 "[]", OF order_refl, unfolded append_Nil]
  from mon_chunks[where cmd = read_command, OF mon_read_dmem b(2), of "[0..<128]"]
  obtain r2 where "mon_bytes (concat (map read_command [0..<128])) r1 =
      (r2, map (\<lambda>k. Dmem_read (ucast (ucast (of_nat (2 * k) :: u16) :: u8))) [0..<128])" by blast
  then have r2: "board_run (concat (map read_command [0..<128])) (r1, m1) =
      (r2, m1, concat (map (\<lambda>j. dmem_tx (dmem_pair m1 (of_nat (2 * j)))) [0..<128]))"
    by (simp only: board_run_def Let_def fst_conv snd_conv prod.case reads)
  have "target_read_dmem MON_DMEM_SIZE len (s'\<lparr>ser_in := concat (map (\<lambda>j. dmem_tx (dmem_pair m1 (of_nat (2 * j)))) [0..<128])\<rparr>) =
      Good (serial_write (concat (map read_command [0..<128])) s'\<lparr>ser_in := []\<rparr>,
        dmem_lines m1 0 256 @ concat (replicate (nat (len - 256)) (''dead'' @ [newline])))"
    using read_dmem_lines[where c = 128 and k = 0 and s = s' and m = m1] by (simp add: target_read_dmem_def MON_DMEM_SIZE_def del: upt_rec_numeral)
  with w r1 r2 show ?thesis unfolding m1_def[symmetric] dmem_lines_def by blast
qed


theorem monitor_dmem_roundtrip_witness:
  "\<exists>ws rs r1 m1 r2 tx.
    target_write_dmem (\<lambda>_. Some (output_dmem 65536 init)) ''out.dmem'' MON_DMEM_SIZE \<lparr>ser_out = [], ser_in = []\<rparr> =
      Good (serial_write ws \<lparr>ser_out = [], ser_in = []\<rparr>) \<and>
    board_run ws (idle_board, \<lambda>_. 0) = (r1, m1, []) \<and> m1 255 = 0xdead \<and> m1 256 = 0 \<and>
    board_run rs (r1, m1) = (r2, m1, tx) \<and>
    target_read_dmem MON_DMEM_SIZE 0xffff \<lparr>ser_out = [], ser_in = tx\<rparr> =
      Good (\<lparr>ser_out = rs, ser_in = []\<rparr>,
        concat (map (\<lambda>i. fmt_x 4 (ucast (m1 (of_nat i))) @ [newline]) [0..<256]) @
        concat (replicate (nat (0xffff - 256)) (''dead'' @ [newline])))"
proof -
  have "mon_phase idle_board = M_IDLE" by (simp add: idle_board_def)
  from monitor_dmem_roundtrip[OF _ this, where files = "\<lambda>_. Some (output_dmem 65536 init)" and dmemfile = "''out.dmem''" and n = 65536 and st = init
      and s = "\<lparr>ser_out = [], ser_in = []\<rparr>" and s' = "\<lparr>ser_out = [], ser_in = []\<rparr>" and len = "0xffff" and m = "\<lambda>_. 0", OF refl]
  obtain ws rs r1 m1 r2 tx where m: "m1 = (\<lambda>a. if unat a < 2 * min (65536 div 2) 128 then dmem init a else 0)"
    and r: "target_write_dmem (\<lambda>_. Some (output_dmem 65536 init)) ''out.dmem'' MON_DMEM_SIZE \<lparr>ser_out = [], ser_in = []\<rparr> =
      Good (serial_write ws \<lparr>ser_out = [], ser_in = []\<rparr>)"
    "board_run ws (idle_board, \<lambda>_. 0) = (r1, m1, [])" "board_run rs (r1, m1) = (r2, m1, tx)"
    and t: "target_read_dmem MON_DMEM_SIZE 0xffff (\<lparr>ser_out = [], ser_in = []\<rparr>\<lparr>ser_in := tx\<rparr>) =
      Good (serial_write rs \<lparr>ser_out = [], ser_in = []\<rparr>\<lparr>ser_in := []\<rparr>,
        concat (map (\<lambda>i. fmt_x 4 (ucast (m1 (of_nat i))) @ [newline]) [0..<256]) @
        concat (replicate (nat (0xffff - 256)) (''dead'' @ [newline])))" by (elim exE conjE) (rule that)
  have sw: "serial_write rs \<lparr>ser_out = [], ser_in = []\<rparr>\<lparr>ser_in := []\<rparr> = \<lparr>ser_out = rs, ser_in = []\<rparr>" by (simp add: serial_write_def)
  have m1: "m1 255 = 0xdead" "m1 256 = 0" by (simp_all add: m init_def DMEM_UNINIT_VALUE_def)
  note t' = t[unfolded sw serial.update_convs]
  show ?thesis
    by (rule exI[of _ ws], rule exI[of _ rs], rule exI[of _ r1], rule exI[of _ m1], rule exI[of _ r2], rule exI[of _ tx])
      (intro conjI r m1 t')
qed

text \<open>A file that does not cover the instruction memory of the board ends in numbers that were never read.\<close>

lemma write_imem_runs_out:
  assumes "list_all c_isspace ws" "int (K - k) < len"
  shows "write_imem_loop (ws @ imem_text st k K, False) a len s = Undef"
  using assms
proof (induction "K - k" arbitrary: k ws len a s)
  case 0
  then have "imem_text st k K = []" by (simp add: imem_text_def)
  with 0 scan_bytes_space[OF 0(2), of 7 False] show ?case by (subst write_imem_loop.simps) (simp add: numeral_eq_Suc)
next
  case (Suc m)
  then have k: "k < K" "m = K - Suc k" by auto
  have "write_imem_loop ([newline] @ imem_text st (Suc k) K, False) a' (len - 1) s' = Undef" for a' s'
    by (rule Suc.hyps(1)) (use k Suc.prems in \<open>auto simp: newline_space\<close>)
  moreover have "\<not> len \<le> 0" using Suc.prems(2) k by simp
  ultimately show ?case unfolding imem_text_step[OF k(1)]
    by (subst write_imem_loop.simps) (simp add: scan_bytes_line[OF Suc.prems(1), simplified])
qed

lemma monitor_imem_overrun:
  assumes "files imemfile = Some (output_imem n st)" "n \<le> 1020"
  shows "target_write_imem files imemfile MON_IMEM_SIZE s = Undef"
  using write_imem_runs_out[of "[]" "(n + 3) div 4" 0 256 st 0 s] assms
  by (simp add: target_write_imem_def imem_text_def output_imem_def MON_IMEM_SIZE_def)

end
