(* ===== verification/Fonts.thy ===== *)
theory Fonts
  imports Target
begin

text \<open>
  The font generator \<open>sw/tools/misc/genvgafonts.c\<close>: it prints the glyphs of a font file as pictures, or the
  bytes of the file as initialisations of block memories.

  A file is the list of its bytes.  A buffer is the prefix of it that has been written; using more of it
  is \<open>Undef\<close>, as is \<open>isprint\<close> of a value that is not a character.
\<close>

section \<open>The program\<close>

datatype font_exit = Font_usage | Not_psf1

definition PSF1_MAGIC0 :: u8 where "PSF1_MAGIC0 = 0x36"
definition PSF1_MAGIC1 :: u8 where "PSF1_MAGIC1 = 0x04"

text \<open>What is left of the file, and whether a read has met its end.\<close>

type_synonym byte_stream = "u8 list \<times> bool"

definition fread :: "nat \<Rightarrow> byte_stream \<Rightarrow> u8 list \<times> byte_stream" where
  "fread n f = (take n (fst f), (drop n (fst f), snd f \<or> length (fst f) < n))"

definition overwrite :: "u8 list \<Rightarrow> u8 list \<Rightarrow> u8 list" where
  "overwrite bs buf = bs @ drop (length bs) buf"

definition c_isprint :: "nat \<Rightarrow> bool" where
  "c_isprint k \<longleftrightarrow> 32 \<le> k \<and> k \<le> 126"

definition glyph_row :: "u8 \<Rightarrow> string" where
  "glyph_row b = map (\<lambda>j. if drop_bit (7 - j) b AND 1 \<noteq> 0 then CHR ''X'' else CHR '' '') [0..<8] @ [newline]"

definition print_glyph :: "nat \<Rightarrow> u8 list \<Rightarrow> string" where
  "print_glyph k bs =
     ''--'' @ fmt_d (of_nat k) @ ''-'' @ [if c_isprint k then char_of k else CHR '' ''] @ ''--'' @ [newline] @
     concat (map glyph_row bs)"

function glyph_loop :: "nat \<Rightarrow> byte_stream \<Rightarrow> u8 list \<Rightarrow> nat \<Rightarrow> (string, font_exit) outcome" where
  "glyph_loop charsize f character k =
     (if snd f then Good []
      else
        let (bs, f') = fread charsize f; character' = overwrite bs character in
        if 128 < charsize \<or> length character' < charsize \<or> 255 < k then Undef
        else obind (glyph_loop charsize f' character' (k + 1)) (\<lambda>t. Good (print_glyph k (take charsize character') @ t)))"
  by pat_completeness auto
termination by (relation "measure (\<lambda>(n, f, c, k). 256 - k)") auto

definition init_line :: "nat \<Rightarrow> u8 list \<Rightarrow> string" where
  "init_line k buf =
     ''.INIT_'' @ fmt_X 2 (of_nat k) @ ''(256'' @ [CHR 0x27, CHR ''h''] @
     concat (map (\<lambda>i. fmt_x 2 (ucast (buf ! (32 - 1 - i)))) [0..<32]) @ ''),'' @ [newline]"

function init_loop :: "byte_stream \<Rightarrow> u8 list \<Rightarrow> nat \<Rightarrow> (string, font_exit) outcome" where
  "init_loop f buf k =
     (if snd f then Good []
      else
        let (bs, f') = fread 32 f; buf' = overwrite bs buf in
        if length buf' < 32 then Undef
        else obind (init_loop f' buf' (k + 1)) (\<lambda>t. Good (init_line k buf' @ t)))"
  by pat_completeness auto
termination
  by (relation "measure (\<lambda>(f, b, k). length (fst f) + (if snd f then 0 else 1))") (auto simp: fread_def)

declare glyph_loop.simps [simp del] init_loop.simps [simp del]

text \<open>The header; a short read leaves the rest of it unset.\<close>

definition psf1_header :: "u8 list \<Rightarrow> (u8, font_exit) outcome" where
  "psf1_header h =
     (case h of
        [] \<Rightarrow> Undef
      | m0 # h1 \<Rightarrow>
          if m0 \<noteq> PSF1_MAGIC0 then Fail Not_psf1
          else
            case h1 of
              [] \<Rightarrow> Undef
            | m1 # h2 \<Rightarrow> if m1 \<noteq> PSF1_MAGIC1 then Fail Not_psf1 else case h2 of [_, c] \<Rightarrow> Good c | _ \<Rightarrow> Undef)"

text \<open>One argument; the name that is opened is always the first one.\<close>

definition font_arg :: "(string \<Rightarrow> u8 list option) \<Rightarrow> string list \<Rightarrow> string \<Rightarrow> u8 list option \<times> bool \<Rightarrow> u8 list option \<times> bool" where
  "font_arg files argv arg s =
     (if take 1 arg = ''-'' then (if take 1 (drop 1 arg) = ''i'' then (fst s, True) else s)
      else (files (argv ! 0), snd s))"

definition genvgafonts_main :: "(string \<Rightarrow> u8 list option) \<Rightarrow> string list \<Rightarrow> (string, font_exit) outcome" where
  "genvgafonts_main files argv =
     (let (fp, opt_init) = fold (font_arg files argv) argv (None, False) in
      case fp of
        None \<Rightarrow> Fail Font_usage
      | Some bytes \<Rightarrow>
          let (h, f) = fread 4 (bytes, False) in
          obind (psf1_header h) (\<lambda>charsize.
          obind (if opt_init then init_loop f [] 0 else glyph_loop (unat charsize) f [] 0) (\<lambda>t.
            Good (''charsize: '' @ fmt_d (ucast charsize) @ [newline] @ t))))"

section \<open>Pictures\<close>

lemma glyph_row_nth: "j < 8 \<Longrightarrow> glyph_row b ! j = (if bit b (7 - j) then CHR ''X'' else CHR '' '')"
proof -
  have "drop_bit k b AND 1 \<noteq> 0 \<longleftrightarrow> bit b k" for k by (simp add: and_one_eq bit_iff_odd_drop_bit odd_iff_mod_2_eq_one)
  then show "j < 8 \<Longrightarrow> ?thesis" by (simp add: glyph_row_def nth_append)
qed

lemma glyph_loop_last:
  assumes "0 < n" "n \<le> 128" "n \<le> length buf" "k \<le> 255"
  shows "glyph_loop n ([], False) buf k = Good (print_glyph k (take n buf))"
  using assms by (subst glyph_loop.simps) (simp add: fread_def overwrite_def glyph_loop.simps[of n "([], True)"])

lemma glyph_loop_glyphs:
  assumes "0 < n" "n \<le> 128" "list_all (\<lambda>g. length g = n) gs" "k + length gs \<le> 255" "gs = [] \<longrightarrow> n \<le> length buf"
  shows "glyph_loop n (concat gs, False) buf k =
    Good (concat (map (\<lambda>(j, g). print_glyph j g) (enumerate k gs)) @ print_glyph (k + length gs) (take n (last (buf # gs))))"
  using assms(3-)
proof (induction gs arbitrary: k buf)
  case Nil
  with glyph_loop_last[OF assms(1,2)] show ?case by simp
next
  case (Cons g gs)
  then have g: "length g = n" and gs: "list_all (\<lambda>g. length g = n) gs" and k: "k \<le> 255" "Suc k + length gs \<le> 255" by auto
  have "n \<le> length (overwrite g buf)" by (simp add: overwrite_def g)
  from Cons.IH[OF gs k(2), of "overwrite g buf"] this
  have ih: "glyph_loop n (concat gs, False) (overwrite g buf) (Suc k) =
    Good (concat (map (\<lambda>(j, g). print_glyph j g) (enumerate (Suc k) gs)) @
      print_glyph (Suc k + length gs) (take n (last (overwrite g buf # gs))))" by blast
  have l: "take n (last (overwrite g buf # gs)) = take n (last (g # gs))" by (simp add: overwrite_def g)
  have "length (overwrite g buf) \<ge> n" "take n (overwrite g buf) = g" by (simp_all add: overwrite_def g)
  with assms(2) k(1) g show ?case
    by (subst glyph_loop.simps) (simp add: fread_def ih l)
qed

text \<open>The program prints every glyph of a font file with fewer than 256 glyphs, with its number, in order; the end
  of the file is only met by a further read, so the last glyph is printed once more.\<close>

theorem genvgafonts_lists_glyphs:
  assumes "files f = Some ([PSF1_MAGIC0, PSF1_MAGIC1, mode, n] @ concat gs)" "take 1 f \<noteq> ''-''"
    and "0 < unat n" "unat n \<le> 128" "list_all (\<lambda>g. length g = unat n) gs" "gs \<noteq> []" "length gs \<le> 255"
  shows "genvgafonts_main files [f] =
    Good (''charsize: '' @ fmt_d (ucast n) @ [newline] @
      concat (map (\<lambda>k. print_glyph k (gs ! k)) [0..<length gs]) @ print_glyph (length gs) (last gs))"
proof -
  have "map (\<lambda>k. print_glyph k (gs ! k)) [0..<length gs] = map (\<lambda>(j, g). print_glyph j g) (enumerate 0 gs)"
    by (rule nth_equalityI) (simp_all add: nth_enumerate_eq)
  moreover have "take (unat n) (last gs) = last gs" using assms(5,6) by (simp add: list_all_iff)
  ultimately show ?thesis
    using glyph_loop_glyphs[OF assms(3,4,5), of 0 "[]"] assms(1,2,6,7)
    by (simp add: genvgafonts_main_def font_arg_def fread_def psf1_header_def PSF1_MAGIC0_def PSF1_MAGIC1_def)
qed

theorem genvgafonts_lists_glyphs_witness:
  "genvgafonts_main (\<lambda>_. Some [0x36, 4, 0, 2, 0x81, 0xff]) [''a.psf''] =
    Good (''charsize: 2'' @ [newline] @ print_glyph 0 [0x81, 0xff] @ print_glyph 1 [0x81, 0xff])"
  using genvgafonts_lists_glyphs[of "\<lambda>_. Some [0x36, 4, 0, 2, 0x81, 0xff]" "''a.psf''" 0 2 "[[0x81, 0xff]]"]
  by (simp add: PSF1_MAGIC0_def PSF1_MAGIC1_def fmt_d_def digits_in.simps hex_digit_def)

text \<open>A full font of 256 glyphs: the repeated glyph has number 256, which is not a character.\<close>

lemma glyph_loop_number: "255 < k \<Longrightarrow> \<not> snd f \<Longrightarrow> glyph_loop n f buf k = Undef"
  by (subst glyph_loop.simps) (simp add: fread_def)

lemma glyph_loop_256:
  assumes "0 < n" "n \<le> 128" "list_all (\<lambda>g. length g = n) gs" "k + length gs = 256" "gs \<noteq> []"
  shows "glyph_loop n (concat gs, False) buf k = Undef"
  using assms(3-)
proof (induction gs arbitrary: k buf)
  case (Cons g gs)
  show ?case
  proof (cases "gs = []")
    case True
    with Cons.prems have "k = 255" "length g = n" by auto
    with True show ?thesis
      by (subst glyph_loop.simps) (simp add: fread_def overwrite_def glyph_loop_number Let_def)
  next
    case False
    with Cons have "glyph_loop n (concat gs, False) (overwrite g buf) (Suc k) = Undef" by simp
    with Cons.prems show ?thesis by (subst glyph_loop.simps) (simp add: fread_def Let_def)
  qed
qed simp

text \<open>With the option before the file name the option is opened.\<close>

lemma option_opened_as_file:
  "genvgafonts_main (\<lambda>f. if f = ''-i'' then None else Some bytes) [''-i'', ''a.psf''] = Fail Font_usage"
  by (simp add: genvgafonts_main_def font_arg_def)

section \<open>Memory initialisations\<close>

lemma init_loop_blocks:
  assumes "list_all (\<lambda>b. length b = 32) bs" "bs = [] \<longrightarrow> length buf = 32" "length buf \<le> 32"
  shows "init_loop (concat bs, False) buf k =
    Good (concat (map (\<lambda>(j, b). init_line j b) (enumerate k bs)) @ init_line (k + length bs) (last (buf # bs)))"
  using assms
proof (induction bs arbitrary: k buf)
  case Nil
  then show ?case by (subst init_loop.simps) (simp add: fread_def overwrite_def init_loop.simps[of "([], True)"])
next
  case (Cons b bs)
  then have b: "length b = 32" "overwrite b buf = b" by (simp_all add: overwrite_def)
  with Cons.IH[of b "Suc k"] Cons.prems show ?case
    by (subst init_loop.simps) (simp add: fread_def)
qed

definition le_value :: "u8 list \<Rightarrow> nat" where
  "le_value bs = foldr (\<lambda>b v. unat b + 256 * v) bs 0"

lemma fmt_x_u8: "fmt_x 2 (ucast (b :: u8)) = hex_digits 2 (unat b)"
  using unsigned_less[of b, where 'a = nat] by (simp add: fmt_x_digits unsigned_ucast_eq take_bit_nat_eq_self)

lemma hex_digits_in: "\<forall>c\<in>set (hex_digits k v). digit_in 16 c"
proof
  fix c assume "c \<in> set (hex_digits k v)"
  then obtain n where n: "n < 16" "c = hex_digit n" using hex_digits_set by blast
  then show "digit_in 16 c" using hex_digit_facts[OF n(1)] by (simp add: digit_in_def unat_of_nat)
qed

lemma magnitude_step:
  assumes "\<forall>c\<in>set s. digit_in 16 c"
  shows "strtoul_magnitude 16 (s @ fmt_x 2 (ucast (b :: u8))) = strtoul_magnitude 16 s * 256 + unat b"
proof -
  have v: "unat (xdigit_value (hex_digit n)) = n" if "n < 16" for n
    using hex_digit_facts[OF that] that by (simp add: unat_of_nat)
  have b: "unat b div 16 < 16" using unsigned_less[of b, where 'a = nat] by simp
  have d: "hex_digits 2 (unat b) = [hex_digit (unat b div 16), hex_digit (unat b mod 16)]" using b by (simp add: numeral_2_eq_2)
  have t: "takeWhile (digit_in 16) (s @ hex_digits 2 (unat b)) = s @ hex_digits 2 (unat b)" "takeWhile (digit_in 16) s = s"
    using assms hex_digits_in by (auto simp: takeWhile_eq_all_conv)
  have "(x * 16 + unat b div 16) * 16 + unat b mod 16 = x * 256 + unat b" for x :: nat by simp
  then show ?thesis by (simp add: strtoul_magnitude_def fmt_x_u8 t) (simp add: d v b)
qed

text \<open>The hexadecimal number in a line is the little-endian value of its block.\<close>

lemma init_line_value:
  assumes "length buf = 32"
  shows "\<exists>h. init_line k buf = ''.INIT_'' @ fmt_X 2 (of_nat k) @ ''(256'' @ [CHR 0x27, CHR ''h''] @ h @ ''),'' @ [newline] \<and>
    length h = 64 \<and> strtoul_magnitude 16 h = le_value buf"
proof -
  define hex where "hex = (\<lambda>bs. concat (map (\<lambda>b :: u8. fmt_x 2 (ucast b)) (rev bs)))"
  have in16: "\<forall>c\<in>set (hex bs). digit_in 16 c" for bs using hex_digits_in by (auto simp: hex_def fmt_x_u8)
  have v: "strtoul_magnitude 16 (hex bs) = le_value bs" for bs
  proof (induction bs)
    case (Cons b bs)
    from magnitude_step[OF in16[of bs], of b] Cons show ?case by (simp add: hex_def le_value_def)
  qed (simp add: hex_def le_value_def strtoul_magnitude_def)
  have "map (\<lambda>i. fmt_x 2 (ucast (buf ! (32 - 1 - i)))) [0..<32] = map (\<lambda>b. fmt_x 2 (ucast b)) (rev buf)"
    by (rule nth_equalityI) (simp_all add: assms rev_nth)
  moreover have "length (hex buf) = 64"
    by (simp add: hex_def length_concat comp_def fmt_x_u8 sum_list_triv assms)
  ultimately show ?thesis
    using v[of buf] by (intro exI[of _ "hex buf"]) (simp add: init_line_def hex_def)
qed

text \<open>With the option every block of 32 bytes is printed, the last one twice.\<close>

lemma genvgafonts_initialises:
  assumes "files f = Some ([PSF1_MAGIC0, PSF1_MAGIC1, mode, n] @ concat bs)" "take 1 f \<noteq> ''-''"
    and "list_all (\<lambda>b. length b = 32) bs" "bs \<noteq> []"
  shows "genvgafonts_main files [f, ''-i''] =
    Good (''charsize: '' @ fmt_d (ucast n) @ [newline] @
      concat (map (\<lambda>(j, b). init_line j b) (enumerate 0 bs)) @ init_line (length bs) (last bs))"
  using init_loop_blocks[OF assms(3), of "[]" 0] assms(1,2,4)
  by (simp add: genvgafonts_main_def font_arg_def fread_def psf1_header_def PSF1_MAGIC0_def PSF1_MAGIC1_def)

end
