(* ===== verification/Ethraw.thy ===== *)
theory Ethraw
  imports Target
begin

text \<open>
  The test tool \<open>sw/tools/target/ethraw.c\<close>, which sends one Ethernet frame.  The answers of the operating system
  are a parameter; the constants of its headers are written out.  A byte of the frame that has not been
  written is \<^term>\<open>None :: u8 option\<close>.
\<close>

text \<open>Whether a socket is given, the index and the address of \<open>eth0\<close>, and whether a frame can be sent.\<close>

record link_address =
  sll_family :: u16
  sll_protocol :: u16
  sll_ifindex :: i32
  sll_hatype :: u16
  sll_pkttype :: u8
  sll_halen :: u8
  sll_addr :: "u8 list"

record network =
  net_socket :: bool
  net_ifindex :: "i32 option"
  net_hwaddr :: "u8 list option"
  net_sendto :: "link_address \<Rightarrow> u8 option list \<Rightarrow> bool"

datatype ethraw_exit = Perror string

definition ETH_FRAME_LEN :: nat where "ETH_FRAME_LEN = 1514"
definition ETH_ALEN :: nat where "ETH_ALEN = 6"

definition dst_mac :: "u8 list" where "dst_mac = [0x23, 0x04, 0x75, 0xC8, 0x28, 0xE5]"

definition htons :: "u16 \<Rightarrow> u16" where
  "htons w = (drop_bit 8 w OR push_bit 8 (w AND 0xff))"

definition memcpy_at :: "nat \<Rightarrow> u8 list \<Rightarrow> u8 option list \<Rightarrow> u8 option list" where
  "memcpy_at n bs buf = take n buf @ map Some bs @ drop (n + length bs) buf"

definition ethraw_address :: "i32 \<Rightarrow> link_address" where
  "ethraw_address ifindex =
     \<lparr>sll_family = 17, sll_protocol = htons 0x0800, sll_ifindex = ifindex, sll_hatype = 1, sll_pkttype = 3,
      sll_halen = 6, sll_addr = fold (\<lambda>i a. a[i := dst_mac ! i]) [0..<6] (replicate 8 0)\<rparr>"

definition ethraw_frame :: "u8 list \<Rightarrow> u8 option list" where
  "ethraw_frame src_mac =
     fold (\<lambda>i b. b[14 + i := Some (of_nat i)]) [0..<1500]
       (memcpy_at 12 [0, 0]
         (memcpy_at ETH_ALEN src_mac
           (memcpy_at 0 dst_mac (replicate ETH_FRAME_LEN None))))"

definition print_mac :: "u8 list \<Rightarrow> string" where
  "print_mac m =
     fmt_X 2 (ucast (m ! 0)) @ '':'' @ fmt_X 2 (ucast (m ! 1)) @ '':'' @ fmt_X 2 (ucast (m ! 2)) @ '':'' @
     fmt_X 2 (ucast (m ! 3)) @ '':'' @ fmt_X 2 (ucast (m ! 4)) @ '':'' @ fmt_X 2 (ucast (m ! 5))"

definition ethraw_main :: "network \<Rightarrow> (link_address \<times> u8 option list \<times> string, ethraw_exit) outcome" where
  "ethraw_main net =
     (if \<not> net_socket net then Fail (Perror ''socket'')
      else
        case net_ifindex net of
          None \<Rightarrow> Fail (Perror ''ioctl:SIOCGIFINDEX'')
        | Some ifindex \<Rightarrow>
            (case net_hwaddr net of
               None \<Rightarrow> Fail (Perror ''ioctl:SIOCGIFHWADDR'')
             | Some sa_data \<Rightarrow>
                 let src_mac = map (\<lambda>i. sa_data ! i) [0..<6];
                     address = ethraw_address ifindex; buffer = ethraw_frame src_mac in
                 if \<not> net_sendto net address buffer then Fail (Perror ''sendto'')
                 else
                   Good (address, buffer,
                     ''Sent raw ethernet frame from '' @ print_mac src_mac @ '' to '' @ print_mac dst_mac @ [newline])))"

lemma fold_updates:
  "length xs = k \<Longrightarrow> fold (\<lambda>i b. b[k + i := f i]) [0..<n] (xs @ replicate (n + m) y) = xs @ map f [0..<n] @ replicate m y"
proof (induction n arbitrary: m)
  case (Suc n)
  from Suc.IH[OF Suc.prems, of "Suc m"] show ?case
    using Suc.prems by (simp add: list_update_append)
qed simp

text \<open>The frame that is sent is complete: the two addresses, type 0 and 1500 bytes that count up, and nothing else; it
  is addressed to the same station on the interface.\<close>

theorem ethraw_sends_frame:
  assumes "net_socket net" "net_ifindex net = Some k" "net_hwaddr net = Some mac" "6 \<le> length mac"
    and "net_sendto net (ethraw_address k) (map Some (dst_mac @ take 6 mac @ [0, 0] @ map of_nat [0..<1500]))"
  shows "\<exists>msg. ethraw_main net = Good (ethraw_address k, map Some (dst_mac @ take 6 mac @ [0, 0] @ map of_nat [0..<1500]), msg) \<and>
    take 6 (sll_addr (ethraw_address k)) = dst_mac \<and> sll_ifindex (ethraw_address k) = k"
proof -
  have m: "map ((!) mac) [0..<6] = take 6 mac" using assms(4) by (intro nth_equalityI) simp_all
  have l: "length (take 6 mac) = 6" using assms(4) by simp
  have "ethraw_frame (take 6 mac) =
      fold (\<lambda>i b. b[14 + i := Some (of_nat i)]) [0..<1500]
        (map Some (dst_mac @ take 6 mac @ [0, 0]) @ replicate (1500 + 0) None)"
    using l by (simp add: ethraw_frame_def memcpy_at_def ETH_FRAME_LEN_def ETH_ALEN_def dst_mac_def)
  also have "\<dots> = map Some (dst_mac @ take 6 mac @ [0, 0] @ map of_nat [0..<1500])"
    by (subst fold_updates) (simp_all add: l dst_mac_def del: length_take)
  finally have f: "ethraw_frame (take 6 mac) = map Some (dst_mac @ take 6 mac @ [0, 0] @ map of_nat [0..<1500])" .
  have "take 6 (sll_addr (ethraw_address k)) = dst_mac"
    by (simp add: ethraw_address_def dst_mac_def upt_rec numeral_eq_Suc)
  moreover have "sll_ifindex (ethraw_address k) = k" by (simp add: ethraw_address_def)
  ultimately show ?thesis using assms by (simp add: ethraw_main_def m f Let_def)
qed

theorem ethraw_sends_frame_witness:
  "\<exists>a b msg. ethraw_main \<lparr>net_socket = True, net_ifindex = Some 2, net_hwaddr = Some [1, 2, 3, 4, 5, 6, 0, 0], net_sendto = \<lambda>_ _. True\<rparr> =
     Good (a, b, msg) \<and> sll_ifindex a = 2"
  using ethraw_sends_frame[of "\<lparr>net_socket = True, net_ifindex = Some 2, net_hwaddr = Some [1, 2, 3, 4, 5, 6, 0, 0], net_sendto = \<lambda>_ _. True\<rparr>" 2 "[1, 2, 3, 4, 5, 6, 0, 0]"]
  by auto

text \<open>A failure names one of the four calls.\<close>

lemma ethraw_errors:
  "ethraw_main net = Fail e \<Longrightarrow> e \<in> Perror ` {''socket'', ''ioctl:SIOCGIFINDEX'', ''ioctl:SIOCGIFHWADDR'', ''sendto''}"
  by (auto simp: ethraw_main_def Let_def split: if_splits option.splits)

text \<open>The first byte of the destination marks it as the address of a group.\<close>

lemma destination_is_group: "odd (hd dst_mac)"
  by (simp add: dst_mac_def)

end
