(* ===== verification/GccRegs.thy ===== *)
theory GccRegs
  imports Encode
begin

text \<open>
  The registers of the GCC port (\<open>sw/tools/gcc/config/ajardsp/ajardsp.h\<close> and \<open>ajardsp.c\<close>): their names
  and numbers, the register classes, the calling convention, and how they relate to the registers
  the assembler knows.

  What the port asks of GCC is a parameter of the definition that uses it: the class and the size of
  a machine mode, \<open>reg_renumber\<close>, \<open>df_regs_ever_live_p\<close> and \<open>get_frame_size\<close>.  A C \<open>int\<close> that holds a
  register number is an \<^typ>\<open>int\<close>.
\<close>

section \<open>Register numbers\<close>

definition FIRST_PSEUDO_REGISTER :: int where "FIRST_PSEUDO_REGISTER = 30"
definition AJARDSP_REGNO_FIRST_PTR :: int where "AJARDSP_REGNO_FIRST_PTR = 0"
definition AJARDSP_REGNO_BEF_LAST_PTR :: int where "AJARDSP_REGNO_BEF_LAST_PTR = 6"
definition AJARDSP_REGNO_LAST_PTR :: int where "AJARDSP_REGNO_LAST_PTR = 7"
definition AJARDSP_REGNO_FIRST_ACC :: int where "AJARDSP_REGNO_FIRST_ACC = 8"
definition AJARDSP_REGNO_LAST_ACC :: int where "AJARDSP_REGNO_LAST_ACC = 23"
definition AJARDSP_REGNO_FIRST_PRED :: int where "AJARDSP_REGNO_FIRST_PRED = 24"
definition AJARDSP_REGNO_LAST_PRED :: int where "AJARDSP_REGNO_LAST_PRED = 27"
definition AJARDSP_REGNO_FIRST_SPEC :: int where "AJARDSP_REGNO_FIRST_SPEC = 28"
definition AJARDSP_REGNO_LAST_SPEC :: int where "AJARDSP_REGNO_LAST_SPEC = 29"
definition AJARDSP_REGNO_SP :: int where "AJARDSP_REGNO_SP = 28"
definition AJARDSP_REGNO_RETPC :: int where "AJARDSP_REGNO_RETPC = 29"
definition STACK_POINTER_REGNUM :: int where "STACK_POINTER_REGNUM = AJARDSP_REGNO_SP"
definition HARD_FRAME_POINTER_REGNUM :: int where "HARD_FRAME_POINTER_REGNUM = AJARDSP_REGNO_LAST_PTR"
definition ARG_POINTER_REGNUM :: int where "ARG_POINTER_REGNUM = AJARDSP_REGNO_BEF_LAST_PTR"
definition FRAME_POINTER_REGNUM :: int where "FRAME_POINTER_REGNUM = AJARDSP_REGNO_LAST_PTR"

lemmas regno_defs = FIRST_PSEUDO_REGISTER_def AJARDSP_REGNO_FIRST_PTR_def AJARDSP_REGNO_BEF_LAST_PTR_def
  AJARDSP_REGNO_LAST_PTR_def AJARDSP_REGNO_FIRST_ACC_def AJARDSP_REGNO_LAST_ACC_def
  AJARDSP_REGNO_FIRST_PRED_def AJARDSP_REGNO_LAST_PRED_def AJARDSP_REGNO_FIRST_SPEC_def
  AJARDSP_REGNO_LAST_SPEC_def AJARDSP_REGNO_SP_def AJARDSP_REGNO_RETPC_def STACK_POINTER_REGNUM_def
  HARD_FRAME_POINTER_REGNUM_def ARG_POINTER_REGNUM_def FRAME_POINTER_REGNUM_def

definition reg_names :: "string list" where
  "reg_names =
     [''$ptr0'', ''$ptr1'', ''$ptr2'', ''$ptr3'',
      ''$ptr4'', ''$ptr5'', ''$ptr6'', ''$ptr7'',
      ''$acc0l'', ''$acc0h'', ''$acc1l'', ''$acc1h'',
      ''$acc2l'', ''$acc2h'', ''$acc3l'', ''$acc3h'',
      ''$acc4l'', ''$acc4h'', ''$acc5l'', ''$acc5h'',
      ''$acc6l'', ''$acc6h'', ''$acc7l'', ''$acc7h'',
      ''$pred0'', ''$pred1'', ''$pred2'', ''$pred3'',
      ''$sp'', ''$retpc'']"

text \<open>The registers the compiler never allocates, and those a call may change.\<close>

definition fixed_regs :: "bool list" where
  "fixed_regs =
     [False, False, False, False, False, False, False, True,
      False, False, False, False, False, False, False, False,
      False, False, False, False, False, False, False, False,
      True, False, False, False, True, True]"

definition call_used_regs :: "bool list" where
  "call_used_regs =
     [True, True, True, True, False, False, False, True,
      True, True, True, True, True, True, True, True,
      False, False, False, False, False, False, False, False,
      True, True, True, True, True, True]"

section \<open>Register classes\<close>

datatype reg_class =
    NO_REGS | CALLER_SAVED_REGS | CALLEE_SAVED_REGS | ACC_REGS_LOW_PART | ACC_REGS_HIGH_PART
  | ACC_REGS_0_3 | ACC_REGS | PTR_REGS | PRED_REGS | SPEC_REGS | ALL_PTR_REGS | GENERAL_REGS
  | ALL_REGS | ACC_PTR

text \<open>\<open>REG_CLASS_CONTENTS\<close>: bit \<open>r\<close> for register \<open>r\<close>.\<close>

primrec reg_class_contents :: "reg_class \<Rightarrow> u32" where
  "reg_class_contents NO_REGS = 0x00000000"
| "reg_class_contents CALLER_SAVED_REGS = 0x0000ff0f"
| "reg_class_contents CALLEE_SAVED_REGS = 0x00ff00f0"
| "reg_class_contents ACC_REGS_LOW_PART = 0x00555500"
| "reg_class_contents ACC_REGS_HIGH_PART = 0x00aaaa00"
| "reg_class_contents ACC_REGS_0_3 = 0x0000ff00"
| "reg_class_contents ACC_REGS = 0x00ffff00"
| "reg_class_contents PTR_REGS = 0x000000ff"
| "reg_class_contents PRED_REGS = 0x0f000000"
| "reg_class_contents SPEC_REGS = 0x30000000"
| "reg_class_contents ALL_PTR_REGS = 0x100000ff"
| "reg_class_contents GENERAL_REGS = 0x0fffffff"
| "reg_class_contents ALL_REGS = 0x3fffffff"
| "reg_class_contents ACC_PTR = 0x00ffffff"

text \<open>\<open>REG_CLASS_NAMES\<close>; the missing comma after \<open>ACC_REGS_0_3\<close> joins two names.\<close>

definition reg_class_names :: "string list" where
  "reg_class_names =
     [''NO_REGS'', ''CALLER_SAVED_REGS'', ''CALLEE_SAVED_REGS'', ''ACC_REGS_LOW_PART'',
      ''ACC_REGS_HIGH_PART'', ''ACC_REGS_0_3'' @ ''ACC_REGS'', ''PTR_REGS'', ''PRED_REGS'', ''SPEC_REGS'',
      ''ALL_PTR_REGS'', ''GEN_REGS'', ''ALL_REGS'', ''ACC_PTR'']"

definition is_index_reg :: "int \<Rightarrow> bool" where
  "is_index_reg REGN = False"

definition is_base_reg :: "int \<Rightarrow> bool" where
  "is_base_reg REGN \<longleftrightarrow>
     AJARDSP_REGNO_FIRST_PTR \<le> REGN \<and> REGN \<le> AJARDSP_REGNO_LAST_PTR \<or>
     REGN = STACK_POINTER_REGNUM \<or> REGN = HARD_FRAME_POINTER_REGNUM"

definition is_arg_reg :: "int \<Rightarrow> bool" where
  "is_arg_reg REGN \<longleftrightarrow>
     AJARDSP_REGNO_FIRST_PTR \<le> REGN \<and> REGN < AJARDSP_REGNO_FIRST_PTR + 4 \<or>
     AJARDSP_REGNO_FIRST_ACC \<le> REGN \<and> REGN < AJARDSP_REGNO_FIRST_ACC + 4"

definition is_return_val_reg :: "int \<Rightarrow> bool" where
  "is_return_val_reg REGN \<longleftrightarrow> REGN = AJARDSP_REGNO_FIRST_PTR \<or> REGN = AJARDSP_REGNO_FIRST_ACC"

definition non_strict_index_reg :: "int \<Rightarrow> bool" where
  "non_strict_index_reg REGN = False"

definition non_strict_base_reg :: "int \<Rightarrow> bool" where
  "non_strict_base_reg regn \<longleftrightarrow> is_base_reg regn \<or> FIRST_PSEUDO_REGISTER \<le> regn"

definition is_caller_saved_reg :: "int \<Rightarrow> bool" where
  "is_caller_saved_reg REGN \<longleftrightarrow> 0 \<le> REGN \<and> REGN \<le> 3 \<or> 8 \<le> REGN \<and> REGN \<le> 15"

definition is_callee_saved_reg :: "int \<Rightarrow> bool" where
  "is_callee_saved_reg REGN \<longleftrightarrow> 4 \<le> REGN \<and> REGN \<le> 7 \<or> 16 \<le> REGN \<and> REGN \<le> 23"

definition is_general_reg :: "int \<Rightarrow> bool" where
  "is_general_reg REGN \<longleftrightarrow> REGN < FIRST_PSEUDO_REGISTER"

definition is_data_reg_low_part :: "int \<Rightarrow> bool" where
  "is_data_reg_low_part REGN \<longleftrightarrow>
     AJARDSP_REGNO_FIRST_ACC \<le> REGN \<and> REGN \<le> AJARDSP_REGNO_LAST_ACC \<and> REGN mod 2 = 0"

lemmas regno_preds = is_index_reg_def is_base_reg_def is_arg_reg_def is_return_val_reg_def
  non_strict_index_reg_def non_strict_base_reg_def is_caller_saved_reg_def is_callee_saved_reg_def
  is_general_reg_def is_data_reg_low_part_def

definition regno_reg_class :: "int \<Rightarrow> reg_class" where
  "regno_reg_class REGN =
     (if is_callee_saved_reg REGN then CALLEE_SAVED_REGS
      else if is_caller_saved_reg REGN then CALLER_SAVED_REGS
      else if is_base_reg REGN then ALL_PTR_REGS
      else if AJARDSP_REGNO_FIRST_PTR \<le> REGN \<and> REGN \<le> AJARDSP_REGNO_LAST_PTR then PTR_REGS
      else if AJARDSP_REGNO_FIRST_ACC \<le> REGN \<and> REGN \<le> AJARDSP_REGNO_FIRST_ACC + 7 then ACC_REGS_0_3
      else if AJARDSP_REGNO_FIRST_ACC \<le> REGN \<and> REGN \<le> AJARDSP_REGNO_LAST_ACC then ACC_REGS
      else if is_general_reg REGN then GENERAL_REGS
      else if AJARDSP_REGNO_FIRST_PRED \<le> REGN \<and> REGN \<le> AJARDSP_REGNO_LAST_PRED then PRED_REGS
      else if AJARDSP_REGNO_FIRST_SPEC \<le> REGN \<and> REGN \<le> AJARDSP_REGNO_LAST_SPEC then SPEC_REGS
      else if AJARDSP_REGNO_FIRST_PTR \<le> REGN \<and> REGN \<le> AJARDSP_REGNO_LAST_ACC then ACC_PTR
      else NO_REGS)"

definition ajardsp_regno_ok_for_base_p :: "(int \<Rightarrow> int) \<Rightarrow> int \<Rightarrow> bool" where
  "ajardsp_regno_ok_for_base_p reg_renumber REGN \<longleftrightarrow>
     is_base_reg REGN \<or> FIRST_PSEUDO_REGISTER \<le> REGN \<and> is_base_reg (reg_renumber REGN)"

definition regno_ok_for_index_p :: "(int \<Rightarrow> int) \<Rightarrow> int \<Rightarrow> bool" where
  "regno_ok_for_index_p reg_renumber REGN \<longleftrightarrow>
     is_index_reg REGN \<or> FIRST_PSEUDO_REGISTER \<le> REGN \<and> is_index_reg (reg_renumber REGN)"

section \<open>Machine modes\<close>

text \<open>The modes the port names, and any other of GCC.\<close>

datatype machine_mode = BImode | QImode | HImode | QFmode | TImode | VOIDmode | Other_mode nat
datatype mode_class = MODE_INT | MODE_FLOAT | MODE_other

definition hard_regno_mode_ok :: "(machine_mode \<Rightarrow> mode_class) \<Rightarrow> int \<Rightarrow> machine_mode \<Rightarrow> bool" where
  "hard_regno_mode_ok GET_MODE_CLASS REGN MODE \<longleftrightarrow>
     MODE = BImode \<and> 24 \<le> REGN \<and> REGN \<le> 27 \<or>
     GET_MODE_CLASS MODE = MODE_FLOAT \<and>
       (MODE = QFmode \<and> AJARDSP_REGNO_FIRST_PTR \<le> REGN \<and> REGN \<le> AJARDSP_REGNO_LAST_ACC) \<or>
     GET_MODE_CLASS MODE = MODE_INT \<and>
       (MODE = QImode \<and> AJARDSP_REGNO_FIRST_PTR \<le> REGN \<and> REGN \<le> AJARDSP_REGNO_LAST_ACC \<or>
        MODE = HImode \<and> is_data_reg_low_part REGN \<or>
        MODE = QImode \<and> (REGN = STACK_POINTER_REGNUM \<or> REGN = HARD_FRAME_POINTER_REGNUM))"

definition modes_tieable_p ::
    "(machine_mode \<Rightarrow> mode_class) \<Rightarrow> (machine_mode \<Rightarrow> nat) \<Rightarrow> machine_mode \<Rightarrow> machine_mode \<Rightarrow> bool" where
  "modes_tieable_p GET_MODE_CLASS GET_MODE_SIZE MODE1 MODE2 \<longleftrightarrow>
     MODE1 = MODE2 \<or>
     GET_MODE_SIZE MODE1 \<le> GET_MODE_SIZE MODE2 \<and> GET_MODE_CLASS MODE1 = GET_MODE_CLASS MODE2"

definition UNITS_PER_WORD :: nat where "UNITS_PER_WORD = 1"

definition HARD_REGNO_NREGS :: "(machine_mode \<Rightarrow> nat) \<Rightarrow> int \<Rightarrow> machine_mode \<Rightarrow> nat" where
  "HARD_REGNO_NREGS GET_MODE_SIZE REGNO MODE =
     (GET_MODE_SIZE MODE + UNITS_PER_WORD - 1) div UNITS_PER_WORD"

section \<open>Calling convention\<close>

datatype tree_code = INTEGER_TYPE | POINTER_TYPE | Other_type nat

record cum_args =
  r_regs :: int
  a_regs :: int

definition INIT_CUMULATIVE_ARGS :: cum_args where
  "INIT_CUMULATIVE_ARGS = \<lparr>r_regs = 0, a_regs = 0\<rparr>"

text \<open>The register of an argument, \<^term>\<open>None\<close> for the stack; a library function has no type.\<close>

definition ajardsp_function_arg ::
    "cum_args \<Rightarrow> machine_mode \<Rightarrow> tree_code option \<Rightarrow> (machine_mode \<times> int) option" where
  "ajardsp_function_arg cum mode type =
     (case type of
        None \<Rightarrow> None
      | Some INTEGER_TYPE \<Rightarrow>
          (if a_regs cum < 4
           then Some (mode, AJARDSP_REGNO_FIRST_ACC + a_regs cum * 2 + (if mode = QImode then 1 else 0))
           else None)
      | Some POINTER_TYPE \<Rightarrow>
          (if r_regs cum < 4 then Some (mode, AJARDSP_REGNO_FIRST_PTR + r_regs cum) else None)
      | Some (Other_type k) \<Rightarrow> None)"

definition ajardsp_function_arg_advance :: "cum_args \<Rightarrow> tree_code option \<Rightarrow> cum_args" where
  "ajardsp_function_arg_advance cum type =
     (case type of
        None \<Rightarrow> cum
      | Some INTEGER_TYPE \<Rightarrow> cum\<lparr>a_regs := a_regs cum + 1\<rparr>
      | Some POINTER_TYPE \<Rightarrow> cum\<lparr>r_regs := r_regs cum + 1\<rparr>
      | Some (Other_type k) \<Rightarrow> cum)"

text \<open>The register of the result; \<open>fndecl\<close> is \<^term>\<open>None\<close> for a library call.  Other types stop the compiler.\<close>

definition ajardsp_function_value ::
    "machine_mode \<Rightarrow> tree_code option \<Rightarrow> (machine_mode \<times> int, unit) outcome" where
  "ajardsp_function_value mode fndecl =
     (case fndecl of
        Some INTEGER_TYPE \<Rightarrow> Good (mode, AJARDSP_REGNO_FIRST_ACC + (if mode = QImode then 1 else 0))
      | Some POINTER_TYPE \<Rightarrow> Good (mode, AJARDSP_REGNO_FIRST_PTR)
      | Some (Other_type k) \<Rightarrow> Fail ()
      | None \<Rightarrow> Good (mode, AJARDSP_REGNO_FIRST_ACC))"

definition FUNCTION_VALUE_REGNO_P :: "int \<Rightarrow> bool" where
  "FUNCTION_VALUE_REGNO_P REGN \<longleftrightarrow> REGN = AJARDSP_REGNO_FIRST_PTR \<or> REGN = AJARDSP_REGNO_FIRST_ACC"

definition ajardsp_struct_value_rtx :: "machine_mode \<times> int" where
  "ajardsp_struct_value_rtx = (QImode, 2)"

section \<open>The registers of a call\<close>

text \<open>
  How GCC asks for the registers of the arguments of a call, from left to right: the register of
  each, then the advance.
\<close>

fun arg_registers ::
    "(machine_mode \<Rightarrow> nat) \<Rightarrow> cum_args \<Rightarrow> (machine_mode \<times> tree_code option) list \<Rightarrow> int set list" where
  "arg_registers GET_MODE_SIZE cum [] = []"
| "arg_registers GET_MODE_SIZE cum ((mode, type) # args) =
     (case ajardsp_function_arg cum mode type of
        None \<Rightarrow> {}
      | Some (m, r) \<Rightarrow> {r..<r + int (HARD_REGNO_NREGS GET_MODE_SIZE r m)})
     # arg_registers GET_MODE_SIZE (ajardsp_function_arg_advance cum type) args"

definition word_sized :: "machine_mode \<times> tree_code option \<Rightarrow> bool" where
  "word_sized a \<longleftrightarrow>
     (snd a = Some INTEGER_TYPE \<longrightarrow> fst a \<in> {QImode, HImode}) \<and> (snd a = Some POINTER_TYPE \<longrightarrow> fst a = QImode)"

text \<open>The registers not taken yet.\<close>

definition free_arg_regs :: "cum_args \<Rightarrow> int set" where
  "free_arg_regs cum = {r_regs cum..3} \<union> {8 + 2 * a_regs cum..15}"

lemmas arg_defs = ajardsp_function_arg_def ajardsp_function_arg_advance_def HARD_REGNO_NREGS_def
  UNITS_PER_WORD_def free_arg_regs_def regno_defs

lemma length_arg_registers [simp]: "length (arg_registers s cum args) = length args"
  by (induction s cum args rule: arg_registers.induct) simp_all

lemma arg_step:
  assumes "s QImode = 1" "s HImode = 2" "word_sized (m, t)" "0 \<le> a_regs cum" "0 \<le> r_regs cum"
  shows "arg_registers s cum [(m, t)] ! 0 \<subseteq> free_arg_regs cum - free_arg_regs (ajardsp_function_arg_advance cum t)"
    and "free_arg_regs (ajardsp_function_arg_advance cum t) \<subseteq> free_arg_regs cum"
    and "0 \<le> a_regs (ajardsp_function_arg_advance cum t)" "0 \<le> r_regs (ajardsp_function_arg_advance cum t)"
  using assms by (auto simp: arg_defs word_sized_def split: option.splits tree_code.splits)

lemma arg_registers_free:
  assumes "s QImode = 1" "s HImode = 2" "list_all word_sized args" "0 \<le> a_regs cum" "0 \<le> r_regs cum"
  shows "\<Union>(set (arg_registers s cum args)) \<subseteq> free_arg_regs cum"
  using assms(3-5)
proof (induction args arbitrary: cum)
  case (Cons a args)
  obtain m t where a: "a = (m, t)" by (cases a)
  have w: "word_sized (m, t)" using Cons.prems(1) by (simp add: a)
  note st = arg_step[OF assms(1,2) w Cons.prems(2,3)]
  from Cons.IH[OF _ st(3,4)] Cons.prems(1) st(1,2) show ?case by (auto simp: a)
qed simp

lemma arg_registers_disjoint:
  assumes "s QImode = 1" "s HImode = 2" "list_all word_sized args" "0 \<le> a_regs cum" "0 \<le> r_regs cum"
    and "i < j" "j < length args"
  shows "arg_registers s cum args ! i \<inter> arg_registers s cum args ! j = {}"
  using assms(3-7)
proof (induction args arbitrary: cum i j)
  case (Cons a args)
  obtain m t where a: "a = (m, t)" by (cases a)
  obtain k where k: "j = Suc k" "k < length args" using Cons.prems(4,5) by (cases j) auto
  have w: "word_sized (m, t)" and ws: "list_all word_sized args" using Cons.prems(1) by (simp_all add: a)
  note st = arg_step[OF assms(1,2) w Cons.prems(2,3)]
  let ?rest = "arg_registers s (ajardsp_function_arg_advance cum t) args"
  show ?case
  proof (cases i)
    case 0
    have "?rest ! k \<subseteq> \<Union>(set ?rest)" using k(2) by (intro Union_upper nth_mem) simp
    with arg_registers_free[OF assms(1,2) ws st(3,4)] have "?rest ! k \<subseteq> free_arg_regs (ajardsp_function_arg_advance cum t)"
      by blast
    with st(1) 0 k show ?thesis by (auto simp: a)
  next
    case (Suc i')
    with Cons.IH[OF ws st(3,4), of i' k] Cons.prems(4) k show ?thesis by (simp add: a)
  qed
qed simp

text \<open>The arguments of a call, integers of one or two words and pointers, are in registers that do
  not overlap, that a call may change and that the compiler may allocate; the fifth argument of
  each kind goes to the stack.\<close>

theorem call_registers:
  assumes "GET_MODE_SIZE QImode = 1" "GET_MODE_SIZE HImode = 2" "list_all word_sized args"
  defines "rs \<equiv> arg_registers GET_MODE_SIZE INIT_CUMULATIVE_ARGS args"
  shows "(\<forall>i j. i < j \<and> j < length args \<longrightarrow> rs ! i \<inter> rs ! j = {}) \<and>
    (\<forall>R \<in> set rs. \<forall>r \<in> R. 0 \<le> r \<and> r < 16 \<and> call_used_regs ! nat r \<and> \<not> fixed_regs ! nat r) \<and>
    (\<forall>i < length args. snd (args ! i) \<in> {Some INTEGER_TYPE, Some POINTER_TYPE} \<longrightarrow>
       (rs ! i = {} \<longleftrightarrow> 4 \<le> length [a \<leftarrow> take i args. snd a = snd (args ! i)]))"
proof (intro conjI)
  have ok: "0 \<le> a_regs INIT_CUMULATIVE_ARGS" "0 \<le> r_regs INIT_CUMULATIVE_ARGS"
    by (simp_all add: INIT_CUMULATIVE_ARGS_def)
  show "\<forall>i j. i < j \<and> j < length args \<longrightarrow> rs ! i \<inter> rs ! j = {}"
    unfolding rs_def using arg_registers_disjoint[OF assms(1-3) ok] by blast
  have "\<Union>(set rs) \<subseteq> {0..3} \<union> {8..15}"
    unfolding rs_def using arg_registers_free[OF assms(1-3) ok]
    by (simp add: free_arg_regs_def INIT_CUMULATIVE_ARGS_def)
  moreover have "list_all (\<lambda>r. call_used_regs ! r \<and> \<not> fixed_regs ! r) ([0..<4] @ [8..<16])"
    by (simp add: upt_rec call_used_regs_def fixed_regs_def)
  then have "\<forall>r \<in> {0..3} \<union> {8..15}. call_used_regs ! nat r \<and> \<not> fixed_regs ! nat r"
    unfolding list_all_iff by (intro ballI, elim bspec) auto
  ultimately show "\<forall>R \<in> set rs. \<forall>r \<in> R. 0 \<le> r \<and> r < 16 \<and> call_used_regs ! nat r \<and> \<not> fixed_regs ! nat r"
    by fastforce
  have cnt: "i < length args \<Longrightarrow> snd (args ! i) \<in> {Some INTEGER_TYPE, Some POINTER_TYPE} \<Longrightarrow>
      0 \<le> a_regs cum \<Longrightarrow> 0 \<le> r_regs cum \<Longrightarrow>
      arg_registers GET_MODE_SIZE cum args ! i = {} \<longleftrightarrow>
        4 \<le> (if snd (args ! i) = Some INTEGER_TYPE then a_regs cum else r_regs cum) +
          int (length [a \<leftarrow> take i args. snd a = snd (args ! i)])" for i cum
    using assms(3)
  proof (induction args arbitrary: i cum)
    case (Cons a args)
    obtain m t where a: "a = (m, t)" by (cases a)
    show ?case
    proof (cases i)
      case 0
      with Cons.prems assms(1,2) show ?thesis
        by (auto simp: a arg_defs word_sized_def split: option.splits tree_code.splits)
    next
      case (Suc i')
      with Cons.prems Cons.IH[of i' "ajardsp_function_arg_advance cum t"] show ?thesis
        by (auto simp: a ajardsp_function_arg_advance_def split: option.splits tree_code.splits)
    qed
  qed simp
  show "\<forall>i < length args. snd (args ! i) \<in> {Some INTEGER_TYPE, Some POINTER_TYPE} \<longrightarrow>
       (rs ! i = {} \<longleftrightarrow> 4 \<le> length [a \<leftarrow> take i args. snd a = snd (args ! i)])"
    unfolding rs_def using cnt[OF _ _ ok] by (auto simp: INIT_CUMULATIVE_ARGS_def)
qed

theorem call_registers_witness:
  "arg_registers (\<lambda>m. if m = HImode then 2 else 1) INIT_CUMULATIVE_ARGS
     [(HImode, Some INTEGER_TYPE), (QImode, Some POINTER_TYPE), (QImode, Some INTEGER_TYPE)] =
     [{8..<10}, {0..<1}, {11..<12}] \<and>
   {8..<10} \<inter> {11..<12} = ({} :: int set)"
  using call_registers[of "\<lambda>m. if m = HImode then 2 else 1"
      "[(HImode, Some INTEGER_TYPE), (QImode, Some POINTER_TYPE), (QImode, Some INTEGER_TYPE)]"]
  by (simp add: word_sized_def arg_defs INIT_CUMULATIVE_ARGS_def)

text \<open>The register with the address of a returned structure is that of the third pointer argument.\<close>

lemma struct_value_clashes:
  "arg_registers (\<lambda>_. 1) INIT_CUMULATIVE_ARGS (replicate 3 (QImode, Some POINTER_TYPE)) ! 2 =
     {snd ajardsp_struct_value_rtx}"
  by (simp add: numeral_3_eq_3 numeral_2_eq_2 arg_defs INIT_CUMULATIVE_ARGS_def ajardsp_struct_value_rtx_def) auto

text \<open>A one-word integer is returned in a register that \<open>FUNCTION_VALUE_REGNO_P\<close> does not name.\<close>

lemma value_regno_missed:
  "\<exists>r. ajardsp_function_value QImode (Some INTEGER_TYPE) = Good (QImode, r) \<and> \<not> FUNCTION_VALUE_REGNO_P r \<and>
     ajardsp_function_value QImode None \<noteq> Good (QImode, r)"
  by (simp add: ajardsp_function_value_def FUNCTION_VALUE_REGNO_P_def regno_defs)

section \<open>The register tables\<close>

definition in_class :: "int \<Rightarrow> reg_class \<Rightarrow> bool" where
  "in_class r c \<longleftrightarrow> bit (reg_class_contents c) (nat r)"

lemma all_regnos:
  "(\<forall>r. 0 \<le> r \<and> r < FIRST_PSEUDO_REGISTER \<longrightarrow> P r) \<longleftrightarrow> list_all (\<lambda>n. P (int n)) [0..<30]"
proof
  assume "list_all (\<lambda>n. P (int n)) [0..<30]"
  then have "n < 30 \<Longrightarrow> P (int n)" for n by (simp add: list_all_iff)
  note P = this
  show "\<forall>r. 0 \<le> r \<and> r < FIRST_PSEUDO_REGISTER \<longrightarrow> P r"
  proof (intro allI impI)
    fix r :: int assume "0 \<le> r \<and> r < FIRST_PSEUDO_REGISTER"
    with P[of "nat r"] show "P r" by (simp add: regno_defs nat_less_iff)
  qed
qed (simp add: regno_defs list_all_iff)

lemma upt_30: "[0..<30] = [0,1,2,3,4,5,6,7,8,9,10,11,12,13,14,15,16,17,18,19,20,21,22,23,24,25,26,27,28,29]"
  by (simp add: upt_rec)

lemmas class_eval = upt_30 in_class_def regno_preds regno_defs

lemma class_members:
  "\<forall>r. 0 \<le> r \<and> r < FIRST_PSEUDO_REGISTER \<longrightarrow> (in_class r (regno_reg_class r) \<longleftrightarrow> r \<noteq> AJARDSP_REGNO_RETPC)"
  "\<forall>r. 0 \<le> r \<and> r < FIRST_PSEUDO_REGISTER \<longrightarrow> (is_caller_saved_reg r \<longleftrightarrow> in_class r CALLER_SAVED_REGS)"
  "\<forall>r. 0 \<le> r \<and> r < FIRST_PSEUDO_REGISTER \<longrightarrow> (is_callee_saved_reg r \<longleftrightarrow> in_class r CALLEE_SAVED_REGS)"
  "\<forall>r. 0 \<le> r \<and> r < FIRST_PSEUDO_REGISTER \<longrightarrow> (is_base_reg r \<longleftrightarrow> in_class r ALL_PTR_REGS)"
  unfolding all_regnos by code_simp+

lemma class_usage:
  "\<forall>r. 0 \<le> r \<and> r < FIRST_PSEUDO_REGISTER \<longrightarrow> in_class r ACC_PTR \<longrightarrow>
     (is_caller_saved_reg r \<longleftrightarrow> call_used_regs ! nat r \<and> \<not> fixed_regs ! nat r)"
  "\<forall>r. 0 \<le> r \<and> r < FIRST_PSEUDO_REGISTER \<longrightarrow> in_class r ACC_PTR \<longrightarrow>
     (is_callee_saved_reg r \<longleftrightarrow> \<not> call_used_regs ! nat r \<or> r = HARD_FRAME_POINTER_REGNUM)"
  unfolding all_regnos by code_simp+

lemma reg_names_distinct: "distinct reg_names \<and> length reg_names = nat FIRST_PSEUDO_REGISTER"
  by code_simp

text \<open>The tables of the port agree: \<open>regno_reg_class\<close> gives a class that contains the register, for
  every register but \<open>$retpc\<close>, for which it gives one that does not; the names are distinct; the
  caller-saved and the callee-saved classes are what the usage table says of pointers and
  accumulators, the fixed frame pointer apart; and the register classes used for addresses contain
  exactly the base registers.\<close>

theorem register_tables_agree:
  "(\<forall>r. 0 \<le> r \<and> r < FIRST_PSEUDO_REGISTER \<longrightarrow>
      (in_class r (regno_reg_class r) \<longleftrightarrow> r \<noteq> AJARDSP_REGNO_RETPC) \<and>
      (is_caller_saved_reg r \<longleftrightarrow> in_class r CALLER_SAVED_REGS) \<and>
      (is_callee_saved_reg r \<longleftrightarrow> in_class r CALLEE_SAVED_REGS) \<and>
      (is_base_reg r \<longleftrightarrow> in_class r ALL_PTR_REGS) \<and>
      (in_class r ACC_PTR \<longrightarrow>
         (is_caller_saved_reg r \<longleftrightarrow> call_used_regs ! nat r \<and> \<not> fixed_regs ! nat r) \<and>
         (is_callee_saved_reg r \<longleftrightarrow> \<not> call_used_regs ! nat r \<or> r = HARD_FRAME_POINTER_REGNUM))) \<and>
   distinct reg_names \<and> length reg_names = nat FIRST_PSEUDO_REGISTER"
  using class_members class_usage reg_names_distinct by blast

lemma class_names_joined:
  "length reg_class_names = 13 \<and> reg_class_names ! 5 = ''ACC_REGS_0_3ACC_REGS'' \<and>
   distinct [NO_REGS, CALLER_SAVED_REGS, CALLEE_SAVED_REGS, ACC_REGS_LOW_PART, ACC_REGS_HIGH_PART, ACC_REGS_0_3,
     ACC_REGS, PTR_REGS, PRED_REGS, SPEC_REGS, ALL_PTR_REGS, GENERAL_REGS, ALL_REGS, ACC_PTR]"
  by (simp add: reg_class_names_def)

theorem register_tables_agree_witness:
  "in_class 20 (regno_reg_class 20) \<and> in_class 20 CALLEE_SAVED_REGS \<and> \<not> call_used_regs ! 20"
proof -
  have r: "(0 :: int) \<le> 20" "(20 :: int) < FIRST_PSEUDO_REGISTER" "(20 :: int) \<noteq> AJARDSP_REGNO_RETPC"
      "(20 :: int) \<noteq> HARD_FRAME_POINTER_REGNUM" "is_callee_saved_reg 20" "in_class 20 ACC_PTR"
    by (simp_all add: regno_defs is_callee_saved_reg_def in_class_def)
  have "nat 20 = (20 :: nat)" by simp
  with r conjunct1[OF register_tables_agree, rule_format, of 20] show ?thesis by metis
qed

end
