(* ===== verification/GccFrame.thy ===== *)
theory GccFrame
  imports GccRegs
begin

text \<open>
  The stack frame of a compiled function: the instructions \<open>ajardsp_prologue\<close> and \<open>ajardsp_epilogue\<close>
  emit, what they do to the registers and the stack (by their RTL patterns in \<open>ajardsp.md\<close>), and the
  frame offsets \<open>ajardsp.c\<close> reports to GCC.

  \<open>df_regs_ever_live_p\<close> and \<open>get_frame_size\<close> are parameters.  Addresses are 16-bit words and wrap around.
\<close>

section \<open>Prologue and epilogue\<close>

datatype frame_insn =
    Push int | Pop int | Move int int | Plus_constant int int int | Swap_spec int int | Nop_insn | Return

definition must_save :: "(int \<Rightarrow> bool) \<Rightarrow> nat \<Rightarrow> bool" where
  "must_save df_regs_ever_live_p i \<longleftrightarrow>
     df_regs_ever_live_p (int i) \<and> \<not> call_used_regs ! i \<and> \<not> fixed_regs ! i"

text \<open>The loops over the registers; a register that is neither a pointer nor an accumulator half stops
  the compiler.\<close>

fun save_loop :: "(int \<Rightarrow> frame_insn) \<Rightarrow> (int \<Rightarrow> bool) \<Rightarrow> nat list \<Rightarrow> (frame_insn list, unit) outcome" where
  "save_loop f live [] = Good []"
| "save_loop f live (i # is) =
     (if must_save live i then
        if AJARDSP_REGNO_FIRST_PTR \<le> int i \<and> int i \<le> AJARDSP_REGNO_LAST_PTR \<or>
           AJARDSP_REGNO_FIRST_ACC \<le> int i \<and> int i \<le> AJARDSP_REGNO_LAST_ACC
        then obind (save_loop f live is) (\<lambda>r. Good (f (int i) # r))
        else Fail ()
      else save_loop f live is)"

definition ajardsp_prologue :: "(int \<Rightarrow> bool) \<Rightarrow> int \<Rightarrow> (frame_insn list, unit) outcome" where
  "ajardsp_prologue live frame_size =
     obind (save_loop Push live [0..<nat FIRST_PSEUDO_REGISTER]) (\<lambda>saves. Good (
       [Push HARD_FRAME_POINTER_REGNUM,
        Move HARD_FRAME_POINTER_REGNUM STACK_POINTER_REGNUM,
        Push AJARDSP_REGNO_RETPC] @
       (if 0 < frame_size then
          [Plus_constant HARD_FRAME_POINTER_REGNUM HARD_FRAME_POINTER_REGNUM (- (frame_size + 2)),
           Swap_spec STACK_POINTER_REGNUM HARD_FRAME_POINTER_REGNUM,
           Nop_insn,
           Push HARD_FRAME_POINTER_REGNUM]
        else []) @
       saves))"

definition ajardsp_epilogue :: "(int \<Rightarrow> bool) \<Rightarrow> int \<Rightarrow> (frame_insn list, unit) outcome" where
  "ajardsp_epilogue live frame_size =
     obind (save_loop Pop live (rev [0..<nat FIRST_PSEUDO_REGISTER])) (\<lambda>restores. Good (
       restores @
       (if 0 < frame_size then [Pop STACK_POINTER_REGNUM] else []) @
       [Pop AJARDSP_REGNO_RETPC,
        Pop HARD_FRAME_POINTER_REGNUM,
        Return]))"

section \<open>Frame offsets\<close>

definition ajardsp_callee_saved_stack_usage :: "(int \<Rightarrow> bool) \<Rightarrow> (int, unit) outcome" where
  "ajardsp_callee_saved_stack_usage live =
     foldl (\<lambda>sum i. obind sum (\<lambda>s.
         if must_save live i then
           if AJARDSP_REGNO_FIRST_PTR \<le> int i \<and> int i \<le> AJARDSP_REGNO_LAST_PTR then Good (s + 1)
           else if AJARDSP_REGNO_FIRST_ACC \<le> int i \<and> int i \<le> AJARDSP_REGNO_LAST_ACC then Good (s + 2)
           else Fail ()
         else Good s))
       (Good 0) [0..<nat FIRST_PSEUDO_REGISTER]"

definition starting_frame_offset :: int where "starting_frame_offset = 0"

definition initial_frame_pointer_offset :: "int \<Rightarrow> int" where
  "initial_frame_pointer_offset frame_size = frame_size"

definition registers_to_be_saved :: "(int \<Rightarrow> bool) \<Rightarrow> int" where
  "registers_to_be_saved live = int (length (filter (must_save live) [0..<nat FIRST_PSEUDO_REGISTER]))"

definition initial_elimination_offset :: "(int \<Rightarrow> bool) \<Rightarrow> int \<Rightarrow> int \<Rightarrow> int \<Rightarrow> int" where
  "initial_elimination_offset live frame_size from to =
     (if from = FRAME_POINTER_REGNUM \<and> to = STACK_POINTER_REGNUM then frame_size
      else if from = FRAME_POINTER_REGNUM \<and> to = HARD_FRAME_POINTER_REGNUM then
        - (3 + registers_to_be_saved live) * 4
      else if from = ARG_POINTER_REGNUM \<and> to = STACK_POINTER_REGNUM then
        (3 + registers_to_be_saved live) * 4 + frame_size
      else if from = ARG_POINTER_REGNUM \<and> to = HARD_FRAME_POINTER_REGNUM then 0
      else if from = HARD_FRAME_POINTER_REGNUM \<and> to = STACK_POINTER_REGNUM then
        (3 + registers_to_be_saved live) * 4 + frame_size
      else 0)"

section \<open>What the instructions do\<close>

text \<open>
  The patterns \<open>pushqi1\<close> (\<open>pre_dec\<close> of the stack pointer), \<open>popqi1\<close> (\<open>post_inc\<close>; a pop into the stack
  pointer itself sets it, as the write of the special register has priority in \<open>sp.v\<close>), \<open>*mv_qi\<close>, the
  addition of a constant, and \<open>swap_spec_qi\<close>.
\<close>

record machine =
  regs :: "int \<Rightarrow> u16"
  stack :: "u16 \<Rightarrow> u16"

abbreviation sp_of :: "machine \<Rightarrow> u16" where
  "sp_of s \<equiv> regs s STACK_POINTER_REGNUM"

fun frame_step :: "frame_insn \<Rightarrow> machine \<Rightarrow> machine" where
  "frame_step (Push r) s =
     s\<lparr>regs := (regs s)(STACK_POINTER_REGNUM := sp_of s - 1), stack := (stack s)(sp_of s - 1 := regs s r)\<rparr>"
| "frame_step (Pop r) s =
     s\<lparr>regs := (regs s)(STACK_POINTER_REGNUM := sp_of s + 1, r := stack s (sp_of s))\<rparr>"
| "frame_step (Move d r) s = s\<lparr>regs := (regs s)(d := regs s r)\<rparr>"
| "frame_step (Plus_constant d r k) s = s\<lparr>regs := (regs s)(d := regs s r + word_of_int k)\<rparr>"
| "frame_step (Swap_spec a b) s = s\<lparr>regs := (regs s)(a := regs s b, b := regs s a)\<rparr>"
| "frame_step Nop_insn s = s"
| "frame_step Return s = s"

definition frame_run :: "frame_insn list \<Rightarrow> machine \<Rightarrow> machine" where
  "frame_run is s = fold frame_step is s"

section \<open>Pushing and popping\<close>

lemma frame_run_simps [simp]:
  "frame_run [] s = s" "frame_run (i # is) s = frame_run is (frame_step i s)"
  "frame_run (is @ js) s = frame_run js (frame_run is s)"
  by (simp_all add: frame_run_def)

definition saved_list :: "(int \<Rightarrow> bool) \<Rightarrow> nat list" where
  "saved_list live = filter (must_save live) [0..<30]"

lemma must_save_range:
  assumes "must_save live i" "i < 30"
  shows "int i \<in> {4, 5, 6} \<union> {16..23}"
proof -
  have "list_all (\<lambda>i. \<not> call_used_regs ! i \<and> \<not> fixed_regs ! i \<longrightarrow> int i \<in> {4, 5, 6} \<or> 16 \<le> i \<and> i \<le> 23) [0..<30]"
    by (simp add: upt_30 call_used_regs_def fixed_regs_def)
  with assms show ?thesis by (auto simp: must_save_def list_all_iff)
qed

lemma save_loop_good:
  assumes "\<forall>i \<in> set is. i < 30"
  shows "save_loop f live is = Good (map (\<lambda>i. f (int i)) (filter (must_save live) is))"
  using assms
proof (induction "is")
  case (Cons i "is")
  have "must_save live i \<Longrightarrow> 0 \<le> int i \<and> int i \<le> 7 \<or> 8 \<le> int i \<and> int i \<le> 23"
    using must_save_range[of live i] Cons.prems by auto
  with Cons show ?case by (auto simp: regno_defs)
qed simp

lemma saved_facts:
  "distinct (saved_list live)" "i \<in> set (saved_list live) \<Longrightarrow> int i \<in> {4, 5, 6} \<union> {16..23}"
  "length (saved_list live) \<le> 11"
proof -
  have d: "distinct (saved_list live)" by (simp add: saved_list_def)
  then show "distinct (saved_list live)" .
  show r: "i \<in> set (saved_list live) \<Longrightarrow> int i \<in> {4, 5, 6} \<union> {16..23}" for i
    using must_save_range[of live i] by (simp add: saved_list_def)
  then have "set (saved_list live) \<subseteq> {4, 5, 6} \<union> {16..23}" by force
  then have "card (set (saved_list live)) \<le> card ({4, 5, 6} \<union> {16..23} :: nat set)"
    by (intro card_mono) simp_all
  also have "\<dots> = 11" by simp
  finally have "card (set (saved_list live)) \<le> 11" .
  then show "length (saved_list live) \<le> 11" using distinct_card[OF d] by metis
qed

lemma ajardsp_prologue_insns:
  "ajardsp_prologue live n = Good ([Push 7, Move 7 28, Push 29] @
     (if 0 < n then [Plus_constant 7 7 (- (n + 2)), Swap_spec 28 7, Nop_insn, Push 7] else []) @
     map (\<lambda>i. Push (int i)) (saved_list live))"
  by (simp add: ajardsp_prologue_def save_loop_good saved_list_def regno_defs)

lemma ajardsp_epilogue_insns:
  "ajardsp_epilogue live n = Good (map (\<lambda>i. Pop (int i)) (rev (saved_list live)) @
     (if 0 < n then [Pop 28] else []) @ [Pop 29, Pop 7, Return])"
  by (simp add: ajardsp_epilogue_def save_loop_good saved_list_def regno_defs rev_filter)

lemma small_nonzero: "0 < k \<Longrightarrow> k < 2 ^ 16 \<Longrightarrow> (of_nat k :: u16) \<noteq> 0"
  by (auto simp: word_of_nat_eq_0_iff dest: dvd_imp_le)

lemma below_distinct: "k < 2 ^ 16 \<Longrightarrow> j < k \<Longrightarrow> (a :: u16) - of_nat j \<noteq> a - of_nat k"
proof -
  assume "k < 2 ^ 16" "j < k"
  then have "0 < k - j" "k - j < 2 ^ 16" by linarith+
  from small_nonzero[OF this] \<open>j < k\<close> show "a - of_nat j \<noteq> a - of_nat k" by (auto simp: of_nat_diff)
qed

abbreviation pushes :: "nat list \<Rightarrow> machine \<Rightarrow> machine" where
  "pushes is \<equiv> frame_run (map (\<lambda>i. Push (int i)) is)"

abbreviation pops :: "nat list \<Rightarrow> machine \<Rightarrow> machine" where
  "pops is \<equiv> frame_run (map (\<lambda>i. Pop (int i)) is)"

lemma pushes_regs: "regs (pushes is s) = (regs s)(28 := regs s 28 - of_nat (length is))"
  by (induction "is" arbitrary: s) (auto simp: regno_defs algebra_simps)

lemma pushes_other:
  "(\<And>k. k < length is \<Longrightarrow> a \<noteq> regs s 28 - 1 - of_nat k) \<Longrightarrow> stack (pushes is s) a = stack s a"
proof (induction "is" arbitrary: s)
  case (Cons i "is")
  have "k < length is \<Longrightarrow> a \<noteq> (regs s 28 - 1) - 1 - of_nat k" for k
    using Cons.prems[of "Suc k"] by (simp add: algebra_simps)
  moreover have "a \<noteq> regs s 28 - 1" using Cons.prems[of 0] by simp
  ultimately show ?case
    using Cons.IH[of "frame_step (Push (int i)) s"] by (simp add: regno_defs)
qed simp

lemma pushes_stored:
  assumes "k < length is" "28 \<notin> set is" "length is < 2 ^ 16"
  shows "stack (pushes is s) (regs s 28 - 1 - of_nat k) = regs s (int (is ! k))"
  using assms
proof (induction "is" arbitrary: s k)
  case (Cons i "is")
  let ?s = "frame_step (Push (int i)) s"
  show ?case
  proof (cases k)
    case 0
    have "stack (pushes is ?s) (regs s 28 - 1) = stack ?s (regs s 28 - 1)"
    proof (rule pushes_other)
      fix j assume "j < length is"
      with Cons.prems(3) show "regs s 28 - 1 \<noteq> regs ?s 28 - 1 - of_nat j"
        using below_distinct[of "Suc j" 0 "regs s 28 - 1"] by (simp add: regno_defs algebra_simps)
    qed
    with 0 show ?thesis by (simp add: regno_defs)
  next
    case (Suc j)
    with Cons.IH[of j ?s] Cons.prems show ?thesis
      by (simp add: regno_defs algebra_simps nth_mem[of j "is"]) (metis nth_mem of_nat_eq_iff of_nat_numeral)
  qed
qed simp

lemma pops_frame:
  assumes "28 \<notin> set is"
  shows "regs (pops is s) 28 = regs s 28 + of_nat (length is)" "stack (pops is s) = stack s"
    and "r \<notin> int ` set is \<Longrightarrow> r \<noteq> 28 \<Longrightarrow> regs (pops is s) r = regs s r"
  using assms
proof (induction "is" arbitrary: s)
  case (Cons i "is")
  { case 1 with Cons.IH(1)[of "frame_step (Pop (int i)) s"] show ?case by (simp add: regno_defs algebra_simps) }
  { case 2 with Cons.IH(2)[of "frame_step (Pop (int i)) s"] show ?case by (simp add: regno_defs) }
  { case 3 with Cons.IH(3)[of "frame_step (Pop (int i)) s"] show ?case by (simp add: regno_defs) }
qed simp_all

lemma pops_loaded:
  assumes "k < length is" "28 \<notin> set is" "distinct is"
  shows "regs (pops is s) (int (is ! k)) = stack s (regs s 28 + of_nat k)"
  using assms
proof (induction "is" arbitrary: s k)
  case (Cons i "is")
  let ?s = "frame_step (Pop (int i)) s"
  show ?case
  proof (cases k)
    case 0
    have "regs (pops is ?s) (int i) = regs ?s (int i)"
      using Cons.prems by (intro pops_frame(3)) auto
    with 0 show ?thesis by (simp add: regno_defs)
  next
    case (Suc j)
    with Cons.IH[of j ?s] Cons.prems show ?thesis by (simp add: regno_defs algebra_simps)
  qed
qed simp

section \<open>The frame\<close>

text \<open>
  The words of the frame that the epilogue reads, for a stack pointer \<open>S\<close> at the call, a frame size and
  the number of saved registers.
\<close>

definition frame_slots :: "u16 \<Rightarrow> nat \<Rightarrow> nat \<Rightarrow> u16 set" where
  "frame_slots S locals n =
     {S - 1, S - 2} \<union>
     (if locals = 0 then (\<lambda>i. S - 3 - of_nat i) ` {..<n}
      else (\<lambda>i. S - 4 - of_nat locals - of_nat i) ` {..n})"

lemma below_inj: "j \<noteq> k \<Longrightarrow> j < 2 ^ 16 \<Longrightarrow> k < 2 ^ 16 \<Longrightarrow> (a :: u16) - of_nat j \<noteq> a - of_nat k"
  using below_distinct[of k j a] below_distinct[of j k a] by (cases j k rule: linorder_cases) auto

definition frame_head :: "nat \<Rightarrow> frame_insn list" where
  "frame_head locals = [Push 7, Move 7 28, Push 29] @
     (if locals = 0 then [] else [Plus_constant 7 7 (- (int locals + 2)), Swap_spec 28 7, Nop_insn, Push 7])"

text \<open>The distance of the stack pointer before the registers are saved.\<close>

definition head_size :: "nat \<Rightarrow> nat" where
  "head_size locals = (if locals = 0 then 2 else locals + 4)"

lemma head_state:
  assumes "locals + 16 < 2 ^ 16"
  shows "regs (frame_run (frame_head locals) s) =
      (regs s)(28 := regs s 28 - of_nat (head_size locals), 7 := regs s 28 - (if locals = 0 then 1 else 2))"
    and "stack (frame_run (frame_head locals) s) (regs s 28 - 1) = regs s 7"
    and "stack (frame_run (frame_head locals) s) (regs s 28 - 2) = regs s 29"
    and "locals \<noteq> 0 \<Longrightarrow> stack (frame_run (frame_head locals) s) (regs s 28 - of_nat (head_size locals)) = regs s 28 - 2"
proof -
  let ?S = "regs s 28"
  have w: "?S + (- 3 - word_of_int (int locals)) = ?S - 3 - of_nat locals" by simp
  have d: "?S - 1 \<noteq> ?S - 2" "?S - 1 \<noteq> ?S - 4 - of_nat locals" "?S - 2 \<noteq> ?S - 4 - of_nat locals"
    using below_inj[of 1 2 ?S] below_inj[of 1 "4 + locals" ?S] below_inj[of 2 "4 + locals" ?S] assms
    by (simp_all add: algebra_simps)
  show "regs (frame_run (frame_head locals) s) =
      (regs s)(28 := ?S - of_nat (head_size locals), 7 := ?S - (if locals = 0 then 1 else 2))"
    by (auto simp: frame_head_def head_size_def regno_defs algebra_simps fun_upd_twist)
  show "stack (frame_run (frame_head locals) s) (?S - 1) = regs s 7"
    "stack (frame_run (frame_head locals) s) (?S - 2) = regs s 29"
    "locals \<noteq> 0 \<Longrightarrow> stack (frame_run (frame_head locals) s) (?S - of_nat (head_size locals)) = ?S - 2"
    using d by (auto simp: frame_head_def head_size_def regno_defs algebra_simps)
qed

lemma prologue_split:
  "ajardsp_prologue live (int locals) = Good (frame_head locals @ map (\<lambda>i. Push (int i)) (saved_list live))"
  by (simp add: ajardsp_prologue_insns frame_head_def)

lemma saved_not_sp: "28 \<notin> set (saved_list live)"
  using saved_facts(2)[of 28 live] by auto

lemma prologue_state:
  fixes live :: "int \<Rightarrow> bool" and s :: machine
  assumes "locals + 16 < 2 ^ 16"
  defines "L \<equiv> saved_list live" and "S \<equiv> regs s 28"
  defines "s1 \<equiv> frame_run (frame_head locals @ map (\<lambda>i. Push (int i)) (saved_list live)) s"
  shows "regs s1 28 = S - of_nat (head_size locals) - of_nat (length L)"
    and "regs s1 7 = S - (if locals = 0 then 1 else 2)"
    and "r \<notin> {7, 28} \<Longrightarrow> regs s1 r = regs s r"
    and "stack s1 (S - 1) = regs s 7" "stack s1 (S - 2) = regs s 29"
    and "locals \<noteq> 0 \<Longrightarrow> stack s1 (S - of_nat (head_size locals)) = S - 2"
    and "k < length L \<Longrightarrow> stack s1 (S - of_nat (head_size locals) - 1 - of_nat k) = regs s (int (L ! k))"
proof -
  note h = head_state[OF assms(1), of s, folded S_def]
  let ?p = "frame_run (frame_head locals) s"
  have p28: "regs ?p 28 = S - of_nat (head_size locals)" by (simp add: h(1))
  have n: "length L \<le> 11" using saved_facts(3) by (simp add: L_def)
  have s1: "s1 = pushes L ?p" by (simp add: s1_def L_def)
  have hs: "2 \<le> head_size locals" "head_size locals + 12 < 2 ^ 16" using assms(1) by (auto simp: head_size_def)
  show "regs s1 28 = S - of_nat (head_size locals) - of_nat (length L)"
    and "regs s1 7 = S - (if locals = 0 then 1 else 2)"
    and "r \<notin> {7, 28} \<Longrightarrow> regs s1 r = regs s r"
    unfolding s1 pushes_regs h(1) by auto
  have other: "stack s1 (S - of_nat j) = stack ?p (S - of_nat j)" if "j \<le> head_size locals" for j
    unfolding s1
  proof (rule pushes_other)
    fix k assume "k < length L"
    then have "S - of_nat j \<noteq> S - of_nat (head_size locals + 1 + k)"
      using that n hs by (intro below_inj) auto
    then show "S - of_nat j \<noteq> regs ?p 28 - 1 - of_nat k" by (simp add: p28 algebra_simps)
  qed
  show "stack s1 (S - 1) = regs s 7" "stack s1 (S - 2) = regs s 29"
    using other[of 1] other[of 2] hs h(2,3) by simp_all
  show "locals \<noteq> 0 \<Longrightarrow> stack s1 (S - of_nat (head_size locals)) = S - 2"
    using other[of "head_size locals"] h(4) by simp
  assume k: "k < length L"
  have "int (L ! k) \<notin> {7, 28}" using saved_facts(2)[of "L ! k" live] k by (auto simp: L_def)
  then show "stack s1 (S - of_nat (head_size locals) - 1 - of_nat k) = regs s (int (L ! k))"
    using pushes_stored[OF k _ , of ?p] saved_not_sp[of live] n
    by (simp add: s1 p28 L_def) (simp add: h(1))
qed

text \<open>C29: the epilogue undoes the prologue.  Whatever the body of the function does, as long as it leaves
  the stack pointer where it found it, the saved words of the frame alone and the call-preserved
  registers it does not use as they are, the stack pointer, the return address, the frame pointer
  and every call-preserved register have their old values on return; and the body may use the
  whole area of locals below the frame pointer.\<close>

theorem epilogue_restores:
  fixes s0 s2 :: machine
  assumes "ajardsp_prologue live (int locals) = Good ps" "ajardsp_epilogue live (int locals) = Good es"
    and "locals + 16 < 2 ^ 16"
  defines "n \<equiv> length (saved_list live)" and "S \<equiv> regs s0 28" and "s1 \<equiv> frame_run ps s0"
  assumes "regs s2 28 = regs s1 28" "\<forall>a \<in> frame_slots S locals n. stack s2 a = stack s1 a"
    and "\<forall>i<30. \<not> call_used_regs ! i \<and> \<not> live (int i) \<longrightarrow> regs s2 (int i) = regs s1 (int i)"
  shows "regs (frame_run es s2) 28 = S \<and> regs (frame_run es s2) 29 = regs s0 29 \<and>
    regs (frame_run es s2) 7 = regs s0 7 \<and>
    (\<forall>i<30. \<not> call_used_regs ! i \<longrightarrow> regs (frame_run es s2) (int i) = regs s0 (int i)) \<and>
    (\<forall>i<locals. regs s1 7 - 1 - of_nat i \<notin> frame_slots S locals n)"
proof -
  define L where "L = saved_list live"
  have ps: "s1 = frame_run (frame_head locals @ map (\<lambda>i. Push (int i)) (saved_list live)) s0"
    using assms(1) by (simp add: prologue_split s1_def)
  have es: "frame_run es s2 = frame_run ((if locals = 0 then [] else [Pop 28]) @ [Pop 29, Pop 7, Return]) (pops (rev L) s2)"
  proof -
    have "es = map (\<lambda>i. Pop (int i)) (rev L) @ (if locals = 0 then [] else [Pop 28]) @ [Pop 29, Pop 7, Return]"
      using assms(2) by (auto simp: ajardsp_epilogue_insns L_def)
    then show ?thesis by (simp only: frame_run_simps(3))
  qed
  note st = prologue_state[OF assms(3), where live = live and s = s0, folded ps S_def L_def]
  have n: "n \<le> 11" "n = length L" using saved_facts(3) by (simp_all add: n_def L_def)
  let ?h = "S - of_nat (head_size locals)" and ?s3 = "pops (rev L) s2"
  have sp: "28 \<notin> set (rev L)" using saved_not_sp by (simp add: L_def)
  have s3: "regs ?s3 28 = ?h" "stack ?s3 = stack s2"
    using pops_frame(1,2)[OF sp, of s2] assms(7) st(1) by (simp_all add: n)
  have slot: "a \<in> frame_slots S locals n \<Longrightarrow> stack s2 a = stack s1 a" for a using assms(8) by blast
  have top: "stack s2 (S - 1) = regs s0 7" "stack s2 (S - 2) = regs s0 29"
    using slot[of "S - 1"] slot[of "S - 2"] st(4,5) by (simp_all add: frame_slots_def)
  have old: "stack s2 ?h = S - 2" if "locals \<noteq> 0"
  proof -
    have "?h = S - 4 - of_nat locals - of_nat 0" using that by (simp add: head_size_def)
    moreover have "S - 4 - of_nat locals - of_nat 0 \<in> (\<lambda>i. S - 4 - of_nat locals - of_nat i) ` {..n}"
      by (rule imageI) simp
    ultimately have "?h \<in> frame_slots S locals n" using that by (simp only: frame_slots_def if_False Un_iff simp_thms)
    with slot st(6) that show ?thesis by simp
  qed
  have kept: "regs ?s3 (int (L ! k)) = regs s0 (int (L ! k))" if k: "k < length L" for k
  proof -
    have "regs ?s3 (int (rev L ! (n - 1 - k))) = stack s2 (regs s2 28 + of_nat (n - 1 - k))"
      using k n sp saved_facts(1)[of live] by (intro pops_loaded) (auto simp: L_def)
    moreover have "rev L ! (n - 1 - k) = L ! k" using k n by (simp add: rev_nth)
    moreover have "regs s2 28 + of_nat (n - 1 - k) = ?h - 1 - of_nat k"
      using k n assms(7) st(1) by (simp add: of_nat_diff)
    moreover have "?h - 1 - of_nat k \<in> frame_slots S locals n"
    proof (cases "locals = 0")
      case False
      have e: "?h - 1 - of_nat k = S - 4 - of_nat locals - of_nat (Suc k)"
        using False by (simp add: head_size_def algebra_simps)
      have "S - 4 - of_nat locals - of_nat (Suc k) \<in> (\<lambda>i. S - 4 - of_nat locals - of_nat i) ` {..n}"
        using k n by (intro imageI) simp
      with False show ?thesis by (simp only: e frame_slots_def if_False Un_iff simp_thms)
    qed (use k n in \<open>auto simp: frame_slots_def head_size_def\<close>)
    ultimately show ?thesis using slot st(7)[OF k] by metis
  qed
  have end_regs: "regs (frame_run es s2) = (regs ?s3)(28 := S, 29 := regs s0 29, 7 := regs s0 7)"
    using old top s3 by (auto simp: es regno_defs head_size_def fun_upd_twist)
  have other: "regs (frame_run es s2) (int i) = regs s0 (int i)" if i: "i < 30" "\<not> call_used_regs ! i" for i
  proof -
    have "list_all (\<lambda>i. \<not> call_used_regs ! i \<longrightarrow> \<not> fixed_regs ! i \<and> i \<notin> {7, 28, 29}) [0..<30]"
      by (simp add: upt_30 call_used_regs_def fixed_regs_def)
    with i have f: "\<not> fixed_regs ! i" "int i \<notin> {7, 28, 29}" by (auto simp: list_all_iff)
    show ?thesis
    proof (cases "live (int i)")
      case True
      with i f have "i \<in> set L" by (simp add: L_def saved_list_def must_save_def)
      with kept f(2) show ?thesis by (auto simp: end_regs in_set_conv_nth)
    next
      case False
      then have "int i \<notin> int ` set (rev L)" by (auto simp: L_def saved_list_def must_save_def)
      with pops_frame(3)[OF sp this, of s2] f(2) assms(9) i False st(3)[of "int i"] show ?thesis
        by (simp add: end_regs)
    qed
  qed
  have "regs s1 7 - 1 - of_nat i \<notin> frame_slots S locals n" if i: "i < locals" for i
  proof -
    have "S - of_nat (3 + i) \<noteq> S - of_nat 1" "S - of_nat (3 + i) \<noteq> S - of_nat 2"
      using i assms(3) by (intro below_inj; simp)+
    moreover have "S - of_nat (3 + i) \<noteq> S - of_nat (4 + locals + j)" if "j \<le> n" for j
      using i assms(3) n that by (intro below_inj) auto
    ultimately show ?thesis using i st(2) by (auto simp: frame_slots_def algebra_simps)
  qed
  with other end_regs show ?thesis by simp
qed

theorem epilogue_restores_witness:
  "\<exists>ps es. ajardsp_prologue (\<lambda>r. r = 4) 2 = Good ps \<and> ajardsp_epilogue (\<lambda>r. r = 4) 2 = Good es \<and>
     (\<forall>s. regs (frame_run es (frame_run ps s)) 4 = regs s 4)"
proof -
  obtain ps es where p: "ajardsp_prologue (\<lambda>r. r = 4) (int 2) = Good ps" "ajardsp_epilogue (\<lambda>r. r = 4) (int 2) = Good es"
    by (simp add: ajardsp_prologue_insns ajardsp_epilogue_insns)
  have c: "\<not> call_used_regs ! 4" by (simp add: call_used_regs_def)
  have "regs (frame_run es (frame_run ps s)) 4 = regs s 4" for s
    using epilogue_restores[OF p, of "frame_run ps s" s] c by (auto dest: spec[of _ "4 :: nat"])
  with p show ?thesis by auto
qed

text \<open>None of the three offsets the port reports for eliminating a register is the distance the
  prologue produces, for any frame.  The arguments on the stack begin at the stack pointer \<open>S\<close> of
  the call.\<close>

theorem elimination_offsets_miss:
  fixes s0 :: machine
  assumes "ajardsp_prologue live (int locals) = Good ps" "locals + 16 < 2 ^ 16"
  defines "s1 \<equiv> frame_run ps s0"
  shows "regs s0 28 \<noteq> regs s1 7 + word_of_int (initial_elimination_offset live (int locals) ARG_POINTER_REGNUM HARD_FRAME_POINTER_REGNUM) \<and>
    regs s1 7 \<noteq> regs s1 28 + word_of_int (initial_elimination_offset live (int locals) FRAME_POINTER_REGNUM STACK_POINTER_REGNUM) \<and>
    regs s1 7 \<noteq> regs s1 28 + word_of_int (initial_elimination_offset live (int locals) HARD_FRAME_POINTER_REGNUM STACK_POINTER_REGNUM)"
proof -
  have ps: "s1 = frame_run (frame_head locals @ map (\<lambda>i. Push (int i)) (saved_list live)) s0"
    using assms(1) by (simp add: prologue_split s1_def)
  note st = prologue_state[OF assms(2), where live = live and s = s0, folded ps]
  let ?S = "regs s0 28" and ?n = "length (saved_list live)"
  have n: "?n \<le> 11" by (rule saved_facts(3))
  have "?S \<noteq> regs s1 7" using st(2) below_inj[of 0 1 ?S] below_inj[of 0 2 ?S] by auto
  moreover have "regs s1 7 \<noteq> regs s1 28 + of_nat locals"
  proof -
    let ?k = "if locals = 0 then 1 else 2 :: nat" and ?m = "if locals = 0 then 2 + ?n else 4 + ?n"
    have "regs s1 7 = ?S - of_nat ?k" "regs s1 28 + of_nat locals = ?S - of_nat ?m"
      using st(1,2) by (simp_all add: head_size_def)
    moreover have "?S - of_nat ?k \<noteq> ?S - of_nat ?m" using n by (intro below_inj) auto
    ultimately show ?thesis by simp
  qed
  ultimately show ?thesis by (simp add: initial_elimination_offset_def regno_defs)
qed

theorem elimination_offsets_miss_witness:
  "\<exists>ps. ajardsp_prologue (\<lambda>_. False) 3 = Good ps \<and>
     regs (frame_run ps \<lparr>regs = (\<lambda>_. 100), stack = (\<lambda>_. 0)\<rparr>) 7 \<noteq> 100"
proof -
  obtain ps where p: "ajardsp_prologue (\<lambda>_. False) (int 3) = Good ps" by (simp add: ajardsp_prologue_insns)
  from elimination_offsets_miss[OF p, where ?s0.0 = "\<lparr>regs = (\<lambda>_. 100), stack = (\<lambda>_. 0)\<rparr>"] p show ?thesis
    by (auto simp: initial_elimination_offset_def regno_defs)
qed

end
