(* ===== verification/GccFloat.thy ===== *)
theory GccFloat
  imports Prelude
begin

text \<open>
  The 16-bit floating point format of the GCC port: \<open>encode_ajardsp_float\<close> and \<open>decode_ajardsp_float\<close>
  of \<open>ajardsp.c\<close>.  Of GCC's \<open>REAL_VALUE_TYPE\<close> the code reads and writes the class, the sign, the
  exponent and the most significant word of the significand, on a host with 64-bit \<open>long\<close>;
  \<open>real_exp\<close> is what \<open>REAL_EXP\<close> gives.
\<close>

datatype real_class = rvc_zero | rvc_normal | rvc_inf | rvc_nan

record real_value =
  real_cl :: real_class
  real_sign :: bool
  real_exp :: int
  real_sig :: u64

definition SIG_MSB :: u64 where "SIG_MSB = push_bit 63 1"

text \<open>The fields of \<open>ajardsp_single_format\<close> that bound the values.\<close>

definition format_p :: int where "format_p = 9"
definition format_emin :: int where "format_emin = - 125"
definition format_emax :: int where "format_emax = 129"

definition encode_ajardsp_float :: "real_value \<Rightarrow> u64" where
  "encode_ajardsp_float r =
     (let sign = (if real_sign r then 1 else 0) :: u64;
          image = push_bit 15 sign;
          sig = drop_bit 55 (real_sig r) AND 0xff
      in case real_cl r of
           rvc_normal \<Rightarrow>
             let exp = word_of_int (real_exp r + 63 - 1) :: u64
             in (image OR push_bit 8 exp) OR sig
         | _ \<Rightarrow> image)"

definition decode_ajardsp_float :: "u64 \<Rightarrow> real_value" where
  "decode_ajardsp_float buf =
     (let image = buf AND 0xffff;
          sign = drop_bit 15 image AND 1;
          exp = drop_bit 8 image AND 0xef;
          image' = push_bit 55 image AND NOT SIG_MSB
      in \<lparr>real_cl = rvc_normal, real_sign = (sign \<noteq> 0), real_exp = uint exp - 63 + 1,
          real_sig = image' OR SIG_MSB\<rparr>)"

section \<open>What survives\<close>

text \<open>A value the format can hold: an exponent of seven bits, a significand of nine.\<close>

definition representable :: "real_value \<Rightarrow> bool" where
  "representable r \<longleftrightarrow>
     real_cl r = rvc_normal \<and> 0 \<le> real_exp r + 62 \<and> real_exp r + 62 < 128 \<and>
     bit (real_sig r) 63 \<and> (\<forall>n < 55. \<not> bit (real_sig r) n)"

lemma masks: "(0xff :: u64) = mask 8" "(0xffff :: u64) = mask 16"
  by (simp_all add: mask_eq_exp_minus_1)

lemma bit_SIG_MSB: "bit SIG_MSB n \<longleftrightarrow> n = 63"
  unfolding SIG_MSB_def bit_push_bit_iff bit_1_iff by auto

lemma encode_normal:
  assumes "real_cl r = rvc_normal" "real_exp r + 62 = e"
  shows "encode_ajardsp_float r =
    (push_bit 15 (of_bool (real_sign r)) OR push_bit 8 (word_of_int e)) OR (drop_bit 55 (real_sig r) AND mask 8)"
proof -
  have "real_exp r + 63 - 1 = e" using assms(2) by simp
  then show ?thesis
    using assms(1) by (simp only: encode_ajardsp_float_def Let_def real_class.case masks of_bool_def)
qed

lemma small_exp_bits:
  assumes "0 \<le> e" "e < 128"
  shows "bit (word_of_int e :: u64) n \<longleftrightarrow> n < 7 \<and> bit e n"
proof -
  have "e = take_bit 7 e" using assms by (simp add: take_bit_int_eq_self)
  then have "bit e n \<longleftrightarrow> n < 7 \<and> bit e n" by (metis bit_take_bit_iff)
  then show ?thesis by (auto simp: bit_simps)
qed

lemma bit_encode:
  assumes "representable r"
  shows "bit (encode_ajardsp_float r) n \<longleftrightarrow>
    (if n < 8 then bit (real_sig r) (n + 55) else if n < 15 then bit (real_exp r + 62) (n - 8) else n = 15 \<and> real_sign r)"
proof -
  have r: "real_cl r = rvc_normal" "0 \<le> real_exp r + 62" "real_exp r + 62 < 128"
    using assms by (simp_all add: representable_def)
  obtain e where e: "real_exp r + 62 = e" by blast
  show ?thesis
    unfolding encode_normal[OF r(1) e] unfolding e
    using small_exp_bits[of e "n - 8"] r(2,3) e
    by (auto simp: bit_or_iff bit_and_iff bit_push_bit_iff bit_drop_bit_eq bit_mask_iff bit_of_bool_iff not_less add.commute)
qed

lemma decode_fields:
  "decode_ajardsp_float b =
     \<lparr>real_cl = rvc_normal, real_sign = bit b 15,
      real_exp = uint (drop_bit 8 (b AND mask 16) AND 0xef) - 62,
      real_sig = (push_bit 55 (b AND mask 16) AND NOT SIG_MSB) OR SIG_MSB\<rparr>"
proof -
  have "drop_bit 15 (b AND mask 16) AND 1 = (of_bool (bit b 15) :: u64)"
    by (rule bit_word_eqI) (auto simp: bit_and_iff bit_drop_bit_eq bit_mask_iff bit_of_bool_iff bit_1_iff)
  then show ?thesis by (simp add: decode_ajardsp_float_def Let_def masks)
qed

lemma decode_sig:
  assumes "representable r"
  shows "real_sig (decode_ajardsp_float (encode_ajardsp_float r)) = real_sig r"
proof (rule bit_word_eqI)
  fix n assume n: "n < LENGTH(64)"
  show "bit (real_sig (decode_ajardsp_float (encode_ajardsp_float r))) n \<longleftrightarrow> bit (real_sig r) n"
  proof (cases "n < 55")
    case True
    with assms show ?thesis
      by (simp add: decode_fields bit_or_iff bit_and_iff bit_push_bit_iff bit_SIG_MSB representable_def)
  next
    case False
    then obtain m where m: "n = 55 + m" using le_Suc_ex not_less by blast
    with n have "m = 8 \<or> m < 8" by auto
    with m n assms show ?thesis
      by (auto simp: decode_fields bit_or_iff bit_and_iff bit_not_iff bit_push_bit_iff bit_mask_iff bit_SIG_MSB
          bit_encode representable_def add.commute)
  qed
qed

lemma bit_ef: "bit (0xef :: u64) n \<longleftrightarrow> n < 8 \<and> n \<noteq> 4"
proof -
  have "(0xef :: u64) = mask 8 AND NOT (push_bit 4 1)" by (simp add: mask_eq_exp_minus_1)
  then have "bit (0xef :: u64) n = bit (mask 8 AND NOT (push_bit 4 1) :: u64) n" by (rule arg_cong)
  then show ?thesis unfolding bit_and_iff bit_not_iff bit_mask_iff bit_push_bit_iff bit_1_iff by auto
qed

text \<open>The exponent that is read: bit 4 is lost, and the sign is its bit 7.\<close>

lemma decode_exp:
  assumes "representable r"
  shows "real_exp (decode_ajardsp_float (encode_ajardsp_float r)) = real_exp r \<longleftrightarrow>
    \<not> real_sign r \<and> \<not> bit (real_exp r + 62) 4"
proof -
  obtain e where e: "real_exp r + 62 = e" by blast
  have le: "0 \<le> e" "e < 128" using assms e by (simp_all add: representable_def)
  have "e = take_bit 7 e" using le by (simp add: take_bit_int_eq_self)
  then have be: "bit e n \<longleftrightarrow> n < 7 \<and> bit e n" for n by (metis bit_take_bit_iff)
  let ?x = "drop_bit 8 (encode_ajardsp_float r AND mask 16) AND 0xef :: u64"
  have bx: "bit (uint ?x) n \<longleftrightarrow> n < 8 \<and> n \<noteq> 4 \<and> (if n < 7 then bit e n else real_sign r)" for n
    using bit_encode[OF assms, of "n + 8"]
    unfolding bit_uint_iff bit_and_iff bit_drop_bit_eq comp_def bit_mask_iff bit_ef e
    by (auto simp: add.commute)
  have "uint ?x = e \<longleftrightarrow> (\<forall>n. bit (uint ?x) n = bit e n)" by (metis bit_eqI)
  also have "\<dots> \<longleftrightarrow> \<not> real_sign r \<and> \<not> bit e 4"
  proof
    assume a: "\<forall>n. bit (uint ?x) n = bit e n"
    show "\<not> real_sign r \<and> \<not> bit e 4" using a[rule_format, of 4] a[rule_format, of 7] bx[of 4] bx[of 7] be[of 7] by simp
  next
    assume a: "\<not> real_sign r \<and> \<not> bit e 4"
    show "\<forall>n. bit (uint ?x) n = bit e n"
    proof
      fix n show "bit (uint ?x) n = bit e n" using a bx[of n] be[of n] by (cases "n = 4") auto
    qed
  qed
  finally show ?thesis using e by (auto simp: decode_fields)
qed

text \<open>C24: a normal value that fits the format keeps its significand and its sign when it is written and
  read back, but it is the same value exactly when it is positive and bit 4 of its biased exponent
  is clear: the mask of the exponent is \<open>0xef\<close> where the field has seven bits.\<close>

theorem float_roundtrip:
  assumes "representable r"
  shows "real_sig (decode_ajardsp_float (encode_ajardsp_float r)) = real_sig r \<and>
    real_sign (decode_ajardsp_float (encode_ajardsp_float r)) = real_sign r \<and>
    (decode_ajardsp_float (encode_ajardsp_float r) = r \<longleftrightarrow>
       \<not> real_sign r \<and> \<not> bit (real_exp r + 62) 4)"
proof -
  have s: "real_sign (decode_ajardsp_float (encode_ajardsp_float r)) = real_sign r"
    by (simp add: decode_fields bit_encode[OF assms])
  moreover have "real_cl (decode_ajardsp_float (encode_ajardsp_float r)) = real_cl r"
    using assms by (simp add: decode_fields representable_def)
  ultimately show ?thesis
    using decode_sig[OF assms] decode_exp[OF assms] by (auto intro!: real_value.equality)
qed

text \<open>The number one: exponent 1 and significand one half.\<close>

definition real_one :: real_value where
  "real_one = \<lparr>real_cl = rvc_normal, real_sign = False, real_exp = 1, real_sig = SIG_MSB\<rparr>"

theorem float_roundtrip_witness:
  "representable real_one \<and> decode_ajardsp_float (encode_ajardsp_float real_one) \<noteq> real_one"
proof -
  have r: "representable real_one" by (simp add: representable_def real_one_def bit_SIG_MSB)
  have "bit (real_exp real_one + 62) 4" by (simp add: real_one_def)
  with float_roundtrip[OF r] r show ?thesis by simp
qed

lemma zero_reads_normal:
  "real_cl r = rvc_zero \<Longrightarrow> real_cl (decode_ajardsp_float (encode_ajardsp_float r)) \<noteq> real_cl r"
  by (simp add: decode_fields)

text \<open>The greatest exponent the format declares does not fit: the value is written as a negative one.\<close>

lemma emax_overflows:
  assumes "real_cl r = rvc_normal" "real_exp r = format_emax"
  shows "bit (encode_ajardsp_float r) 15"
proof -
  have "real_exp r + 62 = 191" using assms(2) by (simp add: format_emax_def)
  from encode_normal[OF assms(1) this] show ?thesis
    by (simp add: bit_or_iff bit_push_bit_iff bit_word_of_int_iff)
qed

end
