(* ===== verification/GccNops.thy ===== *)
theory GccNops
  imports Prelude
begin

text \<open>
  The pass of the GCC port that inserts nops between an instruction and the uses of the register it
  sets (\<open>insert_nop_bb_scan\<close>, \<open>insert_nop\<close> and \<open>nop_delay_slots\<close> in \<open>ajardsp.c\<close>): how it terminates, and
  that it keeps every use in a basic block far enough from the instruction.

  The insn chain is a list.  Of an insn the pass looks at the fields of \<open>rtl_insn\<close>.  The latencies and
  the successors of a basic block are parameters; the exit block has no insns.
\<close>

section \<open>The chain\<close>

text \<open>
  \<open>insn_id\<close> is the identity of an insn (0 for the new nops), \<open>insn_real\<close> holds when it is not a debug
  insn and is recognised, \<open>insn_starts\<close> when its mode is \<open>TImode\<close>, which marks the start of a bundle,
  \<open>insn_uses\<close> are the registers in its pattern, and \<open>insn_set\<close> is the register of a pattern that is a
  single \<open>SET\<close> of a \<open>REG\<close>.
\<close>

record rtl_insn =
  insn_id :: nat
  insn_real :: bool
  insn_starts :: bool
  insn_block :: nat
  insn_uses :: "nat list"
  insn_set :: "nat option"

type_synonym chain = "rtl_insn list"

definition nop_insn :: "nat \<Rightarrow> rtl_insn" where
  "nop_insn b = \<lparr>insn_id = 0, insn_real = True, insn_starts = True, insn_block = b, insn_uses = [], insn_set = None\<rparr>"

definition emit_nops_before :: "nat \<Rightarrow> nat \<Rightarrow> chain \<Rightarrow> chain" where
  "emit_nops_before n p ch = take p ch @ replicate n (nop_insn (insn_block (ch ! p))) @ drop p ch"

text \<open>\<open>BB_HEAD\<close>, and whether a position is \<open>BB_END\<close> of a block.\<close>

fun bb_head :: "nat \<Rightarrow> chain \<Rightarrow> nat option" where
  "bb_head b [] = None"
| "bb_head b (i # ch) = (if insn_block i = b then Some 0 else map_option Suc (bb_head b ch))"

definition is_bb_end :: "nat \<Rightarrow> nat \<Rightarrow> chain \<Rightarrow> bool" where
  "is_bb_end b p ch \<longleftrightarrow> insn_block (ch ! p) = b \<and> list_all (\<lambda>i. insn_block i \<noteq> b) (drop (Suc p) ch)"

section \<open>The scan\<close>

text \<open>
  The scan is at position \<open>p\<close>, and \<open>start\<close> is the position of \<open>start_of_bundle\<close>.  One real insn: the
  bundle and the cycles are counted, and the nops that are missing for a use are put before the
  bundle, which moves both positions.
\<close>

definition scan_insn ::
    "(rtl_insn \<Rightarrow> int) \<Rightarrow> nat \<Rightarrow> nat \<Rightarrow> nat \<Rightarrow> int \<Rightarrow> int \<Rightarrow> chain \<Rightarrow> nat \<times> nat \<times> int \<times> int \<times> chain" where
  "scan_insn latency regno p start cycle cycles_left ch =
     (let this = ch ! p;
          cycle = (if insn_starts this then cycle + 1 else cycle);
          cycles_left = (if insn_starts this then cycles_left - 1 else cycles_left);
          start = (if insn_starts this then p else start);
          nnops = (if regno \<in> set (insn_uses this) \<and> cycle < latency this
                   then nat (latency this - cycle) else 0)
      in (p + nnops, start + nnops, cycle + int nnops, cycles_left - int nnops, emit_nops_before nnops start ch))"

text \<open>A walk over a list: \<open>FOR_EACH_EDGE\<close> over the successors, \<open>FOR_ALL_BB\<close> and \<open>FOR_BB_INSNS\<close> over the insns.\<close>

definition each_of :: "('a \<Rightarrow> chain \<Rightarrow> chain option) \<Rightarrow> 'a list \<Rightarrow> chain \<Rightarrow> chain option" where
  "each_of f ds ch = foldl (\<lambda>r d. Option.bind r (f d)) (Some ch) ds"

text \<open>
  The loop; \<open>bb\<close> is the block the scan began in.  The first argument bounds the number of steps, and
  the result is \<^term>\<open>None\<close> when it is used up.
\<close>

primrec scan_loop ::
    "nat \<Rightarrow> (rtl_insn \<Rightarrow> int) \<Rightarrow> (nat \<Rightarrow> nat list) \<Rightarrow> nat \<Rightarrow> nat \<Rightarrow>
     nat \<Rightarrow> nat \<Rightarrow> nat \<Rightarrow> int \<Rightarrow> int \<Rightarrow> chain \<Rightarrow> chain option" where
  "scan_loop 0 latency succs regno src bb p start cycle cycles_left ch = None"
| "scan_loop (Suc fuel) latency succs regno src bb p start cycle cycles_left ch =
     (if length ch \<le> p then Some ch
      else if insn_real (ch ! p) \<and> src \<noteq> insn_id (ch ! p) then
        (case scan_insn latency regno p start cycle cycles_left ch of
           (p, start, cycle, cycles_left, ch) \<Rightarrow>
             if 0 < cycles_left then
               if is_bb_end bb p ch then
                 each_of (\<lambda>d ch. case bb_head d ch of
                     None \<Rightarrow> Some ch
                   | Some h \<Rightarrow> scan_loop fuel latency succs regno src d h h cycle cycles_left ch)
                   (succs bb) ch
               else scan_loop fuel latency succs regno src bb (Suc p) start cycle cycles_left ch
             else Some ch)
      else scan_loop fuel latency succs regno src bb (Suc p) start cycle cycles_left ch)"

definition insert_nop_bb_scan ::
    "nat \<Rightarrow> (rtl_insn \<Rightarrow> rtl_insn \<Rightarrow> int) \<Rightarrow> (nat \<Rightarrow> nat list) \<Rightarrow> nat \<Rightarrow> int \<Rightarrow> int \<Rightarrow> nat \<Rightarrow> rtl_insn \<Rightarrow>
     chain \<Rightarrow> chain option" where
  "insert_nop_bb_scan fuel insn_latency succs p cycle cycles_left regno src_insn ch =
     scan_loop fuel (insn_latency src_insn) succs regno (insn_id src_insn) (insn_block (ch ! p)) p p
       cycle cycles_left ch"

section \<open>The pass\<close>

fun insn_position :: "nat \<Rightarrow> chain \<Rightarrow> nat option" where
  "insn_position k [] = None"
| "insn_position k (i # ch) = (if insn_id i = k then Some 0 else map_option Suc (insn_position k ch))"

text \<open>One insn of the walk over the blocks; the walk also meets new nops, which set no register.\<close>

definition insert_nop_insn ::
    "nat \<Rightarrow> (rtl_insn \<Rightarrow> rtl_insn \<Rightarrow> int) \<Rightarrow> (rtl_insn \<Rightarrow> int) \<Rightarrow> (nat \<Rightarrow> nat list) \<Rightarrow> rtl_insn \<Rightarrow> chain \<Rightarrow> chain option" where
  "insert_nop_insn fuel insn_latency maximal_insn_latency succs i ch =
     (case insn_set i of
        Some regno \<Rightarrow>
          if insn_real i then
            (case insn_position (insn_id i) ch of
               Some p \<Rightarrow> insert_nop_bb_scan fuel insn_latency succs p 0 (maximal_insn_latency i) regno i ch
             | None \<Rightarrow> Some ch)
          else Some ch
      | None \<Rightarrow> Some ch)"

definition insert_nop ::
    "nat \<Rightarrow> (rtl_insn \<Rightarrow> rtl_insn \<Rightarrow> int) \<Rightarrow> (rtl_insn \<Rightarrow> int) \<Rightarrow> (nat \<Rightarrow> nat list) \<Rightarrow> nat list \<Rightarrow> chain \<Rightarrow> chain option" where
  "insert_nop fuel insn_latency maximal_insn_latency succs blocks ch =
     each_of (insert_nop_insn fuel insn_latency maximal_insn_latency succs)
       (concat (map (\<lambda>b. filter (\<lambda>i. insn_block i = b) ch) blocks)) ch"

text \<open>The pass for delay slots: the number of nops it adds after a jump or a call is the constant 0.\<close>

definition nop_delay_slots :: "(rtl_insn \<Rightarrow> bool) \<Rightarrow> chain \<Rightarrow> chain" where
  "nop_delay_slots jump_with_slots ch =
     (let nnops = 0 in
      concat (map (\<lambda>i. i # (if jump_with_slots i then replicate nnops (nop_insn (insn_block i)) else [])) ch))"

lemma nop_delay_slots_id: "nop_delay_slots f ch = ch"
  by (induction ch) (simp_all add: nop_delay_slots_def)

section \<open>Distances\<close>

text \<open>The number of bundles that start in a stretch of the chain.\<close>

definition bundle_starts :: "chain \<Rightarrow> int" where
  "bundle_starts xs = int (length (filter (\<lambda>i. insn_real i \<and> insn_starts i) xs))"

lemma bundle_starts_simps [simp]:
  "bundle_starts [] = 0"
  "bundle_starts (i # xs) = (if insn_real i \<and> insn_starts i then 1 else 0) + bundle_starts xs"
  "bundle_starts (xs @ ys) = bundle_starts xs + bundle_starts ys"
  "bundle_starts (replicate n (nop_insn b)) = int n"
  by (simp_all add: bundle_starts_def nop_insn_def)

lemma bundle_starts_pos [simp]: "0 \<le> bundle_starts xs"
  by (simp add: bundle_starts_def)

text \<open>
  Every use of the register in the block is at least its latency away, when \<open>n\<close> bundles have
  started since the instruction that sets it.
\<close>

primrec uses_far :: "(rtl_insn \<Rightarrow> int) \<Rightarrow> nat \<Rightarrow> nat \<Rightarrow> int \<Rightarrow> chain \<Rightarrow> bool" where
  "uses_far lat regno bb n [] = True"
| "uses_far lat regno bb n (i # is) =
     (let m = n + (if insn_real i \<and> insn_starts i then 1 else 0) in
      (insn_real i \<and> regno \<in> set (insn_uses i) \<and> insn_block i = bb \<longrightarrow> lat i \<le> m) \<and> uses_far lat regno bb m is)"

lemma uses_far_mono: "uses_far lat regno bb n is \<Longrightarrow> n \<le> m \<Longrightarrow> uses_far lat regno bb m is"
  by (induction "is" arbitrary: n m) (force simp: Let_def)+

lemma uses_far_append:
  "uses_far lat regno bb n (xs @ ys) \<longleftrightarrow>
     uses_far lat regno bb n xs \<and> uses_far lat regno bb (n + bundle_starts xs) ys"
  by (induction xs arbitrary: n) (auto simp: Let_def add.assoc)

lemma uses_far_nops [simp]: "uses_far lat regno bb n (replicate k (nop_insn b))"
  by (induction k arbitrary: n) (simp_all add: nop_insn_def)

lemma uses_far_insert:
  "uses_far lat regno bb n (xs @ ys) \<Longrightarrow> uses_far lat regno bb n (xs @ replicate k (nop_insn b) @ ys)"
  by (auto simp: uses_far_append elim: uses_far_mono)

lemma uses_far_late: "(\<And>i. lat i \<le> n) \<Longrightarrow> uses_far lat regno bb n is"
proof (induction "is" arbitrary: n)
  case (Cons i "is")
  have "lat j \<le> n + (if insn_real i \<and> insn_starts i then 1 else 0)" for j
    using Cons.prems[of j] by simp
  from Cons.IH[OF this] this[of i] show ?case by (auto simp: Let_def split: if_splits)
qed simp

lemma uses_far_elsewhere: "list_all (\<lambda>i. insn_block i \<noteq> bb) is \<Longrightarrow> uses_far lat regno bb n is"
  by (induction "is" arbitrary: n) (simp_all add: Let_def)

text \<open>No use in the bundle of the instruction itself.\<close>

primrec bundle_free :: "(rtl_insn \<Rightarrow> int) \<Rightarrow> nat \<Rightarrow> chain \<Rightarrow> bool" where
  "bundle_free lat regno [] = True"
| "bundle_free lat regno (i # is) =
     (insn_real i \<and> insn_starts i \<or>
      (insn_real i \<and> regno \<in> set (insn_uses i) \<longrightarrow> lat i \<le> 0) \<and> bundle_free lat regno is)"

lemma bundle_free_insert:
  "bundle_free lat regno (xs @ ys) \<Longrightarrow> bundle_free lat regno (xs @ replicate k (nop_insn b) @ ys)"
proof (induction xs)
  case Nil
  then show ?case by (cases k) (simp_all add: nop_insn_def)
qed auto

lemma bundle_free_use:
  "bundle_free lat regno (xs @ i # ys) \<Longrightarrow> bundle_starts (xs @ [i]) = 0 \<Longrightarrow> insn_real i \<Longrightarrow>
     regno \<in> set (insn_uses i) \<Longrightarrow> lat i \<le> 0"
proof (induction xs)
  case (Cons x xs)
  have "0 \<le> bundle_starts xs" by (rule bundle_starts_pos)
  with Cons.prems(2) have "\<not> (insn_real x \<and> insn_starts x)" "bundle_starts (xs @ [i]) = 0"
    by (simp_all split: if_splits del: bundle_starts_pos)
  with Cons show ?case by simp
qed (auto split: if_splits)

section \<open>What follows an insn\<close>

definition after :: "nat \<Rightarrow> chain \<Rightarrow> chain" where
  "after k ch = tl (dropWhile (\<lambda>i. insn_id i \<noteq> k) ch)"

lemma after_split: "k \<notin> insn_id ` set pre \<Longrightarrow> insn_id i = k \<Longrightarrow> after k (pre @ i # rest) = rest"
  by (induction pre) (auto simp: after_def)

lemma after_emit:
  assumes "k \<noteq> 0"
  shows "\<exists>xs ys. after k ch = xs @ ys \<and>
    (after k (emit_nops_before n p ch) = xs @ ys \<or>
     after k (emit_nops_before n p ch) = xs @ replicate n (nop_insn (insn_block (ch ! p))) @ ys)"
proof -
  let ?nops = "replicate n (nop_insn (insn_block (ch ! p)))"
  have ch: "ch = take p ch @ drop p ch" by simp
  have nops: "dropWhile (\<lambda>i. insn_id i \<noteq> k) (?nops @ ys) = dropWhile (\<lambda>i. insn_id i \<noteq> k) ys" for ys
    using assms by (intro dropWhile_append2) (auto simp: nop_insn_def)
  show ?thesis
  proof (cases "k \<in> insn_id ` set (take p ch)")
    case True
    then obtain x where x: "x \<in> set (take p ch)" "\<not> insn_id x \<noteq> k" by auto
    then have "dropWhile (\<lambda>i. insn_id i \<noteq> k) (take p ch) \<noteq> []" unfolding dropWhile_eq_Nil_conv by blast
    then have a: "after k (take p ch @ ys) = after k (take p ch) @ ys" for ys
      using x by (simp add: after_def dropWhile_append1[of x] tl_append2)
    have "after k ch = after k (take p ch) @ drop p ch" using a[of "drop p ch"] by simp
    with a[of "?nops @ drop p ch"] show ?thesis unfolding emit_nops_before_def by blast
  next
    case False
    then have "after k (take p ch @ ys) = after k ys" for ys
      unfolding after_def by (subst dropWhile_append2) auto
    from this[of "drop p ch"] this[of "?nops @ drop p ch"]
    have "after k (emit_nops_before n p ch) = after k ch"
      using nops by (simp add: emit_nops_before_def after_def)
    then show ?thesis by (metis append_Nil)
  qed
qed

lemma uses_far_emit:
  "k \<noteq> 0 \<Longrightarrow> uses_far lat regno bb n (after k ch) \<Longrightarrow> uses_far lat regno bb n (after k (emit_nops_before m p ch))"
  using after_emit[of k ch m p] uses_far_insert by metis

lemma bundle_free_emit:
  "k \<noteq> 0 \<Longrightarrow> bundle_free lat regno (after k ch) \<Longrightarrow> bundle_free lat regno (after k (emit_nops_before m p ch))"
  using after_emit[of k ch m p] bundle_free_insert by metis

section \<open>What a scan keeps\<close>

text \<open>A scan only inserts nops, so a property that insertions keep is kept by every scan.\<close>

lemma each_of_simps [simp]:
  "each_of f [] ch = Some ch"
  "each_of f (d # ds) ch = Option.bind (f d ch) (each_of f ds)"
proof -
  have "foldl (\<lambda>r d. Option.bind r (f d)) None ds = None" by (induction ds) simp_all
  then show "each_of f (d # ds) ch = Option.bind (f d ch) (each_of f ds)"
    by (cases "f d ch") (simp_all add: each_of_def)
qed (simp add: each_of_def)

lemma each_of_invariant:
  assumes "\<And>d ch ch'. P ch \<Longrightarrow> f d ch = Some ch' \<Longrightarrow> P ch'"
  shows "each_of f ds ch = Some ch' \<Longrightarrow> P ch \<Longrightarrow> P ch'"
  using assms by (induction ds arbitrary: ch) (auto simp: bind_eq_Some_conv)

lemma scan_loop_invariant:
  assumes emit: "\<And>n p ch. p < length ch \<Longrightarrow> P ch \<Longrightarrow> P (emit_nops_before n p ch)"
  shows "scan_loop fuel lat succs regno src bb p start cycle left ch = Some ch' \<Longrightarrow> start \<le> p \<Longrightarrow> P ch \<Longrightarrow> P ch'"
proof (induction fuel arbitrary: bb p start cycle left ch ch')
  case (Suc fuel)
  obtain p1 s1 c1 l1 ch1 where si: "scan_insn lat regno p start cycle left ch = (p1, s1, c1, l1, ch1)"
    by (cases "scan_insn lat regno p start cycle left ch")
  show ?case
  proof (cases "p < length ch")
    case True
    have s1: "s1 \<le> p1" using si Suc.prems(2) by (auto simp: scan_insn_def Let_def split: if_splits)
    have ch1: "P ch1"
      using si Suc.prems(2,3) True emit by (auto simp: scan_insn_def Let_def intro!: emit split: if_splits)
    have into: "P ch2 \<Longrightarrow> (case bb_head d ch2 of None \<Rightarrow> Some ch2
        | Some h \<Rightarrow> scan_loop fuel lat succs regno src d h h c1 l1 ch2) = Some ch3 \<Longrightarrow> P ch3" for d ch2 ch3
      using Suc.IH by (auto split: option.splits)
    have skip: "scan_loop fuel lat succs regno src bb (Suc p) start cycle left ch = Some ch' \<Longrightarrow> P ch'"
      using Suc.IH[of bb "Suc p" start cycle left ch ch'] Suc.prems(2,3) by simp
    have next_insn: "scan_loop fuel lat succs regno src bb (Suc p1) s1 c1 l1 ch1 = Some ch' \<Longrightarrow> P ch'"
      using Suc.IH[of bb "Suc p1" s1 c1 l1 ch1 ch'] s1 ch1 by simp
    show ?thesis
      using Suc.prems(1) True skip next_insn ch1 each_of_invariant[OF into]
      by (auto simp: si split: if_splits)
  next
    case False
    with Suc.prems show ?thesis by simp
  qed
qed simp

section \<open>The scan separates uses\<close>

text \<open>
  The chain while the scan of \<open>src\<close> is at position \<open>p\<close>: what was scanned is far enough, and the cycles
  counted are the bundles that started since \<open>src\<close>.
\<close>

definition scanned ::
    "(rtl_insn \<Rightarrow> int) \<Rightarrow> nat \<Rightarrow> nat \<Rightarrow> nat \<Rightarrow> chain \<Rightarrow> chain \<Rightarrow> nat \<Rightarrow> nat \<Rightarrow> int \<Rightarrow> chain \<Rightarrow> bool" where
  "scanned lat regno k bb seen todo p start cycle ch \<longleftrightarrow>
     (\<exists>pre i. insn_id i = k \<and> k \<notin> insn_id ` set (pre @ seen @ todo) \<and> ch = pre @ i # seen @ todo \<and>
        p = length (pre @ i # seen) \<and> start \<le> p \<and> (bundle_starts seen = 0 \<or> length pre < start) \<and>
        cycle = bundle_starts seen \<and> uses_far lat regno bb 0 seen \<and> bundle_free lat regno (seen @ todo))"

lemma scanned_after: "scanned lat regno k bb seen todo p start cycle ch \<Longrightarrow> after k ch = seen @ todo"
  by (auto simp: scanned_def intro!: after_split)

lemma scanned_skip:
  assumes "scanned lat regno k bb seen (t # todo) p start cycle ch" "\<not> insn_real t"
  shows "scanned lat regno k bb (seen @ [t]) todo (Suc p) start cycle ch"
proof -
  obtain pre i where "insn_id i = k \<and> k \<notin> insn_id ` set (pre @ seen @ t # todo) \<and> ch = pre @ i # seen @ t # todo \<and>
        p = length (pre @ i # seen) \<and> start \<le> p \<and> (bundle_starts seen = 0 \<or> length pre < start) \<and>
        cycle = bundle_starts seen \<and> uses_far lat regno bb 0 seen \<and> bundle_free lat regno (seen @ t # todo)"
    using assms(1) by (auto simp: scanned_def)
  with assms(2) show ?thesis
    unfolding scanned_def by (intro exI[of _ pre] exI[of _ i]) (auto simp: uses_far_append)
qed

lemma emit_zero [simp]: "emit_nops_before 0 p ch = ch"
  by (simp add: emit_nops_before_def)

lemma emit_in_seen:
  assumes "ch = pre @ i # seen @ todo" "length pre < start" "start \<le> length (pre @ i # seen)"
  obtains d1 d2 b where "seen = d1 @ d2" "emit_nops_before n start ch = pre @ i # d1 @ replicate n (nop_insn b) @ d2 @ todo"
proof
  let ?j = "start - length pre - 1"
  have j: "start = length pre + Suc ?j" "?j \<le> length seen" using assms(2,3) by auto
  show "seen = take ?j seen @ drop ?j seen" by simp
  have "take start ch = pre @ i # take ?j seen" "drop start ch = drop ?j seen @ todo"
    using j(2) by (subst j(1), simp add: assms(1))+
  then show "emit_nops_before n start ch =
      pre @ i # take ?j seen @ replicate n (nop_insn (insn_block (ch ! start))) @ drop ?j seen @ todo"
    by (simp add: emit_nops_before_def)
qed

lemma scanned_insn:
  assumes sc: "scanned lat regno k bb seen (t # todo) p start cycle ch" and t: "insn_real t" and k: "k \<noteq> 0"
    and si: "scan_insn lat regno p start cycle left ch = (p1, s1, c1, l1, ch1)"
  shows "\<exists>seen1. scanned lat regno k bb seen1 todo (Suc p1) s1 c1 ch1 \<and> ch1 ! p1 = t \<and> c1 + l1 = cycle + left"
proof -
  obtain pre i where i: "insn_id i = k" "k \<notin> insn_id ` set (pre @ seen @ t # todo)" "ch = pre @ i # seen @ t # todo"
      "p = length (pre @ i # seen)" "start \<le> p" "bundle_starts seen = 0 \<or> length pre < start"
      "cycle = bundle_starts seen" "uses_far lat regno bb 0 seen" "bundle_free lat regno (seen @ t # todo)"
    using sc by (auto simp: scanned_def)
  have th: "ch ! p = t" by (simp add: i(3,4) nth_append)
  define c where "c = bundle_starts (seen @ [t])"
  define st where "st = (if insn_starts t then p else start)"
  define n where "n = (if regno \<in> set (insn_uses t) \<and> c < lat t then nat (lat t - c) else 0)"
  have c: "(if insn_starts t then cycle + 1 else cycle) = c" by (simp add: c_def i(7) t)
  have r: "p1 = p + n" "s1 = st + n" "c1 = c + int n" "ch1 = emit_nops_before n st ch" "c1 + l1 = cycle + left"
    using si c by (auto simp: scan_insn_def Let_def th st_def n_def split: if_splits)
  have st: "st \<le> p" "bundle_starts (seen @ [t]) = 0 \<or> length pre < st"
    using i(4-6) t by (auto simp: st_def split: if_splits)
  have enough: "regno \<in> set (insn_uses t) \<Longrightarrow> lat t \<le> c + int n" by (auto simp: n_def)
  show ?thesis
  proof (cases "n = 0")
    case True
    have "scanned lat regno k bb (seen @ [t]) todo (Suc p1) s1 c1 ch1"
      unfolding scanned_def
      using i st enough True t by (intro exI[of _ pre] exI[of _ i]) (auto simp: r uses_far_append c_def)
    with r(5) th True show ?thesis by (auto simp: r)
  next
    case False
    then have use: "regno \<in> set (insn_uses t)" "c < lat t" by (auto simp: n_def split: if_splits)
    have "length pre < st"
      using st(2) bundle_free_use[of lat regno seen t todo] i(9) t use by (auto simp: c_def)
    then obtain d1 d2 b where d: "seen = d1 @ d2" "ch1 = pre @ i # d1 @ replicate n (nop_insn b) @ d2 @ t # todo"
      using emit_in_seen[OF i(3), of st n] st(1) i(4) r(4) by metis
    let ?seen = "d1 @ replicate n (nop_insn b) @ d2 @ [t]"
    have "uses_far lat regno bb 0 (d1 @ replicate n (nop_insn b) @ d2)"
      using i(8) uses_far_insert by (simp add: d(1))
    moreover have "bundle_starts ?seen = c + int n" by (simp add: c_def d(1))
    ultimately have far: "uses_far lat regno bb 0 ?seen" "c1 = bundle_starts ?seen"
      using enough by (auto simp: uses_far_append r(3) add.assoc c_def d(1))
    have free: "bundle_free lat regno (?seen @ todo)"
      using i(9) bundle_free_insert[of lat regno d1 "d2 @ t # todo"] by (simp add: d(1))
    have ids: "k \<notin> insn_id ` set (pre @ ?seen @ todo)"
      using i(2) k by (auto simp: nop_insn_def d(1))
    have p1: "p1 = length (pre @ i # d1 @ replicate n (nop_insn b) @ d2)" by (simp add: r(1) i(4) d(1))
    have ch1: "ch1 = (pre @ i # d1 @ replicate n (nop_insn b) @ d2) @ t # todo" by (simp add: d(2))
    have "ch1 ! p1 = t" unfolding ch1 p1 by (rule nth_append_length)
    moreover have "scanned lat regno k bb ?seen todo (Suc p1) s1 c1 ch1"
      unfolding scanned_def
      using ids far free i(1) p1 ch1 st(1) \<open>length pre < st\<close> r(1,2) by (intro exI[of _ pre] exI[of _ i]) auto
    ultimately show ?thesis using r(5) by blast
  qed
qed

lemma scan_loop_separates:
  assumes "k \<noteq> 0" "\<And>i. lat i \<le> M"
  shows "scan_loop fuel lat succs regno k bb p start cycle left ch = Some ch' \<Longrightarrow>
    scanned lat regno k bb seen todo p start cycle ch \<Longrightarrow> cycle + left = M \<Longrightarrow> uses_far lat regno bb 0 (after k ch')"
proof (induction fuel arbitrary: p start cycle left ch ch' "seen" todo)
  case (Suc fuel)
  note after = scanned_after[OF Suc.prems(2)]
  show ?case
  proof (cases todo)
    case Nil
    from Suc.prems(2) have "length ch \<le> p" "uses_far lat regno bb 0 seen"
      by (auto simp: scanned_def Nil)
    with Suc.prems(1) after show ?thesis by (simp add: Nil split: if_splits)
  next
    case (Cons t ts)
    have p: "\<not> length ch \<le> p" "ch ! p = t" using Suc.prems(2) by (auto simp: scanned_def Cons nth_append)
    show ?thesis
    proof (cases "insn_real t")
      case False
      from scanned_skip[OF Suc.prems(2)[unfolded Cons] False] Suc.IH Suc.prems(1,3) False p show ?thesis
        by auto
    next
      case True
      have id: "k \<noteq> insn_id t" using Suc.prems(2) by (auto simp: scanned_def Cons)
      obtain p1 s1 c1 l1 ch1 where si: "scan_insn lat regno p start cycle left ch = (p1, s1, c1, l1, ch1)"
        by (cases "scan_insn lat regno p start cycle left ch")
      from scanned_insn[OF Suc.prems(2)[unfolded Cons] True assms(1) si] obtain seen1 where
        sc: "scanned lat regno k bb seen1 ts (Suc p1) s1 c1 ch1" "ch1 ! p1 = t" "c1 + l1 = M"
        using Suc.prems(3) by auto
      have far: "uses_far lat regno bb 0 seen1" "c1 = bundle_starts seen1" using sc(1) by (auto simp: scanned_def)
      have here: "uses_far lat regno bb c1 ts \<Longrightarrow> uses_far lat regno bb 0 (after k ch1)"
        using far by (simp add: scanned_after[OF sc(1)] uses_far_append)
      consider "l1 \<le> 0" | "0 < l1" "is_bb_end bb p1 ch1" | "0 < l1" "\<not> is_bb_end bb p1 ch1" by linarith
      then show ?thesis
      proof cases
        case 1
        have "lat i \<le> c1" for i using assms(2)[of i] sc(3) 1 by linarith
        from here[OF uses_far_late[OF this]] 1 Suc.prems(1) p True id si show ?thesis by simp
      next
        case 2
        have "drop (Suc p1) ch1 = ts" using sc(1) by (auto simp: scanned_def)
        with 2 have h: "uses_far lat regno bb 0 (after k ch1)"
          by (intro here uses_far_elsewhere) (simp add: is_bb_end_def)
        have inv: "(case bb_head d ch2 of None \<Rightarrow> Some ch2
            | Some h \<Rightarrow> scan_loop fuel lat succs regno k d h h c1 l1 ch2) = Some ch3 \<Longrightarrow>
            uses_far lat regno bb 0 (after k ch2) \<Longrightarrow> uses_far lat regno bb 0 (after k ch3)" for d ch2 ch3
          using scan_loop_invariant[where P = "\<lambda>ch. uses_far lat regno bb 0 (after k ch)", OF uses_far_emit[OF assms(1)]]
          by (auto split: option.splits)
        show ?thesis
          using each_of_invariant[where P = "\<lambda>ch. uses_far lat regno bb 0 (after k ch)", OF inv _ h] 2 Suc.prems(1) p True id si
          by auto
      next
        case 3
        with Suc.IH[OF _ sc(1,3)] Suc.prems(1) p True id si show ?thesis by simp
      qed
    qed
  qed
qed simp

section \<open>The whole pass\<close>

text \<open>The instruction is in the chain, once, and its bundle has no use of the register it sets.\<close>

definition placed :: "(rtl_insn \<Rightarrow> int) \<Rightarrow> nat \<Rightarrow> rtl_insn \<Rightarrow> chain \<Rightarrow> bool" where
  "placed lat regno i ch \<longleftrightarrow>
     (\<exists>pre rest. ch = pre @ i # rest \<and> insn_id i \<notin> insn_id ` set (pre @ rest) \<and> bundle_free lat regno rest)"

lemma placed_emit:
  assumes "insn_id i \<noteq> 0" "placed lat regno i ch"
  shows "placed lat regno i (emit_nops_before n p ch)"
proof -
  obtain pre rest where ch: "ch = pre @ i # rest" "insn_id i \<notin> insn_id ` set (pre @ rest)" "bundle_free lat regno rest"
    using assms(2) by (auto simp: placed_def)
  let ?nops = "replicate n (nop_insn (insn_block (ch ! p)))"
  have nops: "insn_id i \<notin> insn_id ` set ?nops" using assms(1) by (auto simp: nop_insn_def)
  have in_part: "insn_id i \<notin> insn_id ` set (take m xs)" "insn_id i \<notin> insn_id ` set (drop m xs)"
    if "insn_id i \<notin> insn_id ` set xs" for m xs
    using that by (auto dest: in_set_takeD in_set_dropD)
  show ?thesis
  proof (cases "p \<le> length pre")
    case True
    then have "emit_nops_before n p ch = (take p pre @ ?nops @ drop p pre) @ i # rest"
      by (simp add: emit_nops_before_def ch(1))
    with ch(2,3) nops in_part[of pre p] show ?thesis unfolding placed_def
      by (intro exI[of _ "take p pre @ ?nops @ drop p pre"] exI[of _ rest]) auto
  next
    case False
    then obtain m where m: "p = Suc (length pre) + m" by (metis add_Suc less_imp_Suc_add not_le)
    have "emit_nops_before n p ch = pre @ i # take m rest @ ?nops @ drop m rest"
      by (simp add: emit_nops_before_def ch(1) m)
    moreover have "bundle_free lat regno (take m rest @ ?nops @ drop m rest)"
      using ch(3) by (intro bundle_free_insert) simp
    ultimately show ?thesis
      using ch(2) nops in_part[of rest m] unfolding placed_def
      by (intro exI[of _ pre] exI[of _ "take m rest @ ?nops @ drop m rest"]) auto
  qed
qed

lemma insn_position_split: "insn_id i \<notin> insn_id ` set pre \<Longrightarrow> insn_position (insn_id i) (pre @ i # rest) = Some (length pre)"
  by (induction pre) auto

lemma insert_nop_insn_invariant:
  assumes "\<And>n p ch. p < length ch \<Longrightarrow> P ch \<Longrightarrow> P (emit_nops_before n p ch)"
  shows "P ch \<Longrightarrow> insert_nop_insn fuel ilat mlat succs j ch = Some ch' \<Longrightarrow> P ch'"
  using scan_loop_invariant[of P, OF assms]
  by (auto simp: insert_nop_insn_def insert_nop_bb_scan_def split: option.splits if_splits)

lemma insert_nop_insn_separates:
  assumes "insn_id i \<noteq> 0" "insn_set i = Some regno" "insn_real i" "\<And>j. ilat i j \<le> mlat i"
    and "placed (ilat i) regno i ch" "insert_nop_insn fuel ilat mlat succs i ch = Some ch'"
  shows "uses_far (ilat i) regno (insn_block i) 0 (after (insn_id i) ch')"
proof -
  obtain pre rest where ch: "ch = pre @ i # rest" "insn_id i \<notin> insn_id ` set (pre @ rest)" "bundle_free (ilat i) regno rest"
    using assms(5) by (auto simp: placed_def)
  have pos: "insn_position (insn_id i) ch = Some (length pre)" 
    using ch(2) insn_position_split[of i pre rest] by (simp add: ch(1) image_Un)
  have here: "ch ! length pre = i" by (simp add: ch(1))
  have loop: "scan_loop fuel (ilat i) succs regno (insn_id i) (insn_block i) (length pre) (length pre) 0 (mlat i) ch = Some ch'"
    using assms(2,3,6) by (simp add: insert_nop_insn_def pos insert_nop_bb_scan_def here)
  then obtain f where f: "fuel = Suc f" by (cases fuel) simp_all
  have "scan_loop f (ilat i) succs regno (insn_id i) (insn_block i) (Suc (length pre)) (length pre) 0 (mlat i) ch = Some ch'"
    using loop by (simp add: f here) (simp add: ch(1))
  moreover have "scanned (ilat i) regno (insn_id i) (insn_block i) [] rest (Suc (length pre)) (length pre) 0 ch"
    unfolding scanned_def using ch by (intro exI[of _ pre] exI[of _ i]) simp
  ultimately show ?thesis using scan_loop_separates[OF assms(1,4)] by simp
qed

lemma each_of_append: "each_of f (xs @ ys) ch = Option.bind (each_of f xs ch) (each_of f ys)"
  by (induction xs arbitrary: ch) (simp_all split: bind_split)

text \<open>C30: After the pass every use in the block comes at least the latency after the instruction.\<close>

theorem insert_nop_separates:
  assumes "insert_nop fuel ilat mlat succs blocks ch = Some ch'"
    and "i \<in> set ch" "insn_block i \<in> set blocks" "insn_set i = Some regno" "insn_real i"
    and "distinct (map insn_id ch)" "insn_id i \<noteq> 0" "\<And>j. ilat i j \<le> mlat i"
    and "bundle_free (ilat i) regno (after (insn_id i) ch)"
  shows "uses_far (ilat i) regno (insn_block i) 0 (after (insn_id i) ch')"
proof -
  let ?step = "insert_nop_insn fuel ilat mlat succs"
  have "i \<in> set (concat (map (\<lambda>b. filter (\<lambda>i. insn_block i = b) ch) blocks))" using assms(2,3) by auto
  then obtain xs ys where xy: "concat (map (\<lambda>b. filter (\<lambda>i. insn_block i = b) ch) blocks) = xs @ i # ys"
    by (meson split_list)
  obtain ch1 ch2 where s: "each_of ?step xs ch = Some ch1" "?step i ch1 = Some ch2" "each_of ?step ys ch2 = Some ch'"
    using assms(1) by (auto simp: insert_nop_def xy each_of_append bind_eq_Some_conv)
  obtain pre rest where ch: "ch = pre @ i # rest" using assms(2) by (meson split_list)
  then have "insn_id i \<notin> insn_id ` set (pre @ rest)" using assms(6) by auto
  moreover from this have "bundle_free (ilat i) regno rest" 
    using assms(9) after_split[of "insn_id i" pre i rest] by (simp add: ch image_Un)
  ultimately have "placed (ilat i) regno i ch" unfolding placed_def using ch by blast
  with s(1) have "placed (ilat i) regno i ch1"
    by (rule each_of_invariant[rotated]) (rule insert_nop_insn_invariant[where P = "placed (ilat i) regno i", OF placed_emit[OF assms(7)]])
  let ?far = "\<lambda>ch. uses_far (ilat i) regno (insn_block i) 0 (after (insn_id i) ch)"
  from s(3) insert_nop_insn_separates[OF assms(7,4,5,8) \<open>placed (ilat i) regno i ch1\<close> s(2)]
  show "?far ch'"
    by (rule each_of_invariant[rotated])
      (rule insert_nop_insn_invariant[where P = ?far, OF uses_far_emit[OF assms(7)]])
qed

section \<open>Termination\<close>

text \<open>
  Every block that an edge leads to has a bundle that starts with another insn than the source, or is
  the exit.
\<close>

definition opens :: "nat \<Rightarrow> nat \<Rightarrow> chain \<Rightarrow> bool" where
  "opens src d ch \<longleftrightarrow> (\<exists>t\<in>set ch. insn_block t = d \<and> insn_real t \<and> insn_starts t \<and> insn_id t \<noteq> src)"

definition passable :: "(nat \<Rightarrow> nat list) \<Rightarrow> nat \<Rightarrow> chain \<Rightarrow> bool" where
  "passable succs src ch \<longleftrightarrow> (\<forall>b. \<forall>d\<in>set (succs b). d \<in> insn_block ` set ch \<longrightarrow> opens src d ch)"

lemma set_emit: "set (emit_nops_before n p ch) = set ch \<union> set (replicate n (nop_insn (insn_block (ch ! p))))"
  unfolding emit_nops_before_def by (simp add: Un_assoc) (metis Un_left_commute append_take_drop_id set_append sup_commute)

lemma passable_emit: "p < length ch \<Longrightarrow> passable succs src ch \<Longrightarrow> passable succs src (emit_nops_before n p ch)"
proof -
  assume p: "p < length ch" and pass: "passable succs src ch"
  from p have blocks: "insn_block ` set (emit_nops_before n p ch) = insn_block ` set ch"
    by (auto simp: set_emit nop_insn_def image_Un)
  have "set ch \<subseteq> set (emit_nops_before n p ch)" by (simp add: set_emit)
  then have "opens src d ch \<Longrightarrow> opens src d (emit_nops_before n p ch)" for d
    unfolding opens_def by blast
  with pass show ?thesis unfolding passable_def blocks by blast
qed

lemma each_of_mono:
  "(\<And>d ch ch'. f d ch = Some ch' \<Longrightarrow> g d ch = Some ch') \<Longrightarrow> each_of f ds ch = Some ch' \<Longrightarrow> each_of g ds ch = Some ch'"
  by (induction ds arbitrary: ch) (auto simp: bind_eq_Some_conv)

lemma scan_loop_mono:
  "f \<le> g \<Longrightarrow> scan_loop f lat succs regno src bb p start cycle left ch = Some ch' \<Longrightarrow>
   scan_loop g lat succs regno src bb p start cycle left ch = Some ch'"
proof (induction f arbitrary: g bb p start cycle left ch ch')
  case (Suc f)
  from Suc.prems(1) obtain g' where g: "g = Suc g'" "f \<le> g'" by (cases g) auto
  obtain p1 s1 c1 l1 ch1 where si: "scan_insn lat regno p start cycle left ch = (p1, s1, c1, l1, ch1)"
    by (cases "scan_insn lat regno p start cycle left ch")
  have m: "each_of (\<lambda>d ch. case bb_head d ch of None \<Rightarrow> Some ch
        | Some h \<Rightarrow> scan_loop f lat succs regno src d h h c1 l1 ch) ds ch1 = Some ch' \<Longrightarrow>
      each_of (\<lambda>d ch. case bb_head d ch of None \<Rightarrow> Some ch
        | Some h \<Rightarrow> scan_loop g' lat succs regno src d h h c1 l1 ch) ds ch1 = Some ch'" for ds
    by (erule each_of_mono[rotated]) (use Suc.IH[OF g(2)] in \<open>auto split: option.splits\<close>)
  show ?case using Suc.prems Suc.IH[OF g(2)] m by (auto simp: g si split: if_splits)
qed simp

text \<open>A walk whose steps return with enough fuel, and only more with more, returns.\<close>

lemma each_of_returns:
  assumes mono: "\<And>m n d ch ch'. m \<le> n \<Longrightarrow> f m d ch = Some ch' \<Longrightarrow> f n d ch = Some ch'"
    and kept: "\<And>n d ch ch'. P ch \<Longrightarrow> f n d ch = Some ch' \<Longrightarrow> P ch'"
    and returns: "\<And>d ch. d \<in> set ds \<Longrightarrow> P ch \<Longrightarrow> \<exists>n ch'. f (n::nat) d ch = Some ch'"
  shows "P ch \<Longrightarrow> \<exists>n ch'. each_of (f n) ds ch = Some ch'"
  using returns
proof (induction ds arbitrary: ch)
  case (Cons d ds)
  obtain n ch1 where n: "f n d ch = Some ch1" using Cons.prems(2)[OF _ Cons.prems(1)] by force
  obtain m ch2 where m: "each_of (f m) ds ch1 = Some ch2"
    using Cons.IH[OF kept[OF Cons.prems(1) n]] Cons.prems(2) by auto
  have "f (max m n) d ch = Some ch1" using mono[OF max.cobounded2 n] .
  moreover have "each_of (f (max m n)) ds ch1 = Some ch2"
    using mono[OF max.cobounded1[of m n]] m by (rule each_of_mono)
  ultimately show ?case by (intro exI[of _ "max m n"] exI[of _ ch2]) simp
qed simp

text \<open>The measure: the cycles left, whether the block has a bundle left to start, and the length of the rest.\<close>

definition scan_measure :: "nat \<Rightarrow> nat \<Rightarrow> nat \<Rightarrow> int \<Rightarrow> chain \<Rightarrow> nat \<times> nat \<times> nat" where
  "scan_measure src bb p left ch = (nat left, if opens src bb (drop p ch) then 0 else 1, length ch - p)"

abbreviation scan_less :: "((nat \<times> nat \<times> nat) \<times> (nat \<times> nat \<times> nat)) set" where
  "scan_less \<equiv> less_than <*lex*> less_than <*lex*> less_than"

lemma scan_less_cycles: "l1 < left \<Longrightarrow> 0 < left \<Longrightarrow> (scan_measure src b q l1 ch1, scan_measure src bb p left ch) \<in> scan_less"
  by (simp add: scan_measure_def)

lemma drop_nth: "p < length ch \<Longrightarrow> drop p ch = ch ! p # drop (Suc p) ch"
  by (rule Cons_nth_drop_Suc[symmetric])

lemma scan_less_next:
  assumes "p < length ch" "\<not> (insn_real (ch ! p) \<and> insn_starts (ch ! p) \<and> insn_id (ch ! p) \<noteq> src)"
  shows "(scan_measure src bb (Suc p) left ch, scan_measure src bb p left ch) \<in> scan_less"
proof -
  have "opens src bb (drop p ch) = opens src bb (drop (Suc p) ch)"
    using assms by (auto simp: opens_def drop_nth)
  with assms(1) show ?thesis by (simp add: scan_measure_def)
qed

lemma bb_head_some: "bb_head d ch = Some h \<Longrightarrow> d \<in> insn_block ` set ch"
  by (induction ch arbitrary: h) (auto split: if_splits)

lemma bb_head_opens: "bb_head d ch = Some h \<Longrightarrow> opens src d ch \<Longrightarrow> opens src d (drop h ch)"
  by (induction ch arbitrary: h) (auto simp: opens_def split: if_splits)

lemma scan_less_succ:
  assumes "p < length ch" "\<not> insn_starts (ch ! p)" "is_bb_end bb p ch" "bb_head d ch2 = Some h" "opens src d ch2"
  shows "(scan_measure src d h left ch2, scan_measure src bb p left ch) \<in> scan_less"
proof -
  have "\<not> opens src bb (drop p ch)"
    using assms(1-3) by (auto simp: opens_def drop_nth is_bb_end_def list_all_iff)
  with bb_head_opens[OF assms(4,5)] show ?thesis by (simp add: scan_measure_def)
qed

lemma scan_insn_progress:
  assumes "scan_insn lat regno p start cycle left ch = (p1, s1, c1, l1, ch1)"
  shows "l1 < left \<or> l1 = left \<and> \<not> insn_starts (ch ! p) \<and> p1 = p \<and> s1 = start \<and> ch1 = ch"
  using assms by (auto simp: scan_insn_def Let_def split: if_splits)

lemma wf_scan_less: "wf scan_less"
  by auto

lemma scan_loop_returns:
  "start \<le> p \<Longrightarrow> passable succs src ch \<Longrightarrow>
   \<exists>fuel ch'. scan_loop fuel lat succs regno src bb p start cycle left ch = Some ch'"
proof (induction "scan_measure src bb p left ch" arbitrary: bb p start cycle left ch
    rule: wf_induct_rule[OF wf_scan_less])
  case (1 bb p left ch start cycle)
  note IH = 1(1)
  show ?case
  proof (cases "p < length ch \<and> insn_real (ch ! p) \<and> src \<noteq> insn_id (ch ! p)")
    case False
    show ?thesis
    proof (cases "p < length ch")
      case True
      with False scan_less_next[of p ch src] IH[of bb "Suc p" left ch start cycle] 1(2,3) obtain fuel ch' where
        "scan_loop fuel lat succs regno src bb (Suc p) start cycle left ch = Some ch'" by fastforce
      with False True show ?thesis by (intro exI[of _ "Suc fuel"] exI[of _ ch']) auto
    next
      case False
      then show ?thesis by (intro exI[of _ 1]) simp
    qed
  next
    case True
    obtain p1 s1 c1 l1 ch1 where si: "scan_insn lat regno p start cycle left ch = (p1, s1, c1, l1, ch1)"
      by (cases "scan_insn lat regno p start cycle left ch")
    have s1: "s1 \<le> p1" and ch1: "passable succs src ch1"
      using si 1(2,3) True by (auto simp: scan_insn_def Let_def intro!: passable_emit split: if_splits)
    consider "l1 \<le> 0" | "0 < l1" "is_bb_end bb p1 ch1" | "0 < l1" "\<not> is_bb_end bb p1 ch1" by linarith
    then show ?thesis
    proof cases
      case 1
      with True si show ?thesis by (intro exI[of _ 1]) simp
    next
      case 2
      let ?into = "\<lambda>fuel d ch. case bb_head d ch of None \<Rightarrow> Some ch
          | Some h \<Rightarrow> scan_loop fuel lat succs regno src d h h c1 l1 ch"
      have into: "\<exists>fuel ch3. ?into fuel d ch2 = Some ch3" if d: "d \<in> set (succs bb)" "passable succs src ch2" for d ch2
      proof (cases "bb_head d ch2")
        case (Some h)
        with d have "opens src d ch2" by (auto simp: passable_def dest: bb_head_some)
        then have "(scan_measure src d h l1 ch2, scan_measure src bb p left ch) \<in> scan_less"
          using scan_insn_progress[OF si] 2 True scan_less_cycles scan_less_succ[OF _ _ _ Some] by fastforce
        from IH[OF this order_refl d(2)] Some show ?thesis by simp
      qed simp
      have "\<exists>fuel ch'. each_of (?into fuel) (succs bb) ch1 = Some ch'"
        using _ _ into ch1
      proof (rule each_of_returns)
        show "?into m d c = Some c' \<Longrightarrow> ?into n d c = Some c'" if "m \<le> n" for m n d c c'
          using scan_loop_mono[OF that] by (auto split: option.splits)
        show "passable succs src c \<Longrightarrow> ?into n d c = Some c' \<Longrightarrow> passable succs src c'" for n d c c'
          using scan_loop_invariant[of "passable succs src", OF passable_emit] by (auto split: option.splits)
      qed
      then obtain fuel ch' where "each_of (?into fuel) (succs bb) ch1 = Some ch'" by blast
      with True si 2 show ?thesis by (intro exI[of _ "Suc fuel"] exI[of _ ch']) simp
    next
      case 3
      have "(scan_measure src bb (Suc p1) l1 ch1, scan_measure src bb p left ch) \<in> scan_less"
        using scan_insn_progress[OF si] 3 True scan_less_cycles scan_less_next[of p ch src bb left] by fastforce
      from IH[OF this _ ch1, of s1 c1] s1 obtain fuel ch' where
        "scan_loop fuel lat succs regno src bb (Suc p1) s1 c1 l1 ch1 = Some ch'" by auto
      with True si 3 show ?thesis by (intro exI[of _ "Suc fuel"] exI[of _ ch']) simp
    qed
  qed
qed

lemma insert_nop_insn_mono:
  "f \<le> g \<Longrightarrow> insert_nop_insn f ilat mlat succs i ch = Some ch' \<Longrightarrow> insert_nop_insn g ilat mlat succs i ch = Some ch'"
  using scan_loop_mono[of f g]
  by (auto simp: insert_nop_insn_def insert_nop_bb_scan_def split: option.splits)

lemma insert_nop_insn_returns:
  assumes "insn_set i \<noteq> None \<Longrightarrow> passable succs (insn_id i) ch"
  shows "\<exists>fuel ch'. insert_nop_insn fuel ilat mlat succs i ch = Some ch'"
proof (cases "insn_real i \<and> insn_set i \<noteq> None \<and> insn_position (insn_id i) ch \<noteq> None")
  case True
  then obtain r p where r: "insn_set i = Some r" "insn_position (insn_id i) ch = Some p" by auto
  then show ?thesis
    using True assms scan_loop_returns[OF order_refl, of succs "insn_id i" ch "ilat i" r]
    by (simp add: insert_nop_insn_def insert_nop_bb_scan_def)
qed (auto simp: insert_nop_insn_def split: option.splits)

text \<open>C31: The pass ends when every block an edge leads to has a bundle that does not start with the source.\<close>

theorem insert_nop_returns:
  assumes "\<And>i. i \<in> set ch \<Longrightarrow> insn_set i \<noteq> None \<Longrightarrow> passable succs (insn_id i) ch"
  shows "\<exists>fuel ch'. insert_nop fuel ilat mlat succs blocks ch = Some ch'"
proof -
  let ?is = "concat (map (\<lambda>b. filter (\<lambda>i. insn_block i = b) ch) blocks)"
  let ?P = "\<lambda>c. \<forall>i\<in>set ch. insn_set i \<noteq> None \<longrightarrow> passable succs (insn_id i) c"
  have "\<exists>n ch'. each_of (insert_nop_insn n ilat mlat succs) ?is ch = Some ch'"
  proof (rule each_of_returns[where P = ?P])
    show "\<exists>n c'. insert_nop_insn n ilat mlat succs i c = Some c'" if "i \<in> set ?is" "?P c" for i c
      using that by (intro insert_nop_insn_returns) auto
    show "?P c \<Longrightarrow> insert_nop_insn n ilat mlat succs i c = Some c' \<Longrightarrow> ?P c'" for n i c c'
      by (rule insert_nop_insn_invariant[where P = ?P]) (auto intro: passable_emit)
  qed (use assms in \<open>auto intro: insert_nop_insn_mono\<close>)
  then show ?thesis by (simp add: insert_nop_def)
qed

text \<open>
  A load into register 8 that starts a bundle, an insn that starts a bundle of its own, and a use of
  register 8 in the next bundle; the block is a loop.
\<close>

definition sample_insn :: "nat \<Rightarrow> bool \<Rightarrow> nat list \<Rightarrow> nat option \<Rightarrow> rtl_insn" where
  "sample_insn k starts uses st =
     \<lparr>insn_id = k, insn_real = True, insn_starts = starts, insn_block = 1, insn_uses = uses, insn_set = st\<rparr>"

definition sample_chain :: chain where
  "sample_chain = [sample_insn 1 True [] (Some 8), sample_insn 2 True [] None, sample_insn 3 True [8] None]"

lemma sample_nops:
  "insert_nop 9 (\<lambda>_ _. 3) (\<lambda>_. 3) (\<lambda>_. [1]) [1] sample_chain =
     Some [sample_insn 1 True [] (Some 8), sample_insn 2 True [] None, nop_insn 1, sample_insn 3 True [8] None]"
  by code_simp

theorem insert_nop_separates_witness:
  "\<exists>ch'. insert_nop 9 (\<lambda>_ _. 3) (\<lambda>_. 3) (\<lambda>_. [1]) [1] sample_chain = Some ch' \<and>
     uses_far (\<lambda>_. 3) 8 1 0 (after 1 ch')"
  using insert_nop_separates[OF sample_nops, of "sample_insn 1 True [] (Some 8)" 8] sample_nops
  by (simp add: sample_chain_def sample_insn_def after_def)

theorem insert_nop_returns_witness:
  "\<exists>fuel ch'. insert_nop fuel (\<lambda>_ _. 3) (\<lambda>_. 3) (\<lambda>_. [1]) [1] sample_chain = Some ch'"
  by (rule insert_nop_returns) (auto simp: sample_chain_def sample_insn_def passable_def opens_def)

text \<open>
  Without such a bundle it does not: in a loop of one bundle whose first insn sets a register, the
  scan meets no start of a bundle and follows the edge back to the block for ever.
\<close>

definition one_bundle_loop :: chain where
  "one_bundle_loop = [sample_insn 1 True [] (Some 8), sample_insn 2 False [] None]"

lemma insert_nop_diverges: "insert_nop fuel (\<lambda>_ _. 1) (\<lambda>_. 1) (\<lambda>_. [1]) [1] one_bundle_loop = None"
proof -
  have "p \<le> 1 \<Longrightarrow> scan_loop fuel (\<lambda>_. 1) (\<lambda>_. [1]) 8 1 1 p 0 0 1 one_bundle_loop = None" for p
  proof (induction fuel arbitrary: p)
    case (Suc fuel)
    then show ?case
      by (cases p) (simp_all add: one_bundle_loop_def sample_insn_def scan_insn_def is_bb_end_def emit_zero[unfolded emit_nops_before_def])
  qed simp
  from this[of 0] show ?thesis
    by (simp add: insert_nop_def insert_nop_insn_def insert_nop_bb_scan_def one_bundle_loop_def sample_insn_def)
qed

end
