(* ===== verification/GccPrint.thy ===== *)
theory GccPrint
  imports GccRegs Passes
begin

text \<open>
  Addresses and assembler output of the GCC port (\<open>ajardsp.c\<close>): which addresses are legitimate, how
  operands, addresses, labels and data are printed, and the marks that tell the bundles of a
  function apart.

  RTL is GCC's; \<^term>\<open>rtx\<close> has the codes the port looks at, and \<open>Node\<close> for any other with its class.
  \<open>assemble_name\<close>, \<open>memory_address_p\<close>, \<open>force_reg\<close> and \<open>main_input_filename\<close> are parameters.  Text
  goes to two places: the assembler file, and the standard output for the messages of the port.
\<close>

section \<open>RTL expressions\<close>

datatype rtx_class = Const_obj | Comparison | Arithmetic | Autoinc | Other_class

datatype rtx =
    Reg_x machine_mode int
  | Subreg_x rtx
  | Mem_x rtx
  | Plus_x rtx rtx
  | Const_int_x int
  | Symbol_ref_x string
  | Label_ref_x string
  | Const_x rtx
  | Node rtx_class string "rtx list"

fun CONSTANT_P :: "rtx \<Rightarrow> bool" where
  "CONSTANT_P (Const_int_x i) = True"
| "CONSTANT_P (Symbol_ref_x s) = True"
| "CONSTANT_P (Label_ref_x s) = True"
| "CONSTANT_P (Const_x x) = True"
| "CONSTANT_P (Node c n xs) = (c = Const_obj)"
| "CONSTANT_P _ = False"

definition is_node :: "string \<Rightarrow> rtx \<Rightarrow> bool" where
  "is_node n x = (case x of Node c m xs \<Rightarrow> m = n | _ \<Rightarrow> False)"

definition COMPARISON_P :: "rtx \<Rightarrow> bool" where
  "COMPARISON_P x = (case x of Node c m xs \<Rightarrow> c = Comparison | _ \<Rightarrow> False)"

definition ARITHMETIC_P :: "rtx \<Rightarrow> bool" where
  "ARITHMETIC_P x = (case x of Node c m xs \<Rightarrow> c = Arithmetic | Plus_x a b \<Rightarrow> True | _ \<Rightarrow> False)"

section \<open>Addresses\<close>

definition constant_address_p :: "rtx \<Rightarrow> bool" where
  "constant_address_p X \<longleftrightarrow> CONSTANT_P X \<and> \<not> is_node ''const_double'' X \<and> \<not> is_node ''const_vector'' X"

text \<open>The two variants differ in the test of the register.\<close>

definition legitimate_address_strict :: "rtx \<Rightarrow> bool" where
  "legitimate_address_strict X =
     (case X of
        Reg_x m r \<Rightarrow> is_base_reg r
      | Plus_x op1 op2 \<Rightarrow>
          (case op1 of Reg_x m r \<Rightarrow> constant_address_p op2 \<and> is_base_reg r | _ \<Rightarrow> False) \<or>
          (case op2 of Reg_x m r \<Rightarrow> constant_address_p op1 \<and> is_base_reg r | _ \<Rightarrow> False)
      | _ \<Rightarrow> False)"

definition legitimate_address_non_strict :: "rtx \<Rightarrow> bool" where
  "legitimate_address_non_strict X =
     (case X of
        Reg_x m r \<Rightarrow> non_strict_base_reg r
      | Plus_x op1 op2 \<Rightarrow>
          (case op1 of Reg_x m r \<Rightarrow> constant_address_p op2 \<and> non_strict_base_reg r | _ \<Rightarrow> False) \<or>
          (case op2 of Reg_x m r \<Rightarrow> constant_address_p op1 \<and> non_strict_base_reg r | _ \<Rightarrow> False)
      | _ \<Rightarrow> False)"

definition reg_ok_for_base_strict_p :: "rtx \<Rightarrow> bool" where
  "reg_ok_for_base_strict_p x = (case x of Reg_x m r \<Rightarrow> is_base_reg r | _ \<Rightarrow> False)"

definition reg_ok_for_base_non_strict_p :: "rtx \<Rightarrow> bool" where
  "reg_ok_for_base_non_strict_p x = (case x of Reg_x m r \<Rightarrow> non_strict_base_reg r | _ \<Rightarrow> False)"

definition reg_ok_for_index_strict_p :: "rtx \<Rightarrow> bool" where
  "reg_ok_for_index_strict_p x = (case x of Reg_x m r \<Rightarrow> is_index_reg r | _ \<Rightarrow> False)"

definition reg_ok_for_index_non_strict_p :: "rtx \<Rightarrow> bool" where
  "reg_ok_for_index_non_strict_p x = (case x of Reg_x m r \<Rightarrow> non_strict_index_reg r | _ \<Rightarrow> False)"

definition is_reg :: "rtx \<Rightarrow> bool" where
  "is_reg x = (case x of Reg_x m r \<Rightarrow> True | _ \<Rightarrow> False)"

definition legitimize_address ::
    "(rtx \<Rightarrow> bool) \<Rightarrow> (rtx \<Rightarrow> rtx) \<Rightarrow> bool \<Rightarrow> rtx \<Rightarrow> rtx" where
  "legitimize_address memory_address_p force_reg can_create_pseudo_p X =
     (if memory_address_p X then X
      else
        let op = (case X of
              Mem_x y \<Rightarrow> if can_create_pseudo_p then Some (force_reg X) else None
            | Plus_x op1 op2 \<Rightarrow>
                if can_create_pseudo_p \<and>
                   (is_reg op1 \<and> \<not> constant_address_p op2 \<or> is_reg op2 \<and> \<not> constant_address_p op1)
                then Some (force_reg X) else None
            | _ \<Rightarrow> None)
        in case op of
             Some y \<Rightarrow> if memory_address_p y then y else X
           | None \<Rightarrow> X)"

definition legitimate_constant_p :: "rtx \<Rightarrow> bool" where
  "legitimate_constant_p X \<longleftrightarrow> \<not> is_node ''const_double'' X"

definition ajardsp_address_cost :: "rtx \<Rightarrow> nat" where
  "ajardsp_address_cost x =
     (case x of
        Node c n xs \<Rightarrow>
          if n \<in> {''pre_inc'', ''pre_dec'', ''post_inc'', ''post_dec''} then 0
          else if n = ''minus'' then
            (case xs of
               [a, b] \<Rightarrow> (case a of Const_int_x i \<Rightarrow> 2 | _ \<Rightarrow> if ARITHMETIC_P a \<or> ARITHMETIC_P b then 3 else 4)
             | _ \<Rightarrow> 4)
          else 6
      | Mem_x y \<Rightarrow> 10
      | Label_ref_x l \<Rightarrow> 10
      | Symbol_ref_x s \<Rightarrow> 10
      | Plus_x a b \<Rightarrow> (case a of Const_int_x i \<Rightarrow> 2 | _ \<Rightarrow> if ARITHMETIC_P a \<or> ARITHMETIC_P b then 3 else 4)
      | _ \<Rightarrow> 6)"

section \<open>Predicates of the instruction patterns\<close>

definition symbolic_operand :: "rtx \<Rightarrow> bool" where
  "symbolic_operand op =
     (case op of Const_x x \<Rightarrow> True | Symbol_ref_x s \<Rightarrow> True | Label_ref_x l \<Rightarrow> True | _ \<Rightarrow> False)"

definition constant_operand :: "rtx \<Rightarrow> bool" where
  "constant_operand op = (case op of Const_int_x i \<Rightarrow> i \<le> 0xff | _ \<Rightarrow> False)"

definition zero_register_operand :: "rtx \<Rightarrow> bool" where
  "zero_register_operand op = (case op of Reg_x m r \<Rightarrow> r = 0 | _ \<Rightarrow> False)"

definition LO_register_operand :: "rtx \<Rightarrow> bool" where
  "LO_register_operand op = (case op of Reg_x m r \<Rightarrow> r = 26 | _ \<Rightarrow> False)"

definition addr_register_operand :: "rtx \<Rightarrow> machine_mode \<Rightarrow> bool" where
  "addr_register_operand op mode =
     (case op of
        Reg_x m r \<Rightarrow>
          \<not> (m \<noteq> mode \<and> mode \<noteq> QImode) \<and>
          (AJARDSP_REGNO_FIRST_PTR \<le> r \<and> r \<le> AJARDSP_REGNO_LAST_PTR \<or> FIRST_PSEUDO_REGISTER \<le> r)
      | _ \<Rightarrow> False)"

definition ajardsp_absolute_memory_operand :: "rtx \<Rightarrow> bool" where
  "ajardsp_absolute_memory_operand op =
     (case op of
        Mem_x address \<Rightarrow>
          (case address of
             Symbol_ref_x s \<Rightarrow> True
           | Const_x (Plus_x (Symbol_ref_x s) (Const_int_x i)) \<Rightarrow> True
           | _ \<Rightarrow> False)
      | _ \<Rightarrow> False)"

section \<open>Operands\<close>

text \<open>
  What is printed: the text for the assembler file, and the message on the standard output if there
  is one.  A call of \<open>gcc_unreachable\<close> or a failed \<open>gcc_assert\<close> stops the compiler.  The value of a \<open>CONST_INT\<close> is printed
  through \<open>%d\<close>, which reads its low 32 bits.
\<close>

datatype port_message =
    Legitimate_address | Other_case | Not_a_memory_operand | Not_a_symbol_ref | Default_case

type_synonym printed = "(string \<times> port_message option, unit) outcome"

definition asm_text :: "string \<Rightarrow> printed" where "asm_text s = Good (s, None)"
definition message_text :: "port_message \<Rightarrow> printed" where "message_text m = Good ([], Some m)"

definition fmt_wide :: "int \<Rightarrow> string" where
  "fmt_wide i = fmt_d (word_of_int i)"

definition reg_name :: "int \<Rightarrow> (string, unit) outcome" where
  "reg_name r = (if 0 \<le> r \<and> nat r < length reg_names then Good (reg_names ! nat r) else Undef)"

text \<open>The register of a \<open>REG\<close> or of the register inside a \<open>SUBREG\<close>.\<close>

definition regno_of :: "rtx \<Rightarrow> int option" where
  "regno_of x =
     (case x of Reg_x m r \<Rightarrow> Some r | Subreg_x (Reg_x m r) \<Rightarrow> Some r | _ \<Rightarrow> None)"

definition is_reg_or_subreg :: "rtx \<Rightarrow> bool" where
  "is_reg_or_subreg x = (case x of Reg_x m r \<Rightarrow> True | Subreg_x y \<Rightarrow> True | _ \<Rightarrow> False)"

definition named_reg :: "rtx \<Rightarrow> (string, unit) outcome" where
  "named_reg x = (case regno_of x of Some r \<Rightarrow> reg_name r | None \<Rightarrow> Undef)"

definition base_displacement :: "rtx \<Rightarrow> rtx \<Rightarrow> printed option" where
  "base_displacement c b =
     (if \<not> is_reg_or_subreg b then None
      else case c of
        Symbol_ref_x s \<Rightarrow> Some (obind (named_reg b) (\<lambda>n. asm_text (n @ '', #'' @ s)))
      | Const_int_x i \<Rightarrow> Some (obind (named_reg b) (\<lambda>n. asm_text (n @ '', '' @ fmt_wide i)))
      | _ \<Rightarrow> None)"

definition print_operand_address :: "rtx \<Rightarrow> printed" where
  "print_operand_address X =
     (let X = (case X of Mem_x y \<Rightarrow> y | _ \<Rightarrow> X) in
      case X of
        Subreg_x y \<Rightarrow> obind (named_reg X) asm_text
      | Reg_x m r \<Rightarrow> obind (named_reg X) asm_text
      | Plus_x op1 op2 \<Rightarrow>
          (case base_displacement op1 op2 of
             Some t \<Rightarrow> t
           | None \<Rightarrow> (case base_displacement op2 op1 of Some t \<Rightarrow> t | None \<Rightarrow> Fail ()))
      | _ \<Rightarrow> Fail ())"

definition asm_output_symbol_ref :: "(string \<Rightarrow> string) \<Rightarrow> string \<Rightarrow> string" where
  "asm_output_symbol_ref assemble_name name = ''#'' @ assemble_name name"

definition print_reg :: "machine_mode \<Rightarrow> int \<Rightarrow> printed" where
  "print_reg m r =
     (if m \<in> {BImode, QImode, QFmode} then obind (reg_name r) asm_text
      else if m = HImode then obind (reg_name r) (\<lambda>n. asm_text (take 5 n))
      else Fail ())"

text \<open>The letter after \<open>%\<close> in a template; \<^term>\<open>None\<close> for no letter.\<close>

definition print_operand :: "(string \<Rightarrow> string) \<Rightarrow> rtx \<Rightarrow> char option \<Rightarrow> printed" where
  "print_operand assemble_name X CODE =
     (case CODE of
        None \<Rightarrow>
          (case X of
             Reg_x m r \<Rightarrow> print_reg m r
           | Mem_x y \<Rightarrow> print_operand_address y
           | Const_int_x i \<Rightarrow> asm_text (fmt_wide i)
           | _ \<Rightarrow>
               if constant_address_p X then print_operand_address X
               else if COMPARISON_P X then
                 (case X of Node c n xs \<Rightarrow> asm_text n | _ \<Rightarrow> Undef)
               else if legitimate_constant_p X then message_text Legitimate_address
               else message_text Other_case)
      | Some c \<Rightarrow>
          if c = CHR ''m'' then
            (case X of
               Mem_x y \<Rightarrow> print_operand_address y
             | _ \<Rightarrow> message_text Not_a_memory_operand)
          else if c = CHR ''s'' then
            (case X of
               Symbol_ref_x s \<Rightarrow> asm_text (asm_output_symbol_ref assemble_name s)
             | _ \<Rightarrow> message_text Not_a_symbol_ref)
          else if c = CHR ''d'' then
            (case X of Const_int_x i \<Rightarrow> asm_text (fmt_wide i) | _ \<Rightarrow> Fail ())
          else if c = CHR ''D'' then
            (case X of
               Const_int_x i \<Rightarrow>
                 if sint (word_of_int i :: i32) = - (2 ^ 31) then Undef else asm_text (fmt_wide (- i))
             | _ \<Rightarrow> Fail ())
          else if c = CHR ''X'' then
            (case X of Reg_x m r \<Rightarrow> obind (reg_name r) (\<lambda>n. asm_text (take 2 n)) | _ \<Rightarrow> Fail ())
          else if c = CHR ''J'' then
            (case X of
               Node cl n (Reg_x m r # xs) \<Rightarrow>
                 if n \<in> {''eq'', ''ne''}
                 then obind (reg_name r) (\<lambda>nm. asm_text (''if ('' @ (if n = ''eq'' then [] else ''!'') @ nm @ '')''))
                 else Fail ()
             | _ \<Rightarrow> Fail ())
          else message_text Default_case)"

section \<open>Labels and data\<close>

text \<open>A label of the compiler carries the name of the input file with \<open>_\<close> for other characters.\<close>

definition c_isalnum :: "char \<Rightarrow> bool" where
  "c_isalnum c \<longleftrightarrow>
     (let n = of_char c :: nat in 48 \<le> n \<and> n \<le> 57 \<or> 65 \<le> n \<and> n \<le> 90 \<or> 97 \<le> n \<and> n \<le> 122)"

definition label_file :: "string \<Rightarrow> string" where
  "label_file fname = map (\<lambda>c. if c_isalnum c then c else CHR ''_'') fname"

definition asm_generate_internal_label :: "string \<Rightarrow> string \<Rightarrow> i32 \<Rightarrow> string" where
  "asm_generate_internal_label main_input_filename PREFIX NUM =
     PREFIX @ fmt_d NUM @ ''_'' @ label_file main_input_filename"

definition ajardsp_asm_internal_label :: "string \<Rightarrow> string \<Rightarrow> i32 \<Rightarrow> string" where
  "ajardsp_asm_internal_label main_input_filename prefix labelno =
     prefix @ fmt_d labelno @ ''_'' @ label_file main_input_filename @ '':''"

definition ajardsp_asm_globalize_label :: "string \<Rightarrow> string" where
  "ajardsp_asm_globalize_label name = []"

text \<open>The loop computes \<open>num = 2 ^ POWER\<close>, which overflows from 31 on, but \<open>POWER\<close> is printed.\<close>

definition asm_output_align :: "i32 \<Rightarrow> (string, unit) outcome" where
  "asm_output_align POWER =
     (if 31 \<le> sint POWER then Undef else Good (tab_char # ''.align '' @ fmt_d POWER @ [newline]))"

definition fmt_u :: "u32 \<Rightarrow> string" where
  "fmt_u v = digits_in 10 (unat v)"

definition asm_output_skip :: "i32 \<Rightarrow> string" where
  "asm_output_skip NBYTES = tab_char # ''.skip'' @ tab_char # fmt_u NBYTES @ [newline]"

definition ajardsp_asm_output_ascii :: "u8 list \<Rightarrow> string" where
  "ajardsp_asm_output_ascii bytes =
     concat (map (\<lambda>c. tab_char # ''.word'' @ tab_char # fmt_d (c_char c) @ [newline]) bytes)"

definition asm_output_local :: "(string \<Rightarrow> string) \<Rightarrow> string \<Rightarrow> i32 \<Rightarrow> string" where
  "asm_output_local assemble_name NAME SIZE =
     tab_char # ''.reserve '' @ assemble_name NAME @ '','' @ fmt_u SIZE @ '',\"bss\"'' @ [newline]"

definition asm_output_common :: "(string \<Rightarrow> string) \<Rightarrow> string \<Rightarrow> i32 \<Rightarrow> string" where
  "asm_output_common assemble_name NAME SIZE =
     ''.data'' @ [newline] @ assemble_name NAME @ '':'' @ [newline] @ ''.skip '' @ fmt_d SIZE @ [newline]"

section \<open>Bundles\<close>

text \<open>
  An instruction that starts an issue group has mode \<open>TImode\<close>.  The flag is a static variable; the mark
  before every opcode is two blanks or the bar that continues a bundle.
\<close>

definition ajardsp_final_prescan_insn :: "bool \<Rightarrow> machine_mode \<Rightarrow> bool \<Rightarrow> bool \<Rightarrow> bool" where
  "ajardsp_final_prescan_insn TARGET_VLIW_PACK insn_mode pattern_is_unspec start_issue_group =
     (if TARGET_VLIW_PACK then insn_mode = TImode \<or> pattern_is_unspec else start_issue_group)"

definition ajardsp_asm_output_opcode :: "bool \<Rightarrow> bool \<Rightarrow> string" where
  "ajardsp_asm_output_opcode TARGET_VLIW_PACK start_issue_group =
     (if TARGET_VLIW_PACK then if start_issue_group then ''  '' else ''| '' else [])"

definition ajardsp_sched_issue_rate :: nat where "ajardsp_sched_issue_rate = 4"
definition ajardsp_sched_first_cycle_multipass_dfa_lookahead :: nat where
  "ajardsp_sched_first_cycle_multipass_dfa_lookahead = 16"

datatype insn_code = CODE_FOR_popqi1 | CODE_FOR_pophi1 | CODE_FOR_pushqi1 | CODE_FOR_pushhi1 | Other_code nat

definition ajardsp_sched_adjust_cost :: "insn_code \<Rightarrow> bool \<Rightarrow> insn_code \<Rightarrow> int \<Rightarrow> int" where
  "ajardsp_sched_adjust_cost this_insn true_dependence dep_insn cost =
     (if true_dependence \<and>
         (this_insn \<in> {CODE_FOR_popqi1, CODE_FOR_pophi1} \<and> dep_insn \<in> {CODE_FOR_popqi1, CODE_FOR_pophi1} \<or>
          this_insn \<in> {CODE_FOR_pushqi1, CODE_FOR_pushhi1} \<and> dep_insn \<in> {CODE_FOR_pushqi1, CODE_FOR_pushhi1})
      then 0 else cost)"

section \<open>The printed operands are those of the assembler\<close>

lemma reg_name_ptr: "n < 8 \<Longrightarrow> reg_name (int n) = Good (CHR ''$'' # ''ptr'' @ [digit n])"
proof -
  have "\<forall>n \<in> set [0..<8]. reg_name (int n) = Good (CHR ''$'' # ''ptr'' @ [digit n])"
    by (simp add: upt_rec reg_name_def reg_names_def digit_def)
  then show "n < 8 \<Longrightarrow> reg_name (int n) = Good (CHR ''$'' # ''ptr'' @ [digit n])" by simp
qed

lemma reg_name_acc:
  assumes "n < 8"
  shows "reg_name (8 + 2 * int n) = Good (CHR ''$'' # ''acc'' @ [digit n, CHR ''l''])"
    and "reg_name (9 + 2 * int n) = Good (CHR ''$'' # ''acc'' @ [digit n, CHR ''h''])"
proof -
  have "\<forall>n \<in> set [0..<8]. reg_name (8 + 2 * int n) = Good (CHR ''$'' # ''acc'' @ [digit n, CHR ''l'']) \<and>
      reg_name (9 + 2 * int n) = Good (CHR ''$'' # ''acc'' @ [digit n, CHR ''h''])"
    by (simp add: upt_rec reg_name_def reg_names_def digit_def)
  with assms show "reg_name (8 + 2 * int n) = Good (CHR ''$'' # ''acc'' @ [digit n, CHR ''l''])"
    "reg_name (9 + 2 * int n) = Good (CHR ''$'' # ''acc'' @ [digit n, CHR ''h''])" by simp_all
qed

lemma reg_name_pred: "n < 4 \<Longrightarrow> reg_name (24 + int n) = Good (CHR ''$'' # ''pred'' @ [digit n])"
proof -
  have "\<forall>n \<in> set [0..<4]. reg_name (24 + int n) = Good (CHR ''$'' # ''pred'' @ [digit n])"
    by (simp add: upt_rec reg_name_def reg_names_def digit_def)
  then show "n < 4 \<Longrightarrow> reg_name (24 + int n) = Good (CHR ''$'' # ''pred'' @ [digit n])" by simp
qed

lemma reg_name_spec: "reg_name 28 = Good (CHR ''$'' # ''sp'')" "reg_name 29 = Good (CHR ''$'' # ''retpc'')"
  by (simp_all add: reg_name_def reg_names_def)

text \<open>The name is accepted by the encoder, and its field gets the number.\<close>

definition assembles_to :: "encode_fn \<Rightarrow> operand_def \<Rightarrow> u32 \<Rightarrow> printed \<Rightarrow> nat \<Rightarrow> bool" where
  "assembles_to enc d p out v \<longleftrightarrow>
     (\<exists>nm q. out = Good (CHR ''$'' # nm, None) \<and> enc d (reg_operand nm) p = Good q \<and> get_field d q = of_nat v)"

lemma print_qi: "reg_name r = Good (CHR ''$'' # nm) \<Longrightarrow> print_operand an (Reg_x QImode r) None = Good (CHR ''$'' # nm, None)"
  "reg_name r = Good (CHR ''$'' # nm) \<Longrightarrow> print_operand an (Reg_x BImode r) None = Good (CHR ''$'' # nm, None)"
  "reg_name r = Good (CHR ''$'' # nm) \<Longrightarrow> print_operand an (Reg_x HImode r) None = Good (CHR ''$'' # take 4 nm, None)"
  by (simp_all add: print_operand_def print_reg_def asm_text_def)

lemma assembles_toI:
  "out = Good (CHR ''$'' # nm, None) \<Longrightarrow> \<exists>q. enc d (reg_operand nm) p = Good q \<and> get_field d q = of_nat v \<Longrightarrow>
   assembles_to enc d p out v"
  by (auto simp: assembles_to_def)

lemma pow_mono_width: "k \<le> unat w \<Longrightarrow> m < 2 ^ k \<Longrightarrow> m < (2 :: nat) ^ unat w"
  by (meson less_le_trans power_increasing one_le_numeral)

text \<open>A register the compiler prints is a register the assembler accepts, with the number the field
  stands for: pointers and accumulator halves as one-word operands, the whole accumulator for the
  two-word mode (of which only the first five characters of the name of its low half are printed),
  predicates, and the special registers.\<close>

theorem printed_registers_assemble:
  assumes "wf_field d" "p AND field_mask d = 0"
  shows
    "(od_width d = 5 \<longrightarrow> (\<forall>n<8.
        assembles_to encode_reg d p (print_operand an (Reg_x QImode (int n)) None) n \<and>
        assembles_to encode_reg d p (print_operand an (Reg_x QImode (8 + 2 * int n)) None) (16 + 2 * n) \<and>
        assembles_to encode_reg d p (print_operand an (Reg_x QImode (9 + 2 * int n)) None) (17 + 2 * n))) \<and>
     (3 \<le> unat (od_width d) \<longrightarrow> (\<forall>n<8.
        assembles_to encode_ptr d p (print_operand an (Reg_x QImode (int n)) None) n \<and>
        assembles_to encode_acc d p (print_operand an (Reg_x HImode (8 + 2 * int n)) None) n)) \<and>
     (4 \<le> unat (od_width d) \<longrightarrow> (\<forall>n<8.
        assembles_to encode_acc_half d p (print_operand an (Reg_x QImode (8 + 2 * int n)) None) (2 * n) \<and>
        assembles_to encode_acc_half d p (print_operand an (Reg_x QImode (9 + 2 * int n)) None) (2 * n + 1))) \<and>
     (2 \<le> unat (od_width d) \<longrightarrow>
        (\<forall>n<4. assembles_to encode_pred d p (print_operand an (Reg_x BImode (24 + int n)) None) n) \<and>
        assembles_to encode_spec d p (print_operand an (Reg_x QImode AJARDSP_REGNO_SP) None) 2 \<and>
        assembles_to encode_spec d p (print_operand an (Reg_x QImode AJARDSP_REGNO_RETPC) None) 1)"
proof (intro conjI impI allI)
  fix n :: nat assume w: "od_width d = 5" and n: "n < 8"
  note core = core_register_fields[OF assms(1) w assms(2) n]
  show "assembles_to encode_reg d p (print_operand an (Reg_x QImode (int n)) None) n"
    using core print_qi(1)[OF reg_name_ptr[OF n]] by (intro assembles_toI) auto
  show "assembles_to encode_reg d p (print_operand an (Reg_x QImode (8 + 2 * int n)) None) (16 + 2 * n)"
    using core print_qi(1)[OF reg_name_acc(1)[OF n]] by (intro assembles_toI) auto
  show "assembles_to encode_reg d p (print_operand an (Reg_x QImode (9 + 2 * int n)) None) (17 + 2 * n)"
    using core print_qi(1)[OF reg_name_acc(2)[OF n]] by (intro assembles_toI) auto
next
  fix n :: nat assume w: "3 \<le> unat (od_width d)" and n: "n < 8"
  have "n < 10" "n < 2 ^ unat (od_width d)" using n pow_mono_width[OF w, of n] by simp_all
  note f = register_fields[OF assms this(1)] this(2)
  show "assembles_to encode_ptr d p (print_operand an (Reg_x QImode (int n)) None) n"
    using f print_qi(1)[OF reg_name_ptr[OF n]] by (intro assembles_toI) auto
  show "assembles_to encode_acc d p (print_operand an (Reg_x HImode (8 + 2 * int n)) None) n"
    using f print_qi(3)[OF reg_name_acc(1)[OF n]] by (intro assembles_toI) auto
next
  fix n :: nat assume w: "4 \<le> unat (od_width d)" and n: "n < 8"
  have "n < 10" "2 * n + 1 < 2 ^ unat (od_width d)" using n pow_mono_width[OF w, of "2 * n + 1"] by simp_all
  note f = register_fields[OF assms this(1)] this(2)
  show "assembles_to encode_acc_half d p (print_operand an (Reg_x QImode (8 + 2 * int n)) None) (2 * n)"
    using f print_qi(1)[OF reg_name_acc(1)[OF n]] by (intro assembles_toI) auto
  show "assembles_to encode_acc_half d p (print_operand an (Reg_x QImode (9 + 2 * int n)) None) (2 * n + 1)"
    using f print_qi(1)[OF reg_name_acc(2)[OF n]] by (intro assembles_toI) auto
next
  fix n :: nat assume w: "2 \<le> unat (od_width d)" and n: "n < 4"
  have "n < 10" "n < 2 ^ unat (od_width d)" using n pow_mono_width[OF w, of n] by simp_all
  note f = register_fields[OF assms this(1)] this(2)
  show "assembles_to encode_pred d p (print_operand an (Reg_x BImode (24 + int n)) None) n"
    using f print_qi(2)[OF reg_name_pred[OF n]] by (intro assembles_toI) auto
next
  assume w: "2 \<le> unat (od_width d)"
  have le: "unat (od_width d) \<le> 32" using assms(1) by (simp add: wf_field_def)
  have spec: "encode_spec d (reg_operand ''sp'') p = Good (put_field d 2 p)"
      "encode_spec d (reg_operand ''retpc'') p = Good (put_field d 1 p)"
    by (simp_all add: encode_spec_def reg_operand_def find_special_cases SpecialRegs_def)
  have get: "get_field d (put_field d (of_nat m) p) = of_nat m" if "m < 4" for m
    using that pow_mono_width[OF w, of m] by (intro get_put_field[OF assms] fits_width_nat le) simp
  show "assembles_to encode_spec d p (print_operand an (Reg_x QImode AJARDSP_REGNO_SP) None) 2"
    using spec(1) get[of 2] print_qi(1)[OF reg_name_spec(1)] by (intro assembles_toI) (auto simp: regno_defs)
  show "assembles_to encode_spec d p (print_operand an (Reg_x QImode AJARDSP_REGNO_RETPC) None) 1"
    using spec(2) get[of 1] print_qi(1)[OF reg_name_spec(2)] by (intro assembles_toI) (auto simp: regno_defs)
qed

definition reg_field :: operand_def where
  "reg_field = \<lparr>od_type = REG, od_offset = 8, od_width = 5, od_encode = Some Enc_reg\<rparr>"

theorem printed_registers_assemble_witness:
  "assembles_to encode_reg reg_field 0x40 (print_operand id (Reg_x QImode 13) None) 21"
proof -
  have f: "wf_field reg_field" "0x40 AND field_mask reg_field = 0" "od_width reg_field = 5"
    by (simp_all add: reg_field_def wf_field_def field_mask_def width_mask_def)
  from printed_registers_assemble[OF f(1,2), of id, THEN conjunct1, rule_format, OF f(3), of 2]
  show ?thesis by simp
qed

section \<open>Which legitimate addresses can be printed\<close>

lemma strict_is_legitimate: "legitimate_address_strict X \<Longrightarrow> legitimate_address_non_strict X"
  by (auto simp: legitimate_address_strict_def legitimate_address_non_strict_def non_strict_base_reg_def
      split: rtx.splits)

lemma base_reg_named: "is_base_reg r \<Longrightarrow> reg_name r = Good (reg_names ! nat r)"
  by (auto simp: reg_name_def is_base_reg_def regno_defs reg_names_def)

text \<open>The text of a base register with a constant displacement.\<close>

definition displaced_text :: "int \<Rightarrow> rtx \<Rightarrow> printed" where
  "displaced_text r c =
     (case c of
        Const_int_x i \<Rightarrow> asm_text (reg_names ! nat r @ '', '' @ fmt_wide i)
      | Symbol_ref_x s \<Rightarrow> asm_text (reg_names ! nat r @ '', #'' @ s)
      | _ \<Rightarrow> Fail ())"

lemma constant_not_reg: "constant_address_p c \<Longrightarrow> \<not> is_reg_or_subreg c"
  by (cases c) (auto simp: constant_address_p_def is_reg_or_subreg_def)

lemma reg_not_constant [simp]: "\<not> constant_address_p (Reg_x m r)"
  by (simp add: constant_address_p_def)

lemma print_displaced:
  assumes "is_base_reg r" "constant_address_p c"
  shows "print_operand_address (Plus_x (Reg_x m r) c) = displaced_text r c"
    and "print_operand_address (Plus_x c (Reg_x m r)) = displaced_text r c"
proof -
  have "base_displacement (Reg_x m r) c = None" "base_displacement x c = None" for x
    using constant_not_reg[OF assms(2)] by (simp_all add: base_displacement_def)
  moreover have "(case base_displacement c (Reg_x m r) of None \<Rightarrow> Fail () | Some t \<Rightarrow> t) = displaced_text r c"
    using assms(1) by (cases c) (simp_all add: base_displacement_def is_reg_or_subreg_def named_reg_def
        regno_of_def base_reg_named displaced_text_def)
  ultimately show "print_operand_address (Plus_x (Reg_x m r) c) = displaced_text r c"
    "print_operand_address (Plus_x c (Reg_x m r)) = displaced_text r c"
    by (auto simp: print_operand_address_def split: option.splits)
qed

text \<open>Every address that is legitimate for hard registers is a base register, printed by its name, or
  a base register and a constant in either order; the latter is printed when the constant is an
  integer or a symbol, and stops the compiler for every other constant the test lets through.\<close>

theorem legitimate_address_printed:
  assumes "legitimate_address_strict X"
  shows "(\<exists>m r. X = Reg_x m r \<and> is_base_reg r \<and> print_operand_address X = asm_text (reg_names ! nat r)) \<or>
    (\<exists>m r c. (X = Plus_x (Reg_x m r) c \<or> X = Plus_x c (Reg_x m r)) \<and> is_base_reg r \<and> constant_address_p c \<and>
       print_operand_address X =
         (case c of
            Const_int_x i \<Rightarrow> asm_text (reg_names ! nat r @ '', '' @ fmt_wide i)
          | Symbol_ref_x s \<Rightarrow> asm_text (reg_names ! nat r @ '', #'' @ s)
          | _ \<Rightarrow> Fail ()))"
proof -
  have reg: "print_operand_address (Reg_x m r) = asm_text (reg_names ! nat r)" if "is_base_reg r" for m r
    using that by (simp add: print_operand_address_def named_reg_def regno_of_def base_reg_named)
  from assms show ?thesis
    unfolding displaced_text_def [symmetric]
    by (auto simp: legitimate_address_strict_def reg print_displaced split: rtx.splits)
qed

theorem legitimate_address_printed_witness:
  "legitimate_address_strict (Plus_x (Reg_x QImode 28) (Label_ref_x ''L1'')) \<and>
   print_operand_address (Plus_x (Reg_x QImode 28) (Label_ref_x ''L1'')) = Fail ()"
proof -
  have l: "legitimate_address_strict (Plus_x (Reg_x QImode 28) (Label_ref_x ''L1''))"
    by (simp add: legitimate_address_strict_def constant_address_p_def is_node_def is_base_reg_def regno_defs)
  from legitimate_address_printed[OF l] show ?thesis by (auto simp: l)
qed

end
