(* ===== verification/BlockRepeat.thy ===== *)
theory BlockRepeat
  imports Prelude
begin

text \<open>
  The hardware loop of the processor, clock by clock: the program counter of the fetch unit
  (\<open>rtl/verilog/vliwfetch.v\<close>) and the block repeat registers of the control unit (\<open>rtl/verilog/pcu.v\<close>).

  The program is a parameter: the number of words of the bundle at an address and the target of a
  \<open>bkrep\<close> in it.  The model covers stretches of code without other jumps, calls, interrupts and writes of
  the special registers; the memory and the alignment queue of the fetch unit are not part of it.
\<close>

section \<open>The registers\<close>

datatype fetch_state = PRIMING_QUEUE_0 | PRIMING_QUEUE_1 | RUNNING | JUMPING

record pcu =
  fetch_state :: fetch_state
  pc :: u16
  jump_pc_r :: u16
  inst_pipe_0_r :: "u16 option"
  bkrep_begin_pc_r :: u16
  bkrep_end_pc_r :: u16
  bkrep_cnt_r :: u16

definition jump_en :: "pcu \<Rightarrow> bool" where
  "jump_en s \<longleftrightarrow> bkrep_cnt_r s \<noteq> 0 \<and> bkrep_end_pc_r s = pc s"

definition inst_valid :: "pcu \<Rightarrow> bool" where
  "inst_valid s \<longleftrightarrow> fetch_state s = RUNNING \<or> fetch_state s = JUMPING"

definition fetch_clk :: "(u16 \<Rightarrow> u16) \<Rightarrow> pcu \<Rightarrow> pcu \<Rightarrow> pcu" where
  "fetch_clk bundle_size s n =
     (case fetch_state s of
        PRIMING_QUEUE_0 \<Rightarrow> n\<lparr>fetch_state := PRIMING_QUEUE_1\<rparr>
      | PRIMING_QUEUE_1 \<Rightarrow> n\<lparr>fetch_state := RUNNING\<rparr>
      | JUMPING \<Rightarrow>
          n\<lparr>pc := jump_pc_r s, fetch_state := (if jump_pc_r s AND 3 = 0 then RUNNING else PRIMING_QUEUE_1)\<rparr>
      | RUNNING \<Rightarrow>
          let n' = n\<lparr>pc := pc s + bundle_size (pc s)\<rparr> in
          if jump_en s then n'\<lparr>jump_pc_r := bkrep_begin_pc_r s, fetch_state := JUMPING\<rparr> else n')"

definition pcu_clk :: "(u16 \<Rightarrow> u16 option) \<Rightarrow> pcu \<Rightarrow> pcu \<Rightarrow> pcu" where
  "pcu_clk bkrep s n =
     (let n' = n\<lparr>inst_pipe_0_r := (if inst_valid s then bkrep (pc s) else None)\<rparr> in
      case inst_pipe_0_r s of
        Some target \<Rightarrow> n'\<lparr>bkrep_begin_pc_r := pc s, bkrep_end_pc_r := target\<rparr>
      | None \<Rightarrow> if jump_en s then n'\<lparr>bkrep_cnt_r := bkrep_cnt_r s - 1\<rparr> else n')"

text \<open>One clock, with the address of the bundle that is issued in it.\<close>

definition clk :: "(u16 \<Rightarrow> u16) \<Rightarrow> (u16 \<Rightarrow> u16 option) \<Rightarrow> pcu \<Rightarrow> pcu \<times> u16 list" where
  "clk bundle_size bkrep s =
     (pcu_clk bkrep s (fetch_clk bundle_size s s), if inst_valid s then [pc s] else [])"

fun clks :: "(u16 \<Rightarrow> u16) \<Rightarrow> (u16 \<Rightarrow> u16 option) \<Rightarrow> nat \<Rightarrow> pcu \<Rightarrow> pcu \<times> u16 list" where
  "clks bundle_size bkrep 0 s = (s, [])"
| "clks bundle_size bkrep (Suc n) s =
     (let (s1, o1) = clk bundle_size bkrep s; (s2, o2) = clks bundle_size bkrep n s1 in (s2, o1 @ o2))"

section \<open>A loop\<close>

text \<open>The addresses of \<open>n\<close> bundles from \<open>a\<close> on.\<close>

fun bundles :: "(u16 \<Rightarrow> u16) \<Rightarrow> nat \<Rightarrow> u16 \<Rightarrow> u16 list" where
  "bundles bundle_size 0 a = []"
| "bundles bundle_size (Suc n) a = a # bundles bundle_size n (a + bundle_size a)"

fun after_bundles :: "(u16 \<Rightarrow> u16) \<Rightarrow> nat \<Rightarrow> u16 \<Rightarrow> u16" where
  "after_bundles bundle_size 0 a = a"
| "after_bundles bundle_size (Suc n) a = after_bundles bundle_size n (a + bundle_size a)"

lemma after_bundles_add: "after_bundles z (m + n) a = after_bundles z n (after_bundles z m a)"
  by (induction m arbitrary: a) simp_all

lemma clks_add:
  "clks z b (m + n) s = (let (s1, o1) = clks z b m s; (s2, o2) = clks z b n s1 in (s2, o1 @ o2))"
  by (induction m arbitrary: s) (auto simp: Let_def split: prod.splits)

definition reaches :: "(u16 \<Rightarrow> u16) \<Rightarrow> (u16 \<Rightarrow> u16 option) \<Rightarrow> pcu \<Rightarrow> u16 list \<Rightarrow> pcu \<Rightarrow> bool" where
  "reaches z b s tr s' \<longleftrightarrow> (\<exists>n. clks z b n s = (s', tr))"

lemma reaches_refl: "reaches z b s [] s"
  unfolding reaches_def by (rule exI[of _ 0]) simp

lemma reaches_trans: "reaches z b s tr s' \<Longrightarrow> reaches z b s' tr' s'' \<Longrightarrow> reaches z b s (tr @ tr') s''"
  unfolding reaches_def
proof (elim exE)
  fix m n assume "clks z b m s = (s', tr)" "clks z b n s' = (s'', tr')"
  then show "\<exists>n. clks z b n s = (s'', tr @ tr')" by (intro exI[of _ "m + n"]) (simp add: clks_add)
qed

lemma reaches_clk: "clk z b s = (s', tr) \<Longrightarrow> reaches z b s tr s'"
  unfolding reaches_def by (rule exI[of _ 1]) simp

text \<open>Running through bundles without a jump.\<close>

lemma run_straight:
  assumes "fetch_state s = RUNNING" "inst_pipe_0_r s = None"
    and "\<forall>a\<in>set (bundles z n (pc s)). b a = None \<and> (bkrep_cnt_r s = 0 \<or> bkrep_end_pc_r s \<noteq> a)"
  shows "reaches z b s (bundles z n (pc s)) (s\<lparr>pc := after_bundles z n (pc s)\<rparr>)"
  using assms
proof (induction n arbitrary: s)
  case 0
  then show ?case using reaches_refl[of z b s] by simp
next
  case (Suc n)
  let ?s = "s\<lparr>pc := pc s + z (pc s)\<rparr>"
  have "\<not> jump_en s" using Suc.prems(3) by (auto simp: jump_en_def)
  then have "clk z b s = (?s, [pc s])"
    using Suc.prems by (cases s) (simp add: clk_def inst_valid_def fetch_clk_def pcu_clk_def Let_def)
  from reaches_clk[OF this] have 1: "reaches z b s [pc s] ?s" .
  have 2: "reaches z b ?s (bundles z n (pc ?s)) (?s\<lparr>pc := after_bundles z n (pc ?s)\<rparr>)"
    by (rule Suc.IH) (use Suc.prems in auto)
  show ?case using reaches_trans[OF 1 2] by simp
qed


text \<open>Inside the loop from \<open>b0\<close> to the bundle after \<open>e\<close>, with \<open>c\<close> repetitions left.\<close>

definition in_loop :: "u16 \<Rightarrow> u16 \<Rightarrow> u16 \<Rightarrow> u16 \<Rightarrow> pcu \<Rightarrow> bool" where
  "in_loop b0 e c x s \<longleftrightarrow>
     fetch_state s = RUNNING \<and> inst_pipe_0_r s = None \<and> pc s = x \<and>
     bkrep_begin_pc_r s = b0 \<and> bkrep_end_pc_r s = e \<and> bkrep_cnt_r s = c"

text \<open>The rest of the body from \<open>x\<close>: \<open>r\<close> bundles to the label and two from it on.\<close>

definition body_from :: "(u16 \<Rightarrow> u16) \<Rightarrow> (u16 \<Rightarrow> u16 option) \<Rightarrow> u16 \<Rightarrow> nat \<Rightarrow> u16 \<Rightarrow> bool" where
  "body_from z b e r x \<longleftrightarrow>
     after_bundles z r x = e \<and> (\<forall>a\<in>set (bundles z r x). b a = None \<and> a \<noteq> e) \<and> b e = None \<and>
     b (e + z e) = None \<and> e + z e \<noteq> e"

lemma bundles_append: "bundles z (m + n) a = bundles z m a @ bundles z n (after_bundles z m a)"
  by (induction m arbitrary: a) simp_all

lemma loop_back:
  assumes "in_loop b0 e c e s" "c \<noteq> 0" "b e = None" "b (e + z e) = None" "e + z e \<noteq> e" "b0 \<noteq> e"
  shows "\<exists>s'. reaches z b s [e, e + z e] s' \<and> in_loop b0 e (c - 1) b0 s'"
proof -
  define s1 where "s1 = s\<lparr>pc := e + z e, jump_pc_r := b0, fetch_state := JUMPING, bkrep_cnt_r := c - 1\<rparr>"
  define s2 where "s2 = s1\<lparr>pc := b0, fetch_state := (if b0 AND 3 = 0 then RUNNING else PRIMING_QUEUE_1)\<rparr>"
  have "clk z b s = (s1, [e])" unfolding s1_def
    using assms(1-3) by (cases s) (simp add: in_loop_def clk_def inst_valid_def fetch_clk_def pcu_clk_def jump_en_def Let_def)
  moreover have "clk z b s1 = (s2, [e + z e])" unfolding s1_def s2_def
    using assms by (cases s) (simp add: in_loop_def clk_def inst_valid_def fetch_clk_def pcu_clk_def jump_en_def Let_def)
  ultimately have 2: "reaches z b s [e, e + z e] s2" using reaches_trans[OF reaches_clk reaches_clk] by fastforce
  show ?thesis
  proof (cases "b0 AND 3 = 0")
    case True
    have "in_loop b0 e (c - 1) b0 s2" using True assms(1) by (simp add: in_loop_def s1_def s2_def)
    with 2 show ?thesis by blast
  next
    case False
    have "clk z b s2 = (s2\<lparr>fetch_state := RUNNING\<rparr>, [])" unfolding s1_def s2_def
      using assms False by (cases s) (simp add: in_loop_def clk_def inst_valid_def fetch_clk_def pcu_clk_def jump_en_def Let_def)
    from reaches_trans[OF 2 reaches_clk[OF this]] have "reaches z b s [e, e + z e] (s2\<lparr>fetch_state := RUNNING\<rparr>)" by simp
    moreover have "in_loop b0 e (c - 1) b0 (s2\<lparr>fetch_state := RUNNING\<rparr>)" using assms(1) by (simp add: in_loop_def s1_def s2_def)
    ultimately show ?thesis by blast
  qed
qed

lemma loop_round:
  assumes "in_loop b0 e c x s" "c \<noteq> 0" "body_from z b e r x" "b0 \<noteq> e"
  shows "\<exists>s'. reaches z b s (bundles z (r + 2) x) s' \<and> in_loop b0 e (c - 1) b0 s'"
proof -
  let ?s = "s\<lparr>pc := e\<rparr>"
  have "reaches z b s (bundles z r (pc s)) (s\<lparr>pc := after_bundles z r (pc s)\<rparr>)"
    by (rule run_straight) (use assms in \<open>auto simp: in_loop_def body_from_def\<close>)
  then have 1: "reaches z b s (bundles z r x) ?s" using assms by (simp add: in_loop_def body_from_def)
  have "in_loop b0 e c e ?s" using assms(1) by (simp add: in_loop_def)
  moreover have "b e = None" "b (e + z e) = None" "e + z e \<noteq> e" using assms(3) by (simp_all add: body_from_def)
  ultimately obtain s' where 2: "reaches z b ?s [e, e + z e] s'" "in_loop b0 e (c - 1) b0 s'"
    using loop_back[of b0 e c ?s b z, OF _ assms(2) _ _ _ assms(4)] by blast
  have "bundles z (r + 2) x = bundles z r x @ [e, e + z e]"
    unfolding bundles_append using assms(3) by (simp add: body_from_def numeral_2_eq_2)
  with reaches_trans[OF 1 2(1)] 2(2) show ?thesis by auto
qed

lemma loop_exit:
  assumes "in_loop b0 e 0 x s" "body_from z b e r x"
  shows "\<exists>s'. reaches z b s (bundles z (r + 2) x) s' \<and> in_loop b0 e 0 (after_bundles z (r + 2) x) s'"
proof -
  have "bundles z (r + 2) x = bundles z r x @ [e, e + z e]"
    unfolding bundles_append using assms(2) by (simp add: body_from_def numeral_2_eq_2)
  with assms have "reaches z b s (bundles z (r + 2) (pc s)) (s\<lparr>pc := after_bundles z (r + 2) (pc s)\<rparr>)"
    by (intro run_straight) (auto simp: in_loop_def body_from_def)
  with assms(1) show ?thesis by (auto simp: in_loop_def)
qed

lemma loop_rounds:
  assumes "body_from z b e k b0" "b0 \<noteq> e" "n < 65536" "in_loop b0 e (of_nat n) x s" "body_from z b e r x"
  shows "\<exists>s'. reaches z b s (bundles z (r + 2) x @ concat (replicate n (bundles z (k + 2) b0))) s' \<and>
    in_loop b0 e 0 (after_bundles z 2 e) s'"
  using assms(3-)
proof (induction n arbitrary: x r s)
  case 0
  have a: "after_bundles z (r + 2) x = after_bundles z 2 e"
    using 0(3) unfolding after_bundles_add by (simp add: body_from_def)
  from 0(2) have "in_loop b0 e 0 x s" by simp
  from loop_exit[OF this 0(3)] show ?case unfolding a by (simp only: replicate_0 concat.simps append_Nil2)
next
  case (Suc n)
  have "of_nat (Suc n) \<noteq> (0 :: u16)" using Suc.prems(1) by (simp add: word_of_nat_eq_0_iff nat_dvd_not_less del: of_nat_Suc)
  from loop_round[OF Suc.prems(2) this Suc.prems(3) assms(2)] obtain s1 where
    1: "reaches z b s (bundles z (r + 2) x) s1" "in_loop b0 e (of_nat n) b0 s1" by auto
  from Suc.IH[OF _ 1(2) assms(1)] Suc.prems(1) obtain s2 where
    2: "reaches z b s1 (bundles z (k + 2) b0 @ concat (replicate n (bundles z (k + 2) b0))) s2" "in_loop b0 e 0 (after_bundles z 2 e) s2"
    by auto
  from reaches_trans[OF 1(1) 2(1)] 2(2) show ?case by auto
qed

lemma block_repeat_trace:
  assumes "fetch_state s = RUNNING" "inst_pipe_0_r s = None" "b (pc s) = Some e" "bkrep_cnt_r s = of_nat n" "n < 65536"
    and "b0 = pc s + z (pc s)" "body_from z b e k b0" "0 < k" "b0 \<noteq> e"
    and "bkrep_end_pc_r s \<noteq> pc s" "bkrep_end_pc_r s \<noteq> b0"
  shows "\<exists>t s'. clks z b t s = (s', pc s # concat (replicate (n + 1) (bundles z (k + 2) b0))) \<and>
    fetch_state s' = RUNNING \<and> pc s' = after_bundles z (k + 2) b0 \<and> bkrep_cnt_r s' = 0"
proof -
  obtain r where k: "k = Suc r" using assms(8) gr0_implies_Suc by blast
  define s1 where "s1 = s\<lparr>pc := b0, inst_pipe_0_r := Some e\<rparr>"
  define s2 where "s2 = s1\<lparr>pc := b0 + z b0, inst_pipe_0_r := None, bkrep_begin_pc_r := b0, bkrep_end_pc_r := e\<rparr>"
  have b: "b b0 = None" "body_from z b e r (b0 + z b0)"
    using assms(7) by (auto simp: k body_from_def)
  have "clk z b s = (s1, [pc s])" unfolding s1_def
    using assms by (cases s) (simp add: clk_def inst_valid_def fetch_clk_def pcu_clk_def jump_en_def Let_def)
  moreover have "clk z b s1 = (s2, [b0])" unfolding s1_def s2_def
    using assms b(1) by (cases s) (simp add: clk_def inst_valid_def fetch_clk_def pcu_clk_def jump_en_def Let_def)
  ultimately have 1: "reaches z b s [pc s, b0] s2" using reaches_trans[OF reaches_clk reaches_clk] by fastforce
  have "in_loop b0 e (of_nat n) (b0 + z b0) s2" using assms(1,4) by (simp add: in_loop_def s1_def s2_def)
  from loop_rounds[OF assms(7,9,5) this b(2)] obtain s' where
    2: "reaches z b s2 (bundles z (r + 2) (b0 + z b0) @ concat (replicate n (bundles z (k + 2) b0))) s'"
      "in_loop b0 e 0 (after_bundles z 2 e) s'" by blast
  have "after_bundles z (k + 2) b0 = after_bundles z 2 e"
    using assms(7) unfolding after_bundles_add by (simp add: body_from_def)
  moreover have "[pc s, b0] @ bundles z (r + 2) (b0 + z b0) @ concat (replicate n (bundles z (k + 2) b0)) =
      pc s # concat (replicate (n + 1) (bundles z (k + 2) b0))"
    by (simp add: k)
  ultimately show ?thesis
    using reaches_trans[OF 1 2(1)] 2(2) by (auto simp: in_loop_def reaches_def)
qed

text \<open>A block repeat whose label is at least one bundle after the first of the loop and whose counter holds \<open>n\<close> issues
  the bundles from the one after \<open>bkrep\<close> to the one after the label \<open>n + 1\<close> times, and goes on behind them.\<close>

theorem block_repeat_issues:
  assumes "fetch_state s = RUNNING" "inst_pipe_0_r s = None" "b (pc s) = Some e" "bkrep_cnt_r s = of_nat n" "n < 65536"
    and "b0 = pc s + z (pc s)" "body_from z b e k b0" "0 < k" "b0 \<noteq> e"
    and "bkrep_end_pc_r s \<noteq> pc s" "bkrep_end_pc_r s \<noteq> b0"
  shows "\<exists>t s'. clks z b t s = (s', pc s # concat (replicate (n + 1) (bundles z (k + 2) b0))) \<and>
    fetch_state s' = RUNNING \<and> pc s' = after_bundles z (k + 2) b0 \<and> bkrep_cnt_r s' = 0"
  by (rule block_repeat_trace[OF assms])

theorem block_repeat_issues_witness:
  "\<exists>t s'. clks (\<lambda>_. 1) (\<lambda>a. if a = 8 then Some 10 else None) t
      \<lparr>fetch_state = RUNNING, pc = 8, jump_pc_r = 0, inst_pipe_0_r = None, bkrep_begin_pc_r = 0, bkrep_end_pc_r = 0, bkrep_cnt_r = 2\<rparr> =
    (s', [8, 9, 10, 11, 9, 10, 11, 9, 10, 11]) \<and> pc s' = 12"
proof -
  let ?s = "\<lparr>fetch_state = RUNNING, pc = 8, jump_pc_r = 0, inst_pipe_0_r = None, bkrep_begin_pc_r = 0, bkrep_end_pc_r = 0, bkrep_cnt_r = 2\<rparr> :: pcu"
  let ?b = "\<lambda>a :: u16. if a = 8 then Some (10 :: u16) else None"
  have "body_from (\<lambda>_. 1) ?b 10 1 9" by (simp add: body_from_def)
  note issues = block_repeat_issues[of ?s ?b 10 2 9 "\<lambda>_. 1" 1, OF _ _ _ _ _ _ this]
  have "bundles (\<lambda>_. 1) (1 + 2) (9 :: u16) = [9, 10, 11]" "after_bundles (\<lambda>_. 1) (1 + 2) (9 :: u16) = 12" by code_simp+
  moreover have "replicate (2 + 1) x = [x, x, x]" for x :: "u16 list" by (simp add: eval_nat_numeral)
  ultimately show ?thesis using issues by simp blast
qed

text \<open>With the label at the first bundle of the loop, the first pass does not see it.\<close>

lemma short_loop_repeats_late:
  "snd (clks (\<lambda>_. 1) (\<lambda>a. if a = 8 then Some 9 else None) 6
      \<lparr>fetch_state = RUNNING, pc = 8, jump_pc_r = 0, inst_pipe_0_r = None, bkrep_begin_pc_r = 0, bkrep_end_pc_r = 0, bkrep_cnt_r = 2\<rparr>) =
    [8, 9, 10, 11, 12, 13]"
  by code_simp

end
