(* ===== verification/GccLoops.thy ===== *)
theory GccLoops
  imports GccPrint BlockRepeat
begin

text \<open>
  Hardware loops in the GCC port (the last part of \<open>ajardsp.c\<close>): recognising the end of a counted loop,
  and the pass that puts a block repeat before the loop and a label before its last bundle; the options
  that turn it on; and what the processor makes of the result.

  An insn has the fields the pass looks at.  Which insns match \<open>doloop_end_internal\<close> and the target of the
  branch at the end of a block are parameters.  GCC shares registers, small constants and \<open>pc_rtx\<close>, so
  comparing pointers is comparing expressions.  \<open>nop_delay_slots\<close>, which the pass calls first, changes
  nothing (\<open>GccNops\<close>).
\<close>

section \<open>The end of a counted loop\<close>

definition pc_rtx :: rtx where "pc_rtx = Node Other_class ''pc'' []"

fun rtx_operands :: "rtx \<Rightarrow> rtx list" where
  "rtx_operands (Subreg_x x) = [x]"
| "rtx_operands (Mem_x x) = [x]"
| "rtx_operands (Plus_x x y) = [x, y]"
| "rtx_operands (Const_x x) = [x]"
| "rtx_operands (Node c n xs) = xs"
| "rtx_operands _ = []"

text \<open>\<open>XEXP\<close>, \<open>SET_DEST\<close> and \<open>SET_SRC\<close>, and \<open>XVECEXP\<close> of a vector that is the only operand.\<close>

definition XEXP :: "rtx \<Rightarrow> nat \<Rightarrow> (rtx, unit) outcome" where
  "XEXP x i = (if i < length (rtx_operands x) then Good (rtx_operands x ! i) else Undef)"

definition REG_P :: "rtx \<Rightarrow> bool" where
  "REG_P x = (case x of Reg_x m r \<Rightarrow> True | _ \<Rightarrow> False)"

record doloop_end_info =
  dl_pattern :: rtx
  dl_cmp :: rtx
  dl_inc :: rtx
  dl_reg :: rtx
  dl_inc_src :: rtx
  dl_lab_ref :: rtx
  dl_niter :: rtx

definition parse_doloop_branch :: "rtx \<Rightarrow> (rtx option, unit) outcome" where
  "parse_doloop_branch cmp =
     (if \<not> is_node ''set'' cmp then Good None
      else obind (XEXP cmp 0) (\<lambda>dest. if dest \<noteq> pc_rtx then Good None
      else obind (XEXP cmp 1) (\<lambda>src. if \<not> is_node ''if_then_else'' src then Good None
      else obind (XEXP src 1) (\<lambda>lab_ref.
        case lab_ref of
          Label_ref_x l \<Rightarrow> obind (XEXP src 2) (\<lambda>alt. Good (if alt \<noteq> pc_rtx then None else Some lab_ref))
        | _ \<Rightarrow> Good None))))"

definition ajardsp_parse_doloop_end_pattern :: "rtx \<Rightarrow> (doloop_end_info option, unit) outcome" where
  "ajardsp_parse_doloop_end_pattern pattern =
     (if \<not> is_node ''parallel'' pattern then Good None
      else obind (XEXP pattern 0) (\<lambda>cmp. obind (XEXP pattern 1) (\<lambda>inc.
        if \<not> is_node ''set'' inc then Good None
        else obind (XEXP pattern 2) (\<lambda>use. obind (XEXP use 0) (\<lambda>niter. obind (XEXP inc 0) (\<lambda>reg.
          if \<not> REG_P reg then Good None
          else obind (XEXP inc 1) (\<lambda>inc_src.
            if inc_src \<noteq> Plus_x reg (Const_int_x (- 1)) then Good None
            else obind (parse_doloop_branch cmp) (\<lambda>l.
              Good (map_option (\<lambda>lab_ref.
                \<lparr>dl_pattern = pattern, dl_cmp = cmp, dl_inc = inc, dl_reg = reg, dl_inc_src = inc_src,
                 dl_lab_ref = lab_ref, dl_niter = niter\<rparr>) l)))))))))"

text \<open>The pattern of the machine description.\<close>

definition doloop_end_internal :: "rtx \<Rightarrow> string \<Rightarrow> rtx \<Rightarrow> rtx list \<Rightarrow> rtx" where
  "doloop_end_internal reg l niter uses =
     Node Other_class ''parallel''
       ([Node Other_class ''set''
           [pc_rtx, Node Other_class ''if_then_else'' [Node Comparison ''ne'' [reg, Const_int_x 1], Label_ref_x l, pc_rtx]],
         Node Other_class ''set'' [reg, Plus_x reg (Const_int_x (- 1))],
         Node Other_class ''use'' [niter]] @ uses)"

lemma parse_doloop_end_internal:
  "ajardsp_parse_doloop_end_pattern (doloop_end_internal (Reg_x m r) l niter uses) =
     Good (Some
       \<lparr>dl_pattern = doloop_end_internal (Reg_x m r) l niter uses,
        dl_cmp = Node Other_class ''set''
           [pc_rtx, Node Other_class ''if_then_else'' [Node Comparison ''ne'' [Reg_x m r, Const_int_x 1], Label_ref_x l, pc_rtx]],
        dl_inc = Node Other_class ''set'' [Reg_x m r, Plus_x (Reg_x m r) (Const_int_x (- 1))],
        dl_reg = Reg_x m r, dl_inc_src = Plus_x (Reg_x m r) (Const_int_x (- 1)), dl_lab_ref = Label_ref_x l, dl_niter = niter\<rparr>)"
  by (simp add: ajardsp_parse_doloop_end_pattern_def parse_doloop_branch_def doloop_end_internal_def XEXP_def is_node_def REG_P_def)

section \<open>The pass\<close>

datatype insn_kind = Note_insn | Code_label nat | Real_insn

text \<open>\<open>li_id\<close> is 0 for the insns the pass makes; \<open>li_timode\<close> marks the start of a bundle.\<close>

record loop_insn =
  li_id :: nat
  li_kind :: insn_kind
  li_timode :: bool
  li_block :: nat
  li_doloop_end :: bool
  li_pattern :: rtx

type_synonym insns = "loop_insn list"

definition emit_before :: "nat \<Rightarrow> loop_insn \<Rightarrow> insns \<Rightarrow> insns" where
  "emit_before p i is = take p is @ i\<lparr>li_block := li_block (is ! p)\<rparr> # drop p is"

fun BB_HEAD :: "nat \<Rightarrow> insns \<Rightarrow> nat option" where
  "BB_HEAD b [] = None"
| "BB_HEAD b (i # is) = (if li_block i = b then Some 0 else map_option Suc (BB_HEAD b is))"

definition BB_END :: "nat \<Rightarrow> insns \<Rightarrow> nat option" where
  "BB_END b is = map_option (\<lambda>p. length is - 1 - p) (BB_HEAD b (rev is))"

text \<open>Backwards in the chain, to its start at most.\<close>

fun skip_notes :: "insns \<Rightarrow> nat \<Rightarrow> nat option" where
  "skip_notes is 0 = (if li_kind (is ! 0) = Note_insn then None else Some 0)"
| "skip_notes is (Suc p) = (if li_kind (is ! Suc p) = Note_insn then skip_notes is p else Some (Suc p))"

fun prev_real_insn :: "insns \<Rightarrow> nat \<Rightarrow> nat option" where
  "prev_real_insn is 0 = None"
| "prev_real_insn is (Suc p) = (if li_kind (is ! p) = Real_insn then Some p else prev_real_insn is p)"

fun prev_bundle :: "insns \<Rightarrow> nat \<Rightarrow> nat option" where
  "prev_bundle is 0 = None"
| "prev_bundle is (Suc p) = (if li_kind (is ! p) = Real_insn \<and> li_timode (is ! p) then Some p else prev_bundle is p)"

definition label_insn :: "nat \<Rightarrow> loop_insn" where
  "label_insn l =
     \<lparr>li_id = 0, li_kind = Code_label l, li_timode = False, li_block = 0, li_doloop_end = False, li_pattern = Node Other_class ''code_label'' []\<rparr>"

definition block_repeat :: "rtx \<Rightarrow> string \<Rightarrow> rtx" where
  "block_repeat niter l = Node Other_class ''unspec_hwloop_init'' [niter, Label_ref_x l]"

definition block_repeat_insn :: "(nat \<Rightarrow> string) \<Rightarrow> rtx \<Rightarrow> nat \<Rightarrow> loop_insn" where
  "block_repeat_insn label_name niter l =
     \<lparr>li_id = 0, li_kind = Real_insn, li_timode = True, li_block = 0, li_doloop_end = False, li_pattern = block_repeat niter (label_name l)\<rparr>"

text \<open>One block; the second component of the state is the next free label.\<close>

definition reorg_block ::
    "(nat \<Rightarrow> string) \<Rightarrow> bool \<Rightarrow> (nat \<Rightarrow> nat) \<Rightarrow> nat \<Rightarrow> insns \<times> nat \<Rightarrow> (insns \<times> nat, unit) outcome" where
  "reorg_block label_name vliw_pack branch_dest bb s =
     (let (is, l) = s in
      case Option.bind (BB_END bb is) (skip_notes is) of
        None \<Rightarrow> Undef
      | Some tail \<Rightarrow>
          if li_kind (is ! tail) = Real_insn \<and> li_doloop_end (is ! tail) then
            case BB_HEAD (branch_dest bb) is of
              None \<Rightarrow> Undef
            | Some loop_head \<Rightarrow>
                obind (ajardsp_parse_doloop_end_pattern (li_pattern (is ! tail))) (\<lambda>info.
                  case info of
                    None \<Rightarrow> Good (is, l)
                  | Some info \<Rightarrow>
                      (case (if vliw_pack then prev_bundle is tail else prev_real_insn is tail) of
                         None \<Rightarrow> Undef
                       | Some tmp \<Rightarrow>
                           let is1 = emit_before tmp (label_insn l) is;
                               head1 = (if tmp \<le> loop_head then Suc loop_head else loop_head)
                           in Good (emit_before head1 (block_repeat_insn label_name (dl_niter info) l) is1, Suc l)))
          else Good (is, l))"

definition ajardsp_reorg ::
    "(nat \<Rightarrow> string) \<Rightarrow> bool \<Rightarrow> bool \<Rightarrow> (nat \<Rightarrow> nat) \<Rightarrow> nat list \<Rightarrow> insns \<times> nat \<Rightarrow> (insns \<times> nat, unit) outcome" where
  "ajardsp_reorg label_name hwloop vliw_pack branch_dest blocks s =
     (if \<not> hwloop then Good s else walk (reorg_block label_name vliw_pack branch_dest) blocks s)"

text \<open>The options: hardware loops are never switched on by a level.\<close>

record target_flags =
  MASK_INSERT_NOPS :: bool
  MASK_VLIW_PACK :: bool
  MASK_HWLOOP :: bool

definition ajardsp_optimization_options :: "int \<Rightarrow> target_flags \<Rightarrow> target_flags" where
  "ajardsp_optimization_options level fs =
     (let fs1 = fs\<lparr>MASK_INSERT_NOPS := True\<rparr> in if 2 < level then fs1\<lparr>MASK_VLIW_PACK := True\<rparr> else fs1)"

section \<open>What is recognised\<close>

lemma is_node_iff: "is_node n x \<longleftrightarrow> (\<exists>c xs. x = Node c n xs)"
  by (auto simp: is_node_def split: rtx.splits)

lemma XEXP_Good: "XEXP x i = Good y \<longleftrightarrow> i < length (rtx_operands x) \<and> y = rtx_operands x ! i"
  by (auto simp: XEXP_def)

lemma parse_branch_iff:
  "parse_doloop_branch cmp = Good (Some lab) \<longleftrightarrow>
     (\<exists>c xs c' ys l. cmp = Node c ''set'' xs \<and> 2 \<le> length xs \<and> xs ! 0 = pc_rtx \<and> xs ! 1 = Node c' ''if_then_else'' ys \<and>
        3 \<le> length ys \<and> ys ! 1 = lab \<and> ys ! 2 = pc_rtx \<and> lab = Label_ref_x l)"
  by (auto simp: parse_doloop_branch_def obind_eq_Good is_node_iff XEXP_Good split: if_splits rtx.splits)


text \<open>What a recognised pattern is: a counter that is decremented, compared and branched on.\<close>

lemma parse_doloop_sound:
  assumes "ajardsp_parse_doloop_end_pattern p = Good (Some info)"
  shows "\<exists>c c1 c2 xs m r. p = Node c ''parallel'' xs \<and> 3 \<le> length xs \<and> dl_pattern info = p \<and>
    dl_cmp info = xs ! 0 \<and> parse_doloop_branch (xs ! 0) = Good (Some (dl_lab_ref info)) \<and>
    dl_inc info = xs ! 1 \<and> xs ! 1 = Node c1 ''set'' c2 \<and> 2 \<le> length c2 \<and>
    dl_reg info = Reg_x m r \<and> c2 ! 0 = Reg_x m r \<and> c2 ! 1 = Plus_x (Reg_x m r) (Const_int_x (- 1)) \<and>
    rtx_operands (xs ! 2) \<noteq> [] \<and> dl_niter info = hd (rtx_operands (xs ! 2))"
proof -
  have R: "REG_P x \<longleftrightarrow> (\<exists>m r. x = Reg_x m r)" for x by (cases x) (auto simp: REG_P_def)
  note d = assms[unfolded ajardsp_parse_doloop_end_pattern_def]
  obtain c xs where p: "p = Node c ''parallel'' xs"
    using d by (cases "is_node ''parallel'' p") (auto simp: is_node_iff)
  have n: "is_node ''parallel'' p" by (simp add: p is_node_def)
  obtain cmp inc where 1: "XEXP p 0 = Good cmp" "XEXP p (Suc 0) = Good inc" "is_node ''set'' inc"
    using d n by (auto simp: obind_eq_Good split: if_splits)
  obtain us niter reg src lab where 2: "XEXP p 2 = Good us" "XEXP us 0 = Good niter" "XEXP inc 0 = Good reg" "REG_P reg"
      "XEXP inc (Suc 0) = Good src" "src = Plus_x reg (Const_int_x (- 1))" "parse_doloop_branch cmp = Good (Some lab)"
    and info: "info = \<lparr>dl_pattern = p, dl_cmp = cmp, dl_inc = inc, dl_reg = reg, dl_inc_src = src, dl_lab_ref = lab, dl_niter = niter\<rparr>"
    using d by (simp add: n 1) (auto simp: obind_eq_Good split: if_splits)
  from 1(3) obtain c1 c2 where inc: "inc = Node c1 ''set'' c2" by (auto simp: is_node_iff)
  from 2(4) obtain m r where r: "reg = Reg_x m r" by (auto simp: R)
  have o: "rtx_operands inc = c2" by (simp add: inc)
  have i: "cmp = xs ! 0" "inc = xs ! 1" "us = xs ! 2" "3 \<le> length xs"
    using 1(1,2) 2(1) by (auto simp: XEXP_Good p)
  have "c2 ! 0 = reg" "c2 ! 1 = src" "2 \<le> length c2" "rtx_operands us \<noteq> []" "niter = hd (rtx_operands us)"
    using 2(2,3,5) o by (auto simp: XEXP_Good hd_conv_nth)
  note ops = this[unfolded i(3)]
  have x1: "xs ! Suc 0 = Node c1 ''set'' c2" using i(2) inc by simp
  show ?thesis
    by (rule exI[of _ c], rule exI[of _ c1], rule exI[of _ c2], rule exI[of _ xs], rule exI[of _ m], rule exI[of _ r])
      (use p i(4) r 2(6,7) ops in \<open>simp add: info x1 inc i(1)[symmetric]\<close>)
qed

section \<open>Where the loop is put\<close>

lemma prev_bundle_before: "prev_bundle is p = Some q \<Longrightarrow> q < p \<and> li_kind (is ! q) = Real_insn \<and> li_timode (is ! q)"
  by (induction p) (auto split: if_splits)

lemma prev_real_before: "prev_real_insn is p = Some q \<Longrightarrow> q < p \<and> li_kind (is ! q) = Real_insn"
  by (induction p) (auto split: if_splits)

lemma prev_bundle_last: "prev_bundle is p = Some q \<Longrightarrow> q < j \<Longrightarrow> j < p \<Longrightarrow> \<not> (li_kind (is ! j) = Real_insn \<and> li_timode (is ! j))"
  by (induction p) (auto simp: less_Suc_eq split: if_splits)

lemma BB_HEAD_less: "BB_HEAD b is = Some h \<Longrightarrow> h < length is \<and> li_block (is ! h) = b"
  by (induction "is" arbitrary: h) (auto split: if_splits)

lemma skip_notes_le: "skip_notes is p = Some t \<Longrightarrow> t \<le> p"
  by (induction p) (auto split: if_splits)

lemma BB_END_less: "BB_END b is = Some e \<Longrightarrow> e < length is"
  using BB_HEAD_less[of b "rev is"] by (auto simp: BB_END_def)

lemma emit_twice:
  assumes "h < q" "q < length is"
  shows "emit_before h x (emit_before q y is) =
    take h is @ x\<lparr>li_block := li_block (is ! h)\<rparr> # drop h (take q is) @
      y\<lparr>li_block := li_block (is ! q)\<rparr> # drop q is"
proof -
  have l: "length (take q is) = q" using assms(2) by simp
  have "take q is ! h = is ! h" using assms(1) by simp
  moreover have "take h (take q is) = take h is" using assms(1) by (simp add: min_def)
  ultimately show ?thesis using assms(1) l by (simp add: emit_before_def nth_append del: length_take)
qed


text \<open>C37: for a loop that ends in the pattern of the machine description the pass puts a block repeat with its number of
  iterations before the first insn of the block the branch goes to, and the label it names before the last
  bundle in front of the branch; everything else stays.\<close>

theorem reorg_places_block_repeat:
  assumes "BB_END bb is = Some e" "skip_notes is e = Some t" "li_kind (is ! t) = Real_insn" "li_doloop_end (is ! t)"
    and "li_pattern (is ! t) = doloop_end_internal (Reg_x m r) lab niter uses"
    and "BB_HEAD (branch_dest bb) is = Some h" "prev_bundle is t = Some q" "h < q"
  shows "\<exists>a b. ajardsp_reorg label_name True True branch_dest [bb] (is, l) =
      Good (take h is @ a # drop h (take q is) @ b # drop q is, Suc l) \<and>
    li_pattern a = block_repeat niter (label_name l) \<and> li_timode a \<and> li_kind b = Code_label l \<and>
    li_kind (is ! q) = Real_insn \<and> li_timode (is ! q) \<and> q < t \<and>
    (\<forall>j. q < j \<and> j < t \<longrightarrow> \<not> (li_kind (is ! j) = Real_insn \<and> li_timode (is ! j)))"
proof -
  have "t < length is" using BB_END_less[OF assms(1)] skip_notes_le[OF assms(2)] by simp
  then have "q < length is" using prev_bundle_before[OF assms(7)] by simp
  note e = emit_twice[OF assms(8) this]
  have "ajardsp_reorg label_name True True branch_dest [bb] (is, l) =
      Good (emit_before h (block_repeat_insn label_name niter l) (emit_before q (label_insn l) is), Suc l)"
    using assms by (simp add: ajardsp_reorg_def reorg_block_def parse_doloop_end_internal)
  then show ?thesis unfolding e
    using prev_bundle_before[OF assms(7)] prev_bundle_last[OF assms(7)]
    by (auto simp: block_repeat_insn_def label_insn_def)
qed

text \<open>Whatever the blocks, the pass only adds insns, as many labels as block repeats.\<close>

definition old_insns :: "insns \<Rightarrow> insns" where
  "old_insns is = filter (\<lambda>i. li_id i \<noteq> 0) is"

lemma old_emit: "li_id i = 0 \<Longrightarrow> old_insns (emit_before p i is) = old_insns is"
  by (simp add: old_insns_def emit_before_def) (metis append_take_drop_id filter_append)

lemma length_emit: "length (emit_before p i is) = Suc (length is)"
  by (simp add: emit_before_def)

lemma reorg_block_adds:
  assumes "reorg_block label_name vliw dest bb s = Good s'"
  shows "old_insns (fst s') = old_insns (fst s) \<and> length (fst s') + 2 * snd s = length (fst s) + 2 * snd s'"
proof -
  obtain "is" l where s: "s = (is, l)" by (cases s)
  have "s' = (is, l) \<or> (\<exists>h x q y. s' = (emit_before h x (emit_before q y is), Suc l) \<and> li_id x = 0 \<and> li_id y = 0)"
  proof (cases "Option.bind (BB_END bb is) (skip_notes is)")
    case (Some t)
    define T where "T = (if vliw then prev_bundle is t else prev_real_insn is t)"
    note d = assms[unfolded s reorg_block_def Let_def prod.case Some option.case T_def[symmetric]]
    show ?thesis
    proof (cases "li_kind (is ! t) = Real_insn \<and> li_doloop_end (is ! t)")
      case True
      note d = d[unfolded if_P[OF True]]
      show ?thesis
      proof (cases "BB_HEAD (dest bb) is")
        case h: (Some h)
        obtain info where i: "ajardsp_parse_doloop_end_pattern (li_pattern (is ! t)) = Good info"
          using d by (auto simp: h obind_eq_Good)
        have n: "li_id (label_insn k) = 0" "li_id (block_repeat_insn label_name x k) = 0" for k x
          by (simp_all add: label_insn_def block_repeat_insn_def)
        show ?thesis
        proof (cases info)
          case a: (Some a)
          show ?thesis
          proof (cases T)
            case (Some q)
            have "s' = (emit_before (if q \<le> h then Suc h else h) (block_repeat_insn label_name (dl_niter a) l)
                (emit_before q (label_insn l) is), Suc l)"
              using d by (simp add: h i a Some)
            with n show ?thesis by blast
          qed (use d in \<open>simp add: h i a\<close>)
        qed (use d in \<open>simp add: h i\<close>)
      qed (use d in simp)
    next
      case False
      show ?thesis using d[unfolded if_not_P[OF False]] by simp
    qed
  qed (use assms in \<open>simp add: s reorg_block_def\<close>)
  then show ?thesis by (auto simp: s old_emit length_emit)
qed

text \<open>The pass only adds insns: those it was given stay, in their order, and for every new label there are two new insns.\<close>

theorem reorg_only_adds:
  assumes "ajardsp_reorg label_name hwloop vliw dest blocks (is, l) = Good (is', l')"
  shows "old_insns is' = old_insns is \<and> length is' + 2 * l = length is + 2 * l'"
proof -
  have "walk (reorg_block label_name vliw dest) bs s = Good s' \<Longrightarrow>
      old_insns (fst s') = old_insns (fst s) \<and> length (fst s') + 2 * snd s = length (fst s) + 2 * snd s'" for bs s s'
  proof (induction bs arbitrary: s)
    case (Cons b bs)
    then obtain s1 where 1: "reorg_block label_name vliw dest b s = Good s1" "walk (reorg_block label_name vliw dest) bs s1 = Good s'"
      by (auto simp: obind_eq_Good)
    from reorg_block_adds[OF 1(1)] Cons.IH[OF 1(2)] show ?case by simp
  qed simp
  from this[of blocks "(is, l)" "(is', l')"] assms show ?thesis by (auto simp: ajardsp_reorg_def split: if_splits)
qed

section \<open>How often the loop runs\<close>

text \<open>A loop that ends in \<open>doloop_end_internal\<close> with the value \<open>c\<close> of its counter.\<close>

function doloop_runs :: "u16 \<Rightarrow> nat" where
  "doloop_runs c = (if c = 1 then 1 else Suc (doloop_runs (c - 1)))"
  by pat_completeness auto
termination
proof (relation "measure (\<lambda>c. unat (c - 1))")
  fix c :: u16 assume "c \<noteq> 1"
  then have "c - 1 \<noteq> 0" by simp
  then have "unat (c - 1 - 1) < unat (c - 1)"
    using unat_minus_one[of "c - 1"] by (simp only: unat_eq_zero diff_less zero_less_one neq0_conv[symmetric] simp_thms)
  then show "(c - 1, c) \<in> measure (\<lambda>c. unat (c - 1))" by (simp only: in_measure)
qed simp

declare doloop_runs.simps [simp del]

lemma doloop_runs_nat: "0 < n \<Longrightarrow> n < 65536 \<Longrightarrow> doloop_runs (of_nat n) = n"
proof (induction n)
  case (Suc n)
  show ?case
  proof (cases n)
    case 0
    then show ?thesis by (simp add: doloop_runs.simps)
  next
    case (Suc m)
    with Suc.prems have "of_nat n \<noteq> (0 :: u16)"
      by (simp add: word_of_nat_eq_0_iff nat_dvd_not_less del: of_nat_Suc)
    then have "of_nat (Suc n) \<noteq> (1 :: u16)" by simp
    then have "doloop_runs (of_nat (Suc n)) = Suc (doloop_runs (of_nat (Suc n) - 1))"
      by (subst doloop_runs.simps) (simp only: if_False)
    moreover have "of_nat (Suc n) - 1 = (of_nat n :: u16)" by simp
    ultimately show ?thesis using Suc.IH Suc.prems Suc by simp
  qed
qed simp


text \<open>C38: the loop is run once too often: where the code of the loop, without the block repeat, runs its body \<open>n\<close> times, the
  processor runs the body between the block repeat and the bundle behind the label \<open>n + 1\<close> times when the
  counter has been set to the number of iterations \<open>n\<close>.\<close>

theorem hardware_loop_runs_once_more:
  assumes "fetch_state s = RUNNING" "inst_pipe_0_r s = None" "b (pc s) = Some e" "bkrep_cnt_r s = of_nat n" "0 < n" "n < 65536"
    and "b0 = pc s + z (pc s)" "body_from z b e k b0" "0 < k" "b0 \<noteq> e"
    and "bkrep_end_pc_r s \<noteq> pc s" "bkrep_end_pc_r s \<noteq> b0"
  shows "\<exists>t s' body. clks z b t s = (s', pc s # body @ concat (replicate (doloop_runs (bkrep_cnt_r s)) body)) \<and>
    body = bundles z (k + 2) b0 \<and> bkrep_cnt_r s' = 0"
proof -
  from block_repeat_trace[OF assms(1-4,6-12)] obtain t s' where
    "clks z b t s = (s', pc s # concat (replicate (n + 1) (bundles z (k + 2) b0)))" "bkrep_cnt_r s' = 0" by blast
  moreover have "doloop_runs (bkrep_cnt_r s) = n" using doloop_runs_nat[OF assms(5,6)] assms(4) by simp
  ultimately show ?thesis by auto
qed


theorem hardware_loop_runs_once_more_witness:
  "\<exists>t s'. clks (\<lambda>_. 1) (\<lambda>a. if a = 8 then Some 10 else None) t
      \<lparr>fetch_state = RUNNING, pc = 8, jump_pc_r = 0, inst_pipe_0_r = None, bkrep_begin_pc_r = 0, bkrep_end_pc_r = 0, bkrep_cnt_r = 2\<rparr> =
    (s', 8 # [9, 10, 11] @ concat (replicate (doloop_runs 2) [9, 10, 11])) \<and> bkrep_cnt_r s' = 0"
proof -
  let ?s = "\<lparr>fetch_state = RUNNING, pc = 8, jump_pc_r = 0, inst_pipe_0_r = None, bkrep_begin_pc_r = 0, bkrep_end_pc_r = 0, bkrep_cnt_r = 2\<rparr> :: pcu"
  let ?b = "\<lambda>a :: u16. if a = 8 then Some (10 :: u16) else None"
  have "body_from (\<lambda>_. 1) ?b 10 1 9" by (simp add: body_from_def)
  from hardware_loop_runs_once_more[of ?s ?b 10 2 9 "\<lambda>_. 1" 1, OF _ _ _ _ _ _ _ this]
  show ?thesis by simp
qed

definition sample_loop :: insns where
  "sample_loop =
     (let i = \<lparr>li_id = 1, li_kind = Real_insn, li_timode = True, li_block = 1, li_doloop_end = False, li_pattern = pc_rtx\<rparr> in
      [i\<lparr>li_block := 0\<rparr>, i\<lparr>li_id := 2, li_kind := Code_label 7\<rparr>, i\<lparr>li_id := 3\<rparr>, i\<lparr>li_id := 4\<rparr>, i\<lparr>li_id := 5, li_timode := False\<rparr>,
       i\<lparr>li_id := 6, li_doloop_end := True, li_pattern := doloop_end_internal (Reg_x QImode 8) ''L7'' (Const_int_x 10) []\<rparr>,
       i\<lparr>li_id := 7, li_kind := Note_insn\<rparr>])"

theorem reorg_places_block_repeat_witness:
  "\<exists>a b. ajardsp_reorg (\<lambda>_. ''L8'') True True (\<lambda>_. 1) [1] (sample_loop, 8) =
     Good ([sample_loop ! 0, a, sample_loop ! 1, sample_loop ! 2, b, sample_loop ! 3, sample_loop ! 4, sample_loop ! 5, sample_loop ! 6], 9) \<and>
     li_pattern a = block_repeat (Const_int_x 10) ''L8'' \<and> li_kind b = Code_label 8"
  using reorg_places_block_repeat[of 1 sample_loop 6 5 QImode 8 "''L7''" "Const_int_x 10" "[]" "\<lambda>_. 1" 1 3 "\<lambda>_. ''L8''" 8]
  by (simp add: sample_loop_def Let_def BB_END_def eval_nat_numeral) blast

theorem reorg_only_adds_witness:
  "\<exists>is' l'. ajardsp_reorg (\<lambda>_. ''L8'') True False (\<lambda>_. 1) [0, 1] (sample_loop, 8) = Good (is', l') \<and> old_insns is' = old_insns sample_loop"
proof -
  have "\<exists>r. ajardsp_reorg (\<lambda>_. ''L8'') True False (\<lambda>_. 1) [0, 1] (sample_loop, 8) = Good r"
    by (simp add: ajardsp_reorg_def reorg_block_def sample_loop_def Let_def BB_END_def eval_nat_numeral parse_doloop_end_internal)
  then obtain is' l' where r: "ajardsp_reorg (\<lambda>_. ''L8'') True False (\<lambda>_. 1) [0, 1] (sample_loop, 8) = Good (is', l')" by auto
  from reorg_only_adds[OF r] r show ?thesis by blast
qed

end
