(* ===== verification/SimView.thy ===== *)
theory SimView
  imports Disasm Target
begin

text \<open>
  What the simulation debugger shows (\<open>sw/tools/simdebug/debug-pli.c\<close> and the windows of
  \<open>debug-gui.c\<close>): the registers and the data memory it reads out of the simulated design, the list
  stores of the windows, the pipeline labels, and the edits it sends back.

  The simulator is a parameter: \<open>sim\<close> gives the value of an object of the design, \<^term>\<open>None\<close> when the
  object is not there, so that its handle is NULL.  Values written to the design are collected in
  \<open>vpi_puts\<close>, and what is printed with \<open>vpi_printf\<close> in \<open>vpi_log\<close>; messages on \<open>stderr\<close> are left out.  A list
  store is the list of its rows, a \<open>GtkTreeIter\<close> is the number of a row.
\<close>

section \<open>State\<close>

datatype vpi_handle = By_name string | By_index string int

type_synonym simulation = "vpi_handle \<Rightarrow> u32 option"

record reg_entry =
  r_path :: string
  r_name :: string
  r_index :: int
  r_obj :: "vpi_handle option"
  r_iter :: "nat option"
  r_curr :: u32
  r_prev :: u32

definition sim_reg :: "string \<Rightarrow> string \<Rightarrow> int \<Rightarrow> reg_entry" where
  "sim_reg path name index =
     \<lparr>r_path = path, r_name = name, r_index = index, r_obj = None, r_iter = None, r_curr = 0, r_prev = 0\<rparr>"

definition RegsOfInterest :: "reg_entry list" where
  "RegsOfInterest =
    [
     sim_reg ''testbench.ajardsp_0.pcu_0.pc_i'' ''pc'' (- 1),
     sim_reg ''testbench.ajardsp_0.pcu_0.retpc_r'' ''$retpc'' (- 1),
     sim_reg ''testbench.ajardsp_0.pred_0.pred_reg_r'' ''$pred'' (- 1),
     sim_reg ''testbench.ajardsp_0.sp_0.sp_r'' ''$sp'' (- 1),
     sim_reg ''testbench.ajardsp_0.curegs_0.satctrl_r'' ''$satctrl'' (- 1),
     sim_reg ''testbench.ajardsp_0.curegs_0.mulsign_r'' ''$mulsign'' (- 1),
     sim_reg ''testbench.ajardsp_0.lsuregs_0.mask_sel_o'' ''$masksel'' (- 1),
     sim_reg ''testbench.ajardsp_0.lsuregs_0.mask_0_o'' ''$mask0'' (- 1),
     sim_reg ''testbench.ajardsp_0.lsuregs_0.mask_1_o'' ''$mask1'' (- 1),
     sim_reg ''testbench.ajardsp_0.lsuregs_0.mod_sel_o'' ''$modsel'' (- 1),
     sim_reg ''testbench.ajardsp_0.lsuregs_0.mod_0_o'' ''$mod0'' (- 1),
     sim_reg ''testbench.ajardsp_0.lsuregs_0.mod_1_o'' ''$mod1'' (- 1),
     sim_reg ''testbench.ajardsp_0.lsuregs_0.bitrev_o'' ''$bitrev'' (- 1),
     sim_reg ''testbench.ajardsp_0.gpio_r'' ''$gpio'' (- 1),
     sim_reg ''testbench.ajardsp_0.ptrrf_0.ptr_regs'' ''$ptr0'' 0,
     sim_reg ''testbench.ajardsp_0.ptrrf_0.ptr_regs'' ''$ptr1'' 1,
     sim_reg ''testbench.ajardsp_0.ptrrf_0.ptr_regs'' ''$ptr2'' 2,
     sim_reg ''testbench.ajardsp_0.ptrrf_0.ptr_regs'' ''$ptr3'' 3,
     sim_reg ''testbench.ajardsp_0.ptrrf_0.ptr_regs'' ''$ptr4'' 4,
     sim_reg ''testbench.ajardsp_0.ptrrf_0.ptr_regs'' ''$ptr5'' 5,
     sim_reg ''testbench.ajardsp_0.ptrrf_0.ptr_regs'' ''$ptr6'' 6,
     sim_reg ''testbench.ajardsp_0.ptrrf_0.ptr_regs'' ''$ptr7'' 7,
     sim_reg ''testbench.ajardsp_0.accrf_share_0.accrf_0.acc_regs_low'' ''$acc0l'' 0,
     sim_reg ''testbench.ajardsp_0.accrf_share_0.accrf_0.acc_regs_high'' ''$acc0h'' 0,
     sim_reg ''testbench.ajardsp_0.accrf_share_0.accrf_0.acc_regs_guard'' ''$acc0g'' 0,
     sim_reg ''testbench.ajardsp_0.accrf_share_0.accrf_0.acc_regs_low'' ''$acc1l'' 1,
     sim_reg ''testbench.ajardsp_0.accrf_share_0.accrf_0.acc_regs_high'' ''$acc1h'' 1,
     sim_reg ''testbench.ajardsp_0.accrf_share_0.accrf_0.acc_regs_guard'' ''$acc1g'' 1,
     sim_reg ''testbench.ajardsp_0.accrf_share_0.accrf_0.acc_regs_low'' ''$acc2l'' 2,
     sim_reg ''testbench.ajardsp_0.accrf_share_0.accrf_0.acc_regs_high'' ''$acc2h'' 2,
     sim_reg ''testbench.ajardsp_0.accrf_share_0.accrf_0.acc_regs_guard'' ''$acc2g'' 2,
     sim_reg ''testbench.ajardsp_0.accrf_share_0.accrf_0.acc_regs_low'' ''$acc3l'' 3,
     sim_reg ''testbench.ajardsp_0.accrf_share_0.accrf_0.acc_regs_high'' ''$acc3h'' 3,
     sim_reg ''testbench.ajardsp_0.accrf_share_0.accrf_0.acc_regs_guard'' ''$acc3g'' 3,
     sim_reg ''testbench.ajardsp_0.accrf_share_0.accrf_0.acc_regs_low'' ''$acc4l'' 4,
     sim_reg ''testbench.ajardsp_0.accrf_share_0.accrf_0.acc_regs_high'' ''$acc4h'' 4,
     sim_reg ''testbench.ajardsp_0.accrf_share_0.accrf_0.acc_regs_guard'' ''$acc4g'' 4,
     sim_reg ''testbench.ajardsp_0.accrf_share_0.accrf_0.acc_regs_low'' ''$acc5l'' 5,
     sim_reg ''testbench.ajardsp_0.accrf_share_0.accrf_0.acc_regs_high'' ''$acc5h'' 5,
     sim_reg ''testbench.ajardsp_0.accrf_share_0.accrf_0.acc_regs_guard'' ''$acc5g'' 5,
     sim_reg ''testbench.ajardsp_0.accrf_share_0.accrf_0.acc_regs_low'' ''$acc6l'' 6,
     sim_reg ''testbench.ajardsp_0.accrf_share_0.accrf_0.acc_regs_high'' ''$acc6h'' 6,
     sim_reg ''testbench.ajardsp_0.accrf_share_0.accrf_0.acc_regs_guard'' ''$acc6g'' 6,
     sim_reg ''testbench.ajardsp_0.accrf_share_0.accrf_0.acc_regs_low'' ''$acc7l'' 7,
     sim_reg ''testbench.ajardsp_0.accrf_share_0.accrf_0.acc_regs_high'' ''$acc7h'' 7,
     sim_reg ''testbench.ajardsp_0.accrf_share_0.accrf_0.acc_regs_guard'' ''$acc7g'' 7]"

definition LDM_SIZE :: nat where "LDM_SIZE = 0x10000 div 16"

text \<open>A label shows markup or plain text.\<close>

datatype pipe_label = Markup string | Plain string

record view =
  sim_regs :: "reg_entry list"
  memory_curr :: "nat \<Rightarrow> u32"
  memory_prev :: "nat \<Rightarrow> u32"
  memory_age :: "nat \<Rightarrow> int"
  mem_vpi_handle :: "string option"
  memory_iters :: "nat \<Rightarrow> nat option"
  reg_list_store :: "(nat \<times> u32) list"
  mem_list_store :: "u32 list list"
  cycle_label :: string
  pipe_labels :: "string \<Rightarrow> nat \<Rightarrow> pipe_label"
  vpi_log :: string
  vpi_puts :: "(vpi_handle \<times> u32) list"

section \<open>Text\<close>

text \<open>\<open>%0wX\<close>.\<close>

definition upcase :: "char \<Rightarrow> char" where
  "upcase c = (if c \<in> set ''abcdef'' then char_of ((of_char c :: nat) - 32) else c)"

definition fmt_X :: "nat \<Rightarrow> u32 \<Rightarrow> string" where
  "fmt_X w v = map upcase (fmt_x w v)"

section \<open>The windows\<close>

definition RegInitializeRegister :: "nat \<Rightarrow> 'a view_scheme \<Rightarrow> 'a view_scheme" where
  "RegInitializeRegister i s =
     s\<lparr>sim_regs := (sim_regs s)[i := (sim_regs s ! i)\<lparr>r_iter := Some (length (reg_list_store s))\<rparr>],
       reg_list_store := reg_list_store s @ [(i, 0)]\<rparr>"

definition RegInitializeRegisters :: "nat \<Rightarrow> 'a view_scheme \<Rightarrow> 'a view_scheme" where
  "RegInitializeRegisters RegsLength s = fold RegInitializeRegister [0..<RegsLength] s"

definition MemInitializeRow :: "nat \<Rightarrow> 'a view_scheme \<Rightarrow> 'a view_scheme" where
  "MemInitializeRow k s =
     s\<lparr>memory_iters := (memory_iters s)(k := Some (length (mem_list_store s))),
       mem_list_store := mem_list_store s @ [of_nat (8 * k) # map (\<lambda>j. of_nat (8 * k + j)) [0..<8]]\<rparr>"

definition MemInitializeMemory :: "nat \<Rightarrow> 'a view_scheme \<Rightarrow> 'a view_scheme" where
  "MemInitializeMemory MemLength s = fold MemInitializeRow [0..<(MemLength + 7) div 8] s"

definition RegisterGuiUpdate :: "reg_entry \<Rightarrow> 'a view_scheme \<Rightarrow> ('a view_scheme, unit) outcome" where
  "RegisterGuiUpdate r s =
     (case r_iter r of
        None \<Rightarrow> Undef
      | Some k \<Rightarrow>
          Good (s\<lparr>reg_list_store := (reg_list_store s)[k := (fst (reg_list_store s ! k), r_curr r)]\<rparr>))"

definition MemoryGuiUpdate :: "nat \<Rightarrow> u32 \<Rightarrow> 'a view_scheme \<Rightarrow> ('a view_scheme, unit) outcome" where
  "MemoryGuiUpdate Address Value s =
     (let RowAddress = Address div 8; ColAddress = Address - RowAddress * 8 in
      case memory_iters s RowAddress of
        None \<Rightarrow> Undef
      | Some k \<Rightarrow>
          Good (s\<lparr>mem_list_store :=
            (mem_list_store s)[k := (mem_list_store s ! k)[1 + ColAddress := Value]]\<rparr>))"

definition UpdateCycleCount :: "int \<Rightarrow> 'a view_scheme \<Rightarrow> 'a view_scheme" where
  "UpdateCycleCount CurrentCycles s =
     s\<lparr>cycle_label := ''Current simulation cycle: '' @ fmt_d (word_of_int CurrentCycles)\<rparr>"

text \<open>What a cell shows: its text, whether it is red, and its background.\<close>

record cell =
  cell_text :: string
  cell_red :: bool
  cell_background :: "string option"

definition Memory_DataFunc :: "nat \<Rightarrow> nat \<Rightarrow> 'a view_scheme \<Rightarrow> cell" where
  "Memory_DataFunc ColumnIndex row s =
     (let MemRowAddr = mem_list_store s ! row ! 0 in
      if ColumnIndex = 0 then
        \<lparr>cell_text = ''0x'' @ fmt_X 4 MemRowAddr, cell_red = False, cell_background = Some ''Gray''\<rparr>
      else
        let MemAddr = unat MemRowAddr + (ColumnIndex - 1) in
        \<lparr>cell_text = fmt_X 4 (memory_curr s MemAddr),
         cell_red = (memory_curr s MemAddr \<noteq> memory_prev s MemAddr), cell_background = None\<rparr>)"

definition Registers_DataFunc :: "nat \<Rightarrow> nat \<Rightarrow> 'a view_scheme \<Rightarrow> cell" where
  "Registers_DataFunc ColumnIndex row s =
     (let (RegNameIndex, RegValue) = reg_list_store s ! row;
          r = sim_regs s ! RegNameIndex
      in if ColumnIndex = 0 then
           \<lparr>cell_text = r_name r, cell_red = False, cell_background = Some ''Gray''\<rparr>
         else
           \<lparr>cell_text = ''0x'' @ fmt_X 4 RegValue, cell_red = (r_curr r \<noteq> r_prev r), cell_background = None\<rparr>)"

section \<open>Reading the design\<close>

definition SimReadReg :: "simulation \<Rightarrow> string \<Rightarrow> (u32, unit) outcome" where
  "SimReadReg sim path = (case sim (By_name path) of None \<Rightarrow> Undef | Some v \<Rightarrow> Good v)"

definition reg_value :: "simulation \<Rightarrow> reg_entry \<Rightarrow> u32 option" where
  "reg_value sim r = Option.bind (r_obj r) sim"

definition SimReadOutRegister :: "simulation \<Rightarrow> nat \<Rightarrow> 'a view_scheme \<Rightarrow> ('a view_scheme, unit) outcome" where
  "SimReadOutRegister sim i s =
     (let r = sim_regs s ! i in
      case reg_value sim r of
        None \<Rightarrow> Undef
      | Some v \<Rightarrow>
          let r' = r\<lparr>r_prev := r_curr r, r_curr := v\<rparr> in
          RegisterGuiUpdate r'
            (s\<lparr>sim_regs := (sim_regs s)[i := r'],
               vpi_log := vpi_log s @ r_path r @ '':'' @ r_name r @ '':0x'' @ fmt_X 4 v @ [newline]\<rparr>))"

definition SimReadOutRegisters :: "simulation \<Rightarrow> 'a view_scheme \<Rightarrow> ('a view_scheme, unit) outcome" where
  "SimReadOutRegisters sim s = walk (SimReadOutRegister sim) [0..<length (sim_regs s)] s"

text \<open>
  One word of the memory.  A word that keeps its value ages, and the window is updated while the age
  is below two: once when the word has changed, and once more to take the colour away.
\<close>

definition mem_word :: "simulation \<Rightarrow> string option \<Rightarrow> nat \<Rightarrow> u32 option" where
  "mem_word sim h i = Option.bind h (\<lambda>p. sim (By_index p (int i)))"

definition SimReadOutWord :: "simulation \<Rightarrow> nat \<Rightarrow> 'a view_scheme \<Rightarrow> ('a view_scheme, unit) outcome" where
  "SimReadOutWord sim i s =
     (case mem_word sim (mem_vpi_handle s) i of
        None \<Rightarrow> Undef
      | Some v \<Rightarrow>
          let old = memory_curr s i;
              s = s\<lparr>memory_prev := (memory_prev s)(i := old), memory_curr := (memory_curr s)(i := v)\<rparr>
          in if v = old \<and> memory_age s i = 2 ^ 31 - 1 then Undef
             else
               let age = (if v \<noteq> old then 0 else memory_age s i + 1);
                   s = s\<lparr>memory_age := (memory_age s)(i := age)\<rparr>
               in if age < 2 then MemoryGuiUpdate i v s else Good s)"

definition SimReadOutMemory :: "simulation \<Rightarrow> 'a view_scheme \<Rightarrow> ('a view_scheme, unit) outcome" where
  "SimReadOutMemory sim s = walk (SimReadOutWord sim) [0..<LDM_SIZE] s"

section \<open>The pipelines\<close>

record fu_desc =
  fu_name :: string
  nbr_of_pipe_stages :: nat
  pipe_stages :: "(string \<times> string) list"

definition PCU_Desc :: fu_desc where
  "PCU_Desc = \<lparr>fu_name = ''PCU'', nbr_of_pipe_stages = 2,
     pipe_stages = [(''DEC'', ''testbench.ajardsp_0.pcu_0.inst_pipe_0_r''), (''EXEC'', ''testbench.ajardsp_0.pcu_0.inst_pipe_1_r'')]\<rparr>"

definition BMU_Desc :: fu_desc where
  "BMU_Desc = \<lparr>fu_name = ''BMU'', nbr_of_pipe_stages = 3,
     pipe_stages = [(''DEC'', ''testbench.ajardsp_0.bmu_0.inst_pipe_0_r''), (''EXEC'', ''testbench.ajardsp_0.bmu_0.inst_pipe_1_r''),
       (''WB'', ''testbench.ajardsp_0.bmu_0.inst_pipe_2_r'')]\<rparr>"

definition CU_0_Desc :: fu_desc where
  "CU_0_Desc = \<lparr>fu_name = ''CU 0'', nbr_of_pipe_stages = 3,
     pipe_stages = [(''DEC'', ''testbench.ajardsp_0.cu_0.inst_pipe_0_r''), (''EXEC'', ''testbench.ajardsp_0.cu_0.inst_pipe_1_r''),
       (''WB'', ''testbench.ajardsp_0.cu_0.inst_pipe_2_r'')]\<rparr>"

definition CU_1_Desc :: fu_desc where
  "CU_1_Desc = \<lparr>fu_name = ''CU 1'', nbr_of_pipe_stages = 3,
     pipe_stages = [(''DEC'', ''testbench.ajardsp_0.cu_1.inst_pipe_0_r''), (''EXEC'', ''testbench.ajardsp_0.cu_1.inst_pipe_1_r''),
       (''WB'', ''testbench.ajardsp_0.cu_1.inst_pipe_2_r'')]\<rparr>"

definition LSU_0_Desc :: fu_desc where
  "LSU_0_Desc = \<lparr>fu_name = ''LSU 0'', nbr_of_pipe_stages = 2,
     pipe_stages = [(''DEC/MEM'', ''testbench.ajardsp_0.lsu_0.inst_pipe_0_r''), (''WB'', ''testbench.ajardsp_0.lsu_0.inst_pipe_1_r'')]\<rparr>"

definition LSU_1_Desc :: fu_desc where
  "LSU_1_Desc = \<lparr>fu_name = ''LSU 1'', nbr_of_pipe_stages = 2,
     pipe_stages = [(''DEC/MEM'', ''testbench.ajardsp_0.lsu_1.inst_pipe_0_r''), (''WB'', ''testbench.ajardsp_0.lsu_1.inst_pipe_1_r'')]\<rparr>"

definition set_pipe_label :: "fu_desc \<Rightarrow> nat \<Rightarrow> pipe_label \<Rightarrow> 'a view_scheme \<Rightarrow> 'a view_scheme" where
  "set_pipe_label fu i l s =
     s\<lparr>pipe_labels := (pipe_labels s)(fu_name fu := (pipe_labels s (fu_name fu))(i := l))\<rparr>"

definition FunctionalUnitPipelineWidget :: "fu_desc \<Rightarrow> 'a view_scheme \<Rightarrow> 'a view_scheme" where
  "FunctionalUnitPipelineWidget fu s =
     fold (\<lambda>i. set_pipe_label fu i (Plain ''DEADBEEF'')) [0..<nbr_of_pipe_stages fu] s"

text \<open>An instruction word is shown by its mnemonic, in dark red for \<open>nop\<close>, or as a number.\<close>

definition pipe_text :: "u32 \<Rightarrow> pipe_label" where
  "pipe_text RegValue =
     (case disasm RegValue of
        Some buf \<Rightarrow>
          Markup (''<span foreground='' @ [CHR 0x27] @ (if buf = ''nop'' then ''#7F0000'' else ''#FF0000'') @ [CHR 0x27] @
            ''>'' @ buf @ ''</span>'')
      | None \<Rightarrow> Plain (''<'' @ fmt_X 8 RegValue @ ''>''))"

definition PipelineGuiUpdate :: "simulation \<Rightarrow> fu_desc \<Rightarrow> 'a view_scheme \<Rightarrow> ('a view_scheme, unit) outcome" where
  "PipelineGuiUpdate sim fu s =
     walk (\<lambda>i s. obind (SimReadReg sim (snd (pipe_stages fu ! i))) (\<lambda>v. Good (set_pipe_label fu i (pipe_text v) s)))
       [0..<nbr_of_pipe_stages fu] s"

section \<open>Edits\<close>

text \<open>\<open>strtoul(s, NULL, 16)\<close>.\<close>

definition strtoul_hex :: "string \<Rightarrow> u64" where
  "strtoul_hex s =
     (let s0 = dropWhile c_isspace s;
          (neg, _, s1) = scan_sign 1 s0;
          v = (case s1 of
                 z # x # d # r \<Rightarrow>
                   if z = CHR ''0'' \<and> x \<in> {CHR ''x'', CHR ''X''} \<and> c_isxdigit d
                   then strtoul_magnitude 16 (d # r) else strtoul_magnitude 16 s1
               | _ \<Rightarrow> strtoul_magnitude 16 s1)
      in if 2 ^ 64 \<le> v then - 1 else if neg then - of_nat v else of_nat v)"

text \<open>The value is written to every register of that name; it is read before and after, for messages.\<close>

definition RegUpdateValueInDesign ::
    "simulation \<Rightarrow> string \<Rightarrow> u32 \<Rightarrow> 'a view_scheme \<Rightarrow> ('a view_scheme, unit) outcome" where
  "RegUpdateValueInDesign sim RegName NewValue s =
     walk (\<lambda>r s. if r_name r = RegName then
                   (case r_obj r of
                      None \<Rightarrow> Undef
                    | Some h \<Rightarrow> if sim h = None then Undef else Good (s\<lparr>vpi_puts := vpi_puts s @ [(h, NewValue)]\<rparr>))
                 else Good s)
       (sim_regs s) s"

definition UpdateMemoryInDesign ::
    "simulation \<Rightarrow> nat \<Rightarrow> u32 \<Rightarrow> 'a view_scheme \<Rightarrow> ('a view_scheme, unit) outcome" where
  "UpdateMemoryInDesign sim Address NewValue s =
     (if LDM_SIZE \<le> Address then Undef
      else
        case mem_vpi_handle s of
          None \<Rightarrow> Undef
        | Some p \<Rightarrow>
            if sim (By_index p (int Address)) = None then Undef
            else
              Good (s\<lparr>memory_curr := (memory_curr s)(Address := NewValue),
                      vpi_puts := vpi_puts s @ [(By_index p (int Address), NewValue)]\<rparr>))"

definition RegValueEdited ::
    "simulation \<Rightarrow> nat \<Rightarrow> string \<Rightarrow> 'a view_scheme \<Rightarrow> ('a view_scheme, unit) outcome" where
  "RegValueEdited sim row new_text s =
     (let NewValue = ucast (strtoul new_text);
          RegNameIndex = fst (reg_list_store s ! row)
      in RegUpdateValueInDesign sim (r_name (sim_regs s ! RegNameIndex)) NewValue
           (s\<lparr>reg_list_store := (reg_list_store s)[row := (RegNameIndex, NewValue)]\<rparr>))"

definition MemValueEdited ::
    "simulation \<Rightarrow> nat \<Rightarrow> nat \<Rightarrow> string \<Rightarrow> 'a view_scheme \<Rightarrow> ('a view_scheme, unit) outcome" where
  "MemValueEdited sim row column new_text s =
     (let NewValue = ucast (strtoul_hex new_text);
          RowAddress = mem_list_store s ! row ! 0
      in UpdateMemoryInDesign sim (unat RowAddress + (column - 1)) NewValue
           (s\<lparr>mem_list_store := (mem_list_store s)[row := (mem_list_store s ! row)[column := NewValue]]\<rparr>))"

section \<open>The start of the simulation\<close>

text \<open>
  The handles of the registers: a register with an index is an element of an array.  A missing object
  ends the program; the handle of the memory is not checked.
\<close>

definition find_register :: "simulation \<Rightarrow> nat \<Rightarrow> 'a view_scheme \<Rightarrow> ('a view_scheme, unit) outcome" where
  "find_register sim i s =
     (let r = sim_regs s ! i;
          by_name = By_name (r_path r);
          h = (if 0 \<le> r_index r then By_index (r_path r) (r_index r) else by_name)
      in if sim by_name = None \<or> sim h = None then Fail ()
         else Good (s\<lparr>sim_regs := (sim_regs s)[i := r\<lparr>r_obj := Some h\<rparr>]\<rparr>))"

definition StartOfSimulationCallBack :: "simulation \<Rightarrow> 'a view_scheme \<Rightarrow> ('a view_scheme, unit) outcome" where
  "StartOfSimulationCallBack sim s =
     (if sim (By_name ''testbench.rst'') = None \<or> sim (By_name ''testbench.clk'') = None then Fail ()
      else
        obind (walk (find_register sim) [0..<length (sim_regs s)] s) (\<lambda>s.
          let dmem = ''testbench.ajardsp_0.dmem_0.dmem'' in
          Good ((MemInitializeMemory LDM_SIZE (RegInitializeRegisters (length (sim_regs s)) s))
            \<lparr>mem_vpi_handle := (if sim (By_name dmem) = None then None else Some dmem)\<rparr>)))"

section \<open>Loops over an index\<close>

lemma walk_upt_induct:
  assumes "walk f [0..<n] s = Good s'" "P 0 s"
    and "\<And>i t t'. i < n \<Longrightarrow> P i t \<Longrightarrow> f i t = Good t' \<Longrightarrow> P (Suc i) t'"
  shows "P n s'"
  using assms
proof (induction n arbitrary: s')
  case (Suc n)
  then obtain t where "walk f [0..<n] s = Good t" "f n t = Good s'" by (auto simp: walk_append_Good obind_eq_Good)
  moreover from this(1) have "P n t" using Suc.IH[of t] Suc.prems(2,3) by simp
  ultimately show ?case using Suc.prems(3) by blast
qed simp

section \<open>The memory window\<close>

text \<open>The cell of an address, the shape of the store, and the invariant that lets old words be left alone.\<close>

definition mem_cell :: "'a view_scheme \<Rightarrow> nat \<Rightarrow> u32" where
  "mem_cell s a = mem_list_store s ! (a div 8) ! (1 + a mod 8)"

definition mem_rows :: "'a view_scheme \<Rightarrow> bool" where
  "mem_rows s \<longleftrightarrow> length (mem_list_store s) = LDM_SIZE div 8 \<and>
     (\<forall>k<LDM_SIZE div 8. memory_iters s k = Some k \<and> length (mem_list_store s ! k) = 9 \<and>
        mem_list_store s ! k ! 0 = of_nat (8 * k))"

definition mem_view :: "'a view_scheme \<Rightarrow> bool" where
  "mem_view s \<longleftrightarrow> mem_rows s \<and>
     (\<forall>a<LDM_SIZE. 0 \<le> memory_age s a \<and> (1 \<le> memory_age s a \<longrightarrow> mem_cell s a = memory_curr s a))"

lemma mem_cell_update [simp]:
  "mem_cell (s\<lparr>memory_prev := p\<rparr>) a = mem_cell s a" "mem_cell (s\<lparr>memory_curr := c\<rparr>) a = mem_cell s a"
  "mem_cell (s\<lparr>memory_age := g\<rparr>) a = mem_cell s a"
  by (simp_all add: mem_cell_def)

lemma LDM_SIZE_value: "LDM_SIZE = 4096"
  by (simp add: LDM_SIZE_def)

lemma row_less: "a < LDM_SIZE \<Longrightarrow> a div 8 < LDM_SIZE div 8"
  by (simp add: LDM_SIZE_value)

lemma set_cell:
  fixes v :: u32
  assumes "mem_rows s" "a < LDM_SIZE"
  defines "m \<equiv> (mem_list_store s)[a div 8 := (mem_list_store s ! (a div 8))[1 + a mod 8 := v]]"
  shows "mem_rows (s\<lparr>mem_list_store := m\<rparr>)"
    and "b < LDM_SIZE \<Longrightarrow> mem_cell (s\<lparr>mem_list_store := m\<rparr>) b = (if b = a then v else mem_cell s b)"
proof -
  have r: "a div 8 < length (mem_list_store s)" "1 + a mod 8 < length (mem_list_store s ! (a div 8))"
    using assms(1) row_less[OF assms(2)] by (simp_all add: mem_rows_def)
  show "mem_rows (s\<lparr>mem_list_store := m\<rparr>)"
    using assms(1) r by (auto simp: mem_rows_def m_def nth_list_update)
  have "b div 8 = a div 8 \<Longrightarrow> b mod 8 = a mod 8 \<Longrightarrow> b = a" by (metis div_mult_mod_eq)
  then show "b < LDM_SIZE \<Longrightarrow> mem_cell (s\<lparr>mem_list_store := m\<rparr>) b = (if b = a then v else mem_cell s b)"
    using r by (auto simp: mem_cell_def m_def nth_list_update split: if_splits)
qed

lemma MemoryGuiUpdate_eq:
  assumes "mem_rows s" "a < LDM_SIZE"
  shows "MemoryGuiUpdate a v s =
    Good (s\<lparr>mem_list_store := (mem_list_store s)[a div 8 := (mem_list_store s ! (a div 8))[1 + a mod 8 := v]]\<rparr>)"
  using assms(1) row_less[OF assms(2)] by (simp add: MemoryGuiUpdate_def mem_rows_def Let_def minus_div_mult_eq_mod)

text \<open>Reading out changes nothing but the memory part of the state.\<close>

definition same_but_mem :: "'a view_scheme \<Rightarrow> 'a view_scheme \<Rightarrow> bool" where
  "same_but_mem s s' \<longleftrightarrow> sim_regs s' = sim_regs s \<and> mem_vpi_handle s' = mem_vpi_handle s \<and>
     memory_iters s' = memory_iters s \<and> reg_list_store s' = reg_list_store s \<and> cycle_label s' = cycle_label s \<and>
     pipe_labels s' = pipe_labels s \<and> vpi_log s' = vpi_log s \<and> vpi_puts s' = vpi_puts s \<and> view.more s' = view.more s"

lemma same_but_mem_trans: "same_but_mem s t \<Longrightarrow> same_but_mem t u \<Longrightarrow> same_but_mem s u"
  by (simp add: same_but_mem_def)

lemma SimReadOutWord_effect:
  assumes "mem_view s" "a < LDM_SIZE" "SimReadOutWord sim a s = Good s'"
  obtains v where "mem_word sim (mem_vpi_handle s) a = Some v"
    "mem_view s'" "same_but_mem s s'"
    "memory_curr s' = (memory_curr s)(a := v)" "memory_prev s' = (memory_prev s)(a := memory_curr s a)"
    "mem_cell s' a = v" "\<And>b. b < LDM_SIZE \<Longrightarrow> b \<noteq> a \<Longrightarrow> mem_cell s' b = mem_cell s b"
proof -
  obtain v where v: "mem_word sim (mem_vpi_handle s) a = Some v"
    using assms(3) by (auto simp: SimReadOutWord_def split: option.splits)
  let ?age = "if v \<noteq> memory_curr s a then 0 else memory_age s a + 1"
  let ?t = "s\<lparr>memory_prev := (memory_prev s)(a := memory_curr s a), memory_curr := (memory_curr s)(a := v),
      memory_age := (memory_age s)(a := ?age)\<rparr>"
  have s': "(if ?age < 2 then MemoryGuiUpdate a v ?t else Good ?t) = Good s'"
    using assms(3) by (simp add: SimReadOutWord_def v Let_def split: if_splits)
  have rows: "mem_rows ?t" using assms(1) by (simp add: mem_view_def mem_rows_def)
  have ages: "0 \<le> memory_age s b" "1 \<le> memory_age s b \<Longrightarrow> mem_cell s b = memory_curr s b" if "b < LDM_SIZE" for b
    using assms(1) that by (auto simp: mem_view_def)
  have m: "mem_rows s' \<and> same_but_mem ?t s' \<and> memory_curr s' = memory_curr ?t \<and> memory_prev s' = memory_prev ?t \<and>
      memory_age s' = memory_age ?t \<and> (\<forall>b<LDM_SIZE. mem_cell s' b = (if b = a then v else mem_cell s b))"
  proof (cases "?age < 2")
    case True
    with s' set_cell[OF rows assms(2), where v = v] show ?thesis
      by (auto simp: MemoryGuiUpdate_eq[OF rows assms(2)] same_but_mem_def)
  next
    case False
    then have "v = memory_curr s a" "1 \<le> memory_age s a" by (auto split: if_splits)
    with False s' ages[OF assms(2)] rows show ?thesis by (auto simp: same_but_mem_def)
  qed
  have "same_but_mem s ?t" by (auto simp: same_but_mem_def)
  moreover have "mem_view s'" using m ages by (auto simp: mem_view_def)
  ultimately show thesis using that[OF v] m assms(2) same_but_mem_trans by auto
qed

lemma SimReadOutMemory_effect:
  assumes "mem_view s" "SimReadOutMemory sim s = Good s'"
  shows "mem_view s' \<and> same_but_mem s s' \<and>
    (\<forall>a<LDM_SIZE. mem_word sim (mem_vpi_handle s) a = Some (memory_curr s' a) \<and>
       memory_prev s' a = memory_curr s a \<and> mem_cell s' a = memory_curr s' a)"
proof -
  let ?P = "\<lambda>k t. mem_view t \<and> same_but_mem s t \<and> (\<forall>a. k \<le> a \<longrightarrow> memory_curr t a = memory_curr s a) \<and>
    (\<forall>a<k. mem_word sim (mem_vpi_handle s) a = Some (memory_curr t a) \<and>
       memory_prev t a = memory_curr s a \<and> mem_cell t a = memory_curr t a)"
  have "?P LDM_SIZE s'"
  proof (rule walk_upt_induct[where P = ?P])
    show "walk (SimReadOutWord sim) [0..<LDM_SIZE] s = Good s'" using assms(2) by (simp add: SimReadOutMemory_def)
    show "?P 0 s" using assms(1) by (simp add: same_but_mem_def)
    show "?P (Suc i) t'" if i: "i < LDM_SIZE" and P: "?P i t" and step: "SimReadOutWord sim i t = Good t'" for i t t'
    proof -
      have h: "mem_vpi_handle t = mem_vpi_handle s" using P by (simp add: same_but_mem_def)
      from P have "mem_view t" by simp
      from SimReadOutWord_effect[OF this i step] obtain v where
        v: "mem_word sim (mem_vpi_handle t) i = Some v" "mem_view t'" "same_but_mem t t'"
          "memory_curr t' = (memory_curr t)(i := v)" "memory_prev t' = (memory_prev t)(i := memory_curr t i)"
          "mem_cell t' i = v" "\<And>b. b < LDM_SIZE \<Longrightarrow> b \<noteq> i \<Longrightarrow> mem_cell t' b = mem_cell t b" by blast
      with P i h same_but_mem_trans show ?thesis by (auto simp: less_Suc_eq)
    qed
  qed
  then show ?thesis by blast
qed

text \<open>A readout succeeds when every word is there and no age is at the end of \<open>int\<close>.\<close>

lemma mem_rows_update [simp]:
  "mem_rows (s\<lparr>memory_prev := p\<rparr>) = mem_rows s" "mem_rows (s\<lparr>memory_curr := c\<rparr>) = mem_rows s"
  "mem_rows (s\<lparr>memory_age := g\<rparr>) = mem_rows s"
  by (simp_all add: mem_rows_def)

lemma SimReadOutWord_returns:
  assumes "mem_rows s" "a < LDM_SIZE" "mem_word sim (mem_vpi_handle s) a \<noteq> None" "memory_age s a < 2 ^ 31 - 1"
  shows "\<exists>s'. SimReadOutWord sim a s = Good s'"
  using assms by (auto simp: SimReadOutWord_def Let_def MemoryGuiUpdate_eq[OF _ assms(2)])

section \<open>The register window\<close>

definition reg_view :: "'a view_scheme \<Rightarrow> bool" where
  "reg_view s \<longleftrightarrow> length (reg_list_store s) = length (sim_regs s) \<and>
     (\<forall>i<length (sim_regs s). r_iter (sim_regs s ! i) = Some i \<and> fst (reg_list_store s ! i) = i)"

lemma all_less_Suc: "(\<forall>j<Suc i. P j) \<longleftrightarrow> (\<forall>j<i. P j) \<and> P i"
  by (auto simp: less_Suc_eq)

definition same_but_regs :: "'a view_scheme \<Rightarrow> 'a view_scheme \<Rightarrow> bool" where
  "same_but_regs s s' \<longleftrightarrow> memory_curr s' = memory_curr s \<and> memory_prev s' = memory_prev s \<and>
     memory_age s' = memory_age s \<and> mem_vpi_handle s' = mem_vpi_handle s \<and>
     memory_iters s' = memory_iters s \<and> mem_list_store s' = mem_list_store s \<and> cycle_label s' = cycle_label s \<and>
     pipe_labels s' = pipe_labels s \<and> vpi_puts s' = vpi_puts s \<and> view.more s' = view.more s"

lemma SimReadOutRegister_effect:
  assumes "reg_view s" "i < length (sim_regs s)" "SimReadOutRegister sim i s = Good s'"
  obtains v where "reg_value sim (sim_regs s ! i) = Some v" "reg_view s'" "same_but_regs s s'"
    "sim_regs s' = (sim_regs s)[i := (sim_regs s ! i)\<lparr>r_prev := r_curr (sim_regs s ! i), r_curr := v\<rparr>]"
    "reg_list_store s' = (reg_list_store s)[i := (i, v)]"
proof -
  obtain v where v: "reg_value sim (sim_regs s ! i) = Some v"
    using assms(3) by (auto simp: SimReadOutRegister_def Let_def split: option.splits)
  have i: "r_iter (sim_regs s ! i) = Some i" "fst (reg_list_store s ! i) = i" "length (reg_list_store s) = length (sim_regs s)"
    using assms(1,2) by (auto simp: reg_view_def)
  let ?r = "(sim_regs s ! i)\<lparr>r_prev := r_curr (sim_regs s ! i), r_curr := v\<rparr>"
  have e: "sim_regs s' = (sim_regs s)[i := ?r]" "reg_list_store s' = (reg_list_store s)[i := (i, v)]" "same_but_regs s s'"
    using assms(3) by (auto simp: SimReadOutRegister_def Let_def v RegisterGuiUpdate_def i same_but_regs_def)
  moreover have "reg_view s'"
    using assms(1,2) i by (auto simp: reg_view_def e nth_list_update)
  ultimately show thesis using that v by blast
qed

lemma SimReadOutRegisters_effect:
  assumes "reg_view s" "SimReadOutRegisters sim s = Good s'"
  shows "reg_view s' \<and> same_but_regs s s' \<and> length (sim_regs s') = length (sim_regs s) \<and>
    (\<forall>i<length (sim_regs s). \<exists>v. reg_value sim (sim_regs s ! i) = Some v \<and> reg_list_store s' ! i = (i, v) \<and>
       sim_regs s' ! i = (sim_regs s ! i)\<lparr>r_prev := r_curr (sim_regs s ! i), r_curr := v\<rparr>)"
proof -
  let ?P = "\<lambda>k t. reg_view t \<and> same_but_regs s t \<and> length (sim_regs t) = length (sim_regs s) \<and>
    (\<forall>i. k \<le> i \<longrightarrow> sim_regs t ! i = sim_regs s ! i) \<and>
    (\<forall>i<k. \<exists>v. reg_value sim (sim_regs s ! i) = Some v \<and> reg_list_store t ! i = (i, v) \<and>
       sim_regs t ! i = (sim_regs s ! i)\<lparr>r_prev := r_curr (sim_regs s ! i), r_curr := v\<rparr>)"
  have "?P (length (sim_regs s)) s'"
  proof (rule walk_upt_induct[where P = ?P])
    show "walk (SimReadOutRegister sim) [0..<length (sim_regs s)] s = Good s'"
      using assms(2) by (simp add: SimReadOutRegisters_def)
    show "?P 0 s" using assms(1) by (simp add: same_but_regs_def)
    show "?P (Suc i) t'" if i: "i < length (sim_regs s)" and P: "?P i t" and step: "SimReadOutRegister sim i t = Good t'"
      for i t t'
    proof -
      from P i have "reg_view t" "i < length (sim_regs t)" "length (reg_list_store t) = length (sim_regs s)"
        by (simp_all add: reg_view_def)
      from SimReadOutRegister_effect[OF this(1,2) step] obtain v where
        v: "reg_value sim (sim_regs t ! i) = Some v" "reg_view t'" "same_but_regs t t'"
          "sim_regs t' = (sim_regs t)[i := (sim_regs t ! i)\<lparr>r_prev := r_curr (sim_regs t ! i), r_curr := v\<rparr>]"
          "reg_list_store t' = (reg_list_store t)[i := (i, v)]" by blast
      have "sim_regs t ! i = sim_regs s ! i" using P by simp
      moreover have "same_but_regs s t'" using P v(3) by (simp add: same_but_regs_def)
      moreover have "j < Suc i \<Longrightarrow> j = i \<or> j < i" for j by auto
      ultimately show ?thesis
        using P v(1,2) i \<open>length (reg_list_store t) = length (sim_regs s)\<close>
        by (simp add: v(4,5) all_less_Suc)
    qed
  qed
  then show ?thesis by blast
qed

section \<open>What the windows show after a readout\<close>

text \<open>
  Both invariants, and the two readouts in their order.  The windows then show the simulated design:
  a register or a word is red when it changed since the readout before.
\<close>

definition windows_ok :: "'a view_scheme \<Rightarrow> bool" where
  "windows_ok s \<longleftrightarrow> mem_view s \<and> reg_view s"

definition memory_cell_of :: "u32 \<Rightarrow> u32 \<Rightarrow> cell" where
  "memory_cell_of old v = \<lparr>cell_text = fmt_X 4 v, cell_red = (v \<noteq> old), cell_background = None\<rparr>"

definition register_cell_of :: "u32 \<Rightarrow> u32 \<Rightarrow> cell" where
  "register_cell_of old v = \<lparr>cell_text = ''0x'' @ fmt_X 4 v, cell_red = (v \<noteq> old), cell_background = None\<rparr>"

definition windows_show :: "simulation \<Rightarrow> 'a view_scheme \<Rightarrow> 'a view_scheme \<Rightarrow> bool" where
  "windows_show sim s s' \<longleftrightarrow>
     (\<forall>a<LDM_SIZE. \<exists>v. mem_word sim (mem_vpi_handle s) a = Some v \<and> mem_cell s' a = v \<and>
        Memory_DataFunc (Suc (a mod 8)) (a div 8) s' = memory_cell_of (memory_curr s a) v) \<and>
     (\<forall>i<length (sim_regs s). \<exists>v. reg_value sim (sim_regs s ! i) = Some v \<and>
        Registers_DataFunc 1 i s' = register_cell_of (r_curr (sim_regs s ! i)) v)"

lemma Memory_DataFunc_cell:
  assumes "mem_rows s" "a < LDM_SIZE"
  shows "Memory_DataFunc (Suc (a mod 8)) (a div 8) s = memory_cell_of (memory_prev s a) (memory_curr s a)"
proof -
  have "8 * (a div 8) < 2 ^ 32" using assms(2) by (simp add: LDM_SIZE_value)
  then have "unat (of_nat (8 * (a div 8)) :: u32) = 8 * (a div 8)"
    by (simp add: unat_of_nat del: of_nat_mult)
  then have "unat (mem_list_store s ! (a div 8) ! 0) + (Suc (a mod 8) - 1) = a"
    using assms(1) row_less[OF assms(2)] by (simp add: mem_rows_def)
  then show ?thesis by (simp add: Memory_DataFunc_def Let_def memory_cell_of_def)
qed

lemma readout_shows:
  assumes "windows_ok s" "obind (SimReadOutRegisters sim s) (SimReadOutMemory sim) = Good s'"
  shows "windows_ok s' \<and> windows_show sim s s' \<and> cycle_label s' = cycle_label s \<and> pipe_labels s' = pipe_labels s \<and>
    vpi_puts s' = vpi_puts s \<and> view.more s' = view.more s \<and> mem_vpi_handle s' = mem_vpi_handle s"
proof -
  obtain t where t: "SimReadOutRegisters sim s = Good t" "SimReadOutMemory sim t = Good s'"
    using assms(2) by (auto simp: obind_eq_Good)
  have r: "reg_view t \<and> same_but_regs s t \<and> length (sim_regs t) = length (sim_regs s) \<and>
    (\<forall>i<length (sim_regs s). \<exists>v. reg_value sim (sim_regs s ! i) = Some v \<and> reg_list_store t ! i = (i, v) \<and>
       sim_regs t ! i = (sim_regs s ! i)\<lparr>r_prev := r_curr (sim_regs s ! i), r_curr := v\<rparr>)"
    using SimReadOutRegisters_effect[OF _ t(1)] assms(1) by (simp add: windows_ok_def)
  then have "mem_view t" using assms(1)
    by (simp add: windows_ok_def mem_view_def mem_rows_def same_but_regs_def mem_cell_def)
  note m = SimReadOutMemory_effect[OF this t(2)]
  have "\<forall>i<length (sim_regs s). \<exists>v. reg_value sim (sim_regs s ! i) = Some v \<and>
      Registers_DataFunc 1 i s' = register_cell_of (r_curr (sim_regs s ! i)) v"
    using r m by (fastforce simp: Registers_DataFunc_def Let_def register_cell_of_def same_but_mem_def)
  moreover have "\<forall>a<LDM_SIZE. \<exists>v. mem_word sim (mem_vpi_handle s) a = Some v \<and> mem_cell s' a = v \<and>
      Memory_DataFunc (Suc (a mod 8)) (a div 8) s' = memory_cell_of (memory_curr s a) v"
    using r m Memory_DataFunc_cell[of s'] by (simp add: mem_view_def same_but_regs_def)
  moreover have "windows_ok s'" using r m by (simp add: windows_ok_def reg_view_def same_but_mem_def)
  ultimately show ?thesis using r m by (simp add: windows_show_def same_but_regs_def same_but_mem_def)
qed

text \<open>
  Why a word that has kept its value twice needs no update: it looks as it did.  \<open>settled\<close> holds after
  every readout, and until a word is edited.
\<close>

definition settled :: "'a view_scheme \<Rightarrow> bool" where
  "settled s \<longleftrightarrow> (\<forall>a<LDM_SIZE. 1 \<le> memory_age s a \<longrightarrow> memory_prev s a = memory_curr s a)"

lemma SimReadOutWord_age:
  "SimReadOutWord sim a s = Good s' \<Longrightarrow>
     memory_age s' = (memory_age s)(a := if memory_curr s' a \<noteq> memory_curr s a then 0 else memory_age s a + 1)"
  by (auto simp: SimReadOutWord_def Let_def MemoryGuiUpdate_def split: option.splits if_splits)

lemma readout_ages:
  assumes "mem_view s" "SimReadOutMemory sim s = Good s'"
  shows "\<forall>a<LDM_SIZE. memory_age s' a = (if memory_curr s' a \<noteq> memory_curr s a then 0 else memory_age s a + 1)"
proof -
  let ?P = "\<lambda>k t. mem_view t \<and> (\<forall>a. k \<le> a \<longrightarrow> memory_curr t a = memory_curr s a \<and> memory_age t a = memory_age s a) \<and>
    (\<forall>a<k. memory_age t a = (if memory_curr t a \<noteq> memory_curr s a then 0 else memory_age s a + 1))"
  have "?P LDM_SIZE s'"
  proof (rule walk_upt_induct[where P = ?P])
    show "walk (SimReadOutWord sim) [0..<LDM_SIZE] s = Good s'" using assms(2) by (simp add: SimReadOutMemory_def)
    show "?P 0 s" using assms(1) by simp
    show "?P (Suc i) t'" if i: "i < LDM_SIZE" and P: "?P i t" and step: "SimReadOutWord sim i t = Good t'" for i t t'
    proof -
      from P have v: "mem_view t" by simp
      obtain v where w: "mem_view t'" "memory_curr t' = (memory_curr t)(i := v)"
        by (rule SimReadOutWord_effect[OF v i step])
      with P SimReadOutWord_age[OF step] show ?thesis by (auto simp: all_less_Suc)
    qed
  qed
  then show ?thesis by blast
qed

lemma readout_settled:
  assumes "mem_view s" "SimReadOutMemory sim s = Good s'"
  shows "settled s'"
  using readout_ages[OF assms] SimReadOutMemory_effect[OF assms] assms(1)
  by (auto simp: settled_def mem_view_def split: if_splits)

lemma old_words_look_alike:
  assumes "mem_view s" "settled s" "SimReadOutMemory sim s = Good s'" "a < LDM_SIZE" "2 \<le> memory_age s' a"
  shows "Memory_DataFunc (Suc (a mod 8)) (a div 8) s' = Memory_DataFunc (Suc (a mod 8)) (a div 8) s"
proof -
  have "memory_curr s' a = memory_curr s a" "1 \<le> memory_age s a"
    using readout_ages[OF assms(1,3)] assms(4,5) by (auto split: if_splits)
  moreover have "mem_view s'" "memory_prev s' a = memory_curr s a"
    using SimReadOutMemory_effect[OF assms(1,3)] assms(4) by blast+
  ultimately show ?thesis
    using assms(1,2,4) Memory_DataFunc_cell[of s' a] Memory_DataFunc_cell[of s a]
    by (simp add: mem_view_def settled_def)
qed

text \<open>
  An edit does not reset the age.  The edited word is red, but if the design keeps the new value the
  next readout takes the colour away without updating the window.
\<close>

lemma edited_word_stays_red:
  assumes "mem_view s" "a < LDM_SIZE" "1 \<le> memory_age s a" "memory_prev s a \<noteq> memory_curr s a"
    and "mem_word sim (mem_vpi_handle s) a = Some (memory_curr s a)" "SimReadOutWord sim a s = Good s'"
  shows "mem_list_store s' = mem_list_store s \<and>
    cell_red (Memory_DataFunc (Suc (a mod 8)) (a div 8) s) \<and> \<not> cell_red (Memory_DataFunc (Suc (a mod 8)) (a div 8) s')"
proof -
  obtain v where v: "mem_view s'" "memory_curr s' = (memory_curr s)(a := v)"
      "memory_prev s' = (memory_prev s)(a := memory_curr s a)" "v = memory_curr s a"
    using assms(5) by (metis option.inject SimReadOutWord_effect[OF assms(1,2,6)])
  moreover have "mem_list_store s' = mem_list_store s"
    using assms(3,5,6) by (auto simp: SimReadOutWord_def Let_def split: if_splits)
  ultimately show ?thesis
    using assms(1,2,4) Memory_DataFunc_cell[of s' a] Memory_DataFunc_cell[of s a]
    by (simp add: mem_view_def memory_cell_of_def)
qed

section \<open>What the other operations do to the windows\<close>

lemma windows_ok_update [simp]:
  "windows_ok (s\<lparr>vpi_puts := p\<rparr>) = windows_ok s" "windows_ok (s\<lparr>pipe_labels := l\<rparr>) = windows_ok s"
  "windows_ok (s\<lparr>cycle_label := c\<rparr>) = windows_ok s" "windows_ok (s\<lparr>vpi_log := t\<rparr>) = windows_ok s"
  by (simp_all add: windows_ok_def mem_view_def mem_rows_def reg_view_def mem_cell_def)

lemma RegUpdateValueInDesign_effect:
  assumes "RegUpdateValueInDesign sim n v s = Good s'"
  shows "s' = s\<lparr>vpi_puts := vpi_puts s @ map (\<lambda>r. (the (r_obj r), v)) (filter (\<lambda>r. r_name r = n) (sim_regs s))\<rparr>"
proof -
  have "walk (\<lambda>r s. if r_name r = n then
                   (case r_obj r of None \<Rightarrow> Undef
                    | Some h \<Rightarrow> if sim h = None then Undef else Good (s\<lparr>vpi_puts := vpi_puts s @ [(h, v)]\<rparr>))
                 else Good s) rs s = Good s' \<Longrightarrow>
      s' = s\<lparr>vpi_puts := vpi_puts s @ map (\<lambda>r. (the (r_obj r), v)) (filter (\<lambda>r. r_name r = n) rs)\<rparr>" for rs s s'
  proof (induction rs arbitrary: s)
    case (Cons r rs)
    show ?case
    proof (cases "r_name r = n")
      case True
      with Cons.prems obtain h where h: "r_obj r = Some h" "sim h \<noteq> None"
        by (auto simp: obind_eq_Good split: if_splits option.splits)
      from Cons.IH[of "s\<lparr>vpi_puts := vpi_puts s @ [(h, v)]\<rparr>"] Cons.prems True h show ?thesis by simp
    next
      case False
      with Cons.IH[of s] Cons.prems show ?thesis by simp
    qed
  qed simp
  with assms show ?thesis unfolding RegUpdateValueInDesign_def by blast
qed

lemma RegValueEdited_effect:
  assumes "windows_ok s" "row < length (sim_regs s)" "RegValueEdited sim row text s = Good s'"
  shows "windows_ok s' \<and> sim_regs s' = sim_regs s \<and> mem_list_store s' = mem_list_store s \<and> memory_curr s' = memory_curr s \<and>
    cycle_label s' = cycle_label s \<and> mem_vpi_handle s' = mem_vpi_handle s \<and> view.more s' = view.more s \<and>
    reg_list_store s' ! row = (row, ucast (strtoul text)) \<and>
    vpi_puts s' = vpi_puts s @ map (\<lambda>r. (the (r_obj r), ucast (strtoul text)))
      (filter (\<lambda>r. r_name r = r_name (sim_regs s ! row)) (sim_regs s))"
proof -
  have r: "row < length (reg_list_store s)" "fst (reg_list_store s ! row) = row"
    using assms(1,2) by (simp_all add: windows_ok_def reg_view_def)
  let ?t = "s\<lparr>reg_list_store := (reg_list_store s)[row := (row, ucast (strtoul text))]\<rparr>"
  have "RegUpdateValueInDesign sim (r_name (sim_regs s ! row)) (ucast (strtoul text)) ?t = Good s'"
    using assms(3) by (simp add: RegValueEdited_def Let_def r(2))
  note e = RegUpdateValueInDesign_effect[OF this]
  have "windows_ok ?t" using assms(1) r
    by (auto simp: windows_ok_def mem_view_def mem_rows_def reg_view_def mem_cell_def nth_list_update)
  with e r(1) show ?thesis by simp
qed

lemma MemValueEdited_effect:
  assumes "windows_ok s" "row < LDM_SIZE div 8" "1 \<le> column" "column \<le> 8"
    and "MemValueEdited sim row column text s = Good s'"
  defines "a \<equiv> 8 * row + (column - 1)" and "v \<equiv> ucast (strtoul_hex text)"
  shows "windows_ok s' \<and> sim_regs s' = sim_regs s \<and> memory_curr s' = (memory_curr s)(a := v) \<and> mem_cell s' a = v \<and>
    (\<forall>b<LDM_SIZE. b \<noteq> a \<longrightarrow> mem_cell s' b = mem_cell s b) \<and>
    cycle_label s' = cycle_label s \<and> mem_vpi_handle s' = mem_vpi_handle s \<and> view.more s' = view.more s \<and>
    (\<exists>p. mem_vpi_handle s = Some p \<and> vpi_puts s' = vpi_puts s @ [(By_index p (int a), v)])"
proof -
  have a: "a < LDM_SIZE" "a div 8 = row" "1 + a mod 8 = column"
    using assms(2-4) by (cases column; simp add: a_def LDM_SIZE_value)+
  have rows: "mem_rows s" using assms(1) by (simp add: windows_ok_def mem_view_def)
  have "8 * row < 2 ^ 32" using assms(2) by (simp add: LDM_SIZE_value)
  then have addr: "unat (mem_list_store s ! row ! 0) = 8 * row"
    using rows assms(2) by (simp add: mem_rows_def unat_of_nat del: of_nat_mult)
  let ?t = "s\<lparr>mem_list_store := (mem_list_store s)[a div 8 := (mem_list_store s ! (a div 8))[1 + a mod 8 := v]]\<rparr>"
  have "UpdateMemoryInDesign sim a v ?t = Good s'"
    using assms(5) addr by (simp only: MemValueEdited_def Let_def v_def a(2,3)) (simp add: a_def)
  then obtain p where s': "s' = ?t\<lparr>memory_curr := (memory_curr s)(a := v), vpi_puts := vpi_puts s @ [(By_index p (int a), v)]\<rparr>"
      "mem_vpi_handle s = Some p"
    by (auto simp: UpdateMemoryInDesign_def split: if_splits option.splits)
  note c = set_cell[OF rows a(1), where v = v]
  have cells: "b < LDM_SIZE \<Longrightarrow> mem_cell s' b = (if b = a then v else mem_cell s b)" for b
    using c(2)[of b] by (simp add: s' mem_cell_def)
  moreover have "mem_rows s'" using c(1) by (simp add: s' mem_rows_def)
  moreover have "reg_view s'" using assms(1) by (simp add: windows_ok_def reg_view_def s')
  ultimately have "windows_ok s'" using assms(1) by (auto simp: windows_ok_def mem_view_def s'(1))
  with cells a(1) s' show ?thesis by simp
qed

lemma PipelineGuiUpdate_effect:
  assumes "PipelineGuiUpdate sim fu s = Good s'"
  shows "(\<exists>l. s' = s\<lparr>pipe_labels := l\<rparr>) \<and>
    (\<forall>i<nbr_of_pipe_stages fu. \<exists>v. sim (By_name (snd (pipe_stages fu ! i))) = Some v \<and>
       pipe_labels s' (fu_name fu) i = pipe_text v) \<and>
    (\<forall>n. n \<noteq> fu_name fu \<longrightarrow> pipe_labels s' n = pipe_labels s n)"
proof -
  let ?P = "\<lambda>k t. (\<exists>l. t = s\<lparr>pipe_labels := l\<rparr>) \<and>
    (\<forall>i<k. \<exists>v. sim (By_name (snd (pipe_stages fu ! i))) = Some v \<and> pipe_labels t (fu_name fu) i = pipe_text v) \<and>
    (\<forall>n. n \<noteq> fu_name fu \<longrightarrow> pipe_labels t n = pipe_labels s n)"
  show ?thesis
  proof (rule walk_upt_induct[where P = ?P, OF assms[unfolded PipelineGuiUpdate_def]])
    have "s = s\<lparr>pipe_labels := pipe_labels s\<rparr>" by simp
    then show "?P 0 s" by blast
  qed (auto simp: all_less_Suc obind_eq_Good SimReadReg_def set_pipe_label_def split: option.splits)
qed

section \<open>The start\<close>

definition view_init :: view where
  "view_init =
     \<lparr>sim_regs = RegsOfInterest, memory_curr = (\<lambda>_. 0), memory_prev = (\<lambda>_. 0), memory_age = (\<lambda>_. 0),
      mem_vpi_handle = None, memory_iters = (\<lambda>_. None), reg_list_store = [], mem_list_store = [],
      cycle_label = [], pipe_labels = (\<lambda>_ _. Plain []), vpi_log = [], vpi_puts = []\<rparr>"

lemma RegInitializeRegisters_effect:
  assumes "reg_list_store s = []" "n \<le> length (sim_regs s)"
  shows "\<exists>rs st. RegInitializeRegisters n s = s\<lparr>sim_regs := rs, reg_list_store := st\<rparr> \<and>
    length rs = length (sim_regs s) \<and> length st = n \<and> (\<forall>i<n. r_iter (rs ! i) = Some i \<and> fst (st ! i) = i) \<and>
    (\<forall>i<length (sim_regs s). r_name (rs ! i) = r_name (sim_regs s ! i) \<and> r_obj (rs ! i) = r_obj (sim_regs s ! i))"
  using assms(2)
proof (induction n)
  case 0
  have "s = s\<lparr>sim_regs := sim_regs s, reg_list_store := []\<rparr>" using assms(1) by simp
  then show ?case unfolding RegInitializeRegisters_def
    by (intro exI[of _ "sim_regs s"] exI[of _ "[]"]) simp
next
  case (Suc n)
  then obtain rs st where e: "RegInitializeRegisters n s = s\<lparr>sim_regs := rs, reg_list_store := st\<rparr>"
    "length rs = length (sim_regs s)" "length st = n" "\<forall>i<n. r_iter (rs ! i) = Some i \<and> fst (st ! i) = i"
    "\<forall>i<length (sim_regs s). r_name (rs ! i) = r_name (sim_regs s ! i) \<and> r_obj (rs ! i) = r_obj (sim_regs s ! i)"
    by (metis Suc_leD)
  have "RegInitializeRegisters (Suc n) s = RegInitializeRegister n (RegInitializeRegisters n s)"
    by (simp add: RegInitializeRegisters_def)
  then show ?case using Suc.prems e(2-5)
    by (intro exI[of _ "rs[n := (rs ! n)\<lparr>r_iter := Some n\<rparr>]"] exI[of _ "st @ [(n, 0)]"])
      (simp add: e(1) RegInitializeRegister_def nth_append nth_list_update less_Suc_eq)
qed

lemma MemInitializeMemory_effect:
  assumes "mem_list_store s = []"
  shows "\<exists>its st. fold MemInitializeRow [0..<n] s = s\<lparr>memory_iters := its, mem_list_store := st\<rparr> \<and>
    length st = n \<and> (\<forall>k<n. its k = Some k \<and> length (st ! k) = 9 \<and> st ! k ! 0 = of_nat (8 * k))"
proof (induction n)
  case 0
  have "s = s\<lparr>memory_iters := memory_iters s, mem_list_store := []\<rparr>" using assms by simp
  then show ?case by (intro exI[of _ "memory_iters s"] exI[of _ "[]"]) simp
next
  case (Suc n)
  then obtain its st where e: "fold MemInitializeRow [0..<n] s = s\<lparr>memory_iters := its, mem_list_store := st\<rparr>"
    "length st = n" "\<forall>k<n. its k = Some k \<and> length (st ! k) = 9 \<and> st ! k ! 0 = of_nat (8 * k)" by blast
  let ?row = "of_nat (8 * n) # map (\<lambda>j. of_nat (8 * n + j)) [0..<8]"
  have next_row: "fold MemInitializeRow [0..<Suc n] s = MemInitializeRow n (s\<lparr>memory_iters := its, mem_list_store := st\<rparr>)"
    by (simp add: e(1))
  show ?case
    unfolding next_row using e(2,3) by (intro exI[of _ "its(n := Some n)"] exI[of _ "st @ [?row]"])
      (simp add: MemInitializeRow_def nth_append less_Suc_eq fun_upd_def)
qed

lemma StartOfSimulation_effect:
  assumes "StartOfSimulationCallBack sim s = Good s'" "reg_list_store s = []" "mem_list_store s = []"
    and "memory_age s = (\<lambda>_. 0)"
  shows "windows_ok s' \<and> length (sim_regs s') = length (sim_regs s) \<and> view.more s' = view.more s \<and>
    memory_curr s' = memory_curr s \<and> memory_age s' = memory_age s \<and> vpi_puts s' = vpi_puts s \<and>
    (\<forall>i<length (sim_regs s). \<exists>h. r_obj (sim_regs s' ! i) = Some h \<and> sim h \<noteq> None)"
proof -
  obtain t where t: "walk (find_register sim) [0..<length (sim_regs s)] s = Good t"
    using assms(1) by (auto simp: StartOfSimulationCallBack_def obind_eq_Good split: if_splits)
  let ?P = "\<lambda>k t. (\<exists>rs. t = s\<lparr>sim_regs := rs\<rparr>) \<and> length (sim_regs t) = length (sim_regs s) \<and>
    (\<forall>i<k. \<exists>h. r_obj (sim_regs t ! i) = Some h \<and> sim h \<noteq> None)"
  have P: "?P (length (sim_regs s)) t"
  proof (rule walk_upt_induct[where P = ?P, OF t])
    have "s = s\<lparr>sim_regs := sim_regs s\<rparr>" by simp
    then show "?P 0 s" by blast
  qed (auto simp: all_less_Suc find_register_def Let_def nth_list_update split: if_splits)
  then obtain rs where rs: "t = s\<lparr>sim_regs := rs\<rparr>" "length rs = length (sim_regs s)" by auto
  obtain rs' st where r: "RegInitializeRegisters (length rs) t = t\<lparr>sim_regs := rs', reg_list_store := st\<rparr>"
    "length rs' = length rs" "length st = length rs" "\<forall>i<length rs. r_iter (rs' ! i) = Some i \<and> fst (st ! i) = i"
    "\<forall>i<length rs. r_obj (rs' ! i) = r_obj (rs ! i)"
    using RegInitializeRegisters_effect[of t "length rs"] assms(2) by (auto simp: rs(1))
  let ?u = "t\<lparr>sim_regs := rs', reg_list_store := st\<rparr>"
  obtain its ms where m: "MemInitializeMemory LDM_SIZE ?u = ?u\<lparr>memory_iters := its, mem_list_store := ms\<rparr>"
    "length ms = LDM_SIZE div 8"
    "\<forall>k<LDM_SIZE div 8. its k = Some k \<and> length (ms ! k) = 9 \<and> ms ! k ! 0 = of_nat (8 * k)"
    using MemInitializeMemory_effect[of ?u "(LDM_SIZE + 7) div 8"] assms(3)
    by (auto simp: MemInitializeMemory_def LDM_SIZE_value rs(1))
  have "\<exists>h. s' = (?u\<lparr>memory_iters := its, mem_list_store := ms\<rparr>)\<lparr>mem_vpi_handle := h\<rparr>"
    using assms(1) t by (auto simp: StartOfSimulationCallBack_def Let_def rs(1) r(1)[unfolded rs(1), simplified] m(1)[unfolded rs(1), simplified] split: if_splits)
  then obtain h where s': "s' = (?u\<lparr>memory_iters := its, mem_list_store := ms\<rparr>)\<lparr>mem_vpi_handle := h\<rparr>" by blast
  have "mem_view s'" using m(2,3) assms(4) by (simp add: mem_view_def mem_rows_def s' rs(1))
  moreover have "reg_view s'" using r(2-4) by (simp add: reg_view_def s')
  ultimately show ?thesis using P r(2,5) by (simp add: windows_ok_def s' rs)
qed

end
