(* ===== verification/SimSource.thy ===== *)
theory SimSource
  imports SimView "HOL-Library.Multiset"
begin

text \<open>
  The source window of the simulation debugger (\<open>debug-gui.c\<close>): loading the assembly file and the
  listing of the assembler, the markers, and the breakpoints.

  The state extends the view by the array \<open>SourceFileLines\<close>, the rows of its list store (each holds a
  line number) and the breakpoint list.  Lines have no NUL characters.
\<close>

section \<open>State\<close>

record source_line =
  sl_iter :: "nat option"
  sl_addr :: int
  sl_bp :: bool
  sl_str :: string

record source = view +
  source_lines :: "nat \<Rightarrow> source_line"
  source_lines_max :: nat
  source_list_store :: "nat list"
  scrolled_to :: "nat list"
  break_points :: "int list"

definition SOURCE_LINES :: nat where "SOURCE_LINES = 10 * 1024"
definition LINENO_INFO :: nat where "LINENO_INFO = 1024"

section \<open>Reading the listing\<close>

text \<open>The directives of the format \<open>0x%x:%d\n\<close> one by one; a directive that fails ends the call.\<close>

definition scan_char :: "char \<Rightarrow> stream \<Rightarrow> bool \<times> stream" where
  "scan_char c f =
     (case fst f of
        [] \<Rightarrow> (False, [], True)
      | d # r \<Rightarrow> if d = c then (True, r, snd f) else (False, f))"

definition scan_space :: "stream \<Rightarrow> stream" where
  "scan_space f = (let r = dropWhile c_isspace (fst f) in (r, snd f \<or> r = []))"

definition scan_d :: "stream \<Rightarrow> int option \<times> stream" where
  "scan_d f =
     (let s0 = dropWhile c_isspace (fst f);
          (neg, _, s1) = scan_sign (Suc (length s0)) s0;
          ds = takeWhile c_isdigit s1;
          rest = drop (length ds) s1;
          v = atoi_digits ds 0
      in (if ds = [] then None else Some (if neg then - v else v), (rest, snd f \<or> rest = [])))"

type_synonym lineno_info = "u32 option \<times> int option"

definition scan_lineno_info :: "stream \<Rightarrow> lineno_info \<times> stream" where
  "scan_lineno_info f =
     (case scan_char (CHR ''0'') f of
        (False, f) \<Rightarrow> ((None, None), f)
      | (True, f) \<Rightarrow>
     (case scan_char (CHR ''x'') f of
        (False, f) \<Rightarrow> ((None, None), f)
      | (True, f) \<Rightarrow>
     (case scan_x (Suc (length (fst f))) f of
        (None, f) \<Rightarrow> ((None, None), f)
      | (Some a, f) \<Rightarrow>
     (case scan_char (CHR '':'') f of
        (False, f) \<Rightarrow> ((Some a, None), f)
      | (True, f) \<Rightarrow>
     (case scan_d f of
        (None, f) \<Rightarrow> ((Some a, None), f)
      | (Some l, f) \<Rightarrow> ((Some a, Some l), scan_space f))))))"

text \<open>
  The loop until the end of the file; the first argument counts the free elements of the array.  A call
  with no element left gets pointers outside the array.  A field the call does not set is \<^term>\<open>None\<close>.
\<close>

fun read_lineno_info :: "nat \<Rightarrow> stream \<Rightarrow> (lineno_info list, unit) outcome" where
  "read_lineno_info 0 f = (if snd f then Good [] else Undef)"
| "read_lineno_info (Suc n) f =
     (if snd f then Good []
      else case scan_lineno_info f of
        (info, f) \<Rightarrow> obind (read_lineno_info n f) (\<lambda>infos. Good (info # infos)))"

text \<open>The address of a line is that of its last entry, or -1; reading an unset field is undefined.\<close>

fun find_lineno :: "int \<Rightarrow> lineno_info list \<Rightarrow> int \<Rightarrow> (int, unit) outcome" where
  "find_lineno lineno [] a = Good a"
| "find_lineno lineno ((addr, l) # infos) a =
     (case (addr, l) of
        (Some b, Some m) \<Rightarrow> find_lineno lineno infos (if m = lineno then sint b else a)
      | _ \<Rightarrow> Undef)"

section \<open>Loading the source\<close>

text \<open>\<open>fgets\<close> with a buffer of \<open>n\<close> bytes.\<close>

definition fgets :: "nat \<Rightarrow> stream \<Rightarrow> string option \<times> stream" where
  "fgets n f =
     (if fst f = [] then (None, [], True)
      else
        let (l, r) = take_line (n - 1) (fst f)
        in (Some l, r, snd f \<or> (r = [] \<and> last l \<noteq> newline \<and> length l < n - 1)))"

text \<open>The last character of a line is removed, whether or not it is the newline.\<close>

definition add_source_line ::
    "lineno_info list \<Rightarrow> nat \<Rightarrow> string \<Rightarrow> 'a source_scheme \<Rightarrow> ('a source_scheme, unit) outcome" where
  "add_source_line infos lineno l s =
     (if SOURCE_LINES \<le> lineno then Undef
      else obind (find_lineno (int lineno) infos (- 1)) (\<lambda>a. Good
        (s\<lparr>source_lines := (source_lines s)(lineno :=
             \<lparr>sl_iter = Some (length (source_list_store s)), sl_addr = a, sl_bp = False, sl_str = butlast l\<rparr>),
           source_list_store := source_list_store s @ [lineno]\<rparr>)))"

lemma take_line_nonempty: "0 < n \<Longrightarrow> s \<noteq> [] \<Longrightarrow> length (snd (take_line n s)) < length s"
  using take_line_length[of "n - 1" "tl s"] by (cases n; cases s) (auto split: prod.split)

lemma fgets_shorter:
  "\<not> snd f \<Longrightarrow> fgets 256 f = (l, r, e) \<Longrightarrow> length r + (if e then 0 else 1) < length (fst f) + 1"
  using take_line_nonempty[of 255 "fst f"] by (auto simp: fgets_def split: if_splits prod.splits)

function source_loop ::
    "lineno_info list \<Rightarrow> nat \<Rightarrow> stream \<Rightarrow> 'a source_scheme \<Rightarrow> ('a source_scheme, unit) outcome" where
  "source_loop infos lineno f s =
     (if snd f then Good (s\<lparr>source_lines_max := lineno\<rparr>)
      else case fgets 256 f of
        (None, f') \<Rightarrow> source_loop infos (Suc lineno) f' s
      | (Some l, f') \<Rightarrow> obind (add_source_line infos (Suc lineno) l s) (source_loop infos (Suc lineno) f'))"
  by pat_completeness auto
termination
  by (relation "measure (\<lambda>(infos, lineno, f, s). length (fst f) + (if snd f then 0 else 1))")
    (auto dest: fgets_shorter[OF _ sym])

declare source_loop.simps [simp del]

text \<open>A file that cannot be opened is used as NULL.\<close>

definition Source_Init ::
    "(string \<Rightarrow> string option) \<Rightarrow> string \<Rightarrow> string \<Rightarrow> 'a source_scheme \<Rightarrow> ('a source_scheme, unit) outcome" where
  "Source_Init files asm_file lineno_file s =
     (case files lineno_file of
        None \<Rightarrow> Undef
      | Some listing \<Rightarrow>
          obind (read_lineno_info LINENO_INFO (listing, False)) (\<lambda>infos.
            case files asm_file of
              None \<Rightarrow> Undef
            | Some text \<Rightarrow> source_loop infos 0 (text, False) s))"

section \<open>The source window\<close>

definition pc_value :: "'a source_scheme \<Rightarrow> u32" where
  "pc_value s = r_curr (sim_regs s ! 0)"

definition Source_DataFunc :: "nat \<Rightarrow> nat \<Rightarrow> 'a source_scheme \<Rightarrow> cell" where
  "Source_DataFunc ColumnIndex row s =
     (let LineNo = source_list_store s ! row;
          l = source_lines s LineNo
      in if ColumnIndex = 0 then
           \<lparr>cell_text = (if sl_bp l then ''B'' else '' '') @
              (if pc_value s = word_of_int (sl_addr l) then ''->'' else ''  ''),
            cell_red = False, cell_background = Some ''Pink''\<rparr>
         else if ColumnIndex = 1 then
           \<lparr>cell_text = (if sl_addr l \<noteq> - 1 then ''0x'' @ fmt_X 4 (word_of_int (sl_addr l)) else []),
            cell_red = False, cell_background = Some ''Pink''\<rparr>
         else if ColumnIndex = 2 then
           \<lparr>cell_text = fmt_d (of_nat LineNo), cell_red = False, cell_background = Some ''Gray''\<rparr>
         else
           \<lparr>cell_text = sl_str l, cell_red = False, cell_background = Some ''White''\<rparr>)"

text \<open>
  Every line is redrawn, and a line at the program counter is scrolled to when it is not inside the
  visible range, which depends on what was scrolled to before.
\<close>

definition SourceGuiUpdate :: "(nat list \<Rightarrow> nat \<Rightarrow> bool) \<Rightarrow> 'a source_scheme \<Rightarrow> 'a source_scheme" where
  "SourceGuiUpdate visible s =
     fold (\<lambda>i s. if pc_value s = word_of_int (sl_addr (source_lines s i)) \<and> \<not> visible (scrolled_to s) i
                 then s\<lparr>scrolled_to := scrolled_to s @ [i]\<rparr> else s)
       [1..<source_lines_max s] s"

section \<open>Breakpoints\<close>

text \<open>A double click on a row sets or removes the breakpoint of its line.\<close>

definition Source_RowActivated :: "nat \<Rightarrow> 'a source_scheme \<Rightarrow> 'a source_scheme" where
  "Source_RowActivated row s =
     (let LineNo = source_list_store s ! row;
          l = source_lines s LineNo
      in if \<not> sl_bp l then
           if sl_addr l \<noteq> - 1 then
             s\<lparr>break_points := break_points s @ [sl_addr l],
               source_lines := (source_lines s)(LineNo := l\<lparr>sl_bp := True\<rparr>)\<rparr>
           else s
         else
           s\<lparr>source_lines := (source_lines s)(LineNo := l\<lparr>sl_bp := False\<rparr>),
             break_points := remove1 (sl_addr l) (break_points s)\<rparr>)"

text \<open>The program counter is read again for every breakpoint.\<close>

definition BreakPoint_Hit :: "simulation \<Rightarrow> 'a source_scheme \<Rightarrow> (bool, unit) outcome" where
  "BreakPoint_Hit sim s =
     (if break_points s = [] then Good False
      else obind (SimReadReg sim (r_path (sim_regs s ! 0)))
        (\<lambda>pc. Good (\<exists>a\<in>set (break_points s). word_of_int a = pc)))"

section \<open>The breakpoint list and the marked lines\<close>

text \<open>
  The lines marked with a breakpoint are the abstract state; the list holds the address of each.  Lines
  that share an address have an entry each, and removing one removes the first.
\<close>

definition marked :: "'a source_scheme \<Rightarrow> nat set" where
  "marked s = {l. l < SOURCE_LINES \<and> sl_bp (source_lines s l)}"

definition breakpoints_ok :: "'a source_scheme \<Rightarrow> bool" where
  "breakpoints_ok s \<longleftrightarrow>
     mset (break_points s) = image_mset (\<lambda>l. sl_addr (source_lines s l)) (mset_set (marked s)) \<and>
     (\<forall>l\<in>marked s. sl_addr (source_lines s l) \<noteq> - 1) \<and> (\<forall>r\<in>set (source_list_store s). r < SOURCE_LINES)"

lemma finite_marked [simp]: "finite (marked s)"
  by (simp add: marked_def)

lemma RowActivated_marked:
  assumes "source_list_store s ! row < SOURCE_LINES"
  defines "l \<equiv> source_list_store s ! row"
  shows "marked (Source_RowActivated row s) =
    (if l \<in> marked s then marked s - {l} else if sl_addr (source_lines s l) \<noteq> - 1 then insert l (marked s) else marked s)"
  using assms by (auto simp: marked_def Source_RowActivated_def Let_def split: if_splits)

lemma RowActivated_addr: "sl_addr (source_lines (Source_RowActivated row s) l) = sl_addr (source_lines s l)"
  by (simp add: Source_RowActivated_def Let_def)

lemma RowActivated_frame:
  "view.truncate (Source_RowActivated row s) = view.truncate s"
  "source_list_store (Source_RowActivated row s) = source_list_store s"
  "source_lines_max (Source_RowActivated row s) = source_lines_max s"
  "scrolled_to (Source_RowActivated row s) = scrolled_to s"
  by (simp_all add: Source_RowActivated_def Let_def view.truncate_def)

lemma RowActivated_ok:
  assumes "breakpoints_ok s" "row < length (source_list_store s)"
  shows "breakpoints_ok (Source_RowActivated row s)"
proof -
  let ?l = "source_list_store s ! row" and ?addr = "\<lambda>l. sl_addr (source_lines s l)"
  have l: "?l < SOURCE_LINES" using assms by (simp add: breakpoints_ok_def)
  have list: "mset (break_points s) = image_mset ?addr (mset_set (marked s))"
    "\<forall>l\<in>marked s. ?addr l \<noteq> - 1" using assms(1) by (simp_all add: breakpoints_ok_def)
  have "mset (break_points (Source_RowActivated row s)) = image_mset ?addr (mset_set (marked (Source_RowActivated row s)))"
  proof (cases "?l \<in> marked s")
    case True
    then have bp: "sl_bp (source_lines s ?l)" by (simp add: marked_def)
    have "marked s = insert ?l (marked s - {?l})" using True by blast
    then have "mset_set (marked s) = add_mset ?l (mset_set (marked s - {?l}))"
      by (metis finite_Diff finite_marked mset_set.insert_remove mset_set.remove True)
    with True bp list(1) show ?thesis
      by (simp add: RowActivated_marked[OF l]) (simp add: Source_RowActivated_def Let_def)
  next
    case False
    then have bp: "\<not> sl_bp (source_lines s ?l)" using l by (simp add: marked_def)
    from False bp list(1) show ?thesis
      by (simp add: RowActivated_marked[OF l]) (simp add: Source_RowActivated_def Let_def)
  qed
  then show ?thesis
    using assms(1) list(2)
    by (auto simp: breakpoints_ok_def RowActivated_addr RowActivated_frame RowActivated_marked[OF l] split: if_splits)
qed

lemma BreakPoint_Hit_marked:
  assumes "breakpoints_ok s" "sim (By_name (r_path (sim_regs s ! 0))) = Some pc"
  shows "BreakPoint_Hit sim s = Good (\<exists>l\<in>marked s. word_of_int (sl_addr (source_lines s l)) = pc)"
proof -
  have "set (break_points s) = (\<lambda>l. sl_addr (source_lines s l)) ` marked s"
    using assms(1) by (metis breakpoints_ok_def set_mset_mset set_image_mset finite_set_mset_mset_set finite_marked)
  then show ?thesis using assms(2) by (auto simp: BreakPoint_Hit_def SimReadReg_def)
qed

section \<open>Decimal numbers\<close>

lemma sign_facts: "\<not> c_isdigit (CHR ''-'')" "\<not> c_isdigit (CHR ''+'')" "\<not> c_isspace (CHR ''-'')"
  "c_isdigit c \<Longrightarrow> \<not> c_isspace c"
  by (auto simp: c_isdigit_def c_isspace_def)

lemma fmt_d_scan:
  assumes "r = [] \<or> \<not> c_isdigit (hd r)"
  shows "scan_d (fmt_d l @ r, False) = (Some (sint l), (r, r = []))"
proof -
  define ds where "ds = digits_in 10 (nat \<bar>sint l\<bar>)"
  note d = digits_10[of "nat \<bar>sint l\<bar>", folded ds_def]
  have fmt: "fmt_d l = (if sint l < 0 then ''-'' else []) @ ds" by (simp add: fmt_d_def ds_def)
  obtain c cs where c: "ds = c # cs" using d by (cases ds) auto
  then have cd: "c_isdigit c" using d by simp
  then have c': "\<not> c_isspace c" "c \<noteq> CHR ''-''" "c \<noteq> CHR ''+''" using sign_facts by auto
  have tw: "takeWhile c_isdigit (ds @ r) = ds"
    using d assms by (cases r) (auto simp: takeWhile_append2 list_all_iff)
  show ?thesis
  proof (cases "sint l < 0")
    case True
    have w: "dropWhile c_isspace (fmt_d l @ r) = CHR ''-'' # ds @ r"
      using True sign_facts by (simp add: fmt)
    show ?thesis using tw d True by (simp add: scan_d_def w scan_sign_def Let_def)
  next
    case False
    have w: "dropWhile c_isspace (fmt_d l @ r) = ds @ r"
      using False c' by (simp add: fmt c)
    have sg: "scan_sign (Suc (length (ds @ r))) (ds @ r) = (False, Suc (length (ds @ r)), ds @ r)"
      using c' by (simp add: c scan_sign_def)
    show ?thesis unfolding scan_d_def Let_def fst_conv w sg using tw d False by simp
  qed
qed

section \<open>Listings\<close>

text \<open>The lines the reader expects.\<close>

definition listing_entry :: "u16 \<Rightarrow> i32 \<Rightarrow> string" where
  "listing_entry addr lineno = ''0x'' @ fmt_x 4 (ucast addr) @ '':'' @ fmt_d lineno"

lemma scan_x_colon:
  "scan_x (Suc (length (fmt_x 4 (ucast (a :: u16)) @ CHR '':'' # r))) (fmt_x 4 (ucast a) @ CHR '':'' # r, False) =
     (Some (ucast a), (CHR '':'' # r, False))"
proof -
  let ?ds = "hex_digits 4 (unat a)"
  have hex: "\<forall>x\<in>set ?ds. c_isxdigit x \<and> \<not> c_isspace x \<and> x \<noteq> CHR ''-'' \<and> x \<noteq> CHR ''+'' \<and> x \<noteq> CHR ''x'' \<and> x \<noteq> CHR ''X''"
    by (metis hex_digits_set hex_digit_facts)
  obtain c d cs where c: "?ds = c # d # cs"
    using length_hex_digits[of 4 "unat a"] by (cases ?ds; cases "tl ?ds") auto
  have ws: "dropWhile c_isspace (?ds @ CHR '':'' # r) = ?ds @ CHR '':'' # r" using hex by (simp add: c)
  have sg: "scan_sign n (?ds @ CHR '':'' # r) = (False, n, ?ds @ CHR '':'' # r)" for n
    using hex by (simp add: c scan_sign_def)
  have pre: "scan_prefix n (?ds @ CHR '':'' # r) = (n, ?ds @ CHR '':'' # r)" for n
    using hex by (simp add: c scan_prefix_def)
  have tw: "takeWhile c_isxdigit (?ds @ CHR '':'' # r) = ?ds"
    using hex by (simp add: takeWhile_append2 c_isxdigit_def)
  have "xdigits_value ?ds = of_nat (unat a)" by (rule xdigits_value_hex[OF unat_u16_bound])
  moreover have "of_nat (unat a) = (ucast a :: u32)" by simp
  moreover have "?ds \<noteq> []" by (simp add: c)
  ultimately show ?thesis
    unfolding scan_x_def Let_def fmt_x_word fst_conv ws sg prod.case pre snd_conv using tw by simp
qed

lemma scan_entry:
  assumes "r = [] \<or> \<not> c_isdigit (hd r)"
  shows "scan_lineno_info (listing_entry a l @ r, False) = ((Some (ucast a), Some (sint l)), scan_space (r, r = []))"
proof -
  have "scan_lineno_info (listing_entry a l @ r, False) =
     (case scan_x (Suc (length (fmt_x 4 (ucast a) @ CHR '':'' # fmt_d l @ r))) (fmt_x 4 (ucast a) @ CHR '':'' # fmt_d l @ r, False) of
        (None, f) \<Rightarrow> ((None, None), f)
      | (Some a, f) \<Rightarrow>
     (case scan_char (CHR '':'') f of
        (False, f) \<Rightarrow> ((Some a, None), f)
      | (True, f) \<Rightarrow>
     (case scan_d f of
        (None, f) \<Rightarrow> ((Some a, None), f)
      | (Some l, f) \<Rightarrow> ((Some a, Some l), scan_space f))))"
    by (simp add: scan_lineno_info_def listing_entry_def scan_char_def)
  then show ?thesis by (simp add: scan_x_colon scan_char_def fmt_d_scan[OF assms] del: append_Cons length_append)
qed

text \<open>A listing of such lines is read back, up to the capacity of the array.\<close>

definition plain_listing :: "(u16 \<times> i32) list \<Rightarrow> string" where
  "plain_listing es = concat (map (\<lambda>(a, l). listing_entry a l @ [newline]) es)"

lemma plain_listing_start: "\<exists>t. plain_listing (e # es) = CHR ''0'' # t"
  by (simp add: plain_listing_def listing_entry_def split: prod.split)

lemma scan_space_next:
  "scan_space (newline # plain_listing es, False) = (plain_listing es, es = [])"
proof (cases es)
  case (Cons e es')
  obtain t where t: "plain_listing es = CHR ''0'' # t" using plain_listing_start Cons by blast
  show ?thesis by (simp add: scan_space_def newline_def c_isspace_def Let_def t) (simp add: Cons)
qed (simp add: scan_space_def newline_def c_isspace_def plain_listing_def)

lemma read_plain_listing:
  "es \<noteq> [] \<Longrightarrow> length es \<le> n \<Longrightarrow>
   read_lineno_info n (plain_listing es, False) = Good (map (\<lambda>(a, l). (Some (ucast a), Some (sint l))) es)"
proof (induction es arbitrary: n)
  case (Cons e es)
  obtain a l where e: "e = (a, l)" by (cases e)
  obtain m where n: "n = Suc m" "length es \<le> m" using Cons.prems(2) by (cases n) auto
  have "plain_listing (e # es) = listing_entry a l @ newline # plain_listing es"
    by (simp add: plain_listing_def e)
  moreover have "\<not> c_isdigit newline" by (simp add: newline_def c_isdigit_def)
  ultimately have "scan_lineno_info (plain_listing (e # es), False) =
      ((Some (ucast a), Some (sint l)), (plain_listing es, es = []))"
    using scan_entry[of "newline # plain_listing es" a l] by (simp add: scan_space_next)
  moreover have "read_lineno_info m (plain_listing [], True) = Good []" by (cases m) simp_all
  ultimately show ?case using Cons.IH[OF _ n(2)] by (cases "es = []") (simp_all add: n(1) e)
qed simp

text \<open>A call that meets another character consumes nothing, and the loop runs over the array.\<close>

lemma read_stuck: "c \<noteq> CHR ''0'' \<Longrightarrow> read_lineno_info n (c # r, False) = Undef"
  by (induction n) (simp_all add: scan_lineno_info_def scan_char_def)

lemma read_label_line: "read_lineno_info n (list_label l @ r, False) = Undef"
proof -
  have "list_label l @ r = newline # ''<'' @ l @ ''>:'' @ [newline] @ r" by (simp add: list_label_def)
  moreover have "newline \<noteq> CHR ''0''" by (simp add: newline_def)
  ultimately show ?thesis by (metis read_stuck)
qed

lemma read_insn_line:
  assumes "list_insts insts @ [newline] @ r = c # t" "\<not> c_isspace c" "c \<noteq> CHR ''0''"
  shows "read_lineno_info n (list_line a insts l @ r, False) = Undef"
proof (cases n)
  case (Suc m)
  have line: "list_line a insts l @ r = listing_entry a l @ tab_char # c # t"
    using assms(1) by (simp add: list_line_def listing_entry_def)
  have tab: "\<not> c_isdigit tab_char" "c_isspace tab_char" by (simp_all add: tab_char_def c_isdigit_def c_isspace_def)
  have "scan_lineno_info (list_line a insts l @ r, False) = ((Some (ucast a), Some (sint l)), (c # t, False))"
    unfolding line using scan_entry[of "tab_char # c # t" a l] tab assms(2) by (simp add: scan_space_def Let_def)
  then show ?thesis by (simp add: Suc read_stuck[OF assms(3)])
qed simp

section \<open>The listing of the assembler\<close>

definition listed :: "inst_bundle \<Rightarrow> bool" where
  "listed ib \<longleftrightarrow> ib_label ib \<noteq> None \<or> ib_align ib = 0"

lemma table_mnemonics:
  "list_all (\<lambda>d. case id_mnemonic d of [] \<Rightarrow> False | c # r \<Rightarrow> \<not> c_isspace c \<and> c \<noteq> CHR ''0'') ajardsp_insns"
  by code_simp

lemma assembled_first_mnemonic:
  assumes "try_assemble_inst_bundle ib st = Good st'" "ib_insts ib = inst # insts"
  obtains c r where "inst_mnemonic inst = c # r" "\<not> c_isspace c" "c \<noteq> CHR ''0''"
proof -
  obtain ps where "assembled (ignore_sym_refs st) (symtab_p st) ajardsp_insns (inst # insts) ps"
    using try_assemble_words[OF assms(1)] assms(2) by auto
  then obtain d where "d \<in> set ajardsp_insns" "id_mnemonic d = inst_mnemonic inst"
    by (auto simp: assembles_def split: list.splits)
  then have "case inst_mnemonic inst of [] \<Rightarrow> False | c # r \<Rightarrow> \<not> c_isspace c \<and> c \<noteq> CHR ''0''"
    using table_mnemonics by (metis (no_types, lifting) list.pred_set)
  then show thesis using that by (auto split: list.splits)
qed

lemma pass_1_listing:
  assumes "pass_1_bundle ib st = Good st'"
  shows "if listed ib then \<exists>x. lineno_fp st' = lineno_fp st @ x \<and> (\<forall>n r. read_lineno_info n (x @ r, False) = Undef)
    else lineno_fp st' = lineno_fp st"
proof (cases "ib_label ib")
  case (Some l)
  with assms read_label_line[of _ l] show ?thesis
    by (auto simp: pass_1_bundle_def listed_def)
next
  case None
  show ?thesis
  proof (cases "ib_align ib = 0")
    case True
    obtain inst insts where i: "ib_insts ib = inst # insts"
      using assms None True by (cases "ib_insts ib") (auto simp: pass_1_bundle_def)
    let ?line = "list_line (imem_addr st) (ib_insts ib) (inst_lineno inst)"
    have t: "try_assemble_inst_bundle ib (st\<lparr>lineno_fp := lineno_fp st @ ?line\<rparr>) = Good st'"
      using assms None True i by (auto simp: pass_1_bundle_def assemble_bundle_def split: outcome.splits)
    obtain c q where m: "inst_mnemonic inst = c # q" "\<not> c_isspace c" "c \<noteq> CHR ''0''"
      using assembled_first_mnemonic[OF t i] by blast
    have "read_lineno_info n (?line @ r, False) = Undef" for n r
      by (rule read_insn_line[where c = c, OF _ m(2,3)]) (simp add: i m(1))
    moreover have "lineno_fp st' = lineno_fp st @ ?line" using try_assemble_words[OF t] by auto
    ultimately show ?thesis using True by (auto simp: listed_def)
  next
    case False
    with assms None show ?thesis
      by (auto simp: pass_1_bundle_def pad_align_def Let_def listed_def split: if_splits)
  qed
qed

lemma walk_pass_1_listing:
  assumes "walk pass_1_bundle ibs st = Good st'" "lineno_fp st = []" "\<exists>ib\<in>set ibs. listed ib"
  shows "\<forall>n. read_lineno_info n (lineno_fp st', False) = Undef"
  using assms
proof (induction ibs arbitrary: st)
  case (Cons ib ibs)
  obtain s where s: "pass_1_bundle ib st = Good s" "walk pass_1_bundle ibs s = Good st'"
    using Cons.prems(1) by (auto simp: obind_eq_Good)
  have grows: "\<exists>y. lineno_fp v = lineno_fp u @ y" if "walk pass_1_bundle bs u = Good v" for bs u v
    using walk_invariant[where P = "\<lambda>t. \<exists>y. lineno_fp t = lineno_fp u @ y" and f = pass_1_bundle, OF _ _ that]
      pass_1_listing by (metis append.assoc append_Nil2)
  show ?case
  proof (cases "listed ib")
    case True
    with pass_1_listing[OF s(1)] Cons.prems(2) obtain x where
      x: "lineno_fp s = x" "\<forall>n r. read_lineno_info n (x @ r, False) = Undef" by auto
    with grows[OF s(2)] show ?thesis by auto
  next
    case False
    with pass_1_listing[OF s(1)] Cons s(2) show ?thesis by auto
  qed
qed simp

lemma passes_0_listing:
  "pass_0_bundle ib st = Good st' \<Longrightarrow> lineno_fp st' = lineno_fp st"
  "pass_0_data_element d st = Good st' \<Longrightarrow> lineno_fp st' = lineno_fp st"
  "pass_1_data_element d st = Good st' \<Longrightarrow> lineno_fp st' = lineno_fp st"
proof -
  show "pass_0_bundle ib st = Good st' \<Longrightarrow> lineno_fp st' = lineno_fp st"
    using try_assemble_words[of ib st]
    by (auto simp: pass_0_bundle_def define_label_def assemble_bundle_def split: option.splits if_splits outcome.splits list.splits)
qed (auto simp: pass_0_data_element_def pass_1_data_element_def define_label_def split: option.splits if_splits)

text \<open>C28: the debugger cannot load the listing the assembler writes: as soon as the program has a label
  or an instruction, the reader stops at the label, or at the text of the instruction, and fills its
  array without reading on until it is outside of it.\<close>

theorem listing_overruns_debugger:
  assumes "asm_gen_opcodes fill data ibs init = Good (st, out)" "\<exists>ib\<in>set ibs. listed ib"
    and "files lineno_file = Some (lineno_fp st)"
  shows "Source_Init files asm_file lineno_file s = Undef"
proof -
  obtain s1 s2 s3 where s: "asm_do_pass_0 ibs data (init\<lparr>imem_addr := 0, dmem_addr := 0, ignore_sym_refs := True\<rparr>) = Good s1"
    "walk pass_1_data_element data (s1\<lparr>ignore_sym_refs := False, imem_addr := 0, dmem_addr := 0\<rparr>) = Good s2"
    "walk pass_1_bundle ibs s2 = Good st"
    using assms(1) by (auto simp: asm_gen_opcodes_def asm_do_pass_1_def obind_eq_Good)
  then obtain s0 where s0: "walk pass_0_data_element data (init\<lparr>imem_addr := 0, dmem_addr := 0, ignore_sym_refs := True\<rparr>) = Good s0"
    "walk pass_0_bundle ibs s0 = Good s1" by (auto simp: asm_do_pass_0_def obind_eq_Good)
  have "lineno_fp s0 = []"
    by (rule walk_invariant[where P = "\<lambda>t. lineno_fp t = []", OF _ _ s0(1)]) (auto simp: passes_0_listing init_def)
  then have "lineno_fp s1 = []"
    by (intro walk_invariant[where P = "\<lambda>t. lineno_fp t = []", OF _ _ s0(2)]) (auto simp: passes_0_listing)
  then have "lineno_fp s2 = []"
    by (intro walk_invariant[where P = "\<lambda>t. lineno_fp t = []", OF _ _ s(2)]) (auto simp: passes_0_listing)
  from walk_pass_1_listing[OF s(3) this assms(2)] assms(3) show ?thesis by (simp add: Source_Init_def)
qed

section \<open>What the source window holds\<close>

definition entry_addr :: "(u16 \<times> i32) list \<Rightarrow> nat \<Rightarrow> int" where
  "entry_addr es n = foldl (\<lambda>c (a, l). if sint l = int n then uint a else c) (- 1) es"

definition text_file :: "string list \<Rightarrow> string" where
  "text_file ls = concat (map (\<lambda>l. l @ [newline]) ls)"

lemma find_lineno_entries:
  fixes es :: "(u16 \<times> i32) list"
  shows "find_lineno n (map (\<lambda>(a, l). (Some (ucast a), Some (sint l))) es) c =
     Good (foldl (\<lambda>c (a, l). if sint l = n then uint a else c) c es)"
proof (induction es arbitrary: c)
  case (Cons e es)
  obtain a l where e: "e = (a, l)" by (cases e)
  have "sint (ucast (a :: u16) :: u32) = uint a"
    using sint_eq_uint_small[of "ucast a"] uint_bounded[of a] by (simp only: uint_ucast_u16) simp
  with Cons show ?case by (simp add: e)
qed simp

lemma take_line_newline: "newline \<notin> set l \<Longrightarrow> length l < n \<Longrightarrow> take_line n (l @ newline # r) = (l @ [newline], r)"
proof (induction l arbitrary: n)
  case Nil
  then show ?case by (cases n) simp_all
next
  case (Cons c l)
  then show ?case by (cases n) auto
qed

lemma fgets_line:
  "newline \<notin> set l \<Longrightarrow> length l < 255 \<Longrightarrow> fgets 256 (l @ newline # r, False) = (Some (l @ [newline]), r, False)"
  by (simp add: fgets_def take_line_newline)

definition loaded_line :: "(u16 \<times> i32) list \<Rightarrow> nat \<Rightarrow> nat \<Rightarrow> string \<Rightarrow> source_line" where
  "loaded_line es row lineno l =
     \<lparr>sl_iter = Some row, sl_addr = entry_addr es lineno, sl_bp = False, sl_str = l\<rparr>"

lemma source_loop_loads:
  fixes es :: "(u16 \<times> i32) list"
  assumes "\<forall>l\<in>set ls. newline \<notin> set l \<and> length l < 255" "k + length ls < SOURCE_LINES"
  shows "\<exists>f. source_loop (map (\<lambda>(a, l). (Some (ucast a), Some (sint l))) es) k (text_file ls, False) s =
    Good (s\<lparr>source_lines := f, source_list_store := source_list_store s @ map Suc [k..<k + length ls],
            source_lines_max := k + length ls + 1\<rparr>) \<and>
    (\<forall>i<length ls. f (Suc (k + i)) = loaded_line es (length (source_list_store s) + i) (Suc (k + i)) (ls ! i)) \<and>
    (\<forall>n. n \<le> k \<or> k + length ls < n \<longrightarrow> f n = source_lines s n)"
  using assms
proof (induction ls arbitrary: k s)
  case Nil
  have "s\<lparr>source_lines := source_lines s, source_list_store := source_list_store s, source_lines_max := k + 1\<rparr> =
      s\<lparr>source_lines_max := k + 1\<rparr>" by simp
  then show ?case
    by (intro exI[of _ "source_lines s"]) (simp add: text_file_def source_loop.simps fgets_def)
next
  case (Cons l ls)
  let ?infos = "map (\<lambda>(a, l). (Some (ucast a), Some (sint l))) es"
  let ?t = "s\<lparr>source_lines := (source_lines s)(Suc k := loaded_line es (length (source_list_store s)) (Suc k) l),
      source_list_store := source_list_store s @ [Suc k]\<rparr>"
  have fl: "text_file (l # ls) = l @ newline # text_file ls" by (simp add: text_file_def)
  have l: "newline \<notin> set l" "length l < 255" using Cons.prems(1) by auto
  have "add_source_line ?infos (Suc k) (l @ [newline]) s = Good ?t"
    using Cons.prems(2) by (simp add: add_source_line_def find_lineno_entries loaded_line_def entry_addr_def)
  then have step: "source_loop ?infos k (text_file (l # ls), False) s = source_loop ?infos (Suc k) (text_file ls, False) ?t"
    by (subst source_loop.simps) (simp add: fl fgets_line[OF l])
  obtain f where f: "source_loop ?infos (Suc k) (text_file ls, False) ?t =
      Good (?t\<lparr>source_lines := f, source_list_store := source_list_store ?t @ map Suc [Suc k..<Suc k + length ls],
            source_lines_max := Suc k + length ls + 1\<rparr>)"
    "\<forall>i<length ls. f (Suc (Suc k + i)) = loaded_line es (length (source_list_store ?t) + i) (Suc (Suc k + i)) (ls ! i)"
    "\<forall>n. n \<le> Suc k \<or> Suc k + length ls < n \<longrightarrow> f n = source_lines ?t n"
    using Cons.IH[of "Suc k" ?t] Cons.prems by auto
  have rows: "map Suc [k..<k + length (l # ls)] = Suc k # map Suc [Suc k..<Suc k + length ls]"
    using upt_conv_Cons[of k "Suc (k + length ls)"] by (simp del: map_Suc_upt upt_Suc)
  show ?case
  proof (intro exI[of _ f] conjI allI impI)
    show "source_loop ?infos k (text_file (l # ls), False) s =
      Good (s\<lparr>source_lines := f, source_list_store := source_list_store s @ map Suc [k..<k + length (l # ls)],
        source_lines_max := k + length (l # ls) + 1\<rparr>)"
      unfolding step f(1) rows by simp
    show "f (Suc (k + i)) = loaded_line es (length (source_list_store s) + i) (Suc (k + i)) ((l # ls) ! i)"
      if "i < length (l # ls)" for i
      using f(2,3) that by (cases i) auto
    show "f n = source_lines s n" if "n \<le> k \<or> k + length (l # ls) < n" for n
      using f(3) that by auto
  qed
qed

text \<open>With a listing of one address and line number per line, the source window shows every line of
  the assembly file with its number and the address of its last entry, and has no breakpoint.\<close>

theorem source_window_loads:
  assumes "files lineno_file = Some (plain_listing es)" "es \<noteq> []" "length es \<le> LINENO_INFO"
    and "files asm_file = Some (text_file ls)" "\<forall>l\<in>set ls. newline \<notin> set l \<and> length l < 255"
    and "length ls < SOURCE_LINES" "source_list_store s = []" "break_points s = []" "\<forall>n. \<not> sl_bp (source_lines s n)"
  shows "\<exists>s'. Source_Init files asm_file lineno_file s = Good s' \<and> breakpoints_ok s' \<and> marked s' = {} \<and>
    length (source_list_store s') = length ls \<and> view.truncate s' = view.truncate s \<and>
    (\<forall>i<length ls.
       cell_text (Source_DataFunc 3 i s') = ls ! i \<and>
       cell_text (Source_DataFunc 2 i s') = fmt_d (of_nat (Suc i)) \<and>
       cell_text (Source_DataFunc 1 i s') =
         (if entry_addr es (Suc i) = - 1 then [] else ''0x'' @ fmt_X 4 (word_of_int (entry_addr es (Suc i)))))"
proof -
  obtain f where f: "Source_Init files asm_file lineno_file s =
      Good (s\<lparr>source_lines := f, source_list_store := map Suc [0..<length ls], source_lines_max := length ls + 1\<rparr>)"
    "\<forall>i<length ls. f (Suc i) = loaded_line es i (Suc i) (ls ! i)"
    "\<forall>n. n = 0 \<or> length ls < n \<longrightarrow> f n = source_lines s n"
    using source_loop_loads[OF assms(5), of 0 es s] assms(1-4,6,7)
    by (auto simp: Source_Init_def read_plain_listing)
  let ?s = "s\<lparr>source_lines := f, source_list_store := map Suc [0..<length ls], source_lines_max := length ls + 1\<rparr>"
  have "\<not> sl_bp (f n)" for n
  proof (cases "n = 0 \<or> length ls < n")
    case True
    with f(3) assms(9) show ?thesis by auto
  next
    case False
    then obtain i where "n = Suc i" "i < length ls" by (cases n) auto
    with f(2) show ?thesis by (simp add: loaded_line_def)
  qed
  then have "marked ?s = {}" by (simp add: marked_def)
  moreover have "breakpoints_ok ?s"
    using assms(6,8) \<open>marked ?s = {}\<close> by (auto simp: breakpoints_ok_def)
  ultimately show ?thesis
    using f(1,2) by (intro exI[of _ ?s]) (simp add: Source_DataFunc_def Let_def loaded_line_def view.truncate_def)
qed

section \<open>Samples\<close>

definition view_sample :: source where
  "view_sample = view.extend view_init
     \<lparr>source_lines = (\<lambda>_. \<lparr>sl_iter = None, sl_addr = 0, sl_bp = False, sl_str = []\<rparr>), source_lines_max = 0,
      source_list_store = [], scrolled_to = [], break_points = []\<rparr>"

theorem listing_overruns_debugger_witness:
  "\<exists>st. asm_gen_opcodes False sample_data sample_code init = Good (st, output_hex False st) \<and>
    Source_Init (\<lambda>_. Some (lineno_fp st)) ''prog.asm'' ''prog.lineno'' view_sample = Undef"
proof -
  obtain st where st: "asm_gen_opcodes False sample_data sample_code init = Good (st, output_hex False st)"
    using sample_run by blast
  have "\<exists>ib\<in>set sample_code. listed ib"
    by (simp add: sample_code_def listed_def label_bundle_def)
  from listing_overruns_debugger[OF st this, of "\<lambda>_. Some (lineno_fp st)" "''prog.lineno''" "''prog.asm''" view_sample] st
  show ?thesis by blast
qed

definition sample_listing :: "(u16 \<times> i32) list" where
  "sample_listing = [(0, 1), (2, 3)]"

definition sample_lines :: "string list" where
  "sample_lines = [''nop'', [], ''bra #main'']"

definition sample_files :: "string \<Rightarrow> string option" where
  "sample_files f = Some (if f = ''prog.lineno'' then plain_listing sample_listing else text_file sample_lines)"

theorem source_window_loads_witness:
  "\<exists>s'. Source_Init sample_files ''prog.asm'' ''prog.lineno'' view_sample = Good s' \<and>
    cell_text (Source_DataFunc 3 2 s') = ''bra #main'' \<and> cell_text (Source_DataFunc 1 2 s') = ''0x0002''"
proof -
  have "\<exists>s'. Source_Init sample_files ''prog.asm'' ''prog.lineno'' view_sample = Good s' \<and> breakpoints_ok s' \<and> marked s' = {} \<and>
    length (source_list_store s') = length sample_lines \<and> view.truncate s' = view.truncate view_sample \<and>
    (\<forall>i<length sample_lines.
       cell_text (Source_DataFunc 3 i s') = sample_lines ! i \<and>
       cell_text (Source_DataFunc 2 i s') = fmt_d (of_nat (Suc i)) \<and>
       cell_text (Source_DataFunc 1 i s') =
         (if entry_addr sample_listing (Suc i) = - 1 then []
          else ''0x'' @ fmt_X 4 (word_of_int (entry_addr sample_listing (Suc i)))))"
    by (rule source_window_loads)
      (simp_all add: sample_files_def sample_listing_def sample_lines_def LINENO_INFO_def SOURCE_LINES_def newline_def
        view_sample_def view.extend_def)
  then obtain s' where s': "Source_Init sample_files ''prog.asm'' ''prog.lineno'' view_sample = Good s'"
    "\<forall>i<length sample_lines. cell_text (Source_DataFunc 3 i s') = sample_lines ! i \<and>
       cell_text (Source_DataFunc 1 i s') =
         (if entry_addr sample_listing (Suc i) = - 1 then []
          else ''0x'' @ fmt_X 4 (word_of_int (entry_addr sample_listing (Suc i))))" by blast
  have "entry_addr sample_listing (Suc 2) = 2" by (simp add: entry_addr_def sample_listing_def)
  moreover have "''0x'' @ fmt_X 4 (word_of_int 2) = ''0x0002''" by code_simp
  ultimately show ?thesis using s'(1) spec[OF s'(2), of 2] by (simp add: sample_lines_def)
qed

end
