(* ===== verification/SimRun.thy ===== *)
theory SimRun
  imports SimSource
begin

text \<open>
  The control of the simulation (\<open>debug-gui.c\<close> and \<open>debug-pli.c\<close>): the simulator calls back at every
  falling edge of the clock and waits there for the user interface, which runs in a second thread.

  The steps of the two threads are interleaved; one step is a callback or the handler of one event.
  The simulator is \<open>Waiting\<close> inside \<open>pthread_cond_wait\<close>; a signal wakes it up, and is lost when it does not
  wait.  POSIX also allows it to wake up without a signal.
\<close>

section \<open>State\<close>

datatype sync_mode = SYNC_MODE_STEP | SYNC_MODE_RUN | SYNC_MODE_STOP | SYNC_MODE_QUIT
datatype sim_status = Running | Waiting | Exited
datatype scalar = Vpi0 | Vpi1 | VpiZ | VpiX

record debugger = source +
  sim_sync_mode :: sync_mode
  sim_cycles_left :: int
  current_cycles :: int
  sim_status :: sim_status

definition pipelines :: "fu_desc list" where
  "pipelines = [PCU_Desc, BMU_Desc, CU_0_Desc, CU_1_Desc, LSU_0_Desc, LSU_1_Desc]"

section \<open>The callback of the simulator\<close>

type_synonym visible_range = "nat list \<Rightarrow> nat \<Rightarrow> bool"

definition update_windows :: "simulation \<Rightarrow> visible_range \<Rightarrow> debugger \<Rightarrow> (debugger, unit) outcome" where
  "update_windows sim visible s =
     obind (SimReadOutRegisters sim s) (\<lambda>s.
       obind (SimReadOutMemory sim s) (\<lambda>s.
         walk (PipelineGuiUpdate sim) pipelines (SourceGuiUpdate visible s)))"

definition stop_simulation :: "simulation \<Rightarrow> visible_range \<Rightarrow> debugger \<Rightarrow> (debugger, unit) outcome" where
  "stop_simulation sim visible s =
     obind (update_windows sim visible s) (\<lambda>s. Good (s\<lparr>sim_status := Waiting\<rparr>))"

text \<open>\<open>--SimCyclesLeftToRun == 0 || BreakPoint_Hit()\<close>; the counter of a run without end starts at 0.\<close>

definition WaitForGUI :: "simulation \<Rightarrow> visible_range \<Rightarrow> debugger \<Rightarrow> (debugger, unit) outcome" where
  "WaitForGUI sim visible s =
     (case sim_sync_mode s of
        SYNC_MODE_STOP \<Rightarrow> stop_simulation sim visible s
      | SYNC_MODE_STEP \<Rightarrow> stop_simulation sim visible s
      | SYNC_MODE_RUN \<Rightarrow>
          if sim_cycles_left s = - (2 ^ 31) then Undef
          else
            let s = s\<lparr>sim_cycles_left := sim_cycles_left s - 1\<rparr> in
            obind (if sim_cycles_left s = 0 then Good True else BreakPoint_Hit sim s)
              (\<lambda>stop. if stop then stop_simulation sim visible s else Good s)
      | SYNC_MODE_QUIT \<Rightarrow> Good (s\<lparr>sim_status := Exited\<rparr>))"

text \<open>\<open>rst\<close> and \<open>clk\<close> are the values of the two signals, \<^term>\<open>None\<close> when they are not in scalar format.\<close>

definition ClkNegEdgeCallBack ::
    "simulation \<Rightarrow> visible_range \<Rightarrow> scalar option \<Rightarrow> scalar option \<Rightarrow> debugger \<Rightarrow> (debugger, unit) outcome" where
  "ClkNegEdgeCallBack sim visible rst clk s =
     (if rst = Some Vpi0 \<and> clk = Some Vpi0 then
        let s = s\<lparr>vpi_log := vpi_log s @ ''ClkNegEdgeCallBack'' @ [newline]\<rparr>;
            cycles = current_cycles s
        in if cycles = 2 ^ 31 - 1 then Undef
           else WaitForGUI sim visible (UpdateCycleCount cycles (s\<lparr>current_cycles := cycles + 1\<rparr>))
      else Good s)"

section \<open>The handlers of the user interface\<close>

definition signal_simulator :: "debugger \<Rightarrow> debugger" where
  "signal_simulator s = (if sim_status s = Waiting then s\<lparr>sim_status := Running\<rparr> else s)"

definition StepButtonCallBack :: "debugger \<Rightarrow> debugger" where
  "StepButtonCallBack s = signal_simulator (s\<lparr>sim_sync_mode := SYNC_MODE_STEP\<rparr>)"

definition StopButtonCallBack :: "debugger \<Rightarrow> debugger" where
  "StopButtonCallBack s = s\<lparr>sim_sync_mode := SYNC_MODE_STOP\<rparr>"

text \<open>The button Run for passes the spin button with the number of cycles, the button Run does not.\<close>

definition RunButtonCallBack :: "int option \<Rightarrow> debugger \<Rightarrow> debugger" where
  "RunButtonCallBack CycleSpin s =
     signal_simulator (s\<lparr>sim_cycles_left := (case CycleSpin of Some n \<Rightarrow> n | None \<Rightarrow> 0),
                         sim_sync_mode := SYNC_MODE_RUN\<rparr>)"

text \<open>After \<open>gtk_main\<close> returns.\<close>

definition gui_quit :: "debugger \<Rightarrow> debugger" where
  "gui_quit s = signal_simulator (s\<lparr>sim_sync_mode := SYNC_MODE_QUIT\<rparr>)"

section \<open>The start\<close>

definition no_source_line :: source_line where
  "no_source_line = \<lparr>sl_iter = None, sl_addr = 0, sl_bp = False, sl_str = []\<rparr>"

definition debugger_init :: debugger where
  "debugger_init = view.extend view_init
     \<lparr>source_lines = (\<lambda>_. no_source_line), source_lines_max = 0, source_list_store = [], scrolled_to = [],
      break_points = [], sim_sync_mode = SYNC_MODE_STEP, sim_cycles_left = 0, current_cycles = 0, sim_status = Running\<rparr>"

text \<open>
  The thread of the user interface builds the pipeline labels and, when both environment variables are
  set, the source window; the callback of the simulator then looks up the objects of the design.
\<close>

definition GuiMainThread ::
    "(string \<Rightarrow> string option) \<Rightarrow> string option \<Rightarrow> string option \<Rightarrow> debugger \<Rightarrow> (debugger, unit) outcome" where
  "GuiMainThread files asm_path lineno_path s =
     (let s = fold FunctionalUnitPipelineWidget pipelines s in
      case (asm_path, lineno_path) of
        (Some a, Some l) \<Rightarrow> Source_Init files a l s
      | _ \<Rightarrow> Good s)"

definition start_debugger ::
    "(string \<Rightarrow> string option) \<Rightarrow> string option \<Rightarrow> string option \<Rightarrow> simulation \<Rightarrow> (debugger, unit) outcome" where
  "start_debugger files asm_path lineno_path sim =
     obind (GuiMainThread files asm_path lineno_path debugger_init) (StartOfSimulationCallBack sim)"

section \<open>Steps and reachable states\<close>

inductive debugger_step :: "debugger \<Rightarrow> debugger \<Rightarrow> bool" where
  clock_edge: "sim_status s = Running \<Longrightarrow> ClkNegEdgeCallBack sim visible rst clk s = Good s' \<Longrightarrow> debugger_step s s'"
| step_clicked: "sim_status s \<noteq> Exited \<Longrightarrow> debugger_step s (StepButtonCallBack s)"
| stop_clicked: "sim_status s \<noteq> Exited \<Longrightarrow> debugger_step s (StopButtonCallBack s)"
| run_clicked: "sim_status s \<noteq> Exited \<Longrightarrow> debugger_step s (RunButtonCallBack None s)"
| run_for_clicked: "sim_status s \<noteq> Exited \<Longrightarrow> 1 \<le> n \<Longrightarrow> n \<le> 1000000 \<Longrightarrow> debugger_step s (RunButtonCallBack (Some n) s)"
| row_activated: "sim_status s \<noteq> Exited \<Longrightarrow> row < length (source_list_store s) \<Longrightarrow> debugger_step s (Source_RowActivated row s)"
| reg_edited: "sim_status s \<noteq> Exited \<Longrightarrow> row < length (reg_list_store s) \<Longrightarrow> RegValueEdited sim row new_text s = Good s' \<Longrightarrow>
    debugger_step s s'"
| mem_edited: "sim_status s \<noteq> Exited \<Longrightarrow> row < length (mem_list_store s) \<Longrightarrow> 1 \<le> column \<Longrightarrow> column \<le> 8 \<Longrightarrow>
    MemValueEdited sim row column new_text s = Good s' \<Longrightarrow> debugger_step s s'"
| quit: "sim_status s \<noteq> Exited \<Longrightarrow> debugger_step s (gui_quit s)"
| spurious_wakeup: "sim_status s = Waiting \<Longrightarrow> debugger_step s (s\<lparr>sim_status := Running\<rparr>)"

inductive reachable :: "debugger \<Rightarrow> bool" where
  start: "start_debugger files asm_path lineno_path sim = Good s \<Longrightarrow> reachable s"
| step: "reachable s \<Longrightarrow> debugger_step s s' \<Longrightarrow> reachable s'"

section \<open>What a callback does\<close>

lemma more_fields:
  fixes s s' :: debugger
  assumes "view.more s' = view.more s"
  shows "source_lines s' = source_lines s \<and> source_lines_max s' = source_lines_max s \<and>
    source_list_store s' = source_list_store s \<and> scrolled_to s' = scrolled_to s \<and> break_points s' = break_points s \<and>
    sim_sync_mode s' = sim_sync_mode s \<and> sim_cycles_left s' = sim_cycles_left s \<and> current_cycles s' = current_cycles s \<and>
    sim_status s' = sim_status s"
  using assms by (cases s, cases s') auto

lemma SourceGuiUpdate_frame:
  "\<exists>l. SourceGuiUpdate visible s = s\<lparr>scrolled_to := l\<rparr>"
proof -
  have "\<exists>l. fold (\<lambda>i s. if pc_value s = word_of_int (sl_addr (source_lines s i)) \<and> \<not> visible (scrolled_to s) i
      then s\<lparr>scrolled_to := scrolled_to s @ [i]\<rparr> else s) xs s = s\<lparr>scrolled_to := l\<rparr>" for xs
  proof (induction xs arbitrary: s)
    case Nil
    have "s = s\<lparr>scrolled_to := scrolled_to s\<rparr>" by simp
    then show ?case by (metis fold_simps(1))
  next
    case (Cons x xs)
    show ?case
      using Cons.IH[of s] Cons.IH[of "s\<lparr>scrolled_to := scrolled_to s @ [x]\<rparr>"] by auto
  qed
  then show ?thesis unfolding SourceGuiUpdate_def .
qed

lemma walk_pipelines:
  assumes "distinct (map fu_name fus)" "walk (PipelineGuiUpdate sim) fus s = Good s'"
  shows "(\<exists>l. s' = s\<lparr>pipe_labels := l\<rparr>) \<and>
    (\<forall>fu\<in>set fus. \<forall>i<nbr_of_pipe_stages fu. \<exists>v. sim (By_name (snd (pipe_stages fu ! i))) = Some v \<and>
       pipe_labels s' (fu_name fu) i = pipe_text v) \<and>
    (\<forall>n. n \<notin> fu_name ` set fus \<longrightarrow> pipe_labels s' n = pipe_labels s n)"
  using assms
proof (induction fus arbitrary: s)
  case Nil
  have "s = s\<lparr>pipe_labels := pipe_labels s\<rparr>" by simp
  with Nil show ?case by (auto intro: exI[of _ "pipe_labels s"])
next
  case (Cons fu fus)
  obtain t where t: "PipelineGuiUpdate sim fu s = Good t" "walk (PipelineGuiUpdate sim) fus t = Good s'"
    using Cons.prems(2) by (auto simp: obind_eq_Good)
  have d: "distinct (map fu_name fus)" "fu_name fu \<notin> fu_name ` set fus" using Cons.prems(1) by auto
  note e = PipelineGuiUpdate_effect[OF t(1)] and r = Cons.IH[OF d(1) t(2)]
  have "\<exists>l. s' = s\<lparr>pipe_labels := l\<rparr>" using e r by auto
  moreover have "\<forall>i<nbr_of_pipe_stages fu. \<exists>v. sim (By_name (snd (pipe_stages fu ! i))) = Some v \<and>
      pipe_labels s' (fu_name fu) i = pipe_text v" using e r d(2) by auto
  moreover have "pipe_labels s' n = pipe_labels s n" if "n \<notin> fu_name ` set (fu # fus)" for n
    using e r that by auto
  ultimately show ?case using r by auto
qed

lemma pipelines_distinct: "distinct (map fu_name pipelines)"
  by (simp add: pipelines_def PCU_Desc_def BMU_Desc_def CU_0_Desc_def CU_1_Desc_def LSU_0_Desc_def LSU_1_Desc_def)

definition pipelines_show :: "simulation \<Rightarrow> 'a view_scheme \<Rightarrow> bool" where
  "pipelines_show sim s \<longleftrightarrow>
     (\<forall>fu\<in>set pipelines. \<forall>i<nbr_of_pipe_stages fu. \<exists>v. sim (By_name (snd (pipe_stages fu ! i))) = Some v \<and>
        pipe_labels s (fu_name fu) i = pipe_text v)"

text \<open>Showing depends on the view alone.\<close>

lemma windows_show_cong:
  "mem_list_store t = mem_list_store s' \<Longrightarrow> memory_curr t = memory_curr s' \<Longrightarrow> memory_prev t = memory_prev s' \<Longrightarrow>
   reg_list_store t = reg_list_store s' \<Longrightarrow> sim_regs t = sim_regs s' \<Longrightarrow> windows_show sim s s' \<Longrightarrow> windows_show sim s t"
  by (simp add: windows_show_def mem_cell_def Memory_DataFunc_def Registers_DataFunc_def)

definition ages_bounded :: "debugger \<Rightarrow> bool" where
  "ages_bounded s \<longleftrightarrow> 0 \<le> current_cycles s \<and> (\<forall>a<LDM_SIZE. memory_age s a \<le> current_cycles s)"

definition same_objects :: "debugger \<Rightarrow> debugger \<Rightarrow> bool" where
  "same_objects s s' \<longleftrightarrow> map r_obj (sim_regs s') = map r_obj (sim_regs s) \<and>
     map r_path (sim_regs s') = map r_path (sim_regs s) \<and> mem_vpi_handle s' = mem_vpi_handle s"

lemma update_windows_effect:
  assumes "windows_ok s" "update_windows sim visible s = Good s'"
  shows "windows_ok s' \<and> windows_show sim s s' \<and> pipelines_show sim s' \<and> cycle_label s' = cycle_label s \<and>
    vpi_puts s' = vpi_puts s \<and> source_lines s' = source_lines s \<and> source_list_store s' = source_list_store s \<and>
    source_lines_max s' = source_lines_max s \<and>
    break_points s' = break_points s \<and> sim_sync_mode s' = sim_sync_mode s \<and> sim_cycles_left s' = sim_cycles_left s \<and>
    current_cycles s' = current_cycles s \<and> sim_status s' = sim_status s \<and> same_objects s s' \<and>
    (\<forall>a<LDM_SIZE. memory_age s' a \<le> max 0 (memory_age s a + 1))"
proof -
  obtain t u where t: "SimReadOutRegisters sim s = Good t" "SimReadOutMemory sim t = Good u"
    "walk (PipelineGuiUpdate sim) pipelines (SourceGuiUpdate visible u) = Good s'"
    using assms(2) by (auto simp: update_windows_def obind_eq_Good)
  have "obind (SimReadOutRegisters sim s) (SimReadOutMemory sim) = Good u" using t by simp
  note w = readout_shows[OF assms(1) this]
  have reg: "reg_view s" "mem_view s" using assms(1) by (simp_all add: windows_ok_def)
  note r = SimReadOutRegisters_effect[OF reg(1) t(1)]
  then have "mem_view t" using reg(2) by (simp add: mem_view_def mem_rows_def same_but_regs_def mem_cell_def)
  note m = readout_ages[OF this t(2)] SimReadOutMemory_effect[OF this t(2)]
  obtain l where l: "SourceGuiUpdate visible u = u\<lparr>scrolled_to := l\<rparr>" using SourceGuiUpdate_frame by blast
  note p = walk_pipelines[OF pipelines_distinct t(3)[unfolded l]]
  then obtain k where s': "s' = u\<lparr>scrolled_to := l, pipe_labels := k\<rparr>" by auto
  have "pipelines_show sim s'" using p by (simp add: pipelines_show_def)
  moreover have "windows_show sim s s'" by (rule windows_show_cong[of _ u]) (simp_all add: s' w)
  moreover have "windows_ok s'" using w by (simp add: s' windows_ok_def mem_view_def mem_rows_def reg_view_def mem_cell_def)
  moreover have "map r_obj (sim_regs u) = map r_obj (sim_regs s)" "map r_path (sim_regs u) = map r_path (sim_regs s)"
    using r m(2) by (auto simp: same_but_mem_def intro!: nth_equalityI)
  then have "same_objects s s'" using w by (simp add: same_objects_def s')
  moreover have "\<forall>a<LDM_SIZE. memory_age s' a \<le> max 0 (memory_age s a + 1)"
    using m(1) r by (simp add: s' same_but_regs_def)
  ultimately show ?thesis using w more_fields[of u s] by (simp add: s')
qed

lemma stop_simulation_effect:
  assumes "windows_ok s" "stop_simulation sim visible s = Good s'"
  shows "windows_ok s' \<and> windows_show sim s s' \<and> pipelines_show sim s' \<and> cycle_label s' = cycle_label s \<and>
    vpi_puts s' = vpi_puts s \<and> source_lines s' = source_lines s \<and> source_list_store s' = source_list_store s \<and>
    source_lines_max s' = source_lines_max s \<and>
    break_points s' = break_points s \<and> sim_sync_mode s' = sim_sync_mode s \<and> sim_cycles_left s' = sim_cycles_left s \<and>
    current_cycles s' = current_cycles s \<and> sim_status s' = Waiting \<and> same_objects s s' \<and>
    (\<forall>a<LDM_SIZE. memory_age s' a \<le> max 0 (memory_age s a + 1))"
proof -
  obtain t where t: "update_windows sim visible s = Good t" "s' = t\<lparr>sim_status := Waiting\<rparr>"
    using assms(2) by (auto simp: stop_simulation_def obind_eq_Good)
  note e = update_windows_effect[OF assms(1) t(1)]
  have "windows_show sim s s'" by (rule windows_show_cong[of _ t]) (simp_all add: t(2) e)
  moreover have "windows_ok s'" using e by (simp add: t(2) windows_ok_def mem_view_def mem_rows_def reg_view_def mem_cell_def)
  moreover have "pipelines_show sim s'" "same_objects s s'" using e by (simp_all add: t(2) pipelines_show_def same_objects_def)
  ultimately show ?thesis using e by (simp add: t(2))
qed

text \<open>Whether an edge stops the simulation: never while it runs, but for the counter or a breakpoint.\<close>

definition stops_here :: "simulation \<Rightarrow> debugger \<Rightarrow> bool" where
  "stops_here sim s \<longleftrightarrow>
     (case sim_sync_mode s of
        SYNC_MODE_RUN \<Rightarrow> sim_cycles_left s = 1 \<or>
          (\<exists>l\<in>marked s. \<exists>pc. sim (By_name (r_path (sim_regs s ! 0))) = Some pc \<and> word_of_int (sl_addr (source_lines s l)) = pc)
      | SYNC_MODE_QUIT \<Rightarrow> False
      | _ \<Rightarrow> True)"

lemma WaitForGUI_effect:
  assumes "windows_ok s" "breakpoints_ok s" "sim_status s = Running" "WaitForGUI sim visible s = Good s'"
  shows "windows_ok s' \<and> breakpoints_ok s' \<and> same_objects s s' \<and> cycle_label s' = cycle_label s \<and>
    current_cycles s' = current_cycles s \<and> sim_sync_mode s' = sim_sync_mode s \<and> vpi_puts s' = vpi_puts s \<and>
    source_lines s' = source_lines s \<and> marked s' = marked s \<and>
    (\<forall>a<LDM_SIZE. memory_age s' a \<le> max (memory_age s a) (max 0 (memory_age s a + 1))) \<and>
    sim_cycles_left s' = (if sim_sync_mode s = SYNC_MODE_RUN then sim_cycles_left s - 1 else sim_cycles_left s) \<and>
    sim_status s' = (if sim_sync_mode s = SYNC_MODE_QUIT then Exited else if stops_here sim s then Waiting else Running) \<and>
    (stops_here sim s \<longrightarrow> windows_show sim s s' \<and> pipelines_show sim s')"
proof (cases "sim_sync_mode s")
  case SYNC_MODE_RUN
  let ?t = "s\<lparr>sim_cycles_left := sim_cycles_left s - 1\<rparr>"
  have t: "windows_ok ?t" "breakpoints_ok ?t" "marked ?t = marked s"
    using assms(1,2) by (simp_all add: windows_ok_def mem_view_def mem_rows_def reg_view_def mem_cell_def breakpoints_ok_def marked_def)
  obtain b where b: "(if sim_cycles_left s - 1 = 0 then Good True else BreakPoint_Hit sim ?t) = Good b"
    and s': "(if b then stop_simulation sim visible ?t else Good ?t) = Good s'"
    using assms(4) SYNC_MODE_RUN by (auto simp: WaitForGUI_def obind_eq_Good Let_def split: if_splits)
  have "b = stops_here sim s"
  proof (cases "sim_cycles_left s = 1")
    case False
    then have hit: "BreakPoint_Hit sim ?t = Good b" using b by simp
    show ?thesis
    proof (cases "break_points s = []")
      case True
      then have "marked s = {}" using assms(2)
        by (metis breakpoints_ok_def finite_marked image_mset_is_empty_iff mset_set_empty_iff mset_zero_iff)
      then show ?thesis using hit True False by (simp add: BreakPoint_Hit_def stops_here_def SYNC_MODE_RUN)
    next
      case pts: False
      then obtain pc where pc: "sim (By_name (r_path (sim_regs s ! 0))) = Some pc"
        using hit by (auto simp: BreakPoint_Hit_def SimReadReg_def obind_eq_Good split: option.splits)
      then have "BreakPoint_Hit sim ?t = Good (\<exists>l\<in>marked ?t. word_of_int (sl_addr (source_lines ?t l)) = pc)"
        by (intro BreakPoint_Hit_marked[OF t(2)]) simp
      with hit False pc show ?thesis by (auto simp: stops_here_def SYNC_MODE_RUN t(3))
    qed
  qed (use b in \<open>simp add: stops_here_def SYNC_MODE_RUN\<close>)
  note b = this
  show ?thesis
  proof (cases b)
    case True
    then have "stop_simulation sim visible ?t = Good s'" using s' by simp
    note e = stop_simulation_effect[OF t(1) this]
    then have "windows_show sim s s'" by (simp add: windows_show_def)
    moreover have "marked s' = marked s" "breakpoints_ok s'" using e t by (simp_all add: breakpoints_ok_def marked_def)
    ultimately show ?thesis
      using e True by (simp add: SYNC_MODE_RUN b[symmetric] same_objects_def le_max_iff_disj)
  next
    case False
    with s' t b show ?thesis using assms(3) by (auto simp: SYNC_MODE_RUN same_objects_def)
  qed
next
  case SYNC_MODE_QUIT
  with assms show ?thesis
    by (auto simp: WaitForGUI_def same_objects_def stops_here_def windows_ok_def mem_view_def mem_rows_def reg_view_def
        mem_cell_def breakpoints_ok_def marked_def)
next
  case SYNC_MODE_STEP
  then have "stop_simulation sim visible s = Good s'" using assms(4) by (simp add: WaitForGUI_def)
  note e = stop_simulation_effect[OF assms(1) this]
  then have "marked s' = marked s" "breakpoints_ok s'" using assms(2) by (simp_all add: breakpoints_ok_def marked_def)
  with e show ?thesis by (simp add: SYNC_MODE_STEP stops_here_def le_max_iff_disj)
next
  case SYNC_MODE_STOP
  then have "stop_simulation sim visible s = Good s'" using assms(4) by (simp add: WaitForGUI_def)
  note e = stop_simulation_effect[OF assms(1) this]
  then have "marked s' = marked s" "breakpoints_ok s'" using assms(2) by (simp_all add: breakpoints_ok_def marked_def)
  with e show ?thesis by (simp add: SYNC_MODE_STOP stops_here_def le_max_iff_disj)
qed

section \<open>The invariant\<close>

definition debugger_ok :: "debugger \<Rightarrow> bool" where
  "debugger_ok s \<longleftrightarrow> windows_ok s \<and> breakpoints_ok s \<and> ages_bounded s"

text \<open>Fields the invariant does not look at.\<close>

lemma debugger_ok_update [simp]:
  "debugger_ok (s\<lparr>sim_sync_mode := m\<rparr>) = debugger_ok s" "debugger_ok (s\<lparr>sim_cycles_left := n\<rparr>) = debugger_ok s"
  "debugger_ok (s\<lparr>sim_status := st\<rparr>) = debugger_ok s" "debugger_ok (s\<lparr>vpi_log := t\<rparr>) = debugger_ok s"
  "debugger_ok (s\<lparr>cycle_label := c\<rparr>) = debugger_ok s"
  by (simp_all add: debugger_ok_def windows_ok_def mem_view_def mem_rows_def reg_view_def mem_cell_def breakpoints_ok_def
      marked_def ages_bounded_def)

text \<open>One edge: the state before the window update is \<open>edge_state\<close>.\<close>

definition edge_state :: "debugger \<Rightarrow> debugger" where
  "edge_state s = UpdateCycleCount (current_cycles s)
     (s\<lparr>vpi_log := vpi_log s @ ''ClkNegEdgeCallBack'' @ [newline], current_cycles := current_cycles s + 1\<rparr>)"

lemma edge_state_simps [simp]:
  "windows_ok (edge_state s) = windows_ok s" "breakpoints_ok (edge_state s) = breakpoints_ok s"
  "sim_status (edge_state s) = sim_status s"
  "sim_sync_mode (edge_state s) = sim_sync_mode s" "sim_cycles_left (edge_state s) = sim_cycles_left s"
  "memory_age (edge_state s) = memory_age s" "current_cycles (edge_state s) = current_cycles s + 1"
  "cycle_label (edge_state s) = ''Current simulation cycle: '' @ fmt_d (word_of_int (current_cycles s))"
  "windows_show sim (edge_state s) = windows_show sim s" "same_objects (edge_state s) = same_objects s"
  "marked (edge_state s) = marked s" "source_lines (edge_state s) = source_lines s" "sim_regs (edge_state s) = sim_regs s"
  "mem_vpi_handle (edge_state s) = mem_vpi_handle s" "vpi_puts (edge_state s) = vpi_puts s"
  "mem_rows (edge_state s) = mem_rows s"
  by (simp_all add: edge_state_def UpdateCycleCount_def windows_ok_def mem_view_def mem_rows_def reg_view_def mem_cell_def
      breakpoints_ok_def marked_def windows_show_def same_objects_def fun_eq_iff)

lemma stops_here_edge_state [simp]: "stops_here sim (edge_state s) = stops_here sim s"
  by (cases "sim_sync_mode s") (simp_all add: stops_here_def)

lemma ClkNegEdgeCallBack_edge:
  "ClkNegEdgeCallBack sim visible (Some Vpi0) (Some Vpi0) s =
     (if current_cycles s = 2 ^ 31 - 1 then Undef else WaitForGUI sim visible (edge_state s))"
  by (simp add: ClkNegEdgeCallBack_def edge_state_def Let_def)

lemma ClkNegEdgeCallBack_other:
  "\<not> (rst = Some Vpi0 \<and> clk = Some Vpi0) \<Longrightarrow> ClkNegEdgeCallBack sim visible rst clk s = Good s"
  unfolding ClkNegEdgeCallBack_def by (rule if_not_P)

lemma edge_effect:
  assumes "debugger_ok s" "sim_status s = Running" "ClkNegEdgeCallBack sim visible (Some Vpi0) (Some Vpi0) s = Good s'"
  shows "debugger_ok s' \<and> same_objects s s' \<and> current_cycles s' = current_cycles s + 1 \<and>
    cycle_label s' = ''Current simulation cycle: '' @ fmt_d (word_of_int (current_cycles s)) \<and>
    sim_sync_mode s' = sim_sync_mode s \<and> marked s' = marked s \<and> source_lines s' = source_lines s \<and>
    sim_cycles_left s' = (if sim_sync_mode s = SYNC_MODE_RUN then sim_cycles_left s - 1 else sim_cycles_left s) \<and>
    sim_status s' = (if sim_sync_mode s = SYNC_MODE_QUIT then Exited else if stops_here sim s then Waiting else Running) \<and>
    (stops_here sim s \<longrightarrow> windows_show sim s s' \<and> pipelines_show sim s')"
proof -
  have "WaitForGUI sim visible (edge_state s) = Good s'"
    using assms(3) by (simp add: ClkNegEdgeCallBack_edge split: if_splits)
  note e = WaitForGUI_effect[OF _ _ _ this]
  have ages: "memory_age s' a \<le> current_cycles s + 1" if "a < LDM_SIZE" for a
  proof -
    have "memory_age s' a \<le> max (memory_age s a) (max 0 (memory_age s a + 1))" using e assms(1,2) that by (simp add: debugger_ok_def)
    moreover have "0 \<le> current_cycles s" "memory_age s a \<le> current_cycles s"
      using assms(1) that by (simp_all add: debugger_ok_def ages_bounded_def)
    ultimately show ?thesis by linarith
  qed
  with e assms(1,2) show ?thesis by (simp add: debugger_ok_def ages_bounded_def)
qed

section \<open>The invariant holds in every reachable state\<close>

lemma source_loop_invariant:
  assumes "source_loop infos k f s = Good s'" "break_points s = []" "\<forall>n. \<not> sl_bp (source_lines s n)"
    "\<forall>r\<in>set (source_list_store s). r < SOURCE_LINES"
  shows "break_points s' = [] \<and> (\<forall>n. \<not> sl_bp (source_lines s' n)) \<and> (\<forall>r\<in>set (source_list_store s'). r < SOURCE_LINES) \<and>
    view.truncate s' = view.truncate s \<and> source.more s' = source.more s"
  using assms
proof (induction infos k f s rule: source_loop.induct)
  case (1 infos k f s)
  show ?case
  proof (cases "snd f")
    case True
    with 1(3-) show ?thesis by (auto simp: source_loop.simps[of infos k f] view.truncate_def)
  next
    case False
    obtain l f' where g: "fgets 256 f = (l, f')" by (cases "fgets 256 f")
    show ?thesis
    proof (cases l)
      case None
      with 1(1)[OF False g[symmetric] None] 1(3-) False g show ?thesis by (simp add: source_loop.simps[of infos k f])
    next
      case (Some ln)
      then obtain t where t: "add_source_line infos (Suc k) ln s = Good t" "source_loop infos (Suc k) f' t = Good s'"
        using 1(3) False g by (auto simp: source_loop.simps[of infos k f] obind_eq_Good)
      have "break_points t = [] \<and> (\<forall>n. \<not> sl_bp (source_lines t n)) \<and> (\<forall>r\<in>set (source_list_store t). r < SOURCE_LINES) \<and>
          view.truncate t = view.truncate s \<and> source.more t = source.more s"
        using t(1) 1(4-) by (auto simp: add_source_line_def obind_eq_Good view.truncate_def split: if_splits)
      with 1(2)[OF False g[symmetric] Some t(2)] show ?thesis by auto
    qed
  qed
qed

lemma Source_Init_invariant:
  assumes "Source_Init files a l s = Good s'" "break_points s = []" "\<forall>n. \<not> sl_bp (source_lines s n)" "source_list_store s = []"
  shows "break_points s' = [] \<and> (\<forall>n. \<not> sl_bp (source_lines s' n)) \<and> (\<forall>r\<in>set (source_list_store s'). r < SOURCE_LINES) \<and>
    view.truncate s' = view.truncate s \<and> source.more s' = source.more s"
  using assms source_loop_invariant[of _ 0 _ s s']
  by (auto simp: Source_Init_def obind_eq_Good split: option.splits)

lemma widgets_frame: "\<exists>l. fold FunctionalUnitPipelineWidget fus s = s\<lparr>pipe_labels := l\<rparr>"
proof -
  have labels: "\<exists>l. fold (\<lambda>i. set_pipe_label fu i x) is s = s\<lparr>pipe_labels := l\<rparr>" for fu x "is" and s :: "'a view_scheme"
  proof (induction "is" arbitrary: s)
    case Nil
    have "s = s\<lparr>pipe_labels := pipe_labels s\<rparr>" by simp
    then show ?case by (metis fold_simps(1))
  next
    case (Cons i "is")
    obtain l where "fold (\<lambda>i. set_pipe_label fu i x) is (set_pipe_label fu i x s) = (set_pipe_label fu i x s)\<lparr>pipe_labels := l\<rparr>"
      using Cons by blast
    moreover obtain m where "set_pipe_label fu i x s = s\<lparr>pipe_labels := m\<rparr>"
      unfolding set_pipe_label_def by blast
    ultimately have "fold (\<lambda>i. set_pipe_label fu i x) (i # is) s = s\<lparr>pipe_labels := l\<rparr>" by simp
    then show ?case by blast
  qed
  show ?thesis
  proof (induction fus arbitrary: s)
    case Nil
    have "s = s\<lparr>pipe_labels := pipe_labels s\<rparr>" by simp
    then show ?case by (metis fold_simps(1))
  next
    case (Cons fu fus)
    obtain l where l: "FunctionalUnitPipelineWidget fu s = s\<lparr>pipe_labels := l\<rparr>"
      using labels unfolding FunctionalUnitPipelineWidget_def by blast
    obtain l' where "fold FunctionalUnitPipelineWidget fus (s\<lparr>pipe_labels := l\<rparr>) = s\<lparr>pipe_labels := l\<rparr>\<lparr>pipe_labels := l'\<rparr>"
      using Cons by blast
    with l show ?case by auto
  qed
qed

lemma start_ok:
  assumes "start_debugger files asm_path lineno_path sim = Good s"
  shows "debugger_ok s \<and> sim_status s = Running \<and> sim_sync_mode s = SYNC_MODE_STEP \<and> current_cycles s = 0 \<and>
    sim_cycles_left s = 0 \<and>     marked s = {} \<and> vpi_puts s = []"
proof -
  obtain t where t: "GuiMainThread files asm_path lineno_path debugger_init = Good t" "StartOfSimulationCallBack sim t = Good s"
    using assms by (auto simp: start_debugger_def obind_eq_Good)
  obtain l where l: "fold FunctionalUnitPipelineWidget pipelines debugger_init = debugger_init\<lparr>pipe_labels := l\<rparr>"
    using widgets_frame by blast
  let ?i = "debugger_init\<lparr>pipe_labels := l\<rparr>"
  have init: "break_points ?i = [] \<and> (\<forall>n. \<not> sl_bp (source_lines ?i n)) \<and> source_list_store ?i = [] \<and>
      reg_list_store ?i = [] \<and> mem_list_store ?i = [] \<and> memory_age ?i = (\<lambda>_. 0) \<and> vpi_puts ?i = [] \<and>
      sim_status ?i = Running \<and> sim_sync_mode ?i = SYNC_MODE_STEP \<and> current_cycles ?i = 0 \<and> sim_cycles_left ?i = 0"
    by (simp add: debugger_init_def view.extend_def view_init_def no_source_line_def)
  have t': "t = ?i \<or> (\<exists>a n. Source_Init files a n ?i = Good t)"
    using t(1) by (auto simp: GuiMainThread_def Let_def l split: option.splits)
  have g: "break_points t = [] \<and> (\<forall>n. \<not> sl_bp (source_lines t n)) \<and> (\<forall>r\<in>set (source_list_store t). r < SOURCE_LINES) \<and>
      view.truncate t = view.truncate ?i \<and> source.more t = source.more ?i"
    using t'
  proof
    assume "\<exists>a n. Source_Init files a n ?i = Good t"
    then show ?thesis using Source_Init_invariant[of files _ _ ?i t] init by blast
  qed (use init in simp)
  have v: "reg_list_store t = []" "mem_list_store t = []" "memory_age t = (\<lambda>_. 0)" "vpi_puts t = []"
    "sim_status t = Running" "sim_sync_mode t = SYNC_MODE_STEP" "current_cycles t = 0" "sim_cycles_left t = 0"
    using g init by (cases t; cases ?i; simp add: view.truncate_def)+
  note st = StartOfSimulation_effect[OF t(2) v(1-3)]
  then have m: "break_points s = []" "source_lines s = source_lines t" "source_list_store s = source_list_store t"
    "sim_status s = Running" "sim_sync_mode s = SYNC_MODE_STEP" "current_cycles s = 0" "sim_cycles_left s = 0"
    using more_fields[of s t] g v by simp_all
  then have "marked s = {}" using g by (simp add: marked_def)
  moreover have "breakpoints_ok s" using m g \<open>marked s = {}\<close> by (simp add: breakpoints_ok_def)
  ultimately show ?thesis using st m v by (simp add: debugger_ok_def ages_bounded_def)
qed

lemma signal_ok [simp]: "debugger_ok (signal_simulator s) = debugger_ok s"
  by (simp add: signal_simulator_def)

lemma RowActivated_debugger_ok:
  assumes "debugger_ok s" "row < length (source_list_store s)"
  shows "debugger_ok (Source_RowActivated row s)"
proof -
  have "breakpoints_ok (Source_RowActivated row s)"
    using RowActivated_ok[of s row] assms by (simp add: debugger_ok_def)
  moreover have "windows_ok (Source_RowActivated row s) = windows_ok s" "ages_bounded (Source_RowActivated row s) = ages_bounded s"
    by (simp_all add: Source_RowActivated_def Let_def windows_ok_def mem_view_def mem_rows_def reg_view_def mem_cell_def
        ages_bounded_def)
  ultimately show ?thesis using assms(1) by (simp add: debugger_ok_def)
qed

lemma edits_ages:
  "RegValueEdited sim row new_text s = Good s' \<Longrightarrow> memory_age s' = memory_age s"
  "MemValueEdited sim row col new_text s = Good s' \<Longrightarrow> memory_age s' = memory_age s"
proof -
  assume "RegValueEdited sim row new_text s = Good s'"
  from RegUpdateValueInDesign_effect[OF this[unfolded RegValueEdited_def Let_def]] show "memory_age s' = memory_age s"
    by simp
qed (auto simp: MemValueEdited_def UpdateMemoryInDesign_def Let_def split: if_splits option.splits)

lemma debugger_step_ok: "debugger_step s s' \<Longrightarrow> debugger_ok s \<Longrightarrow> debugger_ok s'"
proof (induction rule: debugger_step.induct)
  case (clock_edge s sim visible rst clk s')
  show ?case
  proof (cases "rst = Some Vpi0 \<and> clk = Some Vpi0")
    case True
    with edge_effect[of s sim visible s'] clock_edge show ?thesis by auto
  next
    case False
    with ClkNegEdgeCallBack_other[OF False] clock_edge show ?thesis by simp
  qed
next
  case (reg_edited s row sim new_text s')
  have "row < length (sim_regs s)" "windows_ok s" using reg_edited by (simp_all add: debugger_ok_def windows_ok_def reg_view_def)
  from RegValueEdited_effect[OF this(2,1) reg_edited(3)] edits_ages(1)[OF reg_edited(3)] more_fields[of s' s] reg_edited(4)
  show ?case by (simp add: debugger_ok_def breakpoints_ok_def marked_def ages_bounded_def)
next
  case (mem_edited s row column sim new_text s')
  have "row < LDM_SIZE div 8" "windows_ok s"
    using mem_edited by (simp_all add: debugger_ok_def windows_ok_def mem_view_def mem_rows_def)
  from MemValueEdited_effect[OF this(2,1) mem_edited(3,4,5)] edits_ages(2)[OF mem_edited(5)] more_fields[of s' s] mem_edited(6)
  show ?case by (simp add: debugger_ok_def breakpoints_ok_def marked_def ages_bounded_def)
qed (simp_all add: StepButtonCallBack_def StopButtonCallBack_def RunButtonCallBack_def gui_quit_def RowActivated_debugger_ok)

lemma reachable_ok: "reachable s \<Longrightarrow> debugger_ok s"
  by (induction rule: reachable.induct) (use start_ok debugger_step_ok in blast)+

text \<open>C25: whenever the simulation stops, the windows show the design: each of the first 4096 words of the data
  memory (\<open>LDM_SIZE\<close>; the memory has 65536) and each of the registers in \<open>RegsOfInterest\<close> with its value in the
  design, in red when it differs from the value the debugger held before (that of the last stop, or what the
  user has entered since), every pipeline stage with the disassembled instruction in it, and the number of
  the cycle.\<close>

theorem stopped_windows_show:
  assumes "reachable s" "sim_status s = Running"
    and "ClkNegEdgeCallBack sim visible (Some Vpi0) (Some Vpi0) s = Good s'" "sim_status s' = Waiting"
  shows "windows_show sim s s' \<and> pipelines_show sim s' \<and>
    cycle_label s' = ''Current simulation cycle: '' @ fmt_d (word_of_int (current_cycles s))"
  using edge_effect[OF reachable_ok[OF assms(1)] assms(2,3)] assms(4) by (auto split: if_splits)

text \<open>C26: a running simulation stops at an edge exactly when the cycles it was to run for are over or the
  program counter is at a line with a breakpoint, in every reachable state of the debugger.\<close>

theorem run_stops_at_breakpoint:
  assumes "reachable s" "sim_status s = Running" "sim_sync_mode s = SYNC_MODE_RUN"
    and "sim (By_name (r_path (sim_regs s ! 0))) = Some pc"
    and "ClkNegEdgeCallBack sim visible (Some Vpi0) (Some Vpi0) s = Good s'"
  shows "sim_status s' = Waiting \<longleftrightarrow>
    sim_cycles_left s = 1 \<or> (\<exists>l. l < SOURCE_LINES \<and> sl_bp (source_lines s l) \<and> word_of_int (sl_addr (source_lines s l)) = pc)"
  using edge_effect[OF reachable_ok[OF assms(1)] assms(2,5)] assms(3,4) by (auto simp: stops_here_def marked_def)

section \<open>A run comes to its end\<close>

text \<open>A simulation with all the objects the debugger reads.\<close>

definition complete :: "simulation \<Rightarrow> debugger \<Rightarrow> bool" where
  "complete sim s \<longleftrightarrow> sim_regs s \<noteq> [] \<and>
     (\<forall>i<length (sim_regs s). reg_value sim (sim_regs s ! i) \<noteq> None) \<and>
     sim (By_name (r_path (sim_regs s ! 0))) \<noteq> None \<and>
     (\<forall>a<LDM_SIZE. mem_word sim (mem_vpi_handle s) a \<noteq> None) \<and>
     (\<forall>fu\<in>set pipelines. \<forall>i<nbr_of_pipe_stages fu. sim (By_name (snd (pipe_stages fu ! i))) \<noteq> None)"

lemma complete_cong:
  assumes "same_objects s s'"
  shows "complete sim s' = complete sim s"
proof -
  have l: "length (sim_regs s') = length (sim_regs s)" using assms(1) by (metis same_objects_def length_map)
  have o: "r_obj (sim_regs s' ! i) = r_obj (sim_regs s ! i)" "r_path (sim_regs s' ! i) = r_path (sim_regs s ! i)"
    if "i < length (sim_regs s)" for i
  proof -
    have m: "map r_obj (sim_regs s') ! i = map r_obj (sim_regs s) ! i" "map r_path (sim_regs s') ! i = map r_path (sim_regs s) ! i"
      using assms(1) by (simp_all add: same_objects_def)
    show "r_obj (sim_regs s' ! i) = r_obj (sim_regs s ! i)" "r_path (sim_regs s' ! i) = r_path (sim_regs s ! i)"
      using m that l by simp_all
  qed
  have "sim_regs s \<noteq> [] \<Longrightarrow> r_path (sim_regs s' ! 0) = r_path (sim_regs s ! 0)" using o(2)[of 0] by simp
  moreover have "sim_regs s' = [] \<longleftrightarrow> sim_regs s = []" using l by (metis length_0_conv)
  moreover have "reg_value sim (sim_regs s' ! i) = reg_value sim (sim_regs s ! i)" if "i < length (sim_regs s)" for i
    using o(1)[OF that] by (simp add: reg_value_def)
  moreover have "mem_vpi_handle s' = mem_vpi_handle s" using assms(1) by (simp add: same_objects_def)
  ultimately show ?thesis unfolding complete_def l by (cases "sim_regs s = []") simp_all
qed

text \<open>A loop over an index returns when each step does and keeps what the next ones need.\<close>

lemma walk_upt_returns:
  assumes "P 0 s" "\<And>i t. i < n \<Longrightarrow> P i t \<Longrightarrow> \<exists>t'. f i t = Good t' \<and> P (Suc i) t'"
  shows "\<exists>s'. walk f [0..<n] s = Good s' \<and> P n s'"
  using assms(2)
proof (induction n)
  case 0
  with assms(1) show ?case by simp
next
  case (Suc n)
  then obtain t where "walk f [0..<n] s = Good t" "P n t" by (meson less_Suc_eq)
  moreover obtain t' where "f n t = Good t'" "P (Suc n) t'" using Suc.prems calculation(2) by blast
  ultimately show ?case by (auto simp: walk_append obind_def)
qed

lemma SimReadOutRegisters_returns:
  assumes "reg_view s" "\<forall>i<length (sim_regs s). reg_value sim (sim_regs s ! i) \<noteq> None"
  shows "\<exists>s'. SimReadOutRegisters sim s = Good s'"
proof -
  let ?P = "\<lambda>k t. reg_view t \<and> length (sim_regs t) = length (sim_regs s) \<and>
    (\<forall>i. k \<le> i \<longrightarrow> sim_regs t ! i = sim_regs s ! i)"
  have "\<exists>t. walk (SimReadOutRegister sim) [0..<length (sim_regs s)] s = Good t \<and> ?P (length (sim_regs s)) t"
  proof (rule walk_upt_returns[where P = ?P])
    show "?P 0 s" using assms(1) by simp
    fix i t
    assume i: "i < length (sim_regs s)" and P: "?P i t"
    obtain v where "reg_value sim (sim_regs t ! i) = Some v" using assms(2) i P by auto
    moreover have "r_iter (sim_regs t ! i) = Some i"
      using P i unfolding reg_view_def by (metis (no_types, lifting))
    ultimately obtain t' where t': "SimReadOutRegister sim i t = Good t'"
      by (simp add: SimReadOutRegister_def Let_def RegisterGuiUpdate_def)
    have "reg_view t" "i < length (sim_regs t)" using P i by simp_all
    from SimReadOutRegister_effect[OF this t'] obtain w where "reg_view t'"
      "sim_regs t' = (sim_regs t)[i := (sim_regs t ! i)\<lparr>r_prev := r_curr (sim_regs t ! i), r_curr := w\<rparr>]" by blast
    with P t' show "\<exists>t'. SimReadOutRegister sim i t = Good t' \<and> ?P (Suc i) t'" by simp
  qed
  then show ?thesis by (auto simp: SimReadOutRegisters_def)
qed

lemma SimReadOutMemory_returns:
  assumes "mem_view s" "\<forall>a<LDM_SIZE. mem_word sim (mem_vpi_handle s) a \<noteq> None" "\<forall>a<LDM_SIZE. memory_age s a < 2 ^ 31 - 1"
  shows "\<exists>s'. SimReadOutMemory sim s = Good s'"
proof -
  let ?P = "\<lambda>k t. mem_view t \<and> mem_vpi_handle t = mem_vpi_handle s \<and> (\<forall>a. k \<le> a \<longrightarrow> memory_age t a = memory_age s a)"
  have "\<exists>t. walk (SimReadOutWord sim) [0..<LDM_SIZE] s = Good t \<and> ?P LDM_SIZE t"
  proof (rule walk_upt_returns[where P = ?P])
    show "?P 0 s" using assms(1) by simp
    fix i t
    assume i: "i < LDM_SIZE" and P: "?P i t"
    then have "\<exists>t'. SimReadOutWord sim i t = Good t'"
      using assms(2,3) by (intro SimReadOutWord_returns) (simp_all add: mem_view_def)
    then obtain t' where t': "SimReadOutWord sim i t = Good t'" ..
    have v: "mem_view t" using P by simp
    from SimReadOutWord_effect[OF v i t'] have "mem_view t'" "same_but_mem t t'" by blast+
    moreover have "memory_age t' a = memory_age t a" if "a \<noteq> i" for a
      using SimReadOutWord_age[OF t'] that by simp
    ultimately show "\<exists>t'. SimReadOutWord sim i t = Good t' \<and> ?P (Suc i) t'"
      using P t' by (simp add: same_but_mem_def)
  qed
  then show ?thesis by (auto simp: SimReadOutMemory_def)
qed

lemma walk_pipelines_returns:
  assumes "\<forall>fu\<in>set fus. \<forall>i<nbr_of_pipe_stages fu. sim (By_name (snd (pipe_stages fu ! i))) \<noteq> None"
  shows "\<exists>s'. walk (PipelineGuiUpdate sim) fus s = Good s'"
  using assms
proof (induction fus arbitrary: s)
  case (Cons fu fus)
  have "\<exists>t. PipelineGuiUpdate sim fu s = Good t \<and> True"
    unfolding PipelineGuiUpdate_def
    by (rule walk_upt_returns) (use Cons.prems in \<open>auto simp: SimReadReg_def split: option.splits\<close>)
  then obtain t where "PipelineGuiUpdate sim fu s = Good t" by blast
  then show ?case using Cons by simp
qed simp


lemma stop_simulation_returns:
  assumes "windows_ok s" "complete sim s" "\<forall>a<LDM_SIZE. memory_age s a < 2 ^ 31 - 1"
  shows "\<exists>s'. stop_simulation sim visible s = Good s'"
proof -
  have v: "reg_view s" "mem_view s" using assms(1) by (simp_all add: windows_ok_def)
  have "\<forall>i<length (sim_regs s). reg_value sim (sim_regs s ! i) \<noteq> None" using assms(2) by (simp add: complete_def)
  then obtain t where t: "SimReadOutRegisters sim s = Good t" using SimReadOutRegisters_returns[OF v(1)] by blast
  from SimReadOutRegisters_effect[OF v(1) t] have f: "same_but_regs s t" by simp
  then have "mem_view t" "mem_vpi_handle t = mem_vpi_handle s" "memory_age t = memory_age s"
    using v(2) by (simp_all add: mem_view_def mem_rows_def same_but_regs_def mem_cell_def)
  then obtain u where u: "SimReadOutMemory sim t = Good u"
    using SimReadOutMemory_returns[of t sim] assms(2,3) by (auto simp: complete_def)
  obtain w where "walk (PipelineGuiUpdate sim) pipelines (SourceGuiUpdate visible u) = Good w"
    using walk_pipelines_returns assms(2) unfolding complete_def by blast
  with t u show ?thesis by (simp add: stop_simulation_def update_windows_def)
qed

lemma edge_returns:
  assumes "debugger_ok s" "complete sim s" "current_cycles s < 2 ^ 31 - 1" "- (2 ^ 31) < sim_cycles_left s"
  shows "\<exists>s'. ClkNegEdgeCallBack sim visible (Some Vpi0) (Some Vpi0) s = Good s'"
proof -
  have c: "complete sim (edge_state s) = complete sim s" by (simp add: complete_def)
  have ages: "\<forall>a<LDM_SIZE. memory_age s a < 2 ^ 31 - 1" using assms(1,3) by (auto simp: debugger_ok_def ages_bounded_def)
  let ?t = "(edge_state s)\<lparr>sim_cycles_left := sim_cycles_left s - 1\<rparr>"
  have ok: "windows_ok (edge_state s)" "windows_ok ?t" using assms(1) edge_state_simps(1)[of s]
    by (simp_all add: debugger_ok_def windows_ok_def mem_view_def mem_rows_def reg_view_def mem_cell_def)
  have t: "complete sim ?t" using assms(2) c by (simp add: complete_def)
  obtain u w where u: "stop_simulation sim visible (edge_state s) = Good u" "stop_simulation sim visible ?t = Good w"
    using stop_simulation_returns[OF ok(1), of sim visible] stop_simulation_returns[OF ok(2) t, of visible] assms(2) c ages
    by (simp (no_asm_use)) blast
  have "BreakPoint_Hit sim ?t \<noteq> Undef \<and> (\<forall>e. BreakPoint_Hit sim ?t \<noteq> Fail e)"
    using assms(2) by (auto simp: BreakPoint_Hit_def SimReadReg_def complete_def split: option.splits)
  then obtain b where b: "BreakPoint_Hit sim ?t = Good b" by (cases "BreakPoint_Hit sim ?t") auto
  have "\<exists>s'. WaitForGUI sim visible (edge_state s) = Good s'"
    using u b assms(4) by (cases "sim_sync_mode s"; cases "sim_cycles_left s = 1") (simp_all add: WaitForGUI_def Let_def)
  then show ?thesis using assms(3) by (simp add: ClkNegEdgeCallBack_edge)
qed

text \<open>The edges after one another, each with the values the design has then.\<close>

definition run_edges :: "visible_range \<Rightarrow> simulation list \<Rightarrow> debugger \<Rightarrow> (debugger, unit) outcome" where
  "run_edges visible sims = walk (\<lambda>sim. ClkNegEdgeCallBack sim visible (Some Vpi0) (Some Vpi0)) sims"

lemma run_edges_simps [simp]:
  "run_edges visible [] s = Good s"
  "run_edges visible (sim # sims) s =
     obind (ClkNegEdgeCallBack sim visible (Some Vpi0) (Some Vpi0) s) (run_edges visible sims)"
  by (simp_all add: run_edges_def)

text \<open>The program counter of the design is at a line with a breakpoint.\<close>

definition at_breakpoint :: "simulation \<Rightarrow> debugger \<Rightarrow> bool" where
  "at_breakpoint sim s \<longleftrightarrow> (\<exists>l\<in>marked s. \<exists>pc. sim (By_name (r_path (sim_regs s ! 0))) = Some pc \<and>
     word_of_int (sl_addr (source_lines s l)) = pc)"

lemma at_breakpoint_cong:
  assumes "same_objects s s'" "sim_regs s \<noteq> []" "marked s' = marked s" "source_lines s' = source_lines s"
  shows "at_breakpoint sim s' = at_breakpoint sim s"
proof -
  have "map r_path (sim_regs s') = map r_path (sim_regs s)" using assms(1) by (simp add: same_objects_def)
  then have "r_path (sim_regs s' ! 0) = r_path (sim_regs s ! 0)" using assms(2) by (cases "sim_regs s"; cases "sim_regs s'") auto
  then show ?thesis using assms by (simp add: at_breakpoint_def)
qed

lemma run_for_edges:
  assumes "debugger_ok s" "sim_status s = Running" "sim_sync_mode s = SYNC_MODE_RUN"
    and "sim_cycles_left s = int (length sims)" "sims \<noteq> []" "\<forall>sim\<in>set sims. complete sim s"
    and "current_cycles s + int (length sims) < 2 ^ 31"
  shows "\<exists>k s'. 1 \<le> k \<and> k \<le> length sims \<and> run_edges visible (take k sims) s = Good s' \<and> sim_status s' = Waiting \<and>
    current_cycles s' = current_cycles s + int k \<and>
    (\<forall>j<k. \<exists>t. run_edges visible (take j sims) s = Good t \<and> sim_status t = Running) \<and>
    (k = length sims \<or> at_breakpoint (sims ! (k - 1)) s)"
  using assms
proof (induction sims arbitrary: s)
  case (Cons sim sims)
  obtain t where t: "ClkNegEdgeCallBack sim visible (Some Vpi0) (Some Vpi0) s = Good t"
    using edge_returns[OF Cons.prems(1), of sim visible] Cons.prems(4,6,7) by auto
  note e = edge_effect[OF Cons.prems(1,2) t]
  have regs: "sim_regs s \<noteq> []" using Cons.prems(6) by (simp add: complete_def)
  have stops: "stops_here sim s \<longleftrightarrow> sims = [] \<or> at_breakpoint sim s"
    using Cons.prems(3,4) by (auto simp: stops_here_def at_breakpoint_def)
  show ?case
  proof (cases "stops_here sim s")
    case True
    then show ?thesis
      using e t stops Cons.prems(2,3) by (intro exI[of _ 1] exI[of _ t]) auto
  next
    case False
    then have run: "sim_status t = Running" "sims \<noteq> []" using e stops Cons.prems(3) by auto
    have "same_objects s t" using e by simp
    then have c: "\<forall>sim\<in>set sims. complete sim t" using Cons.prems(6) complete_cong by auto
    have left: "sim_cycles_left t = int (length sims)" "current_cycles t + int (length sims) < 2 ^ 31"
      "sim_sync_mode t = SYNC_MODE_RUN" "debugger_ok t"
      using e Cons.prems(3,4,7) by simp_all
    obtain k s' where k: "1 \<le> k" "k \<le> length sims" "run_edges visible (take k sims) t = Good s'" "sim_status s' = Waiting"
      "current_cycles s' = current_cycles t + int k"
      "\<forall>j<k. \<exists>u. run_edges visible (take j sims) t = Good u \<and> sim_status u = Running"
      "k = length sims \<or> at_breakpoint (sims ! (k - 1)) t"
      using Cons.IH[OF left(4) run(1) left(3,1) run(2) c left(2)] by blast
    have bp: "at_breakpoint x t = at_breakpoint x s" for x
      using at_breakpoint_cong e regs by simp
    have "\<exists>u. run_edges visible (take j (sim # sims)) s = Good u \<and> sim_status u = Running" if "j < Suc k" for j
      using that k(6) t Cons.prems(2) by (cases j) auto
    then show ?thesis
      using k t e bp by (intro exI[of _ "Suc k"] exI[of _ s']) (auto simp: nth_Cons')
  qed
qed simp

text \<open>C27: the button Run for comes to its end: after at most the chosen number of edges the simulator
  waits again, exactly that many when no breakpoint is reached, and it runs until then.\<close>

theorem run_for_stops:
  assumes "reachable s" "sim_status s \<noteq> Exited" "1 \<le> n" "n \<le> 1000000" "length sims = n"
    and "\<forall>sim\<in>set sims. complete sim s" "current_cycles s + int n < 2 ^ 31"
  shows "\<exists>k s'. 1 \<le> k \<and> k \<le> n \<and> run_edges visible (take k sims) (RunButtonCallBack (Some (int n)) s) = Good s' \<and>
    sim_status s' = Waiting \<and> current_cycles s' = current_cycles s + int k \<and>
    (\<forall>j<k. \<exists>t. run_edges visible (take j sims) (RunButtonCallBack (Some (int n)) s) = Good t \<and> sim_status t = Running) \<and>
    (k = n \<or> at_breakpoint (sims ! (k - 1)) s)"
proof -
  let ?s = "RunButtonCallBack (Some (int n)) s"
  have run: "sim_status ?s = Running" "sim_sync_mode ?s = SYNC_MODE_RUN" "sim_cycles_left ?s = int (length sims)"
    "current_cycles ?s = current_cycles s"
    using assms(2,5) by (cases "sim_status s"; simp add: RunButtonCallBack_def signal_simulator_def)+
  have ok: "debugger_ok ?s" using reachable_ok[OF assms(1)] by (simp add: RunButtonCallBack_def)
  have c: "\<forall>sim\<in>set sims. complete sim ?s"
    using assms(6) by (simp add: complete_def RunButtonCallBack_def signal_simulator_def)
  have bp: "at_breakpoint sim ?s = at_breakpoint sim s" for sim
    by (simp add: at_breakpoint_def marked_def RunButtonCallBack_def signal_simulator_def)
  have "sims \<noteq> []" using assms(3,5) by auto
  from run_for_edges[OF ok run(1-3) this c, of visible] assms(5,7) run(4) show ?thesis by (simp add: bp)
qed

section \<open>A debugger that has started\<close>

lemma walk_returns: "(\<And>x t. x \<in> set xs \<Longrightarrow> \<exists>t'. f x t = Good t') \<Longrightarrow> \<exists>s'. walk f xs s = Good s'"
proof (induction xs arbitrary: s)
  case (Cons x xs)
  then obtain t where "f x s = Good t" by fastforce
  with Cons show ?case by simp
qed simp

text \<open>A design in which every object is zero.\<close>

definition zero_design :: simulation where
  "zero_design h = Some 0"

lemma started:
  obtains s where "start_debugger files None None zero_design = Good s" "complete zero_design s" "reachable s"
proof -
  let ?t = "fold FunctionalUnitPipelineWidget pipelines debugger_init"
  obtain l where t: "?t = debugger_init\<lparr>pipe_labels := l\<rparr>" using widgets_frame by blast
  have "\<exists>s. walk (find_register zero_design) [0..<length (sim_regs ?t)] ?t = Good s"
    by (rule walk_returns) (simp add: find_register_def zero_design_def Let_def)
  then obtain u where "walk (find_register zero_design) [0..<length (sim_regs ?t)] ?t = Good u" ..
  then obtain s where s: "StartOfSimulationCallBack zero_design ?t = Good s"
    "mem_vpi_handle s = Some ''testbench.ajardsp_0.dmem_0.dmem''"
    by (simp add: StartOfSimulationCallBack_def zero_design_def Let_def)
  have start: "start_debugger files None None zero_design = Good s"
    using s by (simp add: start_debugger_def GuiMainThread_def Let_def)
  have i: "reg_list_store ?t = []" "mem_list_store ?t = []" "memory_age ?t = (\<lambda>_. 0)" "sim_regs ?t = RegsOfInterest"
    unfolding t by (simp_all add: debugger_init_def view.extend_def view_init_def)
  note e = StartOfSimulation_effect[OF s(1) i(1-3)]
  have "\<forall>i<length (sim_regs s). reg_value zero_design (sim_regs s ! i) \<noteq> None"
    using e by (auto simp: reg_value_def)
  moreover have "sim_regs s \<noteq> []"
  proof -
    have "length RegsOfInterest \<noteq> 0" by (simp add: RegsOfInterest_def)
    then show ?thesis using e i(4) by auto
  qed
  ultimately have "complete zero_design s"
    by (simp add: complete_def s(2) mem_word_def) (simp add: zero_design_def)
  then show thesis using that start reachable.start by blast
qed

theorem stopped_windows_show_witness:
  "\<exists>s s'. reachable s \<and> windows_show zero_design s s' \<and> pipelines_show zero_design s' \<and>
    cycle_label s' = ''Current simulation cycle: 0''"
proof -
  obtain s where s: "start_debugger (\<lambda>_. None) None None zero_design = Good s" "complete zero_design s" "reachable s"
    by (rule started)
  note i = start_ok[OF s(1)]
  obtain s' where e: "ClkNegEdgeCallBack zero_design (\<lambda>_ _. True) (Some Vpi0) (Some Vpi0) s = Good s'"
    using edge_returns[of s zero_design] s(2) i by auto
  have "sim_status s' = Waiting" using edge_effect[OF _ _ e] i by (simp add: stops_here_def)
  from stopped_windows_show[OF s(3) _ e this] i s(3) show ?thesis by (auto simp: fmt_d_def digits_in.simps[of 10 0] hex_digit_def)
qed

theorem run_stops_at_breakpoint_witness:
  "\<exists>s s'. reachable s \<and> sim_sync_mode s = SYNC_MODE_RUN \<and> sim_cycles_left s = 1 \<and>
    ClkNegEdgeCallBack zero_design (\<lambda>_ _. True) (Some Vpi0) (Some Vpi0) s = Good s' \<and> sim_status s' = Waiting"
proof -
  obtain t where t: "start_debugger (\<lambda>_. None) None None zero_design = Good t" "complete zero_design t" "reachable t"
    by (rule started)
  note i = start_ok[OF t(1)]
  let ?s = "RunButtonCallBack (Some 1) t"
  have r: "reachable ?s" using reachable.step[OF t(3) run_for_clicked[of t 1]] i by simp
  have s: "sim_status ?s = Running" "sim_sync_mode ?s = SYNC_MODE_RUN" "sim_cycles_left ?s = 1" "current_cycles ?s = 0"
    "complete zero_design ?s" using i t(2) by (simp_all add: RunButtonCallBack_def signal_simulator_def complete_def)
  obtain s' where e: "ClkNegEdgeCallBack zero_design (\<lambda>_ _. True) (Some Vpi0) (Some Vpi0) ?s = Good s'"
    using edge_returns[OF reachable_ok[OF r] s(5)] s(3,4) by auto
  have "zero_design (By_name (r_path (sim_regs ?s ! 0))) = Some 0" by (simp add: zero_design_def)
  from run_stops_at_breakpoint[OF r s(1,2) this e] s(3) have "sim_status s' = Waiting" by blast
  with r s e show ?thesis by blast
qed

theorem run_for_stops_witness:
  "\<exists>s s'. reachable s \<and> run_edges (\<lambda>_ _. True) (replicate 3 zero_design) (RunButtonCallBack (Some 3) s) = Good s' \<and>
    sim_status s' = Waiting"
proof -
  obtain s where s: "start_debugger (\<lambda>_. None) None None zero_design = Good s" "complete zero_design s" "reachable s"
    by (rule started)
  note i = start_ok[OF s(1)]
  have b: "\<not> at_breakpoint x s" for x using i by (simp add: at_breakpoint_def)
  show ?thesis
    using run_for_stops[OF s(3), of 3 "replicate 3 zero_design" "\<lambda>_ _. True"] i s(2,3) b by auto
qed

end
