(* ===== verification/SimWindows.thy ===== *)
theory SimWindows
  imports SimRun
begin

text \<open>
  The windows of the debugger (\<open>debug-gui.c\<close>): their widgets and what is connected to them, the file in
  which their geometry is kept, and the routines registered with the simulator (\<open>debug-pli.c\<close>).

  A widget is the tree of its children with the titles, the ranges and the signals the source gives it;
  shadows, borders and packing are left out.  GTK is trusted to run the handler that is connected to a
  signal, with the row of the store the user has clicked, and to ask the cell function of a column for
  what it shows.
\<close>

section \<open>Widgets\<close>

datatype handler =
    H_step | H_stop | H_run | H_run_for | H_pre_quit
  | H_row_activated | H_reg_edited | H_mem_edited nat

datatype cell_func = Registers_cell nat | Memory_cell nat | Source_cell nat

record tree_column =
  col_title :: string
  col_cell :: cell_func
  col_edited :: "handler option"

definition text_column :: "string \<Rightarrow> cell_func \<Rightarrow> tree_column" where
  "text_column title f = \<lparr>col_title = title, col_cell = f, col_edited = None\<rparr>"

definition edited_column :: "string \<Rightarrow> cell_func \<Rightarrow> handler \<Rightarrow> tree_column" where
  "edited_column title f h = \<lparr>col_title = title, col_cell = f, col_edited = Some h\<rparr>"

datatype widget =
    Window string "(nat \<times> nat) option" handler widget
  | Scrolled widget
  | Box "widget list"
  | Frame string widget
  | Button string handler
  | Spin_button int int
  | Label string
  | Tree_view "tree_column list" "handler option"

definition CreateRegisterViewAndModel :: widget where
  "CreateRegisterViewAndModel =
     Tree_view [text_column ''Register'' (Registers_cell 0), edited_column ''Value'' (Registers_cell 1) H_reg_edited] None"

definition CreateMemoryViewAndModel :: widget where
  "CreateMemoryViewAndModel =
     Tree_view (text_column ''Address'' (Memory_cell 0) #
       map (\<lambda>i. edited_column (''A+'' @ fmt_d (of_nat i)) (Memory_cell (1 + i)) (H_mem_edited (1 + i))) [0..<8]) None"

definition CreateSourceViewAndModel :: widget where
  "CreateSourceViewAndModel =
     Tree_view [text_column [] (Source_cell 0), text_column ''Addr'' (Source_cell 1),
                text_column ''Line'' (Source_cell 2), text_column ''Source'' (Source_cell 3)] (Some H_row_activated)"

text \<open>A pipeline: under every instruction the name of its stage.\<close>

definition pipeline_widget :: "fu_desc \<Rightarrow> widget" where
  "pipeline_widget fu =
     Frame (fu_name fu) (Box (concat (map (\<lambda>i. [Label ''DEADBEEF'', Label (fst (pipe_stages fu ! i))]) [0..<nbr_of_pipe_stages fu])))"

definition CtrlWindow :: widget where
  "CtrlWindow =
     Window ''AjarDSP debugger (RTL sim)'' None H_pre_quit
       (Box [Frame ''Pipelines'' (Box (map pipeline_widget [PCU_Desc, BMU_Desc, CU_0_Desc, CU_1_Desc, LSU_0_Desc, LSU_1_Desc])),
             Frame ''Simulation control''
               (Box [Box [Label []],
                     Box [Button ''Run'' H_run, Button ''Stop'' H_stop, Button ''Step'' H_step,
                          Button ''Run for'' H_run_for, Spin_button 1 1000000]])])"

definition SourceWindow :: widget where
  "SourceWindow = Window ''Source'' (Some (320, 600)) H_pre_quit (Scrolled CreateSourceViewAndModel)"

definition RegWindow :: widget where
  "RegWindow = Window ''Registers'' None H_pre_quit (Scrolled CreateRegisterViewAndModel)"

definition MemWindow :: widget where
  "MemWindow = Window ''Memory'' (Some (320, 200)) H_pre_quit (Scrolled CreateMemoryViewAndModel)"

text \<open>The windows in the order in which they are built.\<close>

definition gui_windows :: "string option \<Rightarrow> string option \<Rightarrow> widget list" where
  "gui_windows asm_path lineno_path =
     [CtrlWindow] @ (if asm_path \<noteq> None \<and> lineno_path \<noteq> None then [SourceWindow] else []) @ [RegWindow, MemWindow]"

section \<open>Signals\<close>

primrec column_handlers :: "tree_column list \<Rightarrow> handler list" where
  "column_handlers [] = []"
| "column_handlers (c # cs) = (case col_edited c of Some h \<Rightarrow> [h] | None \<Rightarrow> []) @ column_handlers cs"

fun handlers :: "widget \<Rightarrow> handler list" where
  "handlers (Window t s h w) = h # handlers w"
| "handlers (Scrolled w) = handlers w"
| "handlers (Box ws) = concat (map handlers ws)"
| "handlers (Frame t w) = handlers w"
| "handlers (Button t h) = [h]"
| "handlers (Spin_button a b) = []"
| "handlers (Label t) = []"
| "handlers (Tree_view cs a) = column_handlers cs @ (case a of Some h \<Rightarrow> [h] | None \<Rightarrow> [])"

text \<open>
  What a handler does: \<open>row\<close> and \<open>new_text\<close> come with the signal of a tree view, and \<open>cycles\<close> is the value
  of the spin button.  \<open>PreQuitCallBack\<close> ends the main loop, after which the mode is set and the
  simulator is signalled.
\<close>

definition run_handler :: "simulation \<Rightarrow> nat \<Rightarrow> string \<Rightarrow> int \<Rightarrow> handler \<Rightarrow> debugger \<Rightarrow> (debugger, unit) outcome" where
  "run_handler sim row new_text cycles h s =
     (case h of
        H_step \<Rightarrow> Good (StepButtonCallBack s)
      | H_stop \<Rightarrow> Good (StopButtonCallBack s)
      | H_run \<Rightarrow> Good (RunButtonCallBack None s)
      | H_run_for \<Rightarrow> Good (RunButtonCallBack (Some cycles) s)
      | H_pre_quit \<Rightarrow> Good (gui_quit s)
      | H_row_activated \<Rightarrow> Good (Source_RowActivated row s)
      | H_reg_edited \<Rightarrow> RegValueEdited sim row new_text s
      | H_mem_edited column \<Rightarrow> MemValueEdited sim row column new_text s)"

definition show_cell :: "cell_func \<Rightarrow> nat \<Rightarrow> debugger \<Rightarrow> cell" where
  "show_cell f row s =
     (case f of
        Registers_cell c \<Rightarrow> Registers_DataFunc c row s
      | Memory_cell c \<Rightarrow> Memory_DataFunc c row s
      | Source_cell c \<Rightarrow> Source_DataFunc c row s)"

text \<open>The rows a handler can be called with.\<close>

definition row_exists :: "handler \<Rightarrow> nat \<Rightarrow> debugger \<Rightarrow> bool" where
  "row_exists h row s \<longleftrightarrow>
     (case h of
        H_row_activated \<Rightarrow> row < length (source_list_store s)
      | H_reg_edited \<Rightarrow> row < length (reg_list_store s)
      | H_mem_edited c \<Rightarrow> row < length (mem_list_store s)
      | _ \<Rightarrow> True)"

lemma pipeline_handlers: "handlers (pipeline_widget fu) = []"
  by (simp add: pipeline_widget_def)

lemma memory_handlers: "set (handlers CreateMemoryViewAndModel) = (\<lambda>i. H_mem_edited (1 + i)) ` {0..<8}"
proof -
  have "column_handlers (map (\<lambda>i. edited_column (t i) (f i) (h i)) xs) = map h xs" for t f h and xs :: "nat list"
    by (induction xs) (simp_all add: edited_column_def)
  then show ?thesis by (simp add: CreateMemoryViewAndModel_def text_column_def del: upt_rec_numeral)
qed

lemma window_handlers:
  "h \<in> set (concat (map handlers (gui_windows a l))) \<Longrightarrow>
     h \<in> {H_step, H_stop, H_run, H_run_for, H_pre_quit, H_row_activated, H_reg_edited} \<union> (\<lambda>i. H_mem_edited (1 + i)) ` {0..<8}"
  using memory_handlers
  by (auto simp: gui_windows_def CtrlWindow_def SourceWindow_def RegWindow_def MemWindow_def pipeline_handlers
      CreateSourceViewAndModel_def CreateRegisterViewAndModel_def text_column_def edited_column_def split: if_splits)

text \<open>Every signal of a widget is a step of the debugger.\<close>

lemma handler_step:
  assumes "h \<in> set (concat (map handlers (gui_windows asm_path lineno_path)))" "row_exists h row s" "1 \<le> cycles" "cycles \<le> 1000000"
    and "sim_status s \<noteq> Exited" "run_handler sim row new_text cycles h s = Good s'"
  shows "debugger_step s s'"
proof (cases h)
  case (H_mem_edited c)
  then have "1 \<le> c" "c \<le> 8" using window_handlers[OF assms(1)] by auto
  with assms(2,5,6) show ?thesis
    by (intro mem_edited[where column = c]) (auto simp: H_mem_edited run_handler_def row_exists_def)
qed (use assms(2-) in \<open>auto simp: run_handler_def row_exists_def intro: debugger_step.intros\<close>)

section \<open>What the user can do\<close>

text \<open>The buttons with a label, the ranges of the spin buttons, and the windows with a title.\<close>

fun button_handlers :: "string \<Rightarrow> widget \<Rightarrow> handler list" where
  "button_handlers l (Window t s h w) = button_handlers l w"
| "button_handlers l (Scrolled w) = button_handlers l w"
| "button_handlers l (Box ws) = concat (map (button_handlers l) ws)"
| "button_handlers l (Frame t w) = button_handlers l w"
| "button_handlers l (Button t h) = (if t = l then [h] else [])"
| "button_handlers l _ = []"

fun spin_ranges :: "widget \<Rightarrow> (int \<times> int) list" where
  "spin_ranges (Window t s h w) = spin_ranges w"
| "spin_ranges (Scrolled w) = spin_ranges w"
| "spin_ranges (Box ws) = concat (map spin_ranges ws)"
| "spin_ranges (Frame t w) = spin_ranges w"
| "spin_ranges (Spin_button lo hi) = [(lo, hi)]"
| "spin_ranges _ = []"

fun close_handlers :: "string \<Rightarrow> widget \<Rightarrow> handler list" where
  "close_handlers l (Window t s h w) = (if t = l then [h] else [])"
| "close_handlers l _ = []"

datatype user_event = Clicked string | Closed string

fun event_handlers :: "user_event \<Rightarrow> widget \<Rightarrow> handler list" where
  "event_handlers (Clicked l) = button_handlers l"
| "event_handlers (Closed t) = close_handlers t"

text \<open>What happens when the user clicks a button or closes a window while \<open>cycles\<close> is in the spin button.\<close>

definition user_does :: "widget list \<Rightarrow> simulation \<Rightarrow> int \<Rightarrow> user_event \<Rightarrow> debugger \<Rightarrow> (debugger, unit) outcome" where
  "user_does ws sim cycles e s =
     (case concat (map (event_handlers e) ws) of [h] \<Rightarrow> run_handler sim 0 [] cycles h s | _ \<Rightarrow> Undef)"

lemma pipeline_events: "event_handlers e (pipeline_widget fu) = []" "spin_ranges (pipeline_widget fu) = []"
  by (cases e; simp add: pipeline_widget_def) (simp add: pipeline_widget_def)

lemmas event_simps =
  user_does_def gui_windows_def CtrlWindow_def SourceWindow_def RegWindow_def MemWindow_def CreateSourceViewAndModel_def
  CreateRegisterViewAndModel_def CreateMemoryViewAndModel_def run_handler_def pipeline_events
  pipeline_events(1)[of "Clicked l" for l, simplified]

lemma user_events:
  "user_does (gui_windows a l) sim n (Clicked ''Step'') s = Good (StepButtonCallBack s)"
  "user_does (gui_windows a l) sim n (Clicked ''Stop'') s = Good (StopButtonCallBack s)"
  "user_does (gui_windows a l) sim n (Clicked ''Run'') s = Good (RunButtonCallBack None s)"
  "user_does (gui_windows a l) sim n (Clicked ''Run for'') s = Good (RunButtonCallBack (Some n) s)"
  "Window t sz h w \<in> set (gui_windows a l) \<Longrightarrow> user_does (gui_windows a l) sim n (Closed t) s = Good (gui_quit s)"
  "concat (map spin_ranges (gui_windows a l)) = [(1, 1000000)]"
  by (auto simp: event_simps split: if_splits)

section \<open>What the user controls\<close>

definition status_after :: "visible_range \<Rightarrow> simulation list \<Rightarrow> debugger \<Rightarrow> sim_status \<Rightarrow> bool" where
  "status_after visible sims s st \<longleftrightarrow> (\<exists>t. run_edges visible sims s = Good t \<and> sim_status t = st)"

lemma status_after_Cons:
  "ClkNegEdgeCallBack sim visible (Some Vpi0) (Some Vpi0) s = Good t \<Longrightarrow>
     status_after visible (sim # sims) s st = status_after visible sims t st"
  by (simp add: status_after_def)

lemma status_after_edge:
  assumes "debugger_ok s" "sim_status s = Running" "sim_sync_mode s \<noteq> SYNC_MODE_RUN" "complete sim s"
    and "current_cycles s < 2 ^ 31 - 1" "- (2 ^ 31) < sim_cycles_left s"
  shows "status_after visible [sim] s (if sim_sync_mode s = SYNC_MODE_QUIT then Exited else Waiting)"
proof -
  obtain t where t: "ClkNegEdgeCallBack sim visible (Some Vpi0) (Some Vpi0) s = Good t"
    using edge_returns[OF assms(1,4-6)] by blast
  with edge_effect[OF assms(1,2) t] assms(3) show ?thesis
    by (cases "sim_sync_mode s") (simp_all add: status_after_def stops_here_def)
qed

text \<open>A run without end goes on until the edge at which a breakpoint is reached.\<close>

lemma run_goes_on:
  assumes "debugger_ok s" "sim_status s = Running" "sim_sync_mode s = SYNC_MODE_RUN" "sim_cycles_left s \<le> 0"
    and "int (length sims) - 2 ^ 31 \<le> sim_cycles_left s" "current_cycles s + int (length sims) < 2 ^ 31"
    and "\<forall>sim\<in>set sims. complete sim s" "k < length sims" "\<forall>j<k. \<not> at_breakpoint (sims ! j) s"
  shows "status_after visible (take (Suc k) sims) s (if at_breakpoint (sims ! k) s then Waiting else Running)"
  using assms
proof (induction sims arbitrary: s k)
  case (Cons sim sims)
  obtain t where t: "ClkNegEdgeCallBack sim visible (Some Vpi0) (Some Vpi0) s = Good t"
    using edge_returns[OF Cons.prems(1), of sim visible] Cons.prems(5-7) by auto
  note e = edge_effect[OF Cons.prems(1,2) t]
  have stops: "stops_here sim s = at_breakpoint sim s"
    using Cons.prems(3,4) by (simp add: stops_here_def at_breakpoint_def)
  show ?case
  proof (cases k)
    case 0
    with e stops Cons.prems(3) t show ?thesis by (simp add: status_after_def)
  next
    case (Suc i)
    have run: "sim_status t = Running" using e stops Cons.prems(3,9) Suc by auto
    have c: "\<forall>sim\<in>set sims. complete sim t" using Cons.prems(7) complete_cong e by auto
    have "sim_regs s \<noteq> []" using Cons.prems(7) by (simp add: complete_def)
    then have bp: "at_breakpoint x t = at_breakpoint x s" for x using at_breakpoint_cong e by simp
    have "\<forall>j<i. \<not> at_breakpoint (sims ! j) t" using Cons.prems(9) Suc bp by fastforce
    then have "status_after visible (take (Suc i) sims) t (if at_breakpoint (sims ! i) t then Waiting else Running)"
      using e Cons.prems(3-6,8) Suc run c by (intro Cons.IH) simp_all
    then show ?thesis by (simp add: Suc status_after_Cons[OF t] bp)
  qed
qed simp

lemma cycles_left_bound: "reachable s \<Longrightarrow> - current_cycles s \<le> sim_cycles_left s"
proof (induction rule: reachable.induct)
  case (step s s')
  note inv = reachable_ok[OF step.hyps(1)]
  have "0 \<le> current_cycles s" using inv by (simp add: debugger_ok_def ages_bounded_def)
  with step.hyps(2) step.IH inv show ?case
  proof (induction rule: debugger_step.induct)
    case (clock_edge s sim visible rst clk s')
    show ?case
    proof (cases "rst = Some Vpi0 \<and> clk = Some Vpi0")
      case True
      with edge_effect[of s sim visible s'] clock_edge show ?thesis by auto
    next
      case False
      with ClkNegEdgeCallBack_other[OF False] clock_edge show ?thesis by simp
    qed
  next
    case (reg_edited s row sim new_text s')
    have "row < length (sim_regs s)" "windows_ok s" using reg_edited by (simp_all add: debugger_ok_def windows_ok_def reg_view_def)
    from RegValueEdited_effect[OF this(2,1) reg_edited(3)] more_fields[of s' s] reg_edited(4) show ?case by simp
  next
    case (mem_edited s row column sim new_text s')
    have "row < LDM_SIZE div 8" "windows_ok s"
      using mem_edited by (simp_all add: debugger_ok_def windows_ok_def mem_view_def mem_rows_def)
    from MemValueEdited_effect[OF this(2,1) mem_edited(3,4,5)] more_fields[of s' s] mem_edited(6) show ?case by simp
  qed (simp_all add: StepButtonCallBack_def StopButtonCallBack_def RunButtonCallBack_def gui_quit_def signal_simulator_def
      Source_RowActivated_def Let_def)
qed (use start_ok in simp)

text \<open>What a button leaves of the design and the breakpoints.\<close>

lemma button_keeps:
  assumes "f \<in> {StepButtonCallBack, StopButtonCallBack, RunButtonCallBack x, gui_quit}"
  shows "complete sim (f s) = complete sim s" "at_breakpoint sim (f s) = at_breakpoint sim s" "current_cycles (f s) = current_cycles s"
    "debugger_ok (f s) = debugger_ok s"
proof -
  have "sim_regs (f s) = sim_regs s \<and> mem_vpi_handle (f s) = mem_vpi_handle s \<and> source_lines (f s) = source_lines s \<and>
    current_cycles (f s) = current_cycles s \<and> debugger_ok (f s) = debugger_ok s"
    using assms by (elim insertE emptyE)
      (simp_all add: StepButtonCallBack_def StopButtonCallBack_def RunButtonCallBack_def gui_quit_def signal_simulator_def)
  then show "complete sim (f s) = complete sim s" "at_breakpoint sim (f s) = at_breakpoint sim s"
    "current_cycles (f s) = current_cycles s" "debugger_ok (f s) = debugger_ok s"
    by (simp_all add: complete_def at_breakpoint_def marked_def)
qed

lemma button_status:
  "sim_status s \<noteq> Exited \<Longrightarrow> sim_status (StepButtonCallBack s) = Running"
  "sim_status s \<noteq> Exited \<Longrightarrow> sim_status (RunButtonCallBack x s) = Running"
  "sim_status s \<noteq> Exited \<Longrightarrow> sim_status (gui_quit s) = Running"
  "sim_status (StopButtonCallBack s) = sim_status s"
  by (cases "sim_status s"; simp add: StepButtonCallBack_def RunButtonCallBack_def gui_quit_def StopButtonCallBack_def signal_simulator_def)+

lemma button_mode:
  "sim_sync_mode (StepButtonCallBack s) = SYNC_MODE_STEP" "sim_sync_mode (RunButtonCallBack x s) = SYNC_MODE_RUN"
  "sim_sync_mode (gui_quit s) = SYNC_MODE_QUIT" "sim_sync_mode (StopButtonCallBack s) = SYNC_MODE_STOP"
  "sim_cycles_left (RunButtonCallBack x s) = (case x of Some n \<Rightarrow> n | None \<Rightarrow> 0)"
  by (simp_all add: StepButtonCallBack_def RunButtonCallBack_def gui_quit_def StopButtonCallBack_def signal_simulator_def)

text \<open>The edge after a button that does not run.\<close>

lemma edge_after_button:
  assumes "reachable (f s)" "f \<in> {StepButtonCallBack, StopButtonCallBack, gui_quit}" "sim_status (f s) = Running" "complete sim s"
    and "current_cycles s + 1 < 2 ^ 31"
  shows "status_after visible [sim] (f s) (if sim_sync_mode (f s) = SYNC_MODE_QUIT then Exited else Waiting)"
proof -
  have f: "f \<in> {StepButtonCallBack, StopButtonCallBack, RunButtonCallBack None, gui_quit}" using assms(2) by blast
  note k = button_keeps[OF f]
  have "sim_sync_mode (f s) \<noteq> SYNC_MODE_RUN" using assms(2) by (auto simp: button_mode)
  moreover have "- (2 ^ 31) < sim_cycles_left (f s)" using cycles_left_bound[OF assms(1)] assms(5) unfolding k(3) by linarith
  ultimately show ?thesis
    using reachable_ok[OF assms(1)] assms(3,4,5) k by (intro status_after_edge) simp_all
qed

text \<open>C39: the buttons and the windows control the simulation as their labels say.  From every reachable state,
  Step lets it go on to the next edge; Stop makes it wait at the next edge; Run lets it go on through every
  edge before one at a breakpoint, where it waits; Run for, with any value of the spin button, lets it go on
  until that many edges are over or a breakpoint is reached; and closing any of the windows ends it at the
  next edge.\<close>

theorem buttons_control_simulation:
  assumes "reachable s" "sim_status s \<noteq> Exited" "ws = gui_windows asm_path lineno_path"
    and "(lo, hi) \<in> set (concat (map spin_ranges ws))" "lo \<le> int n" "int n \<le> hi"
    and "length sims = n" "\<forall>sim\<in>set sims. complete sim s" "current_cycles s + int n < 2 ^ 31"
  shows "(\<exists>t. user_does ws sim (int n) (Clicked ''Step'') s = Good t \<and> reachable t \<and>
        sim_status t = Running \<and> status_after visible [hd sims] t Waiting) \<and>
    (\<exists>t. user_does ws sim (int n) (Clicked ''Stop'') s = Good t \<and> reachable t \<and>
        sim_status t = sim_status s \<and> (sim_status s = Running \<longrightarrow> status_after visible [hd sims] t Waiting)) \<and>
    (\<exists>t. user_does ws sim (int n) (Clicked ''Run'') s = Good t \<and> reachable t \<and> sim_status t = Running \<and>
        (\<forall>k<n. (\<forall>j<k. \<not> at_breakpoint (sims ! j) s) \<longrightarrow>
           status_after visible (take (Suc k) sims) t (if at_breakpoint (sims ! k) s then Waiting else Running))) \<and>
    (\<exists>t. user_does ws sim (int n) (Clicked ''Run for'') s = Good t \<and> reachable t \<and> sim_status t = Running \<and>
        (\<exists>k. 1 \<le> k \<and> k \<le> n \<and> status_after visible (take k sims) t Waiting \<and>
           (\<forall>j<k. status_after visible (take j sims) t Running) \<and> (k = n \<or> at_breakpoint (sims ! (k - 1)) s))) \<and>
    (\<forall>title sz h w. Window title sz h w \<in> set ws \<longrightarrow>
      (\<exists>t. user_does ws sim (int n) (Closed title) s = Good t \<and> reachable t \<and>
        sim_status t = Running \<and> status_after visible [hd sims] t Exited))"
proof -
  have n: "1 \<le> n" "int n \<le> 1000000" using assms(4-6) user_events(6) unfolding assms(3) by auto
  then obtain sim1 sims' where sims: "sims = sim1 # sims'" using assms(7) by (cases sims) auto
  have e: "complete (hd sims) s" "current_cycles s + 1 < 2 ^ 31" using assms(8,9) n(1) by (simp_all add: sims)
  note step = reachable.step[OF assms(1)]
  have r: "reachable (StepButtonCallBack s)" "reachable (StopButtonCallBack s)" "reachable (RunButtonCallBack None s)"
    "reachable (RunButtonCallBack (Some (int n)) s)" "reachable (gui_quit s)"
    using step[OF step_clicked] step[OF stop_clicked] step[OF run_clicked] step[OF run_for_clicked] step[OF quit] assms(2) n
    by simp_all
  note go = button_status(1-3)[OF assms(2)] and u = user_events[where a = asm_path and l = lineno_path, folded assms(3)]
  have 1: "status_after visible [hd sims] (StepButtonCallBack s) Waiting"
    using edge_after_button[of StepButtonCallBack, OF r(1) _ go(1) e] by (simp add: button_mode)
  have 2: "status_after visible [hd sims] (StopButtonCallBack s) Waiting" if "sim_status s = Running"
    using edge_after_button[of StopButtonCallBack, OF r(2) _ _ e] that by (simp add: button_mode button_status)
  have 5: "status_after visible [hd sims] (gui_quit s) Exited"
    using edge_after_button[of gui_quit, OF r(5) _ go(3) e] by (simp add: button_mode)
  have k: "RunButtonCallBack None \<in> {StepButtonCallBack, StopButtonCallBack, RunButtonCallBack None, gui_quit}" by simp
  have 3: "status_after visible (take (Suc k) sims) (RunButtonCallBack None s) (if at_breakpoint (sims ! k) s then Waiting else Running)"
    if "k < n" "\<forall>j<k. \<not> at_breakpoint (sims ! j) s" for k
  proof -
    note b = button_keeps[OF k]
    show ?thesis
      using run_goes_on[OF reachable_ok[OF r(3)] go(2), of sims k visible] assms(7-9) n that by (simp add: b button_mode)
  qed
  have "RunButtonCallBack (Some (int n)) \<in> {StepButtonCallBack, StopButtonCallBack, RunButtonCallBack (Some (int n)), gui_quit}" by simp
  note b = button_keeps[OF this]
  have "sims \<noteq> []" by (simp add: sims)
  with run_for_edges[OF reachable_ok[OF r(4)] go(2), of sims visible] assms(7-9)
  have 4: "\<exists>k. 1 \<le> k \<and> k \<le> n \<and> status_after visible (take k sims) (RunButtonCallBack (Some (int n)) s) Waiting \<and>
      (\<forall>j<k. status_after visible (take j sims) (RunButtonCallBack (Some (int n)) s) Running) \<and> (k = n \<or> at_breakpoint (sims ! (k - 1)) s)"
    by (simp add: b button_mode status_after_def) blast
  show ?thesis
    using u(5) r go 1 2 3 4 5 by (simp add: u(1-4) button_status(4))
qed

theorem buttons_control_simulation_witness:
  "\<exists>s t u. reachable s \<and> user_does (gui_windows None None) zero_design 3 (Clicked ''Step'') s = Good t \<and>
    status_after (\<lambda>_ _. True) [zero_design] t Waiting \<and>
    user_does (gui_windows None None) zero_design 3 (Closed ''Memory'') s = Good u \<and> status_after (\<lambda>_ _. True) [zero_design] u Exited"
proof -
  obtain s where s: "start_debugger (\<lambda>_. None) None None zero_design = Good s" "complete zero_design s" "reachable s"
    by (rule started)
  note i = start_ok[OF s(1)]
  have c: "\<forall>x\<in>set (replicate 3 zero_design). complete x s" using s(2) by simp
  have r: "(1, 1000000) \<in> set (concat (map spin_ranges (gui_windows None None)))" by (simp add: user_events(6))
  have m: "Window ''Memory'' (Some (320, 200)) H_pre_quit (Scrolled CreateMemoryViewAndModel) \<in> set (gui_windows None None)"
    by (simp add: gui_windows_def MemWindow_def)
  have x: "sim_status s \<noteq> Exited" "current_cycles s + int 3 < 2 ^ 31" using i by simp_all
  have l: "1 \<le> int 3" "int 3 \<le> 1000000" "length (replicate 3 zero_design) = 3" by simp_all
  from buttons_control_simulation[OF s(3) x(1) refl r l c x(2), of zero_design "\<lambda>_ _. True"] m s(3)
  show ?thesis by (simp add: numeral_3_eq_3) blast
qed

section \<open>Geometry\<close>

record geometry =
  geo_x :: i32
  geo_y :: i32
  geo_w :: i32
  geo_h :: i32

text \<open>The source window need not exist.\<close>

record windows =
  ctrl_geometry :: geometry
  source_geometry :: "geometry option"
  reg_geometry :: geometry
  mem_geometry :: geometry

definition dot_ajardsp_simdebug_file_path :: "string option \<Rightarrow> (string, unit) outcome" where
  "dot_ajardsp_simdebug_file_path home =
     (case home of
        None \<Rightarrow> Undef
      | Some d \<Rightarrow> let p = d @ ''/.ajardsp-simdebug'' in if 64 \<le> length p then Undef else Good p)"

definition geometry_line :: "geometry \<Rightarrow> string" where
  "geometry_line g = fmt_d (geo_x g) @ '','' @ fmt_d (geo_y g) @ '','' @ fmt_d (geo_w g) @ '','' @ fmt_d (geo_h g) @ [newline]"

text \<open>For a window that does not exist GTK leaves the variables as they are.\<close>

definition PreQuitCallBack :: "windows \<Rightarrow> string" where
  "PreQuitCallBack ws =
     geometry_line (ctrl_geometry ws) @
     geometry_line (case source_geometry ws of Some g \<Rightarrow> g | None \<Rightarrow> ctrl_geometry ws) @
     geometry_line (reg_geometry ws) @ geometry_line (mem_geometry ws)"

text \<open>The numbers of \<open>%d,%d,%d,%d\n\<close> up to the first directive that fails.\<close>

fun scan_numbers :: "nat \<Rightarrow> stream \<Rightarrow> int list \<times> stream" where
  "scan_numbers 0 f = ([], scan_space f)"
| "scan_numbers (Suc n) f =
     (case scan_d f of
        (None, f) \<Rightarrow> ([], f)
      | (Some v, f) \<Rightarrow>
          if n = 0 then ([v], scan_space f)
          else
            (case scan_char (CHR '','') f of
               (False, f) \<Rightarrow> ([v], f)
             | (True, f) \<Rightarrow> (let (vs, f) = scan_numbers n f in (v # vs, f))))"

text \<open>
  The variables \<open>x\<close>, \<open>y\<close>, \<open>w\<close> and \<open>h\<close>: the prefix of them that is set.  A window is moved, and resized when
  both sizes are positive.
\<close>

definition read_geometry :: "stream \<times> int list \<Rightarrow> (geometry \<times> stream \<times> int list, unit) outcome" where
  "read_geometry st =
     (let (vs, f) = scan_numbers 4 (fst st); vars = vs @ drop (length vs) (snd st) in
      case vars of
        [x, y, w, h] \<Rightarrow>
          Good (\<lparr>geo_x = word_of_int x, geo_y = word_of_int y, geo_w = word_of_int w, geo_h = word_of_int h\<rparr>, f, vars)
      | _ \<Rightarrow> Undef)"

definition move_window :: "geometry \<Rightarrow> geometry \<Rightarrow> geometry" where
  "move_window g old =
     (if 0 < sint (geo_w g) \<and> 0 < sint (geo_h g) then g else old\<lparr>geo_x := geo_x g, geo_y := geo_y g\<rparr>)"

definition restore_geometry :: "string \<Rightarrow> windows \<Rightarrow> (windows, unit) outcome" where
  "restore_geometry content ws =
     obind (read_geometry ((content, False), [])) (\<lambda>(g1, st1).
     obind (read_geometry st1) (\<lambda>(g2, st2).
     obind (read_geometry st2) (\<lambda>(g3, st3).
     obind (read_geometry st3) (\<lambda>(g4, _).
       Good \<lparr>ctrl_geometry = move_window g1 (ctrl_geometry ws), source_geometry = map_option (move_window g2) (source_geometry ws),
             reg_geometry = move_window g3 (reg_geometry ws), mem_geometry = move_window g4 (mem_geometry ws)\<rparr>))))"

definition window_size_ok :: "geometry \<Rightarrow> bool" where
  "window_size_ok g \<longleftrightarrow> 0 < sint (geo_w g) \<and> 0 < sint (geo_h g)"

lemma scan_d_comma: "scan_d (fmt_d v @ CHR '','' # r, False) = (Some (sint v), (CHR '','' # r, False))"
  using fmt_d_scan[of "CHR '','' # r" v] by (simp add: c_isdigit_def)

lemma scan_d_newline: "scan_d (fmt_d v @ newline # r, False) = (Some (sint v), (newline # r, False))"
  using fmt_d_scan[of "newline # r" v] by (simp add: c_isdigit_def newline_def)

lemma scan_geometry_line:
  assumes "r = [] \<or> \<not> c_isspace (hd r)"
  shows "scan_numbers 4 (geometry_line g @ r, False) =
    ([sint (geo_x g), sint (geo_y g), sint (geo_w g), sint (geo_h g)], (r, r = []))"
proof -
  have "dropWhile c_isspace (newline # r) = r" using assms by (cases r) simp_all
  then have s: "scan_space (newline # r, False) = (r, r = [])" by (simp add: scan_space_def Let_def)
  show ?thesis
    by (simp add: eval_nat_numeral geometry_line_def scan_d_comma scan_d_newline scan_char_def s)
qed

lemma read_geometry_line:
  assumes "r = [] \<or> \<not> c_isspace (hd r)" "length vs \<le> 4"
  shows "\<exists>vars. read_geometry ((geometry_line g @ r, False), vs) = Good (g, (r, r = []), vars) \<and> length vars \<le> 4"
  using scan_geometry_line[OF assms(1), of g] assms(2) by (simp add: read_geometry_def)

lemma geometry_line_start: "geometry_line g \<noteq> []" "\<not> c_isspace (hd (geometry_line g))"
proof -
  define n where "n = nat \<bar>sint (geo_x g)\<bar>"
  obtain c cs where "digits_in 10 n = c # cs" "c_isdigit c" using digits_10[of n] by (cases "digits_in 10 n") auto
  then have "\<exists>c r. geometry_line g = c # r \<and> \<not> c_isspace c"
    by (auto simp: geometry_line_def fmt_d_def n_def[symmetric] c_isdigit_def c_isspace_def)
  then show "geometry_line g \<noteq> []" "\<not> c_isspace (hd (geometry_line g))" by auto
qed

lemma geometry_lines_read:
  assumes "length vs \<le> 4"
  shows "\<exists>vars. read_geometry ((geometry_line g @ geometry_line g' @ r, False), vs) =
    Good (g, (geometry_line g' @ r, False), vars) \<and> length vars \<le> 4"
  using read_geometry_line[of "geometry_line g' @ r" vs g] geometry_line_start[of g'] assms by (simp add: hd_append)

text \<open>What reading back does to the windows of another session.\<close>

lemma restore_written:
  assumes "window_size_ok (ctrl_geometry ws)" "window_size_ok (reg_geometry ws)" "window_size_ok (mem_geometry ws)"
    and "\<forall>g. source_geometry ws = Some g \<longrightarrow> window_size_ok g"
  shows "restore_geometry (PreQuitCallBack ws) ws' =
    Good (ws\<lparr>source_geometry := map_option (\<lambda>_. case source_geometry ws of Some g \<Rightarrow> g | None \<Rightarrow> ctrl_geometry ws) (source_geometry ws')\<rparr>)"
proof -
  define g2 where "g2 = (case source_geometry ws of Some g \<Rightarrow> g | None \<Rightarrow> ctrl_geometry ws)"
  have g2: "window_size_ok g2" using assms(1,4) by (simp add: g2_def split: option.split)
  obtain v1 where 1: "read_geometry ((PreQuitCallBack ws, False), []) =
      Good (ctrl_geometry ws, (geometry_line g2 @ geometry_line (reg_geometry ws) @ geometry_line (mem_geometry ws), False), v1)" "length v1 \<le> 4"
    unfolding PreQuitCallBack_def g2_def[symmetric]
    using geometry_lines_read[of "[]" "ctrl_geometry ws" g2 "geometry_line (reg_geometry ws) @ geometry_line (mem_geometry ws)"]
    by (metis le0 list.size(3))
  obtain v2 where 2: "read_geometry ((geometry_line g2 @ geometry_line (reg_geometry ws) @ geometry_line (mem_geometry ws), False), v1) =
      Good (g2, (geometry_line (reg_geometry ws) @ geometry_line (mem_geometry ws), False), v2)" "length v2 \<le> 4"
    using geometry_lines_read[OF 1(2)] by blast
  obtain v3 where 3: "read_geometry ((geometry_line (reg_geometry ws) @ geometry_line (mem_geometry ws), False), v2) =
      Good (reg_geometry ws, (geometry_line (mem_geometry ws), False), v3)" "length v3 \<le> 4"
    using geometry_lines_read[OF 2(2), where r = "[]", unfolded append_Nil2] by blast
  obtain v4 where 4: "read_geometry ((geometry_line (mem_geometry ws), False), v3) = Good (mem_geometry ws, ([], True), v4)"
    using read_geometry_line[of "[]", OF _ 3(2)] by auto
  have m: "window_size_ok g \<Longrightarrow> move_window g h = g" for g h by (simp add: window_size_ok_def move_window_def)
  have "map_option (move_window g2) x = map_option (\<lambda>_. g2) x" for x by (simp add: m[OF g2] cong: map_option_cong)
  then show ?thesis by (simp add: restore_geometry_def 1(1) 2(1) 3(1) 4 m assms g2_def[symmetric])
qed

text \<open>C40: the windows of the next session come to where those of the last one were: whatever their positions and
  sizes are, reading back what was written when the debugger was left gives them the old ones.  The sizes are
  positive, and both sessions have a source window or neither has.\<close>

theorem geometry_roundtrip:
  assumes "window_size_ok (ctrl_geometry ws)" "window_size_ok (reg_geometry ws)" "window_size_ok (mem_geometry ws)"
    and "\<forall>g. source_geometry ws = Some g \<longrightarrow> window_size_ok g"
    and "source_geometry ws' = None \<longleftrightarrow> source_geometry ws = None"
  shows "restore_geometry (PreQuitCallBack ws) ws' = Good ws"
proof -
  have "map_option (\<lambda>_. case source_geometry ws of Some g \<Rightarrow> g | None \<Rightarrow> ctrl_geometry ws) (source_geometry ws') = source_geometry ws"
    using assms(5) by (cases "source_geometry ws"; cases "source_geometry ws'") simp_all
  then show ?thesis using restore_written[OF assms(1-4), of ws'] by simp
qed

theorem geometry_roundtrip_witness:
  "restore_geometry (PreQuitCallBack \<lparr>ctrl_geometry = \<lparr>geo_x = - 5, geo_y = 20, geo_w = 300, geo_h = 200\<rparr>,
      source_geometry = Some \<lparr>geo_x = 7, geo_y = 8, geo_w = 320, geo_h = 600\<rparr>,
      reg_geometry = \<lparr>geo_x = 0, geo_y = 0, geo_w = 100, geo_h = 400\<rparr>, mem_geometry = \<lparr>geo_x = 9, geo_y = 9, geo_w = 320, geo_h = 200\<rparr>\<rparr>)
    \<lparr>ctrl_geometry = \<lparr>geo_x = 0, geo_y = 0, geo_w = 1, geo_h = 1\<rparr>, source_geometry = Some \<lparr>geo_x = 0, geo_y = 0, geo_w = 2, geo_h = 2\<rparr>,
      reg_geometry = \<lparr>geo_x = 0, geo_y = 0, geo_w = 3, geo_h = 3\<rparr>, mem_geometry = \<lparr>geo_x = 0, geo_y = 0, geo_w = 4, geo_h = 4\<rparr>\<rparr> =
   Good \<lparr>ctrl_geometry = \<lparr>geo_x = - 5, geo_y = 20, geo_w = 300, geo_h = 200\<rparr>,
      source_geometry = Some \<lparr>geo_x = 7, geo_y = 8, geo_w = 320, geo_h = 600\<rparr>,
      reg_geometry = \<lparr>geo_x = 0, geo_y = 0, geo_w = 100, geo_h = 400\<rparr>, mem_geometry = \<lparr>geo_x = 9, geo_y = 9, geo_w = 320, geo_h = 200\<rparr>\<rparr>"
  by (rule geometry_roundtrip) (simp_all add: window_size_ok_def)

text \<open>A session without a source window leaves the geometry of the control window for it.\<close>

lemma missing_window_gets_ctrl:
  assumes "window_size_ok (ctrl_geometry ws)" "window_size_ok (reg_geometry ws)" "window_size_ok (mem_geometry ws)" "source_geometry ws = None"
  shows "restore_geometry (PreQuitCallBack ws) (ws\<lparr>source_geometry := Some g\<rparr>) = Good (ws\<lparr>source_geometry := Some (ctrl_geometry ws)\<rparr>)"
  using restore_written[OF assms(1-3), of "ws\<lparr>source_geometry := Some g\<rparr>"] assms(4) by simp

section \<open>The routines of the simulator interface\<close>

datatype vpi_reason = CbError | CbStartOfSimulation
datatype vpi_routine = My_error_handler | Start_of_simulation
datatype vpi_state = VpiCompile | VpiPLI | VpiRun | Vpi_other_state
datatype vpi_level = VpiNotice | VpiWarning | VpiError | VpiSystem | VpiInternal

record vpi_error =
  err_state :: vpi_state
  err_level :: vpi_level
  err_level_number :: i32
  err_code :: string
  err_file :: string
  err_line :: i32
  err_message :: string

text \<open>The text printed, and whether the simulation is ended.\<close>

definition my_error_handler :: "vpi_error \<Rightarrow> string \<times> bool" where
  "my_error_handler e =
     (let s1 = (case err_state e of VpiCompile \<Rightarrow> ''vpiCompile'' | VpiPLI \<Rightarrow> ''vpiPLI'' | VpiRun \<Rightarrow> ''vpiRun''
                | Vpi_other_state \<Rightarrow> ''**unknown**'');
          serious = (err_level e \<in> {VpiError, VpiSystem, VpiInternal})
      in (''**ERR('' @ err_code e @ '') '' @ s1 @ '' (level '' @ fmt_d (err_level_number e) @ '') at **'' @ err_file e @
          ''('' @ fmt_d (err_line e) @ ''):'' @ [newline] @ ''  '' @ err_message e @ [newline] @
          (if serious then ''**FATAL: encountered error - giving up'' @ [newline] else []),
          serious))"

text \<open>The registrations that succeed and the messages for those that do not.\<close>

definition vpi_bootstrap :: "(vpi_reason \<Rightarrow> bool) \<Rightarrow> (vpi_reason \<times> vpi_routine) list \<times> string" where
  "vpi_bootstrap registered =
     (let (cbs1, out1) =
            (if registered CbError then ([(CbError, My_error_handler)], [])
             else ([], ''**ERR: PLI 2.0 can not register error handler callback.'' @ [newline]));
          (cbs2, out2) =
            (if registered CbStartOfSimulation then ([(CbStartOfSimulation, Start_of_simulation)], [])
             else ([], ''**ERR: PLI 2.0 can not register start of sim setup callback.'' @ [newline]))
      in (cbs1 @ cbs2, out1 @ out2))"

text \<open>Only serious errors end the simulation, and the debugger starts unless its callback is refused.\<close>

lemma error_handler_finishes: "snd (my_error_handler e) \<longleftrightarrow> err_level e \<notin> {VpiNotice, VpiWarning}"
  by (cases "err_level e") (simp_all add: my_error_handler_def)

lemma bootstrap_starts: "(CbStartOfSimulation, Start_of_simulation) \<in> set (fst (vpi_bootstrap registered)) \<longleftrightarrow> registered CbStartOfSimulation"
  by (simp add: vpi_bootstrap_def)

end
