(* ===== verification/AsmScan.thy ===== *)
theory AsmScan
  imports Target
begin

text \<open>
  The scanner \<open>asm.l\<close>.  A rule is a constructor of \<open>rule\<close>; \<open>rules\<close> lists them in the order of the file, and
  the scanner takes the longest match, the first rule of those that match as much.  The generated loop
  around the rules is that of flex: text that no rule matches is copied to the output character by
  character (kept in \<open>sc_echo\<close>), and at the end of the file the start condition stays as it is.

  The text has no NUL characters.
\<close>

section \<open>State\<close>

datatype start_cond = INITIAL | COMMENT | CODE | DATA
datatype section_state = St_initial | St_code | St_data | St_comment
datatype lookfor_state = code_sections | data_sections

record scanner =
  sc_rest :: string
  sc_bol :: bool
  sc_start :: start_cond
  sc_current :: section_state
  sc_last :: section_state
  sc_lineno :: i32
  sc_echo :: string

datatype token =
    TOK_PIPE | TOK_COMMA | TOK_PAR_OPEN | TOK_PAR_CLOSE | TOK_IF | TOK_NOT | TOK_ALIGN
  | TOK_REGISTER string | TOK_SYMBOL_REF string | TOK_INTEGER i32 | TOK_MNEMONIC string i32 | TOK_LABEL string
  | TOK_DATA_DWORD | TOK_DATA_WORD | TOK_DATA_SKIP
  | TOK_DATA_INTEGER i32 | TOK_DATA_SYMBOL_REF string | TOK_DATA_LABEL string

section \<open>Patterns\<close>

definition is_lower :: "char \<Rightarrow> bool" where
  "is_lower c \<longleftrightarrow> 97 \<le> (of_char c :: nat) \<and> (of_char c :: nat) \<le> 122"

definition reg_char :: "char \<Rightarrow> bool" where
  "reg_char c \<longleftrightarrow> is_lower c \<or> c_isdigit c"

definition mnemonic_char :: "char \<Rightarrow> bool" where
  "mnemonic_char c \<longleftrightarrow> is_lower c \<or> c_isdigit c \<or> c = CHR ''.'' \<or> c = CHR ''_''"

definition symbol_char :: "char \<Rightarrow> bool" where
  "symbol_char c \<longleftrightarrow> mnemonic_char c \<or> 65 \<le> (of_char c :: nat) \<and> (of_char c :: nat) \<le> 90"

text \<open>The length of the match of a pattern at the start of the text; 0 when it does not match.\<close>

fun starts :: "string \<Rightarrow> string \<Rightarrow> bool" where
  "starts [] s = True"
| "starts (c # l) [] = False"
| "starts (c # l) (d # s) = (c = d \<and> starts l s)"

definition m_lit :: "string \<Rightarrow> string \<Rightarrow> nat" where
  "m_lit l s = (if starts l s then length l else 0)"

definition span :: "(char \<Rightarrow> bool) \<Rightarrow> string \<Rightarrow> nat" where
  "span p s = length (takeWhile p s)"

text \<open>A character followed by one or more of a class.\<close>

definition m_prefixed :: "char \<Rightarrow> (char \<Rightarrow> bool) \<Rightarrow> string \<Rightarrow> nat" where
  "m_prefixed c p s =
     (case s of d # r \<Rightarrow> if d = c \<and> 0 < span p r then 1 + span p r else 0 | [] \<Rightarrow> 0)"

definition m_mnemonic :: "string \<Rightarrow> nat" where
  "m_mnemonic s = (case s of c # r \<Rightarrow> if is_lower c then 1 + span mnemonic_char r else 0 | [] \<Rightarrow> 0)"

definition m_digits :: "string \<Rightarrow> nat" where
  "m_digits s =
     (if starts ''0x'' s \<and> 0 < span c_isxdigit (drop 2 s) then 2 + span c_isxdigit (drop 2 s)
      else span c_isdigit s)"

definition m_integer :: "string \<Rightarrow> nat" where
  "m_integer s =
     (case s of
        c # r \<Rightarrow> if c = CHR ''-'' then (if 0 < m_digits r then 1 + m_digits r else 0) else m_digits s
      | [] \<Rightarrow> 0)"

text \<open>\<open>^[._0-9a-zA-Z]+":"\<close>, only at the beginning of a line.\<close>

definition m_label :: "bool \<Rightarrow> string \<Rightarrow> nat" where
  "m_label bol s =
     (let n = span symbol_char s in if bol \<and> 0 < n \<and> starts '':'' (drop n s) then n + 1 else 0)"

text \<open>\<open>";#".*$\<close>: the newline after it is part of the match, but not of the text of the token.\<close>

definition m_line_comment :: "string \<Rightarrow> nat" where
  "m_line_comment s =
     (let n = span (\<lambda>c. c \<noteq> newline) s in if starts '';#'' s \<and> n < length s then n + 1 else 0)"

section \<open>Rules\<close>

datatype rule =
    R_code | R_data | R_line_comment | R_open_comment | R_comment_char | R_comment_newline | R_close_comment
  | R_pipe | R_comma | R_par_open | R_par_close | R_if | R_not | R_align
  | R_register | R_symbol_ref | R_integer | R_mnemonic | R_label
  | R_data_dword | R_data_word | R_data_skip | R_data_integer | R_data_symbol_ref | R_data_label
  | R_blank | R_newline | R_echo

definition rules :: "rule list" where
  "rules =
     [R_code, R_data, R_line_comment, R_open_comment, R_comment_char, R_comment_newline, R_close_comment,
      R_pipe, R_comma, R_par_open, R_par_close, R_if, R_not, R_align,
      R_register, R_symbol_ref, R_integer, R_mnemonic, R_label,
      R_data_dword, R_data_word, R_data_skip, R_data_integer, R_data_symbol_ref, R_data_label,
      R_blank, R_newline, R_echo]"

text \<open>A rule without a start condition is active in all but the exclusive one.\<close>

definition rule_cond :: "rule \<Rightarrow> start_cond option" where
  "rule_cond r =
     (if r \<in> {R_comment_char, R_comment_newline, R_close_comment} then Some COMMENT
      else if r \<in> {R_pipe, R_comma, R_par_open, R_par_close, R_if, R_not, R_align,
                   R_register, R_symbol_ref, R_integer, R_mnemonic, R_label} then Some CODE
      else if r \<in> {R_data_dword, R_data_word, R_data_skip, R_data_integer, R_data_symbol_ref, R_data_label}
      then Some DATA else None)"

definition active :: "start_cond \<Rightarrow> rule \<Rightarrow> bool" where
  "active sc r = (case rule_cond r of Some c \<Rightarrow> c = sc | None \<Rightarrow> sc \<noteq> COMMENT \<or> r = R_echo)"

primrec rule_match :: "bool \<Rightarrow> string \<Rightarrow> rule \<Rightarrow> nat" where
  "rule_match bol s R_code = m_lit ''.code'' s"
| "rule_match bol s R_data = m_lit ''.data'' s"
| "rule_match bol s R_line_comment = m_line_comment s"
| "rule_match bol s R_open_comment = m_lit ''/*'' s"
| "rule_match bol s R_comment_char = (if s \<noteq> [] \<and> hd s \<noteq> newline then 1 else 0)"
| "rule_match bol s R_comment_newline = m_lit [newline] s"
| "rule_match bol s R_close_comment = m_lit ''*/'' s"
| "rule_match bol s R_pipe = m_lit ''|'' s"
| "rule_match bol s R_comma = m_lit '','' s"
| "rule_match bol s R_par_open = m_lit ''('' s"
| "rule_match bol s R_par_close = m_lit '')'' s"
| "rule_match bol s R_if = m_lit ''if'' s"
| "rule_match bol s R_not = m_lit ''!'' s"
| "rule_match bol s R_align = m_lit ''.align'' s"
| "rule_match bol s R_register = m_prefixed (CHR ''$'') reg_char s"
| "rule_match bol s R_symbol_ref = m_prefixed (CHR ''#'') symbol_char s"
| "rule_match bol s R_integer = m_integer s"
| "rule_match bol s R_mnemonic = m_mnemonic s"
| "rule_match bol s R_label = m_label bol s"
| "rule_match bol s R_data_dword = m_lit ''.dword'' s"
| "rule_match bol s R_data_word = m_lit ''.word'' s"
| "rule_match bol s R_data_skip = m_lit ''.skip'' s"
| "rule_match bol s R_data_integer = m_integer s"
| "rule_match bol s R_data_symbol_ref = m_prefixed (CHR ''#'') symbol_char s"
| "rule_match bol s R_data_label = m_label bol s"
| "rule_match bol s R_blank = (if s \<noteq> [] \<and> hd s \<in> {CHR '' '', tab_char} then 1 else 0)"
| "rule_match bol s R_newline = m_lit [newline] s"
| "rule_match bol s R_echo = (if s \<noteq> [] then 1 else 0)"

fun longest :: "(rule \<Rightarrow> nat) \<Rightarrow> rule list \<Rightarrow> rule \<times> nat \<Rightarrow> rule \<times> nat" where
  "longest len [] best = best"
| "longest len (r # rs) best = longest len rs (if snd best < len r then (r, len r) else best)"

definition next_rule :: "start_cond \<Rightarrow> bool \<Rightarrow> string \<Rightarrow> rule \<times> nat" where
  "next_rule sc bol s =
     (case longest (rule_match bol s) (filter (active sc) rules) (R_echo, 0) of
        (r, n) \<Rightarrow> (r, if r = R_line_comment then n - 1 else n))"

section \<open>Actions\<close>

text \<open>\<open>strtol(yytext, NULL, 0)\<close>, saturating at the bounds of a 64-bit \<open>long\<close> and then cut to an \<open>int\<close>.\<close>

definition number_value :: "string \<Rightarrow> nat" where
  "number_value s =
     (if starts ''0x'' s then strtoul_magnitude 16 (drop 2 s)
      else if starts ''0'' s then strtoul_magnitude 8 s else strtoul_magnitude 10 s)"

definition strtol :: "string \<Rightarrow> i32" where
  "strtol s =
     (if starts ''-'' s then word_of_int (max (- (2 ^ 63)) (- int (number_value (drop 1 s))))
      else word_of_int (min (2 ^ 63 - 1) (int (number_value s))))"

definition begin_section :: "section_state \<Rightarrow> start_cond \<Rightarrow> scanner \<Rightarrow> scanner" where
  "begin_section current c st =
     st\<lparr>sc_last := sc_current st, sc_current := current, sc_start := c\<rparr>"

text \<open>The end of a comment; \<^term>\<open>Fail ()\<close> is the failing assertion.\<close>

definition end_comment :: "scanner \<Rightarrow> (scanner, unit) outcome" where
  "end_comment st =
     (let st = st\<lparr>sc_current := sc_last st\<rparr> in
      case sc_last st of
        St_initial \<Rightarrow> Good (st\<lparr>sc_start := INITIAL\<rparr>)
      | St_code \<Rightarrow> Good (st\<lparr>sc_start := CODE\<rparr>)
      | St_data \<Rightarrow> Good (st\<lparr>sc_start := DATA\<rparr>)
      | St_comment \<Rightarrow> Fail ())"

text \<open>The token of a rule that returns one.\<close>

primrec rule_token :: "string \<Rightarrow> i32 \<Rightarrow> rule \<Rightarrow> (lookfor_state \<times> token) option" where
  "rule_token yytext n R_pipe = Some (code_sections, TOK_PIPE)"
| "rule_token yytext n R_comma = Some (code_sections, TOK_COMMA)"
| "rule_token yytext n R_par_open = Some (code_sections, TOK_PAR_OPEN)"
| "rule_token yytext n R_par_close = Some (code_sections, TOK_PAR_CLOSE)"
| "rule_token yytext n R_if = Some (code_sections, TOK_IF)"
| "rule_token yytext n R_not = Some (code_sections, TOK_NOT)"
| "rule_token yytext n R_align = Some (code_sections, TOK_ALIGN)"
| "rule_token yytext n R_register = Some (code_sections, TOK_REGISTER (tl yytext))"
| "rule_token yytext n R_symbol_ref = Some (code_sections, TOK_SYMBOL_REF (tl yytext))"
| "rule_token yytext n R_integer = Some (code_sections, TOK_INTEGER (strtol yytext))"
| "rule_token yytext n R_mnemonic = Some (code_sections, TOK_MNEMONIC yytext n)"
| "rule_token yytext n R_label = Some (code_sections, TOK_LABEL (butlast yytext))"
| "rule_token yytext n R_data_dword = Some (data_sections, TOK_DATA_DWORD)"
| "rule_token yytext n R_data_word = Some (data_sections, TOK_DATA_WORD)"
| "rule_token yytext n R_data_skip = Some (data_sections, TOK_DATA_SKIP)"
| "rule_token yytext n R_data_integer = Some (data_sections, TOK_DATA_INTEGER (strtol yytext))"
| "rule_token yytext n R_data_symbol_ref = Some (data_sections, TOK_DATA_SYMBOL_REF (tl yytext))"
| "rule_token yytext n R_data_label = Some (data_sections, TOK_DATA_LABEL (butlast yytext))"
| "rule_token yytext n R_code = None"
| "rule_token yytext n R_data = None"
| "rule_token yytext n R_line_comment = None"
| "rule_token yytext n R_open_comment = None"
| "rule_token yytext n R_comment_char = None"
| "rule_token yytext n R_comment_newline = None"
| "rule_token yytext n R_close_comment = None"
| "rule_token yytext n R_blank = None"
| "rule_token yytext n R_newline = None"
| "rule_token yytext n R_echo = None"

definition rule_action :: "rule \<Rightarrow> string \<Rightarrow> scanner \<Rightarrow> (scanner, unit) outcome" where
  "rule_action r yytext st =
     (if r = R_code then Good (begin_section St_code CODE st)
      else if r = R_data then Good (begin_section St_data DATA st)
      else if r = R_open_comment then Good (begin_section St_comment COMMENT st)
      else if r = R_close_comment then end_comment st
      else if r \<in> {R_line_comment, R_comment_newline, R_newline} then Good (st\<lparr>sc_lineno := sc_lineno st + 1\<rparr>)
      else if r = R_echo then Good (st\<lparr>sc_echo := sc_echo st @ yytext\<rparr>)
      else Good st)"

section \<open>The scanner\<close>

text \<open>One match and its action.\<close>

definition scan_step :: "lookfor_state \<Rightarrow> scanner \<Rightarrow> (token option \<times> scanner, unit) outcome" where
  "scan_step lookfor st =
     (case next_rule (sc_start st) (sc_bol st) (sc_rest st) of
        (r, n) \<Rightarrow>
          let yytext = take n (sc_rest st) in
          obind (rule_action r yytext (st\<lparr>sc_rest := drop n (sc_rest st), sc_bol := (last yytext = newline)\<rparr>))
            (\<lambda>st'. Good (case rule_token yytext (sc_lineno st) r of
                           Some (l, t) \<Rightarrow> if lookfor = l then Some t else None
                         | None \<Rightarrow> None, st')))"


section \<open>The loop of the scanner\<close>

lemma longest_ge: "r \<in> set rs \<Longrightarrow> len r \<le> snd (longest len rs b)" "snd b \<le> snd (longest len rs b)"
proof (induction rs arbitrary: b)
  case (Cons x rs)
  {
    case 1
    show ?case using Cons.IH(1)[of "if snd b < len x then (x, len x) else b"]
      Cons.IH(2)[of "if snd b < len x then (x, len x) else b"] 1 by (auto split: if_splits)
  next
    case 2
    show ?case using Cons.IH(2)[of "if snd b < len x then (x, len x) else b"] by (auto split: if_splits)
  }
qed simp_all

lemma longest_len: "snd b = 0 \<or> snd b = len (fst b) \<Longrightarrow> longest len rs b = (r, n) \<Longrightarrow> n = 0 \<or> n = len r"
  by (induction len rs b rule: longest.induct) (auto split: if_splits)

text \<open>Every match has a character.\<close>

lemma next_rule_positive:
  assumes "s \<noteq> []" "next_rule sc bol s = (r, n)"
  shows "0 < n"
proof -
  obtain m where m: "longest (rule_match bol s) (filter (active sc) rules) (R_echo, 0) = (r, m)"
    "n = (if r = R_line_comment then m - 1 else m)"
    using assms(2) by (auto simp: next_rule_def split: prod.splits)
  have "R_echo \<in> set (filter (active sc) rules)" by (cases sc) (simp_all add: rules_def active_def rule_cond_def)
  from longest_ge(1)[OF this, of "rule_match bol s" "(R_echo, 0)"] have "1 \<le> m" using assms(1) m(1) by simp
  moreover have "r = R_line_comment \<Longrightarrow> m \<noteq> 1"
  proof
    assume r: "r = R_line_comment" and "m = 1"
    then have "m_line_comment s = 1" using longest_len[OF _ m(1)] by simp
    then show False by (cases s) (auto simp: m_line_comment_def Let_def span_def newline_def split: if_splits)
  qed
  ultimately show ?thesis using m(2) by auto
qed

lemma rule_action_rest: "rule_action r y st = Good st' \<Longrightarrow> sc_rest st' = sc_rest st"
  by (auto simp: rule_action_def begin_section_def end_comment_def Let_def split: if_splits section_state.splits)

lemma scan_step_shorter:
  assumes "sc_rest st \<noteq> []" "scan_step lookfor st = Good (t, st')"
  shows "length (sc_rest st') < length (sc_rest st)"
proof -
  obtain r n where n: "next_rule (sc_start st) (sc_bol st) (sc_rest st) = (r, n)" by fastforce
  have "sc_rest st' = drop n (sc_rest st)"
    using assms(2) by (auto simp: scan_step_def n Let_def obind_eq_Good dest!: rule_action_rest)
  then show ?thesis using next_rule_positive[OF assms(1) n] assms(1) by simp
qed

function yylex :: "lookfor_state \<Rightarrow> scanner \<Rightarrow> (token option \<times> scanner, unit) outcome" where
  "yylex lookfor st =
     (if sc_rest st = [] then Good (None, st)
      else case scan_step lookfor st of
        Good (Some t, st') \<Rightarrow> Good (Some t, st')
      | Good (None, st') \<Rightarrow> yylex lookfor st'
      | Fail e \<Rightarrow> Fail e
      | Undef \<Rightarrow> Undef)"
  by pat_completeness auto
termination
  by (relation "measure (\<lambda>(l, st). length (sc_rest st))") (auto dest: scan_step_shorter)

declare yylex.simps [simp del]

lemma yylex_shorter: "yylex lookfor st = Good (Some t, st') \<Longrightarrow> length (sc_rest st') < length (sc_rest st)"
proof (induction lookfor st arbitrary: t st' rule: yylex.induct)
  case (1 l st)
  from 1(2) have ne: "sc_rest st \<noteq> []" by (auto simp: yylex.simps split: if_splits)
  from 1(2) ne obtain t' u where u: "scan_step l st = Good (t', u)"
    by (auto simp: yylex.simps[of l st] split: outcome.splits)
  note s = scan_step_shorter[OF ne u]
  show ?case
  proof (cases t')
    case None
    with 1(1)[OF ne u] 1(2) u ne s show ?thesis by (force simp: yylex.simps[of l st])
  qed (use 1(2) u ne s in \<open>auto simp: yylex.simps[of l st]\<close>)
qed

text \<open>All tokens up to the end of the file, as the parser asks for them.\<close>

function scan_tokens :: "lookfor_state \<Rightarrow> scanner \<Rightarrow> (token list \<times> scanner, unit) outcome" where
  "scan_tokens lookfor st =
     (case yylex lookfor st of
        Good (None, st') \<Rightarrow> Good ([], st')
      | Good (Some t, st') \<Rightarrow>
          (case scan_tokens lookfor st' of
             Good (ts, st'') \<Rightarrow> Good (t # ts, st'')
           | Fail e \<Rightarrow> Fail e
           | Undef \<Rightarrow> Undef)
      | Fail e \<Rightarrow> Fail e
      | Undef \<Rightarrow> Undef)"
  by pat_completeness auto
termination
  by (relation "measure (\<lambda>(l, st). length (sc_rest st))") (auto dest: yylex_shorter)

declare scan_tokens.simps [simp del]

lemma scan_tokens_end [simp]: "sc_rest st = [] \<Longrightarrow> scan_tokens l st = Good ([], st)"
  by (simp add: scan_tokens.simps yylex.simps)

lemma scan_tokens_step:
  assumes "sc_rest st \<noteq> []" "scan_step l st = Good (t, st')"
  shows "scan_tokens l st = obind (scan_tokens l st') (\<lambda>(ts, u). Good (case t of Some t \<Rightarrow> t # ts | None \<Rightarrow> ts, u))"
proof (cases t)
  case None
  then have "yylex l st = yylex l st'" using assms by (simp add: yylex.simps[of l st])
  then have "scan_tokens l st = scan_tokens l st'" by (simp add: scan_tokens.simps[of l])
  moreover have "(\<lambda>(ts, u). Good (ts, u)) = Good" by auto
  ultimately show ?thesis using None by simp
next
  case (Some t')
  then have "yylex l st = Good (Some t', st')" using assms by (simp add: yylex.simps[of l st])
  then show ?thesis using Some
    by (simp add: scan_tokens.simps[of l st] split: outcome.splits)
qed

end
