(* ===== verification/AsmParse.thy ===== *)
theory AsmParse
  imports AsmScan
begin

text \<open>
  The grammar \<open>asm.y\<close> and its semantic actions.  The predicates \<open>g_\<close> are the productions, one clause for
  each.  The parser itself is generated by Bison and not in the repository; what is used of it is what Bison
  promises: it accepts the sentences of the grammar and runs the actions of their productions
  (\<open>sentence_value\<close>).  The functions \<open>p_\<close> are no model of it but a decision procedure for the predicates, so
  that \<open>sentence_value\<close> can be evaluated; that they agree with the grammar also shows that every sentence has
  one value.

  A list rule appends to the end of the list of its first symbol and does not set \<open>$$\<close>, which then has
  the value of that symbol.
\<close>

section \<open>Nodes\<close>

definition reg_operand_node :: "string \<Rightarrow> operand" where
  "reg_operand_node n = \<lparr>op_type = REG, op_name = Some n, op_offset = 0\<rparr>"

definition integer_node :: "i32 \<Rightarrow> operand" where
  "integer_node v = \<lparr>op_type = INTEGER, op_name = None, op_offset = v\<rparr>"

definition symbol_node :: "string \<Rightarrow> operand" where
  "symbol_node n = \<lparr>op_type = SYMBOL_REF, op_name = Some n, op_offset = 0\<rparr>"

definition instruction_node :: "string option \<Rightarrow> i32 \<Rightarrow> string \<Rightarrow> i32 \<Rightarrow> operand list \<Rightarrow> instruction" where
  "instruction_node p neg m n ops =
     \<lparr>inst_pred = p, inst_pred_neg = neg, inst_mnemonic = m, inst_ops = ops, inst_lineno = n\<rparr>"

definition insts_node :: "instruction list \<Rightarrow> inst_bundle" where
  "insts_node is = \<lparr>ib_insts = is, ib_label = None, ib_align = 0\<rparr>"

definition label_node :: "string \<Rightarrow> inst_bundle" where
  "label_node l = \<lparr>ib_insts = [], ib_label = Some l, ib_align = 0\<rparr>"

definition align_node :: "i32 \<Rightarrow> inst_bundle" where
  "align_node n = \<lparr>ib_insts = [], ib_label = None, ib_align = n\<rparr>"

definition data_node :: "string option \<Rightarrow> string option \<Rightarrow> i32 \<Rightarrow> i32 \<Rightarrow> data_element" where
  "data_node l s v n = \<lparr>de_label = l, de_symref = s, de_value = v, de_skip_length = n\<rparr>"

section \<open>The grammar\<close>

inductive g_operand :: "token list \<Rightarrow> operand list \<Rightarrow> bool" where
  g_reg: "g_operand [TOK_REGISTER r] [reg_operand_node r]"
| g_reg_offset: "g_operand [TOK_REGISTER r, TOK_PAR_OPEN, TOK_INTEGER v, TOK_PAR_CLOSE] [reg_operand_node r, integer_node v]"
| g_integer: "g_operand [TOK_INTEGER v] [integer_node v]"
| g_symbol: "g_operand [TOK_SYMBOL_REF s] [symbol_node s]"

inductive g_operand_list :: "token list \<Rightarrow> operand list \<Rightarrow> bool" where
  g_ops_one: "g_operand ts ops \<Longrightarrow> g_operand_list ts ops"
| g_ops_more: "g_operand_list ts ops \<Longrightarrow> g_operand us ops' \<Longrightarrow> g_operand_list (ts @ TOK_COMMA # us) (ops @ ops')"

inductive g_instruction :: "token list \<Rightarrow> instruction \<Rightarrow> bool" where
  g_inst_ops: "g_operand_list ts ops \<Longrightarrow> g_instruction (TOK_MNEMONIC m n # ts) (instruction_node None 0 m n ops)"
| g_inst: "g_instruction [TOK_MNEMONIC m n] (instruction_node None 0 m n [])"
| g_if_ops: "g_operand_list ts ops \<Longrightarrow>
    g_instruction ([TOK_IF, TOK_PAR_OPEN, TOK_REGISTER p, TOK_PAR_CLOSE, TOK_MNEMONIC m n] @ ts)
      (instruction_node (Some p) 0 m n ops)"
| g_if: "g_instruction [TOK_IF, TOK_PAR_OPEN, TOK_REGISTER p, TOK_PAR_CLOSE, TOK_MNEMONIC m n]
      (instruction_node (Some p) 0 m n [])"
| g_if_not_ops: "g_operand_list ts ops \<Longrightarrow>
    g_instruction ([TOK_IF, TOK_PAR_OPEN, TOK_NOT, TOK_REGISTER p, TOK_PAR_CLOSE, TOK_MNEMONIC m n] @ ts)
      (instruction_node (Some p) 1 m n ops)"
| g_if_not: "g_instruction [TOK_IF, TOK_PAR_OPEN, TOK_NOT, TOK_REGISTER p, TOK_PAR_CLOSE, TOK_MNEMONIC m n]
      (instruction_node (Some p) 1 m n [])"

inductive g_instruction_list :: "token list \<Rightarrow> instruction list \<Rightarrow> bool" where
  g_insts_one: "g_instruction ts i \<Longrightarrow> g_instruction_list ts [i]"
| g_insts_more: "g_instruction_list ts is \<Longrightarrow> g_instruction us i \<Longrightarrow> g_instruction_list (ts @ TOK_PIPE # us) (is @ [i])"

inductive g_inst_bundle :: "token list \<Rightarrow> inst_bundle \<Rightarrow> bool" where
  g_bundle: "g_instruction_list ts is \<Longrightarrow> g_inst_bundle ts (insts_node is)"
| g_label: "g_inst_bundle [TOK_LABEL l] (label_node l)"
| g_align: "g_inst_bundle [TOK_ALIGN, TOK_INTEGER n] (align_node n)"

inductive g_inst_bundle_list :: "token list \<Rightarrow> inst_bundle list \<Rightarrow> bool" where
  g_bundles_one: "g_inst_bundle ts b \<Longrightarrow> g_inst_bundle_list ts [b]"
| g_bundles_more: "g_inst_bundle_list ts bs \<Longrightarrow> g_inst_bundle us b \<Longrightarrow> g_inst_bundle_list (ts @ us) (bs @ [b])"

inductive g_data_element :: "token list \<Rightarrow> data_element \<Rightarrow> bool" where
  g_skip: "g_data_element [TOK_DATA_SKIP, TOK_DATA_INTEGER n] (data_node None None 0 n)"
| g_word: "g_data_element [TOK_DATA_WORD, TOK_DATA_INTEGER v] (data_node None None v 0)"
| g_word_symbol: "g_data_element [TOK_DATA_WORD, TOK_DATA_SYMBOL_REF s] (data_node None (Some s) 0 0)"
| g_dword: "g_data_element [TOK_DATA_DWORD, TOK_DATA_INTEGER v] (data_node None None v 0)"
| g_data_label: "g_data_element [TOK_DATA_LABEL l] (data_node (Some l) None 0 0)"

inductive g_data_element_list :: "token list \<Rightarrow> data_element list \<Rightarrow> bool" where
  g_data_one: "g_data_element ts d \<Longrightarrow> g_data_element_list ts [d]"
| g_data_more: "g_data_element_list ts ds \<Longrightarrow> g_data_element us d \<Longrightarrow> g_data_element_list (ts @ us) (ds @ [d])"

text \<open>What a parse assigns: \<open>data_section_p\<close> and \<open>code_section_p\<close>, where the program has them.\<close>

inductive g_program :: "token list \<Rightarrow> data_element list option \<Rightarrow> inst_bundle list option \<Rightarrow> bool" where
  g_both: "g_data_element_list ts ds \<Longrightarrow> g_inst_bundle_list us bs \<Longrightarrow> g_program (ts @ us) (Some ds) (Some bs)"
| g_code_only: "g_inst_bundle_list us bs \<Longrightarrow> g_program us None (Some bs)"
| g_data_only: "g_data_element_list ts ds \<Longrightarrow> g_program ts (Some ds) None"

text \<open>The value of a sentence, and \<^term>\<open>None\<close> for a syntax error.\<close>

definition sentence_value :: "token list \<Rightarrow> (data_element list option \<times> inst_bundle list option) option" where
  "sentence_value ts =
     (if \<exists>ds bs. g_program ts ds bs then Some (THE r. g_program ts (fst r) (snd r)) else None)"

section \<open>Deciding the grammar\<close>

text \<open>Each function parses one symbol at the start of the tokens and returns the rest.\<close>

definition expect :: "token \<Rightarrow> token list \<Rightarrow> token list option" where
  "expect t ts = (case ts of u # us \<Rightarrow> if u = t then Some us else None | [] \<Rightarrow> None)"

definition p_offset :: "operand \<Rightarrow> token list \<Rightarrow> (operand list \<times> token list) option" where
  "p_offset r ts =
     (case ts of
        TOK_INTEGER v # us \<Rightarrow> map_option (Pair [r, integer_node v]) (expect TOK_PAR_CLOSE us)
      | _ \<Rightarrow> None)"

definition p_operand :: "token list \<Rightarrow> (operand list \<times> token list) option" where
  "p_operand ts =
     (case ts of
        TOK_REGISTER r # us \<Rightarrow>
          (case expect TOK_PAR_OPEN us of
             Some vs \<Rightarrow> p_offset (reg_operand_node r) vs
           | None \<Rightarrow> Some ([reg_operand_node r], us))
      | TOK_INTEGER v # us \<Rightarrow> Some ([integer_node v], us)
      | TOK_SYMBOL_REF s # us \<Rightarrow> Some ([symbol_node s], us)
      | _ \<Rightarrow> None)"

lemma expect_Some [simp]: "expect t ts = Some us \<longleftrightarrow> ts = t # us"
  by (auto simp: expect_def split: list.splits)

lemma expect_Cons: "expect t (u # us) = (if u = t then Some us else None)"
  by (simp add: expect_def)

lemma p_operand_shorter: "p_operand ts = Some (x, us) \<Longrightarrow> length us < length ts"
  by (auto simp: p_operand_def p_offset_def split: list.splits token.splits option.splits)

function p_operand_list :: "token list \<Rightarrow> (operand list \<times> token list) option" where
  "p_operand_list ts =
     (case p_operand ts of
        None \<Rightarrow> None
      | Some (ops, us) \<Rightarrow>
          (case expect TOK_COMMA us of
             Some vs \<Rightarrow> map_option (\<lambda>(ops', ws). (ops @ ops', ws)) (p_operand_list vs)
           | None \<Rightarrow> Some (ops, us)))"
  by pat_completeness auto
termination
  by (relation "measure length") (auto dest: p_operand_shorter)

declare p_operand_list.simps [simp del]

definition starts_operand :: "token list \<Rightarrow> bool" where
  "starts_operand ts =
     (case ts of TOK_REGISTER _ # _ \<Rightarrow> True | TOK_INTEGER _ # _ \<Rightarrow> True | TOK_SYMBOL_REF _ # _ \<Rightarrow> True | _ \<Rightarrow> False)"

text \<open>The mnemonic and its operands, after the condition.\<close>

definition p_mnemonic :: "string option \<Rightarrow> i32 \<Rightarrow> token list \<Rightarrow> (instruction \<times> token list) option" where
  "p_mnemonic p neg ts =
     (case ts of
        TOK_MNEMONIC m n # us \<Rightarrow>
          if starts_operand us then
            map_option (\<lambda>(ops, vs). (instruction_node p neg m n ops, vs)) (p_operand_list us)
          else Some (instruction_node p neg m n [], us)
      | _ \<Rightarrow> None)"

definition p_condition :: "i32 \<Rightarrow> token list \<Rightarrow> (instruction \<times> token list) option" where
  "p_condition neg ts =
     (case ts of
        TOK_REGISTER p # us \<Rightarrow> Option.bind (expect TOK_PAR_CLOSE us) (p_mnemonic (Some p) neg)
      | _ \<Rightarrow> None)"

definition p_instruction :: "token list \<Rightarrow> (instruction \<times> token list) option" where
  "p_instruction ts =
     (case expect TOK_IF ts of
        None \<Rightarrow> p_mnemonic None 0 ts
      | Some us \<Rightarrow>
          Option.bind (expect TOK_PAR_OPEN us) (\<lambda>vs.
            case expect TOK_NOT vs of Some ws \<Rightarrow> p_condition 1 ws | None \<Rightarrow> p_condition 0 vs))"

lemma p_operand_list_shorter: "p_operand_list ts = Some (x, us) \<Longrightarrow> length us < length ts"
proof (induction ts arbitrary: x us rule: p_operand_list.induct)
  case (1 ts)
  from 1(2) obtain ops vs where v: "p_operand ts = Some (ops, vs)"
    by (auto simp: p_operand_list.simps[of ts] split: option.splits)
  show ?case
  proof (cases "expect TOK_COMMA vs")
    case None
    with 1(2) v p_operand_shorter[OF v] show ?thesis by (simp add: p_operand_list.simps[of ts])
  next
    case (Some ws)
    with 1(2) v obtain y where "p_operand_list ws = Some (y, us)" by (auto simp: p_operand_list.simps[of ts])
    from 1(1)[OF v _ Some this] p_operand_shorter[OF v] Some show ?thesis by simp
  qed
qed

lemma p_mnemonic_shorter: "p_mnemonic p neg ts = Some (x, us) \<Longrightarrow> length us < length ts"
  by (auto simp: p_mnemonic_def split: list.splits token.splits if_splits dest!: p_operand_list_shorter)

lemma p_instruction_shorter: "p_instruction ts = Some (x, us) \<Longrightarrow> length us < length ts"
  by (auto simp: p_instruction_def p_condition_def bind_eq_Some_conv split: list.splits token.splits option.splits
      dest!: p_mnemonic_shorter)

function p_instruction_list :: "token list \<Rightarrow> (instruction list \<times> token list) option" where
  "p_instruction_list ts =
     (case p_instruction ts of
        None \<Rightarrow> None
      | Some (i, us) \<Rightarrow>
          (case expect TOK_PIPE us of
             Some vs \<Rightarrow> map_option (\<lambda>(is, ws). (i # is, ws)) (p_instruction_list vs)
           | None \<Rightarrow> Some ([i], us)))"
  by pat_completeness auto
termination
  by (relation "measure length") (auto dest: p_instruction_shorter)

declare p_instruction_list.simps [simp del]

definition p_inst_bundle :: "token list \<Rightarrow> (inst_bundle \<times> token list) option" where
  "p_inst_bundle ts =
     (case ts of
        TOK_LABEL l # us \<Rightarrow> Some (label_node l, us)
      | TOK_ALIGN # us \<Rightarrow> (case us of TOK_INTEGER n # vs \<Rightarrow> Some (align_node n, vs) | _ \<Rightarrow> None)
      | _ \<Rightarrow> map_option (\<lambda>(is, us). (insts_node is, us)) (p_instruction_list ts))"

definition p_data_element :: "token list \<Rightarrow> (data_element \<times> token list) option" where
  "p_data_element ts =
     (case ts of
        TOK_DATA_SKIP # us \<Rightarrow> (case us of TOK_DATA_INTEGER n # vs \<Rightarrow> Some (data_node None None 0 n, vs) | _ \<Rightarrow> None)
      | TOK_DATA_WORD # us \<Rightarrow>
          (case us of
             TOK_DATA_INTEGER v # vs \<Rightarrow> Some (data_node None None v 0, vs)
           | TOK_DATA_SYMBOL_REF s # vs \<Rightarrow> Some (data_node None (Some s) 0 0, vs)
           | _ \<Rightarrow> None)
      | TOK_DATA_DWORD # us \<Rightarrow> (case us of TOK_DATA_INTEGER v # vs \<Rightarrow> Some (data_node None None v 0, vs) | _ \<Rightarrow> None)
      | TOK_DATA_LABEL l # us \<Rightarrow> Some (data_node (Some l) None 0 0, us)
      | _ \<Rightarrow> None)"

lemma p_instruction_list_shorter: "p_instruction_list ts = Some (x, us) \<Longrightarrow> length us < length ts"
proof (induction ts arbitrary: x us rule: p_instruction_list.induct)
  case (1 ts)
  from 1(2) obtain i vs where v: "p_instruction ts = Some (i, vs)"
    by (auto simp: p_instruction_list.simps[of ts] split: option.splits)
  show ?case
  proof (cases "expect TOK_PIPE vs")
    case None
    with 1(2) v p_instruction_shorter[OF v] show ?thesis by (simp add: p_instruction_list.simps[of ts])
  next
    case (Some ws)
    with 1(2) v obtain y where "p_instruction_list ws = Some (y, us)" by (auto simp: p_instruction_list.simps[of ts])
    from 1(1)[OF v _ Some this] p_instruction_shorter[OF v] Some show ?thesis by simp
  qed
qed

lemma p_inst_bundle_shorter: "p_inst_bundle ts = Some (x, us) \<Longrightarrow> length us < length ts"
  by (auto simp: p_inst_bundle_def split: list.splits token.splits dest!: p_instruction_list_shorter)

lemma p_data_element_shorter: "p_data_element ts = Some (x, us) \<Longrightarrow> length us < length ts"
  by (auto simp: p_data_element_def split: list.splits token.splits)

text \<open>The lists go on until the end of the file; a list of data elements also ends where the code begins.\<close>

definition starts_data :: "token list \<Rightarrow> bool" where
  "starts_data ts =
     (case ts of TOK_DATA_SKIP # _ \<Rightarrow> True | TOK_DATA_WORD # _ \<Rightarrow> True | TOK_DATA_DWORD # _ \<Rightarrow> True
      | TOK_DATA_LABEL _ # _ \<Rightarrow> True | _ \<Rightarrow> False)"

function p_inst_bundle_list :: "token list \<Rightarrow> inst_bundle list option" where
  "p_inst_bundle_list ts =
     (case p_inst_bundle ts of
        None \<Rightarrow> None
      | Some (b, us) \<Rightarrow> if us = [] then Some [b] else map_option ((#) b) (p_inst_bundle_list us))"
  by pat_completeness auto
termination
  by (relation "measure length") (auto dest: p_inst_bundle_shorter)

function p_data_element_list :: "token list \<Rightarrow> (data_element list \<times> token list) option" where
  "p_data_element_list ts =
     (case p_data_element ts of
        None \<Rightarrow> None
      | Some (d, us) \<Rightarrow>
          if starts_data us then map_option (\<lambda>(ds, vs). (d # ds, vs)) (p_data_element_list us) else Some ([d], us))"
  by pat_completeness auto
termination
  by (relation "measure length") (auto dest: p_data_element_shorter)

declare p_inst_bundle_list.simps [simp del] p_data_element_list.simps [simp del]

definition p_program :: "token list \<Rightarrow> (data_element list option \<times> inst_bundle list option) option" where
  "p_program ts =
     (if starts_data ts then
        (case p_data_element_list ts of
           None \<Rightarrow> None
         | Some (ds, us) \<Rightarrow>
             if us = [] then Some (Some ds, None) else map_option (\<lambda>bs. (Some ds, Some bs)) (p_inst_bundle_list us))
      else map_option (\<lambda>bs. (None, Some bs)) (p_inst_bundle_list ts))"

section \<open>The parser follows the grammar\<close>

lemma g_operand_list_cons:
  "g_operand_list vs ops' \<Longrightarrow> g_operand us ops \<Longrightarrow> g_operand_list (us @ TOK_COMMA # vs) (ops @ ops')"
proof (induction rule: g_operand_list.induct)
  case (g_ops_one vs ops')
  then show ?case by (intro g_operand_list.g_ops_more g_operand_list.g_ops_one)
next
  case (g_ops_more ts ops1 vs ops2)
  from g_operand_list.g_ops_more[OF g_ops_more.IH[OF g_ops_more.prems] g_ops_more.hyps(2)] show ?case by simp
qed

lemma g_instruction_list_cons:
  "g_instruction_list vs is \<Longrightarrow> g_instruction us i \<Longrightarrow> g_instruction_list (us @ TOK_PIPE # vs) (i # is)"
proof (induction rule: g_instruction_list.induct)
  case (g_insts_one vs j)
  from g_instruction_list.g_insts_more[OF g_instruction_list.g_insts_one[OF g_insts_one.prems] g_insts_one.hyps]
  show ?case by simp
next
  case (g_insts_more ts js vs j)
  from g_instruction_list.g_insts_more[OF g_insts_more.IH[OF g_insts_more.prems] g_insts_more.hyps(2)] show ?case by simp
qed

lemma g_inst_bundle_list_cons:
  "g_inst_bundle_list vs bs \<Longrightarrow> g_inst_bundle us b \<Longrightarrow> g_inst_bundle_list (us @ vs) (b # bs)"
proof (induction rule: g_inst_bundle_list.induct)
  case (g_bundles_one vs c)
  from g_inst_bundle_list.g_bundles_more[OF g_inst_bundle_list.g_bundles_one[OF g_bundles_one.prems] g_bundles_one.hyps]
  show ?case by simp
next
  case (g_bundles_more ts cs vs c)
  from g_inst_bundle_list.g_bundles_more[OF g_bundles_more.IH[OF g_bundles_more.prems] g_bundles_more.hyps(2)]
  show ?case by simp
qed

lemma g_data_element_list_cons:
  "g_data_element_list vs ds \<Longrightarrow> g_data_element us d \<Longrightarrow> g_data_element_list (us @ vs) (d # ds)"
proof (induction rule: g_data_element_list.induct)
  case (g_data_one vs c)
  from g_data_element_list.g_data_more[OF g_data_element_list.g_data_one[OF g_data_one.prems] g_data_one.hyps]
  show ?case by simp
next
  case (g_data_more ts cs vs c)
  from g_data_element_list.g_data_more[OF g_data_more.IH[OF g_data_more.prems] g_data_more.hyps(2)]
  show ?case by simp
qed

lemma p_operand_sound: "p_operand ts = Some (x, us) \<Longrightarrow> \<exists>vs. ts = vs @ us \<and> g_operand vs x"
  by (auto simp: p_operand_def p_offset_def split: list.splits token.splits option.splits
      intro: exI[of _ "[_]"] exI[of _ "[_, _, _, _]"] g_operand.intros)

lemma p_operand_list_sound: "p_operand_list ts = Some (x, us) \<Longrightarrow> \<exists>vs. ts = vs @ us \<and> g_operand_list vs x"
proof (induction ts arbitrary: x us rule: p_operand_list.induct)
  case (1 ts)
  from 1(2) obtain ops vs where v: "p_operand ts = Some (ops, vs)"
    by (auto simp: p_operand_list.simps[of ts] split: option.splits)
  obtain as where as: "ts = as @ vs" "g_operand as ops" using p_operand_sound[OF v] by blast
  show ?case
  proof (cases "expect TOK_COMMA vs")
    case None
    with 1(2) v have "x = ops" "us = vs" by (simp_all add: p_operand_list.simps[of ts])
    with as show ?thesis by (auto intro: g_operand_list.g_ops_one)
  next
    case (Some ws)
    with 1(2) v obtain y where y: "p_operand_list ws = Some (y, us)" "x = ops @ y"
      by (auto simp: p_operand_list.simps[of ts])
    obtain bs where "ws = bs @ us" "g_operand_list bs y" using 1(1)[OF v _ Some y(1)] by blast
    then show ?thesis
      using as Some y(2) g_operand_list_cons[of bs y as ops] by (intro exI[of _ "as @ TOK_COMMA # bs"]) auto
  qed
qed

lemma p_mnemonic_sound:
  assumes "p_mnemonic p neg ts = Some (x, us)"
  shows "\<exists>m n vs ops. ts = TOK_MNEMONIC m n # vs @ us \<and> x = instruction_node p neg m n ops \<and>
    (vs = [] \<and> ops = [] \<or> g_operand_list vs ops)"
  using assms
  by (fastforce simp: p_mnemonic_def split: list.splits token.splits if_splits dest!: p_operand_list_sound)

lemma p_instruction_sound: 
  assumes "p_instruction ts = Some (x, us)"
  shows "\<exists>vs. ts = vs @ us \<and> g_instruction vs x"
proof (cases "expect TOK_IF ts")
  case None
  with assms have "p_mnemonic None 0 ts = Some (x, us)" by (simp add: p_instruction_def)
  from p_mnemonic_sound[OF this] obtain m n vs ops where
    "ts = TOK_MNEMONIC m n # vs @ us" "x = instruction_node None 0 m n ops" "vs = [] \<and> ops = [] \<or> g_operand_list vs ops"
    by blast
  then show ?thesis by (intro exI[of _ "TOK_MNEMONIC m n # vs"]) (auto intro: g_instruction.intros)
next
  case (Some vs)
  have cond: "\<exists>p m n as ops. ws = [TOK_REGISTER p, TOK_PAR_CLOSE, TOK_MNEMONIC m n] @ as @ us \<and>
      x = instruction_node (Some p) neg m n ops \<and> (as = [] \<and> ops = [] \<or> g_operand_list as ops)"
    if "p_condition neg ws = Some (x, us)" for neg ws
    using that by (auto simp: p_condition_def bind_eq_Some_conv split: list.splits token.splits dest!: p_mnemonic_sound)
  obtain ws where ts: "ts = TOK_IF # TOK_PAR_OPEN # ws"
    using assms Some by (auto simp: p_instruction_def bind_eq_Some_conv)
  show ?thesis
  proof (cases "expect TOK_NOT ws")
    case None
    with assms ts have "p_condition 0 ws = Some (x, us)" by (simp add: p_instruction_def expect_Cons)
    from cond[OF this] obtain p m n as ops where
      "ws = [TOK_REGISTER p, TOK_PAR_CLOSE, TOK_MNEMONIC m n] @ as @ us"
      "x = instruction_node (Some p) 0 m n ops" "as = [] \<and> ops = [] \<or> g_operand_list as ops" by blast
    then show ?thesis
      using ts g_if[of p m n] g_if_ops[of as ops p m n]
      by (intro exI[of _ "[TOK_IF, TOK_PAR_OPEN, TOK_REGISTER p, TOK_PAR_CLOSE, TOK_MNEMONIC m n] @ as"]) auto
  next
    case (Some ws')
    with assms ts have "p_condition 1 ws' = Some (x, us)" by (simp add: p_instruction_def expect_Cons)
    from cond[OF this] obtain p m n as ops where
      "ws' = [TOK_REGISTER p, TOK_PAR_CLOSE, TOK_MNEMONIC m n] @ as @ us"
      "x = instruction_node (Some p) 1 m n ops" "as = [] \<and> ops = [] \<or> g_operand_list as ops" by blast
    then show ?thesis
      using ts Some g_if_not[of p m n] g_if_not_ops[of as ops p m n]
      by (intro exI[of _ "[TOK_IF, TOK_PAR_OPEN, TOK_NOT, TOK_REGISTER p, TOK_PAR_CLOSE, TOK_MNEMONIC m n] @ as"]) auto
  qed
qed

lemma p_instruction_list_sound: "p_instruction_list ts = Some (x, us) \<Longrightarrow> \<exists>vs. ts = vs @ us \<and> g_instruction_list vs x"
proof (induction ts arbitrary: x us rule: p_instruction_list.induct)
  case (1 ts)
  from 1(2) obtain i vs where v: "p_instruction ts = Some (i, vs)"
    by (auto simp: p_instruction_list.simps[of ts] split: option.splits)
  obtain as where as: "ts = as @ vs" "g_instruction as i" using p_instruction_sound[OF v] by blast
  show ?case
  proof (cases "expect TOK_PIPE vs")
    case None
    with 1(2) v have "x = [i]" "us = vs" by (simp_all add: p_instruction_list.simps[of ts])
    with as show ?thesis by (auto intro: g_instruction_list.g_insts_one)
  next
    case (Some ws)
    with 1(2) v obtain y where y: "p_instruction_list ws = Some (y, us)" "x = i # y"
      by (auto simp: p_instruction_list.simps[of ts])
    obtain bs where "ws = bs @ us" "g_instruction_list bs y" using 1(1)[OF v _ Some y(1)] by blast
    then show ?thesis
      using as Some y(2) g_instruction_list_cons[of bs y as i] by (intro exI[of _ "as @ TOK_PIPE # bs"]) auto
  qed
qed

lemma p_inst_bundle_sound: "p_inst_bundle ts = Some (x, us) \<Longrightarrow> \<exists>vs. ts = vs @ us \<and> g_inst_bundle vs x"
  by (auto simp: p_inst_bundle_def split: list.splits token.splits dest!: p_instruction_list_sound
      intro: exI[of _ "[_]"] exI[of _ "[_, _]"] g_inst_bundle.intros)

lemma p_data_element_sound: "p_data_element ts = Some (x, us) \<Longrightarrow> \<exists>vs. ts = vs @ us \<and> g_data_element vs x"
  by (auto simp: p_data_element_def split: list.splits token.splits
      intro: exI[of _ "[_]"] exI[of _ "[_, _]"] g_data_element.intros)

lemma p_inst_bundle_list_sound: "p_inst_bundle_list ts = Some x \<Longrightarrow> g_inst_bundle_list ts x"
proof (induction ts arbitrary: x rule: p_inst_bundle_list.induct)
  case (1 ts)
  from 1(2) obtain b us where b: "p_inst_bundle ts = Some (b, us)"
    by (auto simp: p_inst_bundle_list.simps[of ts] split: option.splits)
  obtain as where as: "ts = as @ us" "g_inst_bundle as b" using p_inst_bundle_sound[OF b] by blast
  show ?case
  proof (cases "us = []")
    case True
    with 1(2) b have "x = [b]" by (simp add: p_inst_bundle_list.simps[of ts])
    with as True show ?thesis by (auto intro: g_inst_bundle_list.g_bundles_one)
  next
    case False
    with 1(2) b obtain y where y: "p_inst_bundle_list us = Some y" "x = b # y" by (auto simp: p_inst_bundle_list.simps[of ts])
    have "g_inst_bundle_list us y" using 1(1)[OF b _ False y(1)] by simp
    with as y(2) g_inst_bundle_list_cons[of us y as b] show ?thesis by simp
  qed
qed

lemma p_data_element_list_sound:
  "p_data_element_list ts = Some (x, us) \<Longrightarrow> \<exists>vs. ts = vs @ us \<and> g_data_element_list vs x"
proof (induction ts arbitrary: x us rule: p_data_element_list.induct)
  case (1 ts)
  from 1(2) obtain d vs where d: "p_data_element ts = Some (d, vs)"
    by (auto simp: p_data_element_list.simps[of ts] split: option.splits)
  obtain as where as: "ts = as @ vs" "g_data_element as d" using p_data_element_sound[OF d] by blast
  show ?case
  proof (cases "starts_data vs")
    case False
    with 1(2) d have "x = [d]" "us = vs" by (simp_all add: p_data_element_list.simps[of ts])
    with as show ?thesis by (auto intro: g_data_element_list.g_data_one)
  next
    case True
    with 1(2) d obtain y where y: "p_data_element_list vs = Some (y, us)" "x = d # y"
      by (auto simp: p_data_element_list.simps[of ts])
    obtain bs where "vs = bs @ us" "g_data_element_list bs y" using 1(1)[OF d _ True y(1)] by blast
    with as y(2) g_data_element_list_cons[of bs y as d] show ?thesis by (intro exI[of _ "as @ bs"]) simp
  qed
qed

lemma p_program_sound: "p_program ts = Some (ds, bs) \<Longrightarrow> g_program ts ds bs"
  by (auto simp: p_program_def split: if_splits option.splits intro: g_program.intros
      dest!: p_data_element_list_sound p_inst_bundle_list_sound)

text \<open>
  In the other direction the parser must not read on: what follows a symbol does not continue it.  The
  lists of the grammar grow at the end, those of the parser at the beginning.
\<close>

lemma p_operand_complete:
  "g_operand ts x \<Longrightarrow> expect TOK_PAR_OPEN us = None \<Longrightarrow> p_operand (ts @ us) = Some (x, us)"
  by (induction rule: g_operand.induct) (simp_all add: p_operand_def p_offset_def expect_Cons)

lemma g_operand_starts: "g_operand ts x \<Longrightarrow> starts_operand (ts @ us) \<and> ts \<noteq> []"
  by (induction rule: g_operand.induct) (simp_all add: starts_operand_def)

lemma g_operand_list_starts: "g_operand_list ts x \<Longrightarrow> starts_operand (ts @ us) \<and> ts \<noteq> []"
  by (induction arbitrary: us rule: g_operand_list.induct) (simp_all add: g_operand_starts)

lemma p_operand_list_complete:
  assumes "g_operand_list ts x" "expect TOK_PAR_OPEN us = None"
  shows "expect TOK_COMMA us = None \<Longrightarrow> p_operand_list (ts @ us) = Some (x, us)"
    and "us = TOK_COMMA # vs \<Longrightarrow> p_operand_list vs = Some (y, ws) \<Longrightarrow> p_operand_list (ts @ us) = Some (x @ y, ws)"
  using assms
proof (induction arbitrary: us vs y ws rule: g_operand_list.induct)
  case (g_ops_one ts ops)
  {
    case 1
    with g_ops_one p_operand_complete show ?case by (simp add: p_operand_list.simps[of "ts @ us"])
  next
    case 2
    with g_ops_one p_operand_complete show ?case by (simp add: p_operand_list.simps[of "ts @ TOK_COMMA # vs"] expect_Cons)
  }
next
  case (g_ops_more ts ops as ops')
  {
    case 1
    then have "p_operand_list (as @ us) = Some (ops', us)"
      using p_operand_complete[OF g_ops_more.hyps(2)] by (simp add: p_operand_list.simps[of "as @ us"])
    from g_ops_more.IH(2)[OF refl this] show ?case by (simp add: expect_Cons)
  next
    case 2
    then have "p_operand_list (as @ us) = Some (ops' @ y, ws)"
      using p_operand_complete[OF g_ops_more.hyps(2)] by (simp add: p_operand_list.simps[of "as @ TOK_COMMA # vs"] expect_Cons)
    from g_ops_more.IH(2)[OF refl this] show ?case by (simp add: expect_Cons)
  }
qed

text \<open>What may follow an instruction.\<close>

definition ends_instruction :: "token list \<Rightarrow> bool" where
  "ends_instruction us \<longleftrightarrow> expect TOK_PAR_OPEN us = None \<and> expect TOK_COMMA us = None \<and> \<not> starts_operand us"

lemma p_mnemonic_complete:
  assumes "ends_instruction us"
  shows "p_mnemonic p neg (TOK_MNEMONIC m n # us) = Some (instruction_node p neg m n [], us)"
    "g_operand_list ts ops \<Longrightarrow> p_mnemonic p neg (TOK_MNEMONIC m n # ts @ us) = Some (instruction_node p neg m n ops, us)"
  using assms p_operand_list_complete(1)[of ts ops us] g_operand_list_starts[of ts ops us]
  by (simp_all add: p_mnemonic_def ends_instruction_def)

lemma p_instruction_complete:
  "g_instruction ts x \<Longrightarrow> ends_instruction us \<Longrightarrow> p_instruction (ts @ us) = Some (x, us)"
  by (induction rule: g_instruction.induct)
    (simp_all add: p_instruction_def p_condition_def expect_Cons p_mnemonic_complete)

lemma p_instruction_list_complete:
  assumes "g_instruction_list ts x" "ends_instruction us"
  shows "expect TOK_PIPE us = None \<Longrightarrow> p_instruction_list (ts @ us) = Some (x, us)"
    and "us = TOK_PIPE # vs \<Longrightarrow> p_instruction_list vs = Some (y, ws) \<Longrightarrow> p_instruction_list (ts @ us) = Some (x @ y, ws)"
  using assms
proof (induction arbitrary: us vs y ws rule: g_instruction_list.induct)
  case (g_insts_one ts i)
  {
    case 1
    with g_insts_one p_instruction_complete show ?case by (simp add: p_instruction_list.simps[of "ts @ us"])
  next
    case 2
    with g_insts_one p_instruction_complete show ?case by (simp add: p_instruction_list.simps[of "ts @ TOK_PIPE # vs"] expect_Cons)
  }
next
  case (g_insts_more ts insts as i)
  have e: "ends_instruction (TOK_PIPE # zs)" for zs by (simp add: ends_instruction_def expect_Cons starts_operand_def)
  {
    case 1
    then have "p_instruction_list (as @ us) = Some ([i], us)"
      using p_instruction_complete[OF g_insts_more.hyps(2)] by (simp add: p_instruction_list.simps[of "as @ us"])
    from g_insts_more.IH(2)[OF refl this e] show ?case by simp
  next
    case 2
    then have "p_instruction_list (as @ us) = Some (i # y, ws)"
      using p_instruction_complete[OF g_insts_more.hyps(2)]
      by (simp add: p_instruction_list.simps[of "as @ TOK_PIPE # vs"] expect_Cons)
    from g_insts_more.IH(2)[OF refl this e] show ?case by simp
  }
qed

text \<open>Where the next bundle begins, nothing continues the one before.\<close>

definition starts_bundle :: "token list \<Rightarrow> bool" where
  "starts_bundle ts =
     (case ts of TOK_LABEL _ # _ \<Rightarrow> True | TOK_ALIGN # _ \<Rightarrow> True | TOK_IF # _ \<Rightarrow> True | TOK_MNEMONIC _ _ # _ \<Rightarrow> True
      | _ \<Rightarrow> False)"

lemma starts_bundle_ends:
  "starts_bundle us \<or> us = [] \<Longrightarrow> ends_instruction us \<and> expect TOK_PIPE us = None \<and> \<not> starts_data us"
  by (auto simp: starts_bundle_def ends_instruction_def starts_operand_def starts_data_def expect_def
      split: list.splits token.splits)

lemma g_instruction_starts: "g_instruction ts x \<Longrightarrow> (case ts of TOK_IF # _ \<Rightarrow> True | TOK_MNEMONIC _ _ # _ \<Rightarrow> True | _ \<Rightarrow> False)"
  by (induction rule: g_instruction.induct) simp_all

lemma g_instruction_list_starts:
  "g_instruction_list ts x \<Longrightarrow> (\<exists>us. ts = TOK_IF # us) \<or> (\<exists>m n us. ts = TOK_MNEMONIC m n # us)"
  by (induction rule: g_instruction_list.induct) (auto dest!: g_instruction_starts split: list.splits token.splits)

lemma p_inst_bundle_complete:
  assumes "g_inst_bundle ts x" "starts_bundle us \<or> us = []"
  shows "p_inst_bundle (ts @ us) = Some (x, us)"
  using assms(1)
proof cases
  case (g_bundle insts)
  then have "p_instruction_list (ts @ us) = Some (insts, us)"
    using p_instruction_list_complete(1) starts_bundle_ends[OF assms(2)] by simp
  with g_instruction_list_starts[OF g_bundle(2)] g_bundle(1) show ?thesis by (auto simp: p_inst_bundle_def)
qed (simp_all add: p_inst_bundle_def)

lemma g_inst_bundle_starts: "g_inst_bundle ts x \<Longrightarrow> starts_bundle (ts @ us) \<and> ts \<noteq> []"
  by (induction rule: g_inst_bundle.induct) (auto simp: starts_bundle_def dest!: g_instruction_list_starts)

lemma g_inst_bundle_list_starts: "g_inst_bundle_list ts x \<Longrightarrow> starts_bundle (ts @ us) \<and> ts \<noteq> []"
  by (induction arbitrary: us rule: g_inst_bundle_list.induct) (simp_all add: g_inst_bundle_starts)

lemma p_inst_bundle_list_complete:
  assumes "g_inst_bundle_list ts x"
  shows "p_inst_bundle_list ts = Some x"
    and "starts_bundle us \<Longrightarrow> p_inst_bundle_list us = Some y \<Longrightarrow> p_inst_bundle_list (ts @ us) = Some (x @ y)"
  using assms
proof (induction arbitrary: us y rule: g_inst_bundle_list.induct)
  case (g_bundles_one ts b)
  {
    case 1
    from p_inst_bundle_complete[OF g_bundles_one, of "[]"] show ?case by (simp add: p_inst_bundle_list.simps[of ts])
  next
    case 2
    then have "us \<noteq> []" by (auto simp: starts_bundle_def)
    with 2 p_inst_bundle_complete[OF g_bundles_one, of us] show ?case by (simp add: p_inst_bundle_list.simps[of "ts @ us"])
  }
next
  case (g_bundles_more ts bs as b)
  note s = g_inst_bundle_starts[OF g_bundles_more.hyps(2)]
  {
    case 1
    from p_inst_bundle_complete[OF g_bundles_more.hyps(2), of "[]"]
    have "p_inst_bundle_list as = Some [b]" by (simp add: p_inst_bundle_list.simps[of as])
    from g_bundles_more.IH(2)[OF _ this] s[of "[]"] show ?case by simp
  next
    case 2
    then have "us \<noteq> []" by (auto simp: starts_bundle_def)
    with 2 p_inst_bundle_complete[OF g_bundles_more.hyps(2), of us]
    have "p_inst_bundle_list (as @ us) = Some (b # y)" by (simp add: p_inst_bundle_list.simps[of "as @ us"])
    from g_bundles_more.IH(2)[OF _ this] s[of us] show ?case by simp
  }
qed

lemma p_data_element_complete:
  "g_data_element ts x \<Longrightarrow> p_data_element (ts @ us) = Some (x, us) \<and> starts_data (ts @ us) \<and> ts \<noteq> []"
  by (induction rule: g_data_element.induct) (simp_all add: p_data_element_def starts_data_def)

lemma g_data_element_list_starts: "g_data_element_list ts x \<Longrightarrow> starts_data (ts @ us) \<and> ts \<noteq> []"
  by (induction arbitrary: us rule: g_data_element_list.induct) (simp_all add: p_data_element_complete)

lemma p_data_element_list_complete:
  assumes "g_data_element_list ts x"
  shows "\<not> starts_data us \<Longrightarrow> p_data_element_list (ts @ us) = Some (x, us)"
    and "starts_data us \<Longrightarrow> p_data_element_list us = Some (y, ws) \<Longrightarrow> p_data_element_list (ts @ us) = Some (x @ y, ws)"
  using assms
proof (induction arbitrary: us y ws rule: g_data_element_list.induct)
  case (g_data_one ts d)
  {
    case 1
    with p_data_element_complete[OF g_data_one] show ?case by (simp add: p_data_element_list.simps[of "ts @ us"])
  next
    case 2
    with p_data_element_complete[OF g_data_one] show ?case by (simp add: p_data_element_list.simps[of "ts @ us"])
  }
next
  case (g_data_more ts ds as d)
  note c = p_data_element_complete[OF g_data_more.hyps(2)]
  {
    case 1
    with c have "p_data_element_list (as @ us) = Some ([d], us)" by (simp add: p_data_element_list.simps[of "as @ us"])
    from g_data_more.IH(2)[OF _ this] c show ?case by simp
  next
    case 2
    with c have "p_data_element_list (as @ us) = Some (d # y, ws)" by (simp add: p_data_element_list.simps[of "as @ us"])
    from g_data_more.IH(2)[OF _ this] c show ?case by simp
  }
qed

lemma starts_data_Nil [simp]: "\<not> starts_data []"
  by (simp add: starts_data_def)

lemma p_program_complete: "g_program ts ds bs \<Longrightarrow> p_program ts = Some (ds, bs)"
proof (induction rule: g_program.induct)
  case (g_both ts ds us bs)
  note u = g_inst_bundle_list_starts[OF g_both(2), of "[]"]
  then have "\<not> starts_data us" using starts_bundle_ends by simp
  with p_data_element_list_complete(1)[OF g_both(1)] have "p_data_element_list (ts @ us) = Some (ds, us)" .
  with g_data_element_list_starts[OF g_both(1)] p_inst_bundle_list_complete(1)[OF g_both(2)] u
  show ?case by (simp add: p_program_def)
next
  case (g_code_only us bs)
  have "\<not> starts_data us" using g_inst_bundle_list_starts[OF g_code_only, of "[]"] starts_bundle_ends[of us] by simp
  with p_inst_bundle_list_complete(1)[OF g_code_only] show ?case by (simp add: p_program_def)
next
  case (g_data_only ts ds)
  with p_data_element_list_complete(1)[OF g_data_only, of "[]"] g_data_element_list_starts[OF g_data_only, of "[]"]
  show ?case by (simp add: p_program_def)
qed

text \<open>Every sentence has one value, and it can be computed.\<close>

lemma p_program_iff: "p_program ts = Some (ds, bs) \<longleftrightarrow> g_program ts ds bs"
  using p_program_sound p_program_complete by blast

lemma sentence_value_eq [code]: "sentence_value ts = p_program ts"
proof (cases "p_program ts")
  case None
  then have "\<not> g_program ts ds bs" for ds bs using p_program_complete by fastforce
  with None show ?thesis by (simp add: sentence_value_def)
next
  case (Some r)
  then have g: "g_program ts (fst r) (snd r)" by (simp add: p_program_sound)
  have "r' = r" if "g_program ts (fst r') (snd r')" for r'
    using p_program_complete[OF that] Some by simp
  with g have "(THE r. g_program ts (fst r) (snd r)) = r" by blast
  with g Some show ?thesis by (auto simp: sentence_value_def)
qed

end
