(* ===== verification/AsmMain.thy ===== *)
theory AsmMain
  imports AsmParse
begin

text \<open>
  The main program of the assembler (the last part of \<open>asm.y\<close>): the command line, the two runs of the
  parser over the same file, and the files it writes, with their names.

  Files that are read are given as a function from names to contents.  A file can always be created.
\<close>

section \<open>Parsing\<close>

datatype asm_exit =
    Usage_asm
  | Cannot_open_asm string
  | Assertion_failed
  | Syntax_error
  | Assembler_error asm_error

text \<open>One run of the generated parser over the tokens of the scanner; the grammar has no error recovery.\<close>

definition yyparse ::
    "lookfor_state \<Rightarrow> scanner \<Rightarrow> ((data_element list option \<times> inst_bundle list option) \<times> scanner, asm_exit) outcome" where
  "yyparse lookfor st =
     (case scan_tokens lookfor st of
        Good (ts, st') \<Rightarrow> (case sentence_value ts of Some r \<Rightarrow> Good (r, st') | None \<Rightarrow> Fail Syntax_error)
      | Fail _ \<Rightarrow> Fail Assertion_failed
      | Undef \<Rightarrow> Undef)"

definition scanner_init :: "string \<Rightarrow> scanner" where
  "scanner_init s =
     \<lparr>sc_rest = s, sc_bol = True, sc_start = INITIAL, sc_current = St_initial, sc_last = St_initial,
      sc_lineno = 1, sc_echo = []\<rparr>"

text \<open>
  Both runs.  The second begins again at the start of the file, in the start condition in which the first
  has ended.  A section pointer that is not assigned is NULL, the empty list.
\<close>

definition assigned :: "'a list option \<Rightarrow> 'a list \<Rightarrow> 'a list" where
  "assigned new old = (case new of Some x \<Rightarrow> x | None \<Rightarrow> old)"

definition parse_source :: "string \<Rightarrow> (data_element list \<times> inst_bundle list, asm_exit) outcome" where
  "parse_source s =
     obind (yyparse code_sections (scanner_init s)) (\<lambda>((d1, c1), st1).
     obind (yyparse data_sections (st1\<lparr>sc_rest := s, sc_bol := True, sc_lineno := 1\<rparr>)) (\<lambda>((d2, c2), _).
       Good (assigned d2 (assigned d1 []), assigned c2 (assigned c1 []))))"

section \<open>The command line\<close>

record asm_options =
  opt_outfile :: "string option"
  opt_fill_mems :: bool
  opt_input :: "string option"

definition asm_arg :: "(string \<Rightarrow> string option) \<Rightarrow> string \<Rightarrow> asm_options \<Rightarrow> (asm_options, asm_exit) outcome" where
  "asm_arg files arg opts =
     (if starts ''-'' arg then
        if starts ''-o='' arg then Good (opts\<lparr>opt_outfile := Some (drop 3 arg)\<rparr>)
        else if drop 1 arg = ''fill-mem'' then Good (opts\<lparr>opt_fill_mems := True\<rparr>)
        else Fail Usage_asm
      else
        case files arg of
          None \<Rightarrow> Fail (Cannot_open_asm arg)
        | Some s \<Rightarrow> Good (opts\<lparr>opt_input := Some s\<rparr>))"

text \<open>
  The files written, in the order in which they are opened.  \<open>init\<close> prints the name of the listing into 64
  bytes; the 256 bytes of \<open>output_hex\<close> are then enough for the others.
\<close>

definition output_files :: "string \<Rightarrow> asm_state \<times> hex_files \<Rightarrow> (string \<times> string) list" where
  "output_files base out =
     [(base @ ''.lineno'', lineno_fp (fst out)), (base @ ''.dmem'', dmem_file (snd out)),
      (base @ ''.imem'', imem_file (snd out)), (base @ ''.map'', map_file (snd out))]"

definition asm_main :: "(string \<Rightarrow> string option) \<Rightarrow> string list \<Rightarrow> ((string \<times> string) list, asm_exit) outcome" where
  "asm_main files argv =
     obind (walk (asm_arg files) argv \<lparr>opt_outfile = None, opt_fill_mems = False, opt_input = None\<rparr>) (\<lambda>opts.
       case opt_input opts of
         None \<Rightarrow> Fail Usage_asm
       | Some s \<Rightarrow>
           let base = (case opt_outfile opts of Some f \<Rightarrow> f | None \<Rightarrow> ''out'') in
           if 64 \<le> length (base @ ''.lineno'') then Undef
           else
             obind (parse_source s) (\<lambda>(ds, bs).
               case asm_gen_opcodes (opt_fill_mems opts) ds bs init of
                 Good out \<Rightarrow> Good (output_files base out)
               | Fail e \<Rightarrow> Fail (Assembler_error e)
               | Undef \<Rightarrow> Undef))"

section \<open>The assertion of the scanner\<close>

text \<open>
  The state before a comment is never the state of a comment, so the assertion at the end of a comment
  cannot fail.
\<close>

definition scanner_ok :: "scanner \<Rightarrow> bool" where
  "scanner_ok st \<longleftrightarrow>
     (if sc_start st = COMMENT then sc_last st \<noteq> St_comment \<and> sc_current st = St_comment else sc_current st \<noteq> St_comment)"

lemma next_rule_active:
  assumes "next_rule sc bol s = (r, n)" "s \<noteq> []"
  shows "active sc r"
proof -
  have "longest len rs b = (x, k) \<Longrightarrow> x \<in> set rs \<or> (x, k) = b" for len :: "rule \<Rightarrow> nat" and rs b x k
    by (induction len rs b rule: longest.induct) (auto split: if_splits)
  moreover obtain m where "longest (rule_match bol s) (filter (active sc) rules) (R_echo, 0) = (r, m)"
    using assms(1) by (auto simp: next_rule_def split: prod.splits)
  ultimately have "r \<in> set (filter (active sc) rules) \<or> r = R_echo" by blast
  then show ?thesis by (auto simp: active_def rule_cond_def split: option.splits)
qed

lemma scan_step_ok:
  assumes "scanner_ok st" "sc_rest st \<noteq> []"
  shows "\<exists>t st'. scan_step l st = Good (t, st') \<and> scanner_ok st'"
proof -
  obtain r n where n: "next_rule (sc_start st) (sc_bol st) (sc_rest st) = (r, n)" by fastforce
  let ?y = "take n (sc_rest st)"
  let ?st = "st\<lparr>sc_rest := drop n (sc_rest st), sc_bol := (last ?y = newline)\<rparr>"
  have a: "active (sc_start st) r" by (rule next_rule_active[OF n assms(2)])
  then have open_comment: "r \<in> {R_code, R_data, R_open_comment} \<Longrightarrow> sc_start st \<noteq> COMMENT"
    and close_comment: "r = R_close_comment \<Longrightarrow> sc_start st = COMMENT"
    by (auto simp: active_def rule_cond_def)
  have "\<exists>st'. rule_action r ?y ?st = Good st' \<and> scanner_ok st'"
  proof (cases "r \<in> {R_code, R_data, R_open_comment}")
    case True
    with assms(1) open_comment show ?thesis by (auto simp: rule_action_def begin_section_def scanner_ok_def)
  next
    case False
    show ?thesis
    proof (cases "r = R_close_comment")
      case True
      with assms(1) close_comment show ?thesis
        by (cases "sc_last st") (auto simp: rule_action_def end_comment_def scanner_ok_def)
    next
      case F: False
      with False assms(1) show ?thesis by (cases "sc_start st = COMMENT") (simp_all add: rule_action_def scanner_ok_def)
    qed
  qed
  then show ?thesis by (auto simp: scan_step_def n Let_def)
qed

lemma yylex_ok: "scanner_ok st \<Longrightarrow> \<exists>t st'. yylex l st = Good (t, st') \<and> scanner_ok st'"
proof (induction l st rule: yylex.induct)
  case (1 l st)
  show ?case
  proof (cases "sc_rest st = []")
    case False
    obtain t st' where s: "scan_step l st = Good (t, st')" "scanner_ok st'" using scan_step_ok[OF 1(2) False] by blast
    show ?thesis
    proof (cases t)
      case None
      from 1(1)[OF False s(1) _ None] s None False show ?thesis by (auto simp: yylex.simps[of l st])
    qed (use s False in \<open>simp add: yylex.simps[of l st]\<close>)
  qed (use 1(2) in \<open>simp add: yylex.simps\<close>)
qed

lemma scan_tokens_ok: "scanner_ok st \<Longrightarrow> \<exists>ts st'. scan_tokens l st = Good (ts, st') \<and> scanner_ok st'"
proof (induction l st rule: scan_tokens.induct)
  case (1 l st)
  obtain t st' where y: "yylex l st = Good (t, st')" "scanner_ok st'" using yylex_ok[OF 1(2)] by blast
  show ?case
  proof (cases t)
    case (Some t')
    from 1(1)[OF y(1) _ Some y(2)] y Some show ?thesis by (auto simp: scan_tokens.simps[of l st])
  qed (use y in \<open>simp add: scan_tokens.simps[of l st]\<close>)
qed

text \<open>Every source text is scanned to its end, and parsed or rejected.\<close>

lemma parse_source_total: "parse_source s = Fail Syntax_error \<or> (\<exists>ds bs. parse_source s = Good (ds, bs))"
proof -
  have "scanner_ok (scanner_init s)" by (simp add: scanner_ok_def scanner_init_def)
  then obtain ts st1 where t: "scan_tokens code_sections (scanner_init s) = Good (ts, st1)" "scanner_ok st1"
    using scan_tokens_ok by blast
  have "scanner_ok (st1\<lparr>sc_rest := s, sc_bol := True, sc_lineno := 1\<rparr>)" using t(2) by (simp add: scanner_ok_def)
  then obtain us st2 where u: "scan_tokens data_sections (st1\<lparr>sc_rest := s, sc_bol := True, sc_lineno := 1\<rparr>) = Good (us, st2)"
    using scan_tokens_ok by blast
  show ?thesis
    by (auto simp: parse_source_def yyparse_def t u split: option.splits)
qed

end
