(* ===== verification/AsmText.thy ===== *)
theory AsmText
  imports AsmMain "HOL-Library.Sublist"
begin

text \<open>
  Printed programs: a program of data elements and bundles as assembly text, and the proof that the
  scanner and the parser read it back.
\<close>

section \<open>Scanning the text of a token\<close>

text \<open>From \<open>st\<close> the scanner returns the tokens \<open>ts\<close> and goes on from \<open>st'\<close>.\<close>

definition lexes :: "lookfor_state \<Rightarrow> scanner \<Rightarrow> token list \<Rightarrow> scanner \<Rightarrow> bool" where
  "lexes l st ts st' \<longleftrightarrow> scan_tokens l st = obind (scan_tokens l st') (\<lambda>(us, u). Good (ts @ us, u))"

lemma lexes_refl: "lexes l st [] st"
proof -
  have "(\<lambda>(us :: token list, u :: scanner). Good ([] @ us, u)) = Good" by auto
  then show ?thesis by (simp add: lexes_def)
qed

lemma lexes_trans: "lexes l st ts st' \<Longrightarrow> lexes l st' us st'' \<Longrightarrow> lexes l st (ts @ us) st''"
  by (cases "scan_tokens l st''") (auto simp: lexes_def)

lemma lexes_step:
  assumes "sc_rest st \<noteq> []" "scan_step l st = Good (t, st')"
  shows "lexes l st (case t of Some t \<Rightarrow> [t] | None \<Rightarrow> []) st'"
  unfolding lexes_def scan_tokens_step[OF assms] by (rule arg_cong[where f = "obind _"]) (auto split: option.splits)

lemma lexes_end: "lexes l st ts st' \<Longrightarrow> sc_rest st' = [] \<Longrightarrow> scan_tokens l st = Good (ts, st')"
  by (simp add: lexes_def)

definition pos :: "scanner \<Rightarrow> string \<Rightarrow> bool \<Rightarrow> i32 \<Rightarrow> scanner" where
  "pos st s b n = st\<lparr>sc_rest := s, sc_bol := b, sc_lineno := n\<rparr>"

lemma pos_simps [simp]:
  "sc_rest (pos st s b n) = s" "sc_bol (pos st s b n) = b" "sc_lineno (pos st s b n) = n"
  "sc_start (pos st s b n) = sc_start st" "sc_current (pos st s b n) = sc_current st"
  "sc_last (pos st s b n) = sc_last st" "sc_echo (pos st s b n) = sc_echo st"
  "pos st s b n\<lparr>sc_rest := s', sc_bol := b'\<rparr> = pos st s' b' n" "pos st s b n\<lparr>sc_lineno := n'\<rparr> = pos st s b n'"
  "pos (pos st s b n) s' b' n' = pos st s' b' n'"
  by (simp_all add: pos_def)

text \<open>The tokens of one kind of section are returned in the pass that looks for them.\<close>

definition seen :: "lookfor_state \<Rightarrow> lookfor_state \<Rightarrow> token list \<Rightarrow> token list" where
  "seen l l' ts = (if l = l' then ts else [])"

lemma seen_simps [simp]: "seen l l' [] = []" "seen l l' ts @ seen l l' us = seen l l' (ts @ us)"
  by (simp_all add: seen_def)

text \<open>A rule with a token, whose text does not end in a newline.\<close>

lemma lexes_token:
  assumes "next_rule (sc_start st) b (y @ r) = (R, length y)" "y \<noteq> []" "last y \<noteq> newline"
    and "rule_token y n R = Some (l', t)"
  shows "lexes l (pos st (y @ r) b n) (seen l l' [t]) (pos st r False n)"
proof -
  have "rule_action R y st' = Good st'" for st' using assms(4) by (cases R) (simp_all add: rule_action_def)
  then have "scan_step l (pos st (y @ r) b n) = Good (if l = l' then Some t else None, pos st r False n)"
    using assms by (simp add: scan_step_def)
  from lexes_step[OF _ this] assms(2) show ?thesis by (auto simp: seen_def split: if_splits)
qed

text \<open>The rule with the longest match, the first of them.\<close>

lemma longest_none: "\<forall>x\<in>set rs. len x \<le> snd b \<Longrightarrow> longest len rs b = b"
  by (induction len rs b rule: longest.induct) auto

lemma longest_pick:
  assumes "rs = pre @ r # post" "\<forall>x\<in>set pre. len x < len r" "\<forall>x\<in>set post. len x \<le> len r" "snd b < len r"
  shows "longest len rs b = (r, len r)"
  using assms
proof (induction pre arbitrary: rs b)
  case Nil
  then show ?case using longest_none[of post len "(r, len r)"] by simp
next
  case (Cons x pre)
  show ?case using Cons.prems Cons.IH[OF refl, of "if snd b < len x then (x, len x) else b"] by simp
qed

lemma next_rule_pick:
  assumes "filter (active sc) rules = pre @ r # post" "r \<noteq> R_line_comment" "rule_match b s r = n" "0 < n"
    and "\<forall>x\<in>set pre. rule_match b s x < n" "\<forall>x\<in>set post. rule_match b s x \<le> n"
  shows "next_rule sc b s = (r, n)"
  using longest_pick[OF assms(1), of "rule_match b s" "(R_echo, 0)"] assms(2-) by (simp add: next_rule_def)

lemma active_rules:
  "filter (active CODE) rules = [R_code, R_data, R_line_comment, R_open_comment, R_pipe, R_comma, R_par_open, R_par_close,
     R_if, R_not, R_align, R_register, R_symbol_ref, R_integer, R_mnemonic, R_label, R_blank, R_newline, R_echo]"
  "filter (active DATA) rules = [R_code, R_data, R_line_comment, R_open_comment, R_data_dword, R_data_word, R_data_skip,
     R_data_integer, R_data_symbol_ref, R_data_label, R_blank, R_newline, R_echo]"
  "filter (active INITIAL) rules = [R_code, R_data, R_line_comment, R_open_comment, R_blank, R_newline, R_echo]"
  "filter (active COMMENT) rules = [R_comment_char, R_comment_newline, R_close_comment, R_echo]"
  by (simp_all add: rules_def active_def rule_cond_def)

lemma span_append: "list_all p xs \<Longrightarrow> r = [] \<or> \<not> p (hd r) \<Longrightarrow> span p (xs @ r) = length xs"
  by (induction xs) (cases r, auto simp: span_def)

lemma span_Nil [simp]: "span p [] = 0" by (simp add: span_def)
lemma span_Cons: "span p (c # s) = (if p c then Suc (span p s) else 0)" by (simp add: span_def)
lemma span_le: "span p s \<le> length s" by (simp add: span_def length_takeWhile_le)

lemma span_stop: "\<not> p c \<Longrightarrow> span p (xs @ c # r) \<le> length xs"
  by (induction xs) (simp_all add: span_Cons)

lemma starts_le: "starts l (xs @ c # r) \<Longrightarrow> c \<notin> set l \<Longrightarrow> length l \<le> length xs"
proof (induction l arbitrary: xs)
  case (Cons d l)
  then show ?case by (cases xs) auto
qed simp

lemmas match_defs = m_lit_def m_prefixed_def m_mnemonic_def m_integer_def m_digits_def m_label_def m_line_comment_def
  Let_def span_Cons

lemma class_chars [simp]:
  "\<not> is_lower (CHR ''.'')" "\<not> is_lower (CHR '';'')" "\<not> is_lower (CHR ''/'')" "\<not> is_lower (CHR ''|'')"
  "\<not> is_lower (CHR '','')" "\<not> is_lower (CHR ''('')" "\<not> is_lower (CHR '')'')" "\<not> is_lower (CHR ''!'')"
  "\<not> is_lower (CHR ''$'')" "\<not> is_lower (CHR ''#'')" "\<not> is_lower (CHR ''-'')" "\<not> is_lower (CHR '' '')"
  "\<not> is_lower (CHR '':'')" "\<not> is_lower newline" "\<not> is_lower tab_char" "is_lower (CHR ''i'')" "is_lower (CHR ''f'')"
  "is_lower (CHR ''a'')" "is_lower (CHR ''l'')" "is_lower (CHR ''g'')" "is_lower (CHR ''n'')" "is_lower (CHR ''d'')"
  "is_lower (CHR ''w'')" "is_lower (CHR ''o'')" "is_lower (CHR ''r'')" "is_lower (CHR ''s'')" "is_lower (CHR ''k'')"
  "is_lower (CHR ''p'')" "is_lower (CHR ''c'')" "is_lower (CHR ''e'')" "is_lower (CHR ''t'')"
  "\<not> c_isdigit (CHR ''.'')" "\<not> c_isdigit (CHR '';'')" "\<not> c_isdigit (CHR ''/'')" "\<not> c_isdigit (CHR ''|'')"
  "\<not> c_isdigit (CHR '','')" "\<not> c_isdigit (CHR ''('')" "\<not> c_isdigit (CHR '')'')" "\<not> c_isdigit (CHR ''!'')"
  "\<not> c_isdigit (CHR ''$'')" "\<not> c_isdigit (CHR ''#'')" "\<not> c_isdigit (CHR ''-'')" "\<not> c_isdigit (CHR '' '')"
  "\<not> c_isdigit (CHR '':'')" "\<not> c_isdigit newline" "\<not> c_isdigit tab_char" "\<not> c_isdigit (CHR ''i'')"
  "\<not> c_isdigit (CHR ''x'')"
  by (simp_all add: is_lower_def c_isdigit_def newline_def tab_char_def)

lemma mnemonic_class [simp]:
  "\<not> mnemonic_char (CHR '';'')" "\<not> mnemonic_char (CHR ''/'')" "\<not> mnemonic_char (CHR ''|'')"
  "\<not> mnemonic_char (CHR '','')" "\<not> mnemonic_char (CHR ''('')" "\<not> mnemonic_char (CHR '')'')" "\<not> mnemonic_char (CHR ''!'')"
  "\<not> mnemonic_char (CHR ''$'')" "\<not> mnemonic_char (CHR ''#'')" "\<not> mnemonic_char (CHR ''-'')" "\<not> mnemonic_char (CHR '' '')"
  "\<not> mnemonic_char (CHR '':'')" "\<not> mnemonic_char newline" "\<not> mnemonic_char tab_char" "is_lower c \<Longrightarrow> mnemonic_char c"
  "mnemonic_char (CHR ''.'')"
  by (simp_all add: mnemonic_char_def) (simp_all add: newline_def tab_char_def)

lemma symbol_class [simp]:
  "\<not> symbol_char (CHR '';'')" "\<not> symbol_char (CHR ''/'')" "\<not> symbol_char (CHR ''|'')"
  "\<not> symbol_char (CHR '','')" "\<not> symbol_char (CHR ''('')" "\<not> symbol_char (CHR '')'')" "\<not> symbol_char (CHR ''!'')"
  "\<not> symbol_char (CHR ''$'')" "\<not> symbol_char (CHR ''#'')" "\<not> symbol_char (CHR ''-'')" "\<not> symbol_char (CHR '' '')"
  "\<not> symbol_char (CHR '':'')" "\<not> symbol_char newline" "\<not> symbol_char tab_char" "mnemonic_char c \<Longrightarrow> symbol_char c"
  by (simp_all add: symbol_char_def) (simp_all add: newline_def tab_char_def)

lemma char_ne [simp]:
  "newline \<noteq> CHR ''.''" "newline \<noteq> CHR '';''" "newline \<noteq> CHR ''/''" "newline \<noteq> CHR ''|''" "newline \<noteq> CHR '',''"
  "newline \<noteq> CHR ''(''" "newline \<noteq> CHR '')''" "newline \<noteq> CHR ''!''" "newline \<noteq> CHR ''$''" "newline \<noteq> CHR ''#''"
  "newline \<noteq> CHR ''-''" "newline \<noteq> CHR '' ''" "newline \<noteq> CHR '':''" "newline \<noteq> CHR ''i''" "newline \<noteq> tab_char" "newline \<noteq> CHR ''0''"
  "newline \<noteq> CHR ''x''" "newline \<noteq> CHR ''f''"
  "tab_char \<noteq> CHR ''.''" "tab_char \<noteq> CHR '';''" "tab_char \<noteq> CHR ''/''" "tab_char \<noteq> CHR ''|''" "tab_char \<noteq> CHR '',''"
  "tab_char \<noteq> CHR ''(''" "tab_char \<noteq> CHR '')''" "tab_char \<noteq> CHR ''!''" "tab_char \<noteq> CHR ''$''" "tab_char \<noteq> CHR ''#''"
  "tab_char \<noteq> CHR ''-''" "tab_char \<noteq> CHR '' ''" "tab_char \<noteq> CHR '':''" "tab_char \<noteq> CHR ''i''" "tab_char \<noteq> newline" "tab_char \<noteq> CHR ''0''"
  by (simp_all add: newline_def tab_char_def)

lemmas char_ne' [simp] = char_ne[symmetric]

text \<open>White space, in the sections.\<close>

lemma next_rule_blank:
  "sc \<noteq> COMMENT \<Longrightarrow> c = CHR '' '' \<or> c = tab_char \<Longrightarrow> next_rule sc b (c # r) = (R_blank, 1)"
  by (elim disjE; hypsubst; cases sc; simp add: next_rule_def active_rules match_defs)

lemma next_rule_newline: "sc \<noteq> COMMENT \<Longrightarrow> next_rule sc b (newline # r) = (R_newline, 1)"
  by (cases sc; simp add: next_rule_def active_rules match_defs)

lemma lexes_blank:
  assumes "sc_start st \<noteq> COMMENT" "c = CHR '' '' \<or> c = tab_char"
  shows "lexes l (pos st (c # r) b n) [] (pos st r False n)"
proof -
  have "c \<noteq> newline" using assms(2) by auto
  then have "scan_step l (pos st (c # r) b n) = Good (None, pos st r False n)"
    by (simp add: scan_step_def next_rule_blank[OF assms] rule_action_def)
  from lexes_step[OF _ this] show ?thesis by simp
qed

lemma lexes_newline:
  assumes "sc_start st \<noteq> COMMENT"
  shows "lexes l (pos st (newline # r) b n) [] (pos st r True (n + 1))"
proof -
  have "scan_step l (pos st (newline # r) b n) = Good (None, pos st r True (n + 1))"
    by (simp add: scan_step_def next_rule_newline[OF assms] rule_action_def)
  from lexes_step[OF _ this] show ?thesis by simp
qed

section \<open>Tokens of the code sections\<close>

lemma code_literals:
  "next_rule CODE b (CHR ''|'' # r) = (R_pipe, 1)" "next_rule CODE b (CHR '','' # r) = (R_comma, 1)"
  "next_rule CODE b (CHR ''('' # r) = (R_par_open, 1)" "next_rule CODE b (CHR '')'' # r) = (R_par_close, 1)"
  "next_rule CODE b (CHR ''!'' # r) = (R_not, 1)"
  by (simp_all add: next_rule_def active_rules match_defs)

lemma code_if: "next_rule CODE b (''if'' @ CHR '' '' # r) = (R_if, 2)"
  by (simp add: next_rule_def active_rules match_defs)

lemma code_align: "next_rule CODE b (''.align'' @ CHR '' '' # r) = (R_align, 6)"
  by (simp add: next_rule_def active_rules match_defs)

lemma reg_char_simps: "reg_char c \<Longrightarrow> c \<noteq> newline"
  by (auto simp: reg_char_def)

lemma code_register:
  assumes "x \<noteq> []" "list_all reg_char x" "r = [] \<or> \<not> reg_char (hd r)"
  shows "next_rule CODE b ((CHR ''$'' # x) @ r) = (R_register, length (CHR ''$'' # x))"
  using span_append[OF assms(2,3)] assms(1) by (simp add: next_rule_def active_rules match_defs)

lemma code_symbol:
  assumes "x \<noteq> []" "list_all symbol_char x" "r = [] \<or> \<not> symbol_char (hd r)"
  shows "next_rule CODE b ((CHR ''#'' # x) @ r) = (R_symbol_ref, length (CHR ''#'' # x))"
    "next_rule DATA b ((CHR ''#'' # x) @ r) = (R_data_symbol_ref, length (CHR ''#'' # x))"
  using span_append[OF assms(2,3)] assms(1) by (simp_all add: next_rule_def active_rules match_defs)

text \<open>What a lower case letter, a digit and a character of a label are not.\<close>

lemma lower_ne:
  assumes "is_lower c"
  shows "c \<noteq> CHR ''.''" "c \<noteq> CHR '';''" "c \<noteq> CHR ''/''" "c \<noteq> CHR ''|''" "c \<noteq> CHR '',''" "c \<noteq> CHR ''(''" "c \<noteq> CHR '')''"
    "c \<noteq> CHR ''!''" "c \<noteq> CHR ''$''" "c \<noteq> CHR ''#''" "c \<noteq> CHR ''-''" "c \<noteq> CHR '' ''" "c \<noteq> newline" "c \<noteq> tab_char"
    "\<not> c_isdigit c" "c \<noteq> CHR ''0''"
proof -
  show "\<not> c_isdigit c" using assms by (simp add: is_lower_def c_isdigit_def)
  moreover have "c_isdigit (CHR ''0'')" by (simp add: c_isdigit_def)
  ultimately show "c \<noteq> CHR ''0''" by blast
qed (use assms in auto)

lemma code_mnemonic:
  assumes "is_lower c" "list_all mnemonic_char x" "c # x \<noteq> ''if''" "r \<noteq> []" "\<not> mnemonic_char (hd r)" "\<not> symbol_char (hd r)" "hd r \<noteq> CHR '':''"
  shows "next_rule CODE b ((c # x) @ r) = (R_mnemonic, length (c # x))"
proof (rule next_rule_pick)
  let ?s = "(c # x) @ r"
  show "filter (active CODE) rules = [R_code, R_data, R_line_comment, R_open_comment, R_pipe, R_comma, R_par_open, R_par_close,
     R_if, R_not, R_align, R_register, R_symbol_ref, R_integer] @ R_mnemonic # [R_label, R_blank, R_newline, R_echo]"
    by (simp add: active_rules)
  have m: "span mnemonic_char (x @ r) = length x" using span_append[OF assms(2)] assms(5) by simp
  have y: "list_all symbol_char x" using assms(2) by (auto simp: list_all_iff)
  then have l: "span symbol_char (x @ r) = length x" using span_append[of symbol_char x r] assms(6) by simp
  obtain d q where r: "r = d # q" using assms(4) by (cases r) auto
  show "rule_match b ?s R_mnemonic = length (c # x)" using assms(1) m by (simp add: m_mnemonic_def)
  have if_len: "m_lit ''if'' ?s < length (c # x)"
  proof (cases "starts ''if'' ?s")
    case True
    then have "c = CHR ''i''" "starts ''f'' (x @ r)" by simp_all
    moreover have "x \<noteq> []"
    proof
      assume "x = []"
      with \<open>starts ''f'' (x @ r)\<close> r have "d = CHR ''f''" by simp
      with assms(5) r show False by simp
    qed
    moreover have "length x \<noteq> 1"
    proof
      assume "length x = 1"
      then obtain e where "x = [e]" by (cases x) auto
      with calculation assms(3) show False by simp
    qed
    ultimately show ?thesis by (cases x) (auto simp: m_lit_def)
  next
    case False
    then have "m_lit ''if'' ?s = 0" unfolding m_lit_def by (rule if_not_P)
    then show ?thesis by simp
  qed
  note ne = lower_ne[OF assms(1)] lower_ne(1-14)[OF assms(1), symmetric]
  show "\<forall>z\<in>set [R_code, R_data, R_line_comment, R_open_comment, R_pipe, R_comma, R_par_open, R_par_close,
     R_if, R_not, R_align, R_register, R_symbol_ref, R_integer]. rule_match b ?s z < length (c # x)"
    using if_len ne by (simp add: m_prefixed_def m_integer_def m_digits_def m_line_comment_def Let_def span_Cons)
      (simp add: m_lit_def)
  have "m_label b ?s = 0" using l r assms(1,7) by (simp add: m_label_def span_Cons Let_def)
  then show "\<forall>z\<in>set [R_label, R_blank, R_newline, R_echo]. rule_match b ?s z \<le> length (c # x)"
    using ne by (simp add: m_lit_def)
qed simp_all

text \<open>A label is longer than everything else that could start it.\<close>

lemma label_first:
  fixes r :: string
  assumes "x \<noteq> []" "list_all symbol_char x"
  defines "s \<equiv> x @ CHR '':'' # r"
  shows "m_label True s = length x + 1" "m_lit l s = 0 \<or> length l \<le> length x \<or> CHR '':'' \<in> set l"
    "m_line_comment s = 0" "m_prefixed (CHR ''$'') reg_char s = 0" "m_prefixed (CHR ''#'') symbol_char s = 0"
    "m_integer s \<le> length x" "m_mnemonic s \<le> length x" "hd s \<noteq> newline" "hd s \<noteq> CHR '' ''" "hd s \<noteq> tab_char"
proof -
  have "span symbol_char s = length x" using span_append[OF assms(2), of "CHR '':'' # r"] by (simp add: s_def)
  then show "m_label True s = length x + 1" using assms(1) by (simp add: m_label_def s_def)
  show "m_lit l s = 0 \<or> length l \<le> length x \<or> CHR '':'' \<in> set l"
    using starts_le[of l x "CHR '':''" r] by (auto simp: m_lit_def s_def)
  obtain c y where x: "x = c # y" "symbol_char c" using assms(1,2) by (cases x) auto
  then have c: "c \<noteq> CHR '';''" "c \<noteq> CHR ''$''" "c \<noteq> CHR ''#''" "c \<noteq> CHR ''-''" "c \<noteq> newline" "c \<noteq> CHR '' ''" "c \<noteq> tab_char" by auto
  then show "m_line_comment s = 0" "m_prefixed (CHR ''$'') reg_char s = 0" "m_prefixed (CHR ''#'') symbol_char s = 0"
    "hd s \<noteq> newline" "hd s \<noteq> CHR '' ''" "hd s \<noteq> tab_char"
    by (simp_all add: s_def x m_line_comment_def m_prefixed_def Let_def)
  have "\<not> c_isxdigit (CHR '':'')" by (simp add: c_isxdigit_def)
  then have hex: "span c_isxdigit (drop 2 s) \<le> length x - 2" if "starts ''0x'' s"
    using starts_le[of "''0x''" x "CHR '':''" r] that span_stop[of c_isxdigit "CHR '':''" "drop 2 x" r] by (simp add: s_def)
  have two: "starts ''0x'' s \<Longrightarrow> 2 \<le> length x" using starts_le[of "''0x''" x "CHR '':''" r] by (simp add: s_def)
  have "m_digits s \<le> length x"
  proof (cases "starts ''0x'' s \<and> 0 < span c_isxdigit (drop 2 s)")
    case True
    then have "m_digits s = 2 + span c_isxdigit (drop 2 s)" by (simp add: m_digits_def)
    then show ?thesis using hex two True by linarith
  next
    case False
    then have "m_digits s = span c_isdigit s" unfolding m_digits_def by (rule if_not_P)
    then show ?thesis using span_stop[of c_isdigit "CHR '':''" x r] by (simp add: s_def)
  qed
  then show "m_integer s \<le> length x" using c by (simp add: m_integer_def s_def x)
  show "m_mnemonic s \<le> length x"
    using span_stop[of mnemonic_char "CHR '':''" y r] by (simp add: m_mnemonic_def s_def x)
qed

lemma next_rule_label:
  assumes "x \<noteq> []" "list_all symbol_char x"
  shows "next_rule CODE True ((x @ '':'') @ r) = (R_label, length (x @ '':''))"
    "next_rule DATA True ((x @ '':'') @ r) = (R_data_label, length (x @ '':''))"
proof -
  let ?s = "x @ CHR '':'' # r"
  note f = label_first[OF assms, where r = r]
  have lit: "m_lit l ?s \<le> length x" if "CHR '':'' \<notin> set l" for l
    using f(2)[of l] that by (auto simp: m_lit_def)
  have "1 \<le> length x" using assms(1) by (cases x) auto
  then have "next_rule CODE True ?s = (R_label, length x + 1)"
    using f(1,3-) lit
    by (intro next_rule_pick[where pre = "[R_code, R_data, R_line_comment, R_open_comment, R_pipe, R_comma, R_par_open, R_par_close,
       R_if, R_not, R_align, R_register, R_symbol_ref, R_integer, R_mnemonic]" and post = "[R_blank, R_newline, R_echo]"])
      (simp_all add: active_rules less_Suc_eq_le le_SucI)
  moreover have "next_rule DATA True ?s = (R_data_label, length x + 1)"
    using f(1,3-) lit \<open>1 \<le> length x\<close>
    by (intro next_rule_pick[where pre = "[R_code, R_data, R_line_comment, R_open_comment, R_data_dword, R_data_word, R_data_skip,
       R_data_integer, R_data_symbol_ref]" and post = "[R_blank, R_newline, R_echo]"])
      (simp_all add: active_rules less_Suc_eq_le le_SucI)
  ultimately show "next_rule CODE True ((x @ '':'') @ r) = (R_label, length (x @ '':''))"
    "next_rule DATA True ((x @ '':'') @ r) = (R_data_label, length (x @ '':''))" by simp_all
qed

section \<open>Numbers\<close>

lemma digits_no_zero: "0 < n \<Longrightarrow> hd (digits_in 10 n) \<noteq> CHR ''0''"
proof (induction n rule: less_induct)
  case (less n)
  show ?case
  proof (cases "n < 10")
    case True
    have "\<forall>k\<in>set [1..<10]. hex_digit k \<noteq> CHR ''0''" by (simp add: upt_rec hex_digit_def)
    with True less.prems show ?thesis by (simp add: digits_in.simps[of 10 n])
  next
    case False
    then have "hd (digits_in 10 (n div 10)) \<noteq> CHR ''0''" by (intro less.IH) auto
    with digits_10[of "n div 10"] False show ?thesis by (simp add: digits_in.simps[of 10 n])
  qed
qed

lemma digits_zero: "digits_in 10 0 = ''0''"
  by (simp add: digits_in.simps[of 10 0] hex_digit_def)

lemma magnitude_digits: "strtoul_magnitude 10 (digits_in 10 n) = n \<and> list_all (digit_in 10) (digits_in 10 n)"
proof (induction n rule: less_induct)
  case (less n)
  have d: "digit_in 10 (hex_digit k)" "unat (xdigit_value (hex_digit k)) = k" if "k < 10" for k
    using hex_digit_facts[of k] that by (simp_all add: digit_in_def unat_of_nat take_bit_nat_eq_self)
  show ?case
  proof (cases "n < 10")
    case True
    with d[OF True] show ?thesis by (simp add: digits_in.simps[of 10 n] strtoul_magnitude_def)
  next
    case False
    then have ih: "strtoul_magnitude 10 (digits_in 10 (n div 10)) = n div 10"
      "list_all (digit_in 10) (digits_in 10 (n div 10))" using less.IH[of "n div 10"] by simp_all
    have tw: "takeWhile (digit_in 10) (digits_in 10 (n div 10)) = digits_in 10 (n div 10)"
      using ih(2) by (auto simp: takeWhile_eq_all_conv list_all_iff)
    have "foldl (\<lambda>v c. v * 10 + unat (xdigit_value c)) 0 (digits_in 10 (n div 10)) = n div 10"
      using ih(1) unfolding strtoul_magnitude_def tw .
    moreover have "takeWhile (digit_in 10) (digits_in 10 (n div 10) @ [hex_digit (n mod 10)]) =
        digits_in 10 (n div 10) @ [hex_digit (n mod 10)]"
      using ih False d(1)[of "n mod 10"] by (auto simp: takeWhile_eq_all_conv list_all_iff)
    moreover have "n div 10 * 10 + n mod 10 = n" by simp
    ultimately show ?thesis
      using ih False d[of "n mod 10"] by (simp add: digits_in.simps[of 10 n] strtoul_magnitude_def)
  qed
qed

text \<open>A printed number is read by \<open>strtol\<close>: it has no leading zero, which would make it octal.\<close>

lemma number_value_digits: "number_value (digits_in 10 n) = n"
proof (cases "n = 0")
  case True
  then show ?thesis by (simp add: digits_zero number_value_def strtoul_magnitude_def digit_in_def xdigit_value_def c_isxdigit_def)
next
  case False
  obtain c cs where c: "digits_in 10 n = c # cs" using digits_10[of n] by (cases "digits_in 10 n") auto
  then have "c \<noteq> CHR ''0''" using digits_no_zero[of n] False by simp
  then show ?thesis using magnitude_digits[of n] by (simp add: number_value_def c)
qed

lemma strtol_fmt_d: "strtol (fmt_d v) = v"
proof -
  let ?n = "nat \<bar>sint v\<bar>"
  have b: "- (2 ^ 31) \<le> sint v" "sint v < 2 ^ 31" using sint_ge[of v] sint_lt[of v] by simp_all
  show ?thesis
  proof (cases "sint v < 0")
    case True
    then have "strtol (fmt_d v) = word_of_int (max (- (2 ^ 63)) (sint v))"
      by (simp add: strtol_def fmt_d_def number_value_digits)
    moreover have "max (- (2 ^ 63)) (sint v) = sint v" using b by simp
    ultimately show ?thesis by simp
  next
    case False
    obtain c cs where c: "digits_in 10 ?n = c # cs" "c_isdigit c" using digits_10[of ?n] by (cases "digits_in 10 ?n") auto
    then have "c \<noteq> CHR ''-''" by auto
    then have "\<not> starts ''-'' (digits_in 10 ?n)" by (simp add: c)
    then have "strtol (fmt_d v) = word_of_int (min (2 ^ 63 - 1) (sint v))"
      using False by (simp add: strtol_def fmt_d_def number_value_digits)
    moreover have "min (2 ^ 63 - 1) (sint v) = sint v" using b by simp
    ultimately show ?thesis by simp
  qed
qed

lemma digit_ne:
  assumes "c_isdigit c"
  shows "c \<noteq> CHR ''.''" "c \<noteq> CHR '';''" "c \<noteq> CHR ''/''" "c \<noteq> CHR ''|''" "c \<noteq> CHR '',''" "c \<noteq> CHR ''(''" "c \<noteq> CHR '')''"
    "c \<noteq> CHR ''!''" "c \<noteq> CHR ''$''" "c \<noteq> CHR ''#''" "c \<noteq> CHR ''-''" "c \<noteq> CHR '' ''" "c \<noteq> newline" "c \<noteq> tab_char"
    "c \<noteq> CHR ''i''" "c \<noteq> CHR ''x''" "\<not> is_lower c" "symbol_char c"
proof -
  show "\<not> is_lower c" using assms by (simp add: is_lower_def c_isdigit_def)
  show "symbol_char c" using assms by (simp add: symbol_char_def mnemonic_char_def)
qed (use assms in auto)

text \<open>Where a number, a name or a mnemonic ends.\<close>

definition delimited :: "string \<Rightarrow> bool" where
  "delimited r \<longleftrightarrow> r \<noteq> [] \<and> hd r \<in> {CHR '' '', CHR '','', CHR '')'', newline}"

lemma delimited_ends:
  assumes "delimited r"
  shows "r \<noteq> []" "\<not> symbol_char (hd r)" "\<not> mnemonic_char (hd r)" "\<not> reg_char (hd r)" "\<not> c_isdigit (hd r)" "hd r \<noteq> CHR '':''"
    "hd r \<noteq> CHR ''x''"
  using assms by (auto simp: delimited_def reg_char_def)

lemma digits_match:
  assumes "delimited r"
  shows "m_digits (digits_in 10 n @ r) = length (digits_in 10 n)" "span symbol_char (digits_in 10 n @ r) = length (digits_in 10 n)"
proof -
  have d: "list_all c_isdigit (digits_in 10 n)" "digits_in 10 n \<noteq> []" using digits_10[of n] by simp_all
  have "\<not> starts ''0x'' (digits_in 10 n @ r)"
  proof
    assume s: "starts ''0x'' (digits_in 10 n @ r)"
    obtain c cs where c: "digits_in 10 n = c # cs" using d(2) by (cases "digits_in 10 n") auto
    show False
    proof (cases cs)
      case Nil
      with s c delimited_ends(1,7)[OF assms] show False by (cases r) auto
    next
      case (Cons e es)
      with s c d(1) show False by auto
    qed
  qed
  then have "m_digits (digits_in 10 n @ r) = span c_isdigit (digits_in 10 n @ r)" unfolding m_digits_def by simp
  then show "m_digits (digits_in 10 n @ r) = length (digits_in 10 n)"
    using span_append[OF d(1), of r] delimited_ends(5)[OF assms] by simp
  have "list_all symbol_char (digits_in 10 n)" using d(1) digit_ne(18) by (auto simp: list_all_iff)
  then show "span symbol_char (digits_in 10 n @ r) = length (digits_in 10 n)"
    using span_append[of symbol_char "digits_in 10 n" r] delimited_ends(2)[OF assms] by simp
qed

lemma integer_matches:
  fixes v :: i32
  assumes "delimited r"
  defines "s \<equiv> fmt_d v @ r"
  shows "m_integer s = length (fmt_d v)" "m_label b s = 0" "m_mnemonic s = 0" "m_line_comment s = 0"
    "m_prefixed (CHR ''$'') reg_char s = 0" "m_prefixed (CHR ''#'') symbol_char s = 0"
    "hd s \<noteq> newline" "hd s \<noteq> CHR '' ''" "hd s \<noteq> tab_char" "s \<noteq> []" "1 \<le> length (fmt_d v)"
    "\<forall>c\<in>set [CHR ''.'', CHR ''/'', CHR ''|'', CHR '','', CHR ''('', CHR '')'', CHR ''i'', CHR ''!'', newline]. hd s \<noteq> c"
proof -
  define ds where "ds = digits_in 10 (nat \<bar>sint v\<bar>)"
  note m = digits_match[OF assms(1), of "nat \<bar>sint v\<bar>", folded ds_def]
  obtain c cs where c: "ds = c # cs" "c_isdigit c" using digits_10[of "nat \<bar>sint v\<bar>"] by (cases ds) (auto simp: ds_def)
  note ne = digit_ne[OF c(2)] digit_ne(1-16)[OF c(2), symmetric]
  have r: "\<not> starts '':'' r" using delimited_ends(1,6)[OF assms(1)] by (cases r) auto
  have "m_integer s = length (fmt_d v) \<and> m_label b s = 0 \<and> m_mnemonic s = 0 \<and> m_line_comment s = 0 \<and>
    m_prefixed (CHR ''$'') reg_char s = 0 \<and> m_prefixed (CHR ''#'') symbol_char s = 0 \<and>
    hd s \<noteq> newline \<and> hd s \<noteq> CHR '' '' \<and> hd s \<noteq> tab_char \<and> s \<noteq> [] \<and> 1 \<le> length (fmt_d v) \<and>
    (\<forall>c\<in>set [CHR ''.'', CHR ''/'', CHR ''|'', CHR '','', CHR ''('', CHR '')'', CHR ''i'', CHR ''!'', newline]. hd s \<noteq> c)"
  proof (cases "sint v < 0")
    case True
    then have s: "s = CHR ''-'' # ds @ r" "fmt_d v = CHR ''-'' # ds" by (simp_all add: s_def fmt_d_def ds_def)
    show ?thesis using m c(1)
      by (simp add: s m_integer_def m_label_def m_mnemonic_def m_line_comment_def m_prefixed_def Let_def span_Cons)
  next
    case False
    then have s: "s = ds @ r" "fmt_d v = ds" by (simp_all add: s_def fmt_d_def ds_def)
    have "m_integer s = m_digits s" using ne by (simp add: m_integer_def s c(1))
    moreover have "m_label b s = 0" using m(2) r by (simp add: m_label_def s Let_def)
    ultimately show ?thesis using m(1) ne
      by (simp add: s) (simp add: c(1) m_mnemonic_def m_line_comment_def m_prefixed_def Let_def)
  qed
  then show "m_integer s = length (fmt_d v)" "m_label b s = 0" "m_mnemonic s = 0" "m_line_comment s = 0"
    "m_prefixed (CHR ''$'') reg_char s = 0" "m_prefixed (CHR ''#'') symbol_char s = 0"
    "hd s \<noteq> newline" "hd s \<noteq> CHR '' ''" "hd s \<noteq> tab_char" "s \<noteq> []" "1 \<le> length (fmt_d v)"
    "\<forall>c\<in>set [CHR ''.'', CHR ''/'', CHR ''|'', CHR '','', CHR ''('', CHR '')'', CHR ''i'', CHR ''!'', newline]. hd s \<noteq> c"
    by blast+
qed

lemma next_rule_integer:
  assumes "delimited r"
  shows "next_rule CODE b (fmt_d v @ r) = (R_integer, length (fmt_d v))"
    "next_rule DATA b (fmt_d v @ r) = (R_data_integer, length (fmt_d v))"
proof -
  note m = integer_matches[OF assms, where v = v]
  have lit: "m_lit (c # l) (fmt_d v @ r) = 0"
    if "c \<in> set [CHR ''.'', CHR ''/'', CHR ''|'', CHR '','', CHR ''('', CHR '')'', CHR ''i'', CHR ''!'', newline]" for c l
    using m(12) m(10) that by (cases "fmt_d v @ r") (auto simp: m_lit_def)
  show "next_rule CODE b (fmt_d v @ r) = (R_integer, length (fmt_d v))"
    using m(1-11) lit
    by (intro next_rule_pick[where pre = "[R_code, R_data, R_line_comment, R_open_comment, R_pipe, R_comma, R_par_open, R_par_close,
       R_if, R_not, R_align, R_register, R_symbol_ref]" and post = "[R_mnemonic, R_label, R_blank, R_newline, R_echo]"])
      (simp_all add: active_rules less_Suc_eq_le Suc_le_eq)
  show "next_rule DATA b (fmt_d v @ r) = (R_data_integer, length (fmt_d v))"
    using m(1-11) lit
    by (intro next_rule_pick[where pre = "[R_code, R_data, R_line_comment, R_open_comment, R_data_dword, R_data_word, R_data_skip]"
       and post = "[R_data_symbol_ref, R_data_label, R_blank, R_newline, R_echo]"])
      (simp_all add: active_rules less_Suc_eq_le Suc_le_eq)
qed

section \<open>Printed programs\<close>

text \<open>A program as text: one line for every data element and every bundle.\<close>

definition text_operand :: "operand \<Rightarrow> string" where
  "text_operand op =
     (case op_type op of
        INTEGER \<Rightarrow> fmt_d (op_offset op)
      | SYMBOL_REF \<Rightarrow> CHR ''#'' # (case op_name op of Some x \<Rightarrow> x | None \<Rightarrow> [])
      | _ \<Rightarrow> CHR ''$'' # (case op_name op of Some x \<Rightarrow> x | None \<Rightarrow> []))"

fun text_list :: "string \<Rightarrow> ('a \<Rightarrow> string) \<Rightarrow> 'a list \<Rightarrow> string" where
  "text_list sep f [] = []"
| "text_list sep f [x] = f x"
| "text_list sep f (x # xs) = f x @ sep @ text_list sep f xs"

definition text_instruction :: "instruction \<Rightarrow> string" where
  "text_instruction i =
     (case inst_pred i of
        None \<Rightarrow> []
      | Some p \<Rightarrow> ''if ('' @ (if inst_pred_neg i \<noteq> 0 then ''!'' else []) @ CHR ''$'' # p @ '') '') @
     inst_mnemonic i @ (if inst_ops i = [] then [] else CHR '' '' # text_list '', '' text_operand (inst_ops i))"

definition text_bundle :: "inst_bundle \<Rightarrow> string" where
  "text_bundle ib =
     (case ib_label ib of
        Some x \<Rightarrow> x @ '':''
      | None \<Rightarrow>
          if ib_insts ib = [] then tab_char # ''.align '' @ fmt_d (ib_align ib)
          else tab_char # text_list '' | '' text_instruction (ib_insts ib)) @ [newline]"

definition text_data :: "data_element \<Rightarrow> string" where
  "text_data d =
     (case de_label d of
        Some x \<Rightarrow> x @ '':''
      | None \<Rightarrow>
          (case de_symref d of
             Some x \<Rightarrow> tab_char # ''.word #'' @ x
           | None \<Rightarrow>
               if de_skip_length d \<noteq> 0 then tab_char # ''.skip '' @ fmt_d (de_skip_length d)
               else tab_char # ''.word '' @ fmt_d (de_value d))) @ [newline]"

definition text_program :: "data_element list \<Rightarrow> inst_bundle list \<Rightarrow> string" where
  "text_program ds bs =
     ''.data'' @ [newline] @ concat (map text_data ds) @ ''.code'' @ [newline] @ concat (map text_bundle bs)"

text \<open>The programs that can be written: the nodes of the grammar with names of the right characters.\<close>

definition is_name :: "(char \<Rightarrow> bool) \<Rightarrow> string \<Rightarrow> bool" where
  "is_name p x \<longleftrightarrow> x \<noteq> [] \<and> list_all p x"

definition is_mnemonic :: "string \<Rightarrow> bool" where
  "is_mnemonic m \<longleftrightarrow> m \<noteq> [] \<and> is_lower (hd m) \<and> list_all mnemonic_char m \<and> m \<noteq> ''if''"

definition writable_operand :: "operand \<Rightarrow> bool" where
  "writable_operand op \<longleftrightarrow>
     (case op_type op of
        INTEGER \<Rightarrow> op_name op = None
      | REG \<Rightarrow> op_offset op = 0 \<and> (case op_name op of Some x \<Rightarrow> is_name reg_char x | None \<Rightarrow> False)
      | SYMBOL_REF \<Rightarrow> op_offset op = 0 \<and> (case op_name op of Some x \<Rightarrow> is_name symbol_char x | None \<Rightarrow> False)
      | REG_WITH_OFFSET \<Rightarrow> False)"

definition writable_instruction :: "instruction \<Rightarrow> bool" where
  "writable_instruction i \<longleftrightarrow> is_mnemonic (inst_mnemonic i) \<and> list_all writable_operand (inst_ops i) \<and>
     (case inst_pred i of None \<Rightarrow> inst_pred_neg i = 0 | Some p \<Rightarrow> is_name reg_char p \<and> inst_pred_neg i \<in> {0, 1})"

definition writable_bundle :: "inst_bundle \<Rightarrow> bool" where
  "writable_bundle ib \<longleftrightarrow>
     (case ib_label ib of
        Some x \<Rightarrow> is_name symbol_char x \<and> ib_insts ib = [] \<and> ib_align ib = 0
      | None \<Rightarrow> list_all writable_instruction (ib_insts ib) \<and> (ib_insts ib = [] \<or> ib_align ib = 0))"

definition writable_data :: "data_element \<Rightarrow> bool" where
  "writable_data d \<longleftrightarrow>
     (case de_label d of
        Some x \<Rightarrow> is_name symbol_char x \<and> de_symref d = None \<and> de_value d = 0 \<and> de_skip_length d = 0
      | None \<Rightarrow>
          (case de_symref d of
             Some x \<Rightarrow> is_name symbol_char x \<and> de_value d = 0 \<and> de_skip_length d = 0
           | None \<Rightarrow> de_value d = 0 \<or> de_skip_length d = 0))"

text \<open>The tokens of a printed program; an instruction has the number of its line.\<close>

definition toks_operand :: "operand \<Rightarrow> token list" where
  "toks_operand op =
     (case op_type op of
        INTEGER \<Rightarrow> [TOK_INTEGER (op_offset op)]
      | SYMBOL_REF \<Rightarrow> [TOK_SYMBOL_REF (case op_name op of Some x \<Rightarrow> x | None \<Rightarrow> [])]
      | _ \<Rightarrow> [TOK_REGISTER (case op_name op of Some x \<Rightarrow> x | None \<Rightarrow> [])])"

fun toks_list :: "token \<Rightarrow> ('a \<Rightarrow> token list) \<Rightarrow> 'a list \<Rightarrow> token list" where
  "toks_list sep f [] = []"
| "toks_list sep f [x] = f x"
| "toks_list sep f (x # xs) = f x @ sep # toks_list sep f xs"

definition toks_instruction :: "i32 \<Rightarrow> instruction \<Rightarrow> token list" where
  "toks_instruction n i =
     (case inst_pred i of
        None \<Rightarrow> []
      | Some p \<Rightarrow> [TOK_IF, TOK_PAR_OPEN] @ (if inst_pred_neg i \<noteq> 0 then [TOK_NOT] else []) @ [TOK_REGISTER p, TOK_PAR_CLOSE]) @
     TOK_MNEMONIC (inst_mnemonic i) n # toks_list TOK_COMMA toks_operand (inst_ops i)"

definition toks_bundle :: "i32 \<Rightarrow> inst_bundle \<Rightarrow> token list" where
  "toks_bundle n ib =
     (case ib_label ib of
        Some x \<Rightarrow> [TOK_LABEL x]
      | None \<Rightarrow>
          if ib_insts ib = [] then [TOK_ALIGN, TOK_INTEGER (ib_align ib)]
          else toks_list TOK_PIPE (toks_instruction n) (ib_insts ib))"

definition toks_data :: "data_element \<Rightarrow> token list" where
  "toks_data d =
     (case de_label d of
        Some x \<Rightarrow> [TOK_DATA_LABEL x]
      | None \<Rightarrow>
          (case de_symref d of
             Some x \<Rightarrow> [TOK_DATA_WORD, TOK_DATA_SYMBOL_REF x]
           | None \<Rightarrow>
               if de_skip_length d \<noteq> 0 then [TOK_DATA_SKIP, TOK_DATA_INTEGER (de_skip_length d)]
               else [TOK_DATA_WORD, TOK_DATA_INTEGER (de_value d)]))"

section \<open>The scanner on a printed program\<close>

lemma last_not_newline: "y \<noteq> [] \<Longrightarrow> newline \<notin> set y \<Longrightarrow> last y \<noteq> newline"
  by (metis last_in_set)

lemma no_newline:
  "list_all symbol_char x \<Longrightarrow> newline \<notin> set x" "list_all mnemonic_char x \<Longrightarrow> newline \<notin> set x"
  "list_all reg_char x \<Longrightarrow> newline \<notin> set x" "newline \<notin> set (fmt_d v)"
proof -
  have "newline \<notin> set (digits_in 10 n)" for n using digits_10[of n] by (auto simp: list_all_iff)
  then show "newline \<notin> set (fmt_d v)" by (simp add: fmt_d_def)
qed (auto simp: list_all_iff reg_char_def)

lemma lexes_code_literal:
  assumes "sc_start st = CODE"
  shows "lexes l (pos st (CHR ''|'' # r) b n) (seen l code_sections [TOK_PIPE]) (pos st r False n)"
    "lexes l (pos st (CHR '','' # r) b n) (seen l code_sections [TOK_COMMA]) (pos st r False n)"
    "lexes l (pos st (CHR ''('' # r) b n) (seen l code_sections [TOK_PAR_OPEN]) (pos st r False n)"
    "lexes l (pos st (CHR '')'' # r) b n) (seen l code_sections [TOK_PAR_CLOSE]) (pos st r False n)"
    "lexes l (pos st (CHR ''!'' # r) b n) (seen l code_sections [TOK_NOT]) (pos st r False n)"
    "lexes l (pos st (''if'' @ CHR '' '' # r) b n) (seen l code_sections [TOK_IF]) (pos st (CHR '' '' # r) False n)"
    "lexes l (pos st (''.align'' @ CHR '' '' # r) b n) (seen l code_sections [TOK_ALIGN]) (pos st (CHR '' '' # r) False n)"
  using lexes_token[of st b "''|''" r R_pipe] lexes_token[of st b "'',''" r R_comma]
    lexes_token[of st b "''(''" r R_par_open] lexes_token[of st b "'')''" r R_par_close] lexes_token[of st b "''!''" r R_not]
    lexes_token[of st b "''if''" "CHR '' '' # r" R_if] lexes_token[of st b "''.align''" "CHR '' '' # r" R_align]
  by (simp_all add: assms code_literals code_if[simplified] code_align[simplified] newline_def)

lemma lexes_code_word:
  assumes "sc_start st = CODE" "delimited r"
  shows "is_name reg_char x \<Longrightarrow>
      lexes l (pos st (CHR ''$'' # x @ r) b n) (seen l code_sections [TOK_REGISTER x]) (pos st r False n)"
    "is_name symbol_char x \<Longrightarrow>
      lexes l (pos st (CHR ''#'' # x @ r) b n) (seen l code_sections [TOK_SYMBOL_REF x]) (pos st r False n)"
    "is_mnemonic x \<Longrightarrow>
      lexes l (pos st (x @ r) b n) (seen l code_sections [TOK_MNEMONIC x n]) (pos st r False n)"
    "lexes l (pos st (fmt_d v @ r) b n) (seen l code_sections [TOK_INTEGER v]) (pos st r False n)"
proof -
  note d = delimited_ends[OF assms(2)]
  show "lexes l (pos st (CHR ''$'' # x @ r) b n) (seen l code_sections [TOK_REGISTER x]) (pos st r False n)"
    if x: "is_name reg_char x"
    using lexes_token[of st b "CHR ''$'' # x" r R_register] code_register[of x r b] d(4) x no_newline(3)[of x]
      last_not_newline[of "CHR ''$'' # x"] by (simp add: assms(1) is_name_def)
  show "lexes l (pos st (CHR ''#'' # x @ r) b n) (seen l code_sections [TOK_SYMBOL_REF x]) (pos st r False n)"
    if x: "is_name symbol_char x"
    using lexes_token[of st b "CHR ''#'' # x" r R_symbol_ref] code_symbol(1)[of x r b] d(2) x no_newline(1)[of x]
      last_not_newline[of "CHR ''#'' # x"] by (simp add: assms(1) is_name_def)
  show "lexes l (pos st (x @ r) b n) (seen l code_sections [TOK_MNEMONIC x n]) (pos st r False n)"
    if x: "is_mnemonic x"
  proof -
    obtain c y where c: "x = c # y" "is_lower c" "list_all mnemonic_char y" "c # y \<noteq> ''if''"
      using x by (cases x) (auto simp: is_mnemonic_def)
    from code_mnemonic[OF c(2-4) d(1,3,2,6), of b] lexes_token[of st b x r R_mnemonic] x no_newline(2)[of x]
      last_not_newline[of x] show ?thesis by (simp add: assms(1) c(1) is_mnemonic_def)
  qed
  show "lexes l (pos st (fmt_d v @ r) b n) (seen l code_sections [TOK_INTEGER v]) (pos st r False n)"
    using lexes_token[of st b "fmt_d v" r R_integer] next_rule_integer(1)[OF assms(2), of b v] no_newline(4)[of v]
      last_not_newline[of "fmt_d v"] integer_matches(11)[OF assms(2), where v = v]
    by (cases "fmt_d v = []") (simp_all add: assms(1) strtol_fmt_d)
qed

lemma lexes_label:
  assumes "is_name symbol_char x"
  shows "sc_start st = CODE \<Longrightarrow> lexes l (pos st (x @ CHR '':'' # r) True n) (seen l code_sections [TOK_LABEL x]) (pos st r False n)"
    "sc_start st = DATA \<Longrightarrow> lexes l (pos st (x @ CHR '':'' # r) True n) (seen l data_sections [TOK_DATA_LABEL x]) (pos st r False n)"
  using lexes_token[of st True "x @ '':''" r R_label] lexes_token[of st True "x @ '':''" r R_data_label]
    next_rule_label[of x r] assms by (simp_all add: is_name_def)

lemma lexes_then:
  "lexes l st (seen l k ts) st' \<Longrightarrow> lexes l st' (seen l k us) st'' \<Longrightarrow> lexes l st (seen l k (ts @ us)) st''"
  using lexes_trans[of l st "seen l k ts" st' "seen l k us" st''] by simp

lemma lexes_space:
  "sc_start st \<noteq> COMMENT \<Longrightarrow> lexes l (pos st (CHR '' '' # r) b n) (seen l k []) (pos st r False n)"
  "sc_start st \<noteq> COMMENT \<Longrightarrow> lexes l (pos st (tab_char # r) b n) (seen l k []) (pos st r False n)"
  "sc_start st \<noteq> COMMENT \<Longrightarrow> lexes l (pos st (newline # r) b n) (seen l k []) (pos st r True (n + 1))"
  using lexes_blank[of st "CHR '' ''" l r b n] lexes_blank[of st tab_char l r b n] lexes_newline[of st l r b n] by simp_all

lemma delimited_Cons: "c \<in> {CHR '' '', CHR '','', CHR '')'', newline} \<Longrightarrow> delimited (c # r)"
  by (auto simp: delimited_def)

lemma lexes_operand:
  assumes "sc_start st = CODE" "writable_operand op" "delimited r"
  shows "lexes l (pos st (text_operand op @ r) b n) (seen l code_sections (toks_operand op)) (pos st r False n)"
  using assms(2) lexes_code_word[OF assms(1,3)]
  by (auto simp: writable_operand_def text_operand_def toks_operand_def split: operand_type.splits option.splits)

lemma lexes_operands:
  assumes "sc_start st = CODE" "list_all writable_operand ops" "ops \<noteq> []" "delimited r"
  shows "lexes l (pos st (text_list '', '' text_operand ops @ r) b n)
    (seen l code_sections (toks_list TOK_COMMA toks_operand ops)) (pos st r False n)"
  using assms(2-)
proof (induction "'', ''" text_operand ops arbitrary: b rule: text_list.induct)
  case (2 op)
  with lexes_operand[OF assms(1)] show ?case by simp
next
  case (3 op op2 ops)
  let ?t = "text_list '', '' text_operand (op2 # ops) @ r"
  have "lexes l (pos st (text_operand op @ CHR '','' # CHR '' '' # ?t) b n) (seen l code_sections (toks_operand op))
      (pos st (CHR '','' # CHR '' '' # ?t) False n)"
    using 3 by (intro lexes_operand[OF assms(1)]) (simp_all add: delimited_Cons)
  note this[THEN lexes_then, OF lexes_code_literal(2)[OF assms(1)], THEN lexes_then, OF lexes_space(1)]
  moreover have "lexes l (pos st ?t False n) (seen l code_sections (toks_list TOK_COMMA toks_operand (op2 # ops))) (pos st r False n)"
    using 3 by simp
  ultimately show ?case using lexes_then assms(1) by fastforce
qed simp

lemma lexes_instruction:
  assumes "sc_start st = CODE" "writable_instruction i" "delimited r"
  shows "lexes l (pos st (text_instruction i @ r) b n) (seen l code_sections (toks_instruction n i)) (pos st r False n)"
proof -
  have main: "lexes l (pos st (inst_mnemonic i @ (if inst_ops i = [] then [] else CHR '' '' # text_list '', '' text_operand (inst_ops i)) @ r) b n)
      (seen l code_sections (TOK_MNEMONIC (inst_mnemonic i) n # toks_list TOK_COMMA toks_operand (inst_ops i))) (pos st r False n)" for b
  proof (cases "inst_ops i = []")
    case True
    then show ?thesis using lexes_code_word(3)[OF assms(1,3)] assms(2) by (simp add: writable_instruction_def)
  next
    case False
    let ?t = "text_list '', '' text_operand (inst_ops i) @ r"
    have "lexes l (pos st (inst_mnemonic i @ CHR '' '' # ?t) b n) (seen l code_sections [TOK_MNEMONIC (inst_mnemonic i) n])
        (pos st (CHR '' '' # ?t) False n)"
      using assms(2) by (intro lexes_code_word(3)[OF assms(1)]) (simp_all add: delimited_Cons writable_instruction_def)
    note this[THEN lexes_then, OF lexes_space(1), THEN lexes_then, OF _ lexes_operands]
    from this[OF _ assms(1) _ False assms(3)] assms(1,2) False show ?thesis by (simp add: writable_instruction_def)
  qed
  show ?thesis
  proof (cases "inst_pred i")
    case None
    with main show ?thesis by (simp add: text_instruction_def toks_instruction_def)
  next
    case (Some p)
    let ?m = "inst_mnemonic i @ (if inst_ops i = [] then [] else CHR '' '' # text_list '', '' text_operand (inst_ops i)) @ r"
    let ?neg = "if inst_pred_neg i \<noteq> 0 then ''!'' else []"
    have p: "is_name reg_char p" using assms(2) Some by (simp add: writable_instruction_def)
    have sc: "sc_start st \<noteq> COMMENT" using assms(1) by simp
    have "lexes l (pos st (''if'' @ CHR '' '' # CHR ''('' # ?neg @ CHR ''$'' # p @ CHR '')'' # CHR '' '' # ?m) b n)
        (seen l code_sections ([TOK_IF] @ [] @ [TOK_PAR_OPEN])) (pos st (?neg @ CHR ''$'' # p @ CHR '')'' # CHR '' '' # ?m) False n)"
      by (rule lexes_then lexes_code_literal(6)[OF assms(1)] lexes_space(1)[OF sc] lexes_code_literal(3)[OF assms(1)])+
    moreover have "lexes l (pos st (?neg @ CHR ''$'' # p @ CHR '')'' # CHR '' '' # ?m) False n)
        (seen l code_sections (if inst_pred_neg i \<noteq> 0 then [TOK_NOT] else []))
        (pos st (CHR ''$'' # p @ CHR '')'' # CHR '' '' # ?m) False n)"
      using lexes_code_literal(5)[OF assms(1)] lexes_refl by simp
    moreover have "lexes l (pos st (CHR ''$'' # p @ CHR '')'' # CHR '' '' # ?m) False n)
        (seen l code_sections ([TOK_REGISTER p] @ [TOK_PAR_CLOSE] @ [])) (pos st ?m False n)"
      by ((rule lexes_then lexes_code_word(1)[OF assms(1) _ p] lexes_code_literal(4)[OF assms(1)] lexes_space(1)[OF sc])
          | simp add: delimited_Cons)+
    ultimately have "lexes l (pos st (''if'' @ CHR '' '' # CHR ''('' # ?neg @ CHR ''$'' # p @ CHR '')'' # CHR '' '' # ?m) b n)
        (seen l code_sections (([TOK_IF] @ [] @ [TOK_PAR_OPEN]) @ (if inst_pred_neg i \<noteq> 0 then [TOK_NOT] else []) @
          ([TOK_REGISTER p] @ [TOK_PAR_CLOSE] @ []) @
          (TOK_MNEMONIC (inst_mnemonic i) n # toks_list TOK_COMMA toks_operand (inst_ops i)))) (pos st r False n)"
      using main[of False] by (blast intro: lexes_then)
    with Some show ?thesis by (simp add: text_instruction_def toks_instruction_def split: if_splits)
  qed
qed

lemma lexes_instructions:
  assumes "sc_start st = CODE" "list_all writable_instruction insts" "insts \<noteq> []" "delimited r"
  shows "lexes l (pos st (text_list '' | '' text_instruction insts @ r) b n)
    (seen l code_sections (toks_list TOK_PIPE (toks_instruction n) insts)) (pos st r False n)"
  using assms(2-)
proof (induction "'' | ''" text_instruction insts arbitrary: b rule: text_list.induct)
  case (2 i)
  with lexes_instruction[OF assms(1)] show ?case by simp
next
  case (3 i i2 insts)
  let ?t = "text_list '' | '' text_instruction (i2 # insts) @ r"
  have sc: "sc_start st \<noteq> COMMENT" using assms(1) by simp
  have "lexes l (pos st (text_instruction i @ CHR '' '' # CHR ''|'' # CHR '' '' # ?t) b n) (seen l code_sections (toks_instruction n i))
      (pos st (CHR '' '' # CHR ''|'' # CHR '' '' # ?t) False n)"
    using 3 by (intro lexes_instruction[OF assms(1)]) (simp_all add: delimited_Cons)
  moreover have "lexes l (pos st (CHR '' '' # CHR ''|'' # CHR '' '' # ?t) False n) (seen l code_sections ([] @ [TOK_PIPE] @ []))
      (pos st ?t False n)"
    by (rule lexes_then lexes_space(1)[OF sc] lexes_code_literal(1)[OF assms(1)])+
  moreover have "lexes l (pos st ?t False n) (seen l code_sections (toks_list TOK_PIPE (toks_instruction n) (i2 # insts))) (pos st r False n)"
    using 3 by simp
  ultimately have "lexes l (pos st (text_instruction i @ CHR '' '' # CHR ''|'' # CHR '' '' # ?t) b n)
      (seen l code_sections (toks_instruction n i @ ([] @ [TOK_PIPE] @ []) @ toks_list TOK_PIPE (toks_instruction n) (i2 # insts)))
      (pos st r False n)" by (blast intro: lexes_then)
  then show ?case by simp
qed simp

lemma lexes_bundle:
  assumes "sc_start st = CODE" "writable_bundle ib"
  shows "lexes l (pos st (text_bundle ib @ r) True n) (seen l code_sections (toks_bundle n ib)) (pos st r True (n + 1))"
proof (cases "ib_label ib")
  case (Some x)
  have sc: "sc_start st \<noteq> COMMENT" using assms(1) by simp
  have x: "is_name symbol_char x" using assms(2) Some by (simp add: writable_bundle_def)
  have "lexes l (pos st (x @ CHR '':'' # newline # r) True n) (seen l code_sections ([TOK_LABEL x] @ [])) (pos st r True (n + 1))"
    by (rule lexes_then lexes_label(1)[OF x assms(1)] lexes_space(3)[OF sc])+
  with Some show ?thesis by (simp add: text_bundle_def toks_bundle_def)
next
  case None
  have sc: "sc_start st \<noteq> COMMENT" using assms(1) by simp
  have d: "delimited (newline # r)" by (simp add: delimited_Cons)
  show ?thesis
  proof (cases "ib_insts ib = []")
    case True
    have "lexes l (pos st (tab_char # ''.align'' @ CHR '' '' # fmt_d (ib_align ib) @ newline # r) True n)
        (seen l code_sections ([] @ [TOK_ALIGN] @ [] @ [TOK_INTEGER (ib_align ib)] @ [])) (pos st r True (n + 1))"
      by (rule lexes_then lexes_code_literal(7)[OF assms(1)] lexes_code_word(4)[OF assms(1) d] lexes_space(1-3)[OF sc])+
    with None True show ?thesis by (simp add: text_bundle_def toks_bundle_def)
  next
    case False
    have w: "list_all writable_instruction (ib_insts ib)" using assms(2) None by (simp add: writable_bundle_def)
    have "lexes l (pos st (tab_char # text_list '' | '' text_instruction (ib_insts ib) @ newline # r) True n)
        (seen l code_sections ([] @ toks_list TOK_PIPE (toks_instruction n) (ib_insts ib) @ [])) (pos st r True (n + 1))"
      by (rule lexes_then lexes_instructions[OF assms(1) w False d] lexes_space(2,3)[OF sc])+
    with None False show ?thesis by (simp add: text_bundle_def toks_bundle_def)
  qed
qed

section \<open>Data lines and sections\<close>

lemma data_literals:
  "next_rule DATA b (''.word'' @ CHR '' '' # r) = (R_data_word, 5)"
  "next_rule DATA b (''.skip'' @ CHR '' '' # r) = (R_data_skip, 5)"
  by (simp_all add: next_rule_def active_rules match_defs)

lemma section_literals:
  assumes "sc \<noteq> COMMENT"
  shows "next_rule sc b (''.data'' @ newline # r) = (R_data, 5)" "next_rule sc b (''.code'' @ newline # r) = (R_code, 5)"
  using assms by (cases sc; simp add: next_rule_def active_rules match_defs)+

lemma lexes_data_word:
  assumes "sc_start st = DATA"
  shows "lexes l (pos st (''.word'' @ CHR '' '' # r) b n) (seen l data_sections [TOK_DATA_WORD]) (pos st (CHR '' '' # r) False n)"
    "lexes l (pos st (''.skip'' @ CHR '' '' # r) b n) (seen l data_sections [TOK_DATA_SKIP]) (pos st (CHR '' '' # r) False n)"
    "is_name symbol_char x \<Longrightarrow> delimited r \<Longrightarrow>
      lexes l (pos st (CHR ''#'' # x @ r) b n) (seen l data_sections [TOK_DATA_SYMBOL_REF x]) (pos st r False n)"
    "delimited r \<Longrightarrow> lexes l (pos st (fmt_d v @ r) b n) (seen l data_sections [TOK_DATA_INTEGER v]) (pos st r False n)"
proof -
  show "lexes l (pos st (''.word'' @ CHR '' '' # r) b n) (seen l data_sections [TOK_DATA_WORD]) (pos st (CHR '' '' # r) False n)"
    "lexes l (pos st (''.skip'' @ CHR '' '' # r) b n) (seen l data_sections [TOK_DATA_SKIP]) (pos st (CHR '' '' # r) False n)"
    using lexes_token[of st b "''.word''" "CHR '' '' # r" R_data_word] lexes_token[of st b "''.skip''" "CHR '' '' # r" R_data_skip]
    by (simp_all add: assms data_literals[simplified] newline_def)
  show "lexes l (pos st (CHR ''#'' # x @ r) b n) (seen l data_sections [TOK_DATA_SYMBOL_REF x]) (pos st r False n)"
    if x: "is_name symbol_char x" and d: "delimited r"
    using lexes_token[of st b "CHR ''#'' # x" r R_data_symbol_ref] code_symbol(2)[of x r b] delimited_ends(2)[OF d] x no_newline(1)[of x]
      last_not_newline[of "CHR ''#'' # x"] by (simp add: assms is_name_def)
  show "lexes l (pos st (fmt_d v @ r) b n) (seen l data_sections [TOK_DATA_INTEGER v]) (pos st r False n)" if d: "delimited r"
    using lexes_token[of st b "fmt_d v" r R_data_integer] next_rule_integer(2)[OF d, of b v] no_newline(4)[of v]
      last_not_newline[of "fmt_d v"] integer_matches(11)[OF d, where v = v]
    by (cases "fmt_d v = []") (simp_all add: assms strtol_fmt_d)
qed

lemma lexes_data:
  assumes "sc_start st = DATA" "writable_data d"
  shows "lexes l (pos st (text_data d @ r) True n) (seen l data_sections (toks_data d)) (pos st r True (n + 1))"
proof -
  have sc: "sc_start st \<noteq> COMMENT" using assms(1) by simp
  have d: "delimited (newline # r)" by (simp add: delimited_Cons)
  have label: "lexes l (pos st (x @ CHR '':'' # newline # r) True n) (seen l data_sections ([TOK_DATA_LABEL x] @ [])) (pos st r True (n + 1))"
    if "is_name symbol_char x" for x
    by (rule lexes_then lexes_label(2)[OF that assms(1)] lexes_space(3)[OF sc])+
  have symbol: "lexes l (pos st (tab_char # ''.word'' @ CHR '' '' # CHR ''#'' # x @ newline # r) True n)
      (seen l data_sections ([] @ [TOK_DATA_WORD] @ [] @ [TOK_DATA_SYMBOL_REF x] @ [])) (pos st r True (n + 1))"
    if "is_name symbol_char x" for x
    by (rule lexes_then lexes_data_word(1)[OF assms(1)] lexes_data_word(3)[OF assms(1) that d] lexes_space[OF sc])+
  have skip: "lexes l (pos st (tab_char # ''.skip'' @ CHR '' '' # fmt_d v @ newline # r) True n)
      (seen l data_sections ([] @ [TOK_DATA_SKIP] @ [] @ [TOK_DATA_INTEGER v] @ [])) (pos st r True (n + 1))" for v
    by (rule lexes_then lexes_data_word(2)[OF assms(1)] lexes_data_word(4)[OF assms(1) d] lexes_space[OF sc])+
  have word: "lexes l (pos st (tab_char # ''.word'' @ CHR '' '' # fmt_d v @ newline # r) True n)
      (seen l data_sections ([] @ [TOK_DATA_WORD] @ [] @ [TOK_DATA_INTEGER v] @ [])) (pos st r True (n + 1))" for v
    by (rule lexes_then lexes_data_word(1)[OF assms(1)] lexes_data_word(4)[OF assms(1) d] lexes_space[OF sc])+
  show ?thesis
    using assms(2) label symbol skip[of "de_skip_length d"] word[of "de_value d"]
    by (auto simp: writable_data_def text_data_def toks_data_def split: option.splits)
qed

lemma lexes_data_lines:
  assumes "sc_start st = DATA" "list_all writable_data ds"
  shows "lexes l (pos st (concat (map text_data ds) @ r) True n) (seen l data_sections (concat (map toks_data ds)))
    (pos st r True (n + of_nat (length ds)))"
  using assms(2)
proof (induction ds arbitrary: n)
  case (Cons d ds)
  have "lexes l (pos st (text_data d @ concat (map text_data ds) @ r) True n) (seen l data_sections (toks_data d @ concat (map toks_data ds)))
    (pos st r True (n + 1 + of_nat (length ds)))"
    using Cons by (intro lexes_then[OF lexes_data[OF assms(1)]]) simp_all
  then show ?case by (simp add: algebra_simps)
qed (simp add: lexes_refl)

fun toks_bundles :: "i32 \<Rightarrow> inst_bundle list \<Rightarrow> token list" where
  "toks_bundles n [] = []"
| "toks_bundles n (ib # bs) = toks_bundle n ib @ toks_bundles (n + 1) bs"

lemma lexes_bundles:
  assumes "sc_start st = CODE" "list_all writable_bundle bs"
  shows "lexes l (pos st (concat (map text_bundle bs) @ r) True n) (seen l code_sections (toks_bundles n bs))
    (pos st r True (n + of_nat (length bs)))"
  using assms(2)
proof (induction bs arbitrary: n)
  case (Cons ib bs)
  have "lexes l (pos st (text_bundle ib @ concat (map text_bundle bs) @ r) True n) (seen l code_sections (toks_bundle n ib @ toks_bundles (n + 1) bs))
    (pos st r True (n + 1 + of_nat (length bs)))"
    using Cons by (intro lexes_then[OF lexes_bundle[OF assms(1)]]) simp_all
  then show ?case by (simp add: algebra_simps)
qed (simp add: lexes_refl)

lemma lexes_section:
  assumes "sc_start st \<noteq> COMMENT"
  shows "lexes l (pos st (''.data'' @ newline # r) b n) [] (pos (begin_section St_data DATA st) r True (n + 1))"
    "lexes l (pos st (''.code'' @ newline # r) b n) [] (pos (begin_section St_code CODE st) r True (n + 1))"
proof -
  have "scan_step l (pos st (''.data'' @ newline # r) b n) = Good (None, pos (begin_section St_data DATA st) (newline # r) False n)"
    "scan_step l (pos st (''.code'' @ newline # r) b n) = Good (None, pos (begin_section St_code CODE st) (newline # r) False n)"
    using section_literals[OF assms, of b r]
    by (simp_all add: scan_step_def rule_action_def begin_section_def pos_def newline_def)
  from this[THEN lexes_step[rotated]]
  have "lexes l (pos st (''.data'' @ newline # r) b n) [] (pos (begin_section St_data DATA st) (newline # r) False n)"
    "lexes l (pos st (''.code'' @ newline # r) b n) [] (pos (begin_section St_code CODE st) (newline # r) False n)" by simp_all
  moreover have "lexes l (pos (begin_section St_data DATA st) (newline # r) False n) [] (pos (begin_section St_data DATA st) r True (n + 1))"
    "lexes l (pos (begin_section St_code CODE st) (newline # r) False n) [] (pos (begin_section St_code CODE st) r True (n + 1))"
    by (simp_all add: lexes_newline begin_section_def)
  ultimately show "lexes l (pos st (''.data'' @ newline # r) b n) [] (pos (begin_section St_data DATA st) r True (n + 1))"
    "lexes l (pos st (''.code'' @ newline # r) b n) [] (pos (begin_section St_code CODE st) r True (n + 1))"
    using lexes_trans[of l _ "[]"] by fastforce+
qed

lemma scan_program:
  assumes "sc_start st \<noteq> COMMENT" "list_all writable_data ds" "list_all writable_bundle bs"
    and "sc_rest st = text_program ds bs" "sc_bol st" "sc_lineno st = 1"
  shows "\<exists>st'. scan_tokens l st = Good (seen l data_sections (concat (map toks_data ds)) @
      seen l code_sections (toks_bundles (of_nat (length ds) + 3) bs), st') \<and> sc_start st' = CODE"
proof -
  let ?d = "begin_section St_data DATA st"
  let ?c = "begin_section St_code CODE ?d"
  let ?n = "1 + 1 + of_nat (length ds) :: i32"
  let ?code = "concat (map text_bundle bs)"
  have st: "st = pos st (''.data'' @ newline # concat (map text_data ds) @ ''.code'' @ newline # ?code @ []) True 1"
    using assms(4-6) by (simp add: pos_def text_program_def)
  have 1: "lexes l (pos st (''.data'' @ newline # concat (map text_data ds) @ ''.code'' @ newline # ?code @ []) True 1) []
      (pos ?d (concat (map text_data ds) @ ''.code'' @ newline # ?code @ []) True (1 + 1))"
    by (rule lexes_section(1)[OF assms(1)])
  have 2: "lexes l (pos ?d (concat (map text_data ds) @ ''.code'' @ newline # ?code @ []) True (1 + 1))
      (seen l data_sections (concat (map toks_data ds))) (pos ?d (''.code'' @ newline # ?code @ []) True ?n)"
    by (rule lexes_data_lines[OF _ assms(2)]) (simp add: begin_section_def)
  have 3: "lexes l (pos ?d (''.code'' @ newline # ?code @ []) True ?n) [] (pos ?c (?code @ []) True (?n + 1))"
    by (rule lexes_section(2)) (simp add: begin_section_def)
  have 4: "lexes l (pos ?c (?code @ []) True (?n + 1)) (seen l code_sections (toks_bundles (?n + 1) bs))
      (pos ?c [] True (?n + 1 + of_nat (length bs)))"
    by (rule lexes_bundles[OF _ assms(3)]) (simp add: begin_section_def)
  have "lexes l st ([] @ seen l data_sections (concat (map toks_data ds)) @ [] @ seen l code_sections (toks_bundles (?n + 1) bs))
      (pos ?c [] True (?n + 1 + of_nat (length bs)))"
    by (subst st) (rule lexes_trans[OF 1 lexes_trans[OF 2 lexes_trans[OF 3 4]]])
  from lexes_end[OF this] show ?thesis by (simp add: begin_section_def algebra_simps)
qed

section \<open>The tokens of a printed program are a sentence\<close>

lemma g_writable_operand: "writable_operand op \<Longrightarrow> g_operand (toks_operand op) [op]"
proof (cases "op_type op")
  case REG
  assume w: "writable_operand op"
  with REG obtain x where "op = reg_operand_node x" by (cases op) (auto simp: writable_operand_def reg_operand_node_def split: option.splits)
  then show ?thesis using g_reg[of x] by (simp add: toks_operand_def reg_operand_node_def)
next
  case INTEGER
  assume w: "writable_operand op"
  with INTEGER obtain v where "op = integer_node v" by (cases op) (auto simp: writable_operand_def integer_node_def)
  then show ?thesis using g_integer[of v] by (simp add: toks_operand_def integer_node_def)
next
  case SYMBOL_REF
  assume w: "writable_operand op"
  with SYMBOL_REF obtain x where "op = symbol_node x" by (cases op) (auto simp: writable_operand_def symbol_node_def split: option.splits)
  then show ?thesis using g_symbol[of x] by (simp add: toks_operand_def symbol_node_def)
qed (simp add: writable_operand_def)

lemma g_writable_operands:
  "list_all writable_operand ops \<Longrightarrow> ops \<noteq> [] \<Longrightarrow> g_operand_list (toks_list TOK_COMMA toks_operand ops) ops"
proof (induction TOK_COMMA toks_operand ops rule: toks_list.induct)
  case (2 op)
  then show ?case by (simp add: g_ops_one g_writable_operand)
next
  case (3 op op2 ops)
  then have "g_operand_list (toks_operand op @ TOK_COMMA # toks_list TOK_COMMA toks_operand (op2 # ops)) ([op] @ op2 # ops)"
    by (intro g_operand_list_cons g_writable_operand) simp_all
  then show ?case by simp
qed simp

lemma g_writable_instruction:
  assumes "writable_instruction i"
  shows "g_instruction (toks_instruction n i) (i\<lparr>inst_lineno := n\<rparr>)"
proof -
  let ?ops = "inst_ops i" and ?m = "inst_mnemonic i"
  have ops: "?ops = [] \<or> g_operand_list (toks_list TOK_COMMA toks_operand ?ops) ?ops"
    using g_writable_operands assms by (auto simp: writable_instruction_def)
  have i: "i\<lparr>inst_lineno := n\<rparr> = instruction_node (inst_pred i) (inst_pred_neg i) ?m n ?ops"
    by (cases i) (simp add: instruction_node_def)
  show ?thesis
  proof (cases "inst_pred i")
    case None
    with assms have "inst_pred_neg i = 0" by (simp add: writable_instruction_def)
    with None ops i show ?thesis
      using g_inst[of ?m n] g_inst_ops[of _ ?ops ?m n] by (auto simp: toks_instruction_def)
  next
    case (Some p)
    with assms have "inst_pred_neg i = 0 \<or> inst_pred_neg i = 1" by (simp add: writable_instruction_def)
    with Some ops i show ?thesis
      using g_if[of p ?m n] g_if_ops[of _ ?ops p ?m n] g_if_not[of p ?m n] g_if_not_ops[of _ ?ops p ?m n]
      by (auto simp: toks_instruction_def)
  qed
qed

text \<open>The bundle with the number of its line.\<close>

definition at_line :: "i32 \<Rightarrow> inst_bundle \<Rightarrow> inst_bundle" where
  "at_line n ib = ib\<lparr>ib_insts := map (\<lambda>i. i\<lparr>inst_lineno := n\<rparr>) (ib_insts ib)\<rparr>"

fun number_lines :: "i32 \<Rightarrow> inst_bundle list \<Rightarrow> inst_bundle list" where
  "number_lines n [] = []"
| "number_lines n (ib # bs) = at_line n ib # number_lines (n + 1) bs"

lemma g_writable_instructions:
  "list_all writable_instruction insts \<Longrightarrow> insts \<noteq> [] \<Longrightarrow>
   g_instruction_list (toks_list TOK_PIPE (toks_instruction n) insts) (map (\<lambda>i. i\<lparr>inst_lineno := n\<rparr>) insts)"
proof (induction TOK_PIPE "toks_instruction n" insts rule: toks_list.induct)
  case (2 i)
  then show ?case by (simp add: g_insts_one g_writable_instruction)
next
  case (3 i i2 insts)
  then have "g_instruction_list (toks_instruction n i @ TOK_PIPE # toks_list TOK_PIPE (toks_instruction n) (i2 # insts))
      (i\<lparr>inst_lineno := n\<rparr> # map (\<lambda>i. i\<lparr>inst_lineno := n\<rparr>) (i2 # insts))"
    by (intro g_instruction_list_cons g_writable_instruction) simp_all
  then show ?case by simp
qed simp

lemma g_writable_bundle:
  assumes "writable_bundle ib"
  shows "g_inst_bundle (toks_bundle n ib) (at_line n ib)"
proof (cases "ib_label ib")
  case (Some x)
  with assms have "at_line n ib = label_node x" by (cases ib) (simp add: at_line_def label_node_def writable_bundle_def)
  with Some g_label[of x] show ?thesis by (simp add: toks_bundle_def)
next
  case None
  show ?thesis
  proof (cases "ib_insts ib = []")
    case True
    with None have "at_line n ib = align_node (ib_align ib)" by (cases ib) (simp add: at_line_def align_node_def)
    with None True g_align[of "ib_align ib"] show ?thesis by (simp add: toks_bundle_def)
  next
    case False
    with None assms have "at_line n ib = insts_node (map (\<lambda>i. i\<lparr>inst_lineno := n\<rparr>) (ib_insts ib))"
      by (cases ib) (simp add: at_line_def insts_node_def writable_bundle_def)
    with None False assms g_bundle[OF g_writable_instructions] show ?thesis
      by (simp add: toks_bundle_def writable_bundle_def)
  qed
qed

lemma g_writable_bundles:
  "list_all writable_bundle bs \<Longrightarrow> bs \<noteq> [] \<Longrightarrow> g_inst_bundle_list (toks_bundles n bs) (number_lines n bs)"
proof (induction bs arbitrary: n)
  case (Cons ib bs)
  have b: "g_inst_bundle (toks_bundle n ib) (at_line n ib)" using Cons.prems by (simp add: g_writable_bundle)
  show ?case
  proof (cases "bs = []")
    case True
    with b show ?thesis by (simp add: g_bundles_one)
  next
    case False
    with Cons b show ?thesis by (simp add: g_inst_bundle_list_cons)
  qed
qed simp

lemma g_writable_data:
  assumes "writable_data d"
  shows "g_data_element (toks_data d) d"
proof (cases "de_label d")
  case (Some x)
  with assms have "d = data_node (Some x) None 0 0" by (cases d) (simp add: data_node_def writable_data_def)
  then show ?thesis using g_data_label[of x] by (simp add: toks_data_def data_node_def)
next
  case l: None
  show ?thesis
  proof (cases "de_symref d")
    case (Some x)
    with assms l have "d = data_node None (Some x) 0 0" by (cases d) (simp add: data_node_def writable_data_def)
    then show ?thesis using g_word_symbol[of x] by (simp add: toks_data_def data_node_def)
  next
    case None
    with assms l have "d = (if de_skip_length d \<noteq> 0 then data_node None None 0 (de_skip_length d) else data_node None None (de_value d) 0)"
      by (cases d) (auto simp: data_node_def writable_data_def)
    with l None show ?thesis
      using g_skip[of "de_skip_length d"] g_word[of "de_value d"] by (simp add: toks_data_def split: if_splits)
  qed
qed

lemma g_writable_data_list:
  "list_all writable_data ds \<Longrightarrow> ds \<noteq> [] \<Longrightarrow> g_data_element_list (concat (map toks_data ds)) ds"
proof (induction ds)
  case (Cons d ds)
  have d: "g_data_element (toks_data d) d" using Cons.prems by (simp add: g_writable_data)
  show ?case
  proof (cases "ds = []")
    case True
    with d show ?thesis by (simp add: g_data_one)
  next
    case False
    with Cons d show ?thesis by (simp add: g_data_element_list_cons)
  qed
qed simp

section \<open>Reading a program back\<close>

lemma parse_text:
  assumes "list_all writable_data ds" "ds \<noteq> []" "list_all writable_bundle bs" "bs \<noteq> []"
  shows "parse_source (text_program ds bs) = Good (ds, number_lines (of_nat (length ds) + 3) bs)"
proof -
  let ?s = "text_program ds bs"
  obtain st1 where st1: "scan_tokens code_sections (scanner_init ?s) = Good (toks_bundles (of_nat (length ds) + 3) bs, st1)"
    "sc_start st1 = CODE"
    using scan_program[of "scanner_init ?s" ds bs code_sections] assms(1,3) by (auto simp: scanner_init_def seen_def)
  obtain st2 where st2: "scan_tokens data_sections (st1\<lparr>sc_rest := ?s, sc_bol := True, sc_lineno := 1\<rparr>) = Good (concat (map toks_data ds), st2)"
    using scan_program[of "st1\<lparr>sc_rest := ?s, sc_bol := True, sc_lineno := 1\<rparr>" ds bs data_sections] assms(1,3) st1(2)
    by (auto simp: seen_def)
  from p_program_complete[OF g_code_only[OF g_writable_bundles[OF assms(3,4)]]]
    p_program_complete[OF g_data_only[OF g_writable_data_list[OF assms(1,2)]]]
  show ?thesis by (simp add: parse_source_def yyparse_def sentence_value_eq st1 st2 assigned_def)
qed

text \<open>C17: the text of a program is read back: whatever can be written with the names and numbers of the
  grammar is scanned and parsed as the same data elements and bundles, each instruction with the number
  of its line.\<close>

theorem source_reads_back:
  assumes "list_all writable_data ds" "ds \<noteq> []" "list_all writable_bundle bs" "bs \<noteq> []"
  shows "parse_source (text_program ds bs) = Good (ds, number_lines (of_nat (length ds) + 3) bs)"
  by (rule parse_text[OF assms])

section \<open>Texts the assembler does not take\<close>

text \<open>The scanner is not in a data section and has not been in one.\<close>

definition outside_data :: "scanner \<Rightarrow> bool" where
  "outside_data st \<longleftrightarrow> sc_start st \<noteq> DATA \<and> sc_current st \<noteq> St_data \<and> sc_last st \<noteq> St_data \<and> \<not> sublist ''.data'' (sc_rest st)"

lemma starts_prefix: "starts l s \<longleftrightarrow> prefix l s"
  by (induction l s rule: starts.induct) auto

lemma next_rule_match:
  assumes "next_rule sc b s = (r, n)" "s \<noteq> []" "r \<noteq> R_line_comment"
  shows "0 < rule_match b s r"
proof -
  have "longest (rule_match b s) (filter (active sc) rules) (R_echo, 0) = (r, n)"
    using assms(1,3) by (auto simp: next_rule_def split: prod.splits if_splits)
  then have "n = 0 \<or> n = rule_match b s r" by (rule longest_len[rotated]) simp
  with next_rule_positive[OF assms(2,1)] show ?thesis by auto
qed

lemma outside_data_step:
  assumes "outside_data st" "sc_rest st \<noteq> []" "scan_step l st = Good (t, st')"
  shows "outside_data st' \<and> (l = data_sections \<longrightarrow> t = None)"
proof -
  obtain r n where n: "next_rule (sc_start st) (sc_bol st) (sc_rest st) = (r, n)" by fastforce
  let ?y = "take n (sc_rest st)"
  let ?st = "st\<lparr>sc_rest := drop n (sc_rest st), sc_bol := (last ?y = newline)\<rparr>"
  have a: "active (sc_start st) r" by (rule next_rule_active[OF n assms(2)])
  have st': "rule_action r ?y ?st = Good st'"
    and t: "t = (case rule_token ?y (sc_lineno st) r of Some (l', t) \<Rightarrow> if l = l' then Some t else None | None \<Rightarrow> None)"
    using assms(3) by (auto simp: scan_step_def n Let_def obind_eq_Good)
  have "sublist (drop n (sc_rest st)) (sc_rest st)" by (simp add: sublist_drop)
  then have rest: "\<not> sublist ''.data'' (drop n (sc_rest st))"
    using assms(1) sublist_order.order_trans unfolding outside_data_def by blast
  have "r \<noteq> R_data"
  proof
    assume "r = R_data"
    with next_rule_match[OF n assms(2)] have "prefix ''.data'' (sc_rest st)"
      by (simp add: m_lit_def starts_prefix[symmetric] split: if_splits)
    with assms(1) show False using prefix_imp_sublist unfolding outside_data_def by blast
  qed
  then have "outside_data st'"
    using st' assms(1) rest
    by (auto simp: rule_action_def outside_data_def begin_section_def end_comment_def Let_def split: if_splits section_state.splits)
  moreover have "rule_token y k r \<noteq> Some (data_sections, x)" for y k x
    using a assms(1) by (cases r) (auto simp: active_def rule_cond_def outside_data_def)
  ultimately show ?thesis using t by (auto split: option.splits prod.splits)
qed

lemma outside_data_yylex:
  "yylex l st = Good (t, st') \<Longrightarrow> outside_data st \<Longrightarrow> outside_data st' \<and> (l = data_sections \<longrightarrow> t = None)"
proof (induction l st arbitrary: t st' rule: yylex.induct)
  case (1 l st)
  show ?case
  proof (cases "sc_rest st = []")
    case True
    with 1(2,3) show ?thesis by (auto simp: yylex.simps[of l st])
  next
    case False
    then obtain t' u where u: "scan_step l st = Good (t', u)"
      using 1(2) by (auto simp: yylex.simps[of l st] split: outcome.splits)
    note s = outside_data_step[OF 1(3) False u]
    show ?thesis
    proof (cases t')
      case None
      then have "yylex l u = Good (t, st')" using 1(2) False u by (simp add: yylex.simps[of l st])
      with 1(1)[OF False u refl None] s show ?thesis by simp
    next
      case (Some x)
      with 1(2) False u s show ?thesis by (auto simp: yylex.simps[of l st])
    qed
  qed
qed

lemma outside_data_tokens:
  "scan_tokens l st = Good (ts, st') \<Longrightarrow> outside_data st \<Longrightarrow>
   sc_start st' \<noteq> DATA \<and> sc_current st' \<noteq> St_data \<and> sc_last st' \<noteq> St_data \<and> (l = data_sections \<longrightarrow> ts = [])"
proof (induction l st arbitrary: ts st' rule: scan_tokens.induct)
  case (1 l st)
  then obtain t u where u: "yylex l st = Good (t, u)"
    by (auto simp: scan_tokens.simps[of l st] split: outcome.splits)
  note s = outside_data_yylex[OF u 1(3)]
  show ?case
  proof (cases t)
    case None
    with 1(2) u s show ?thesis by (auto simp: scan_tokens.simps[of l st] outside_data_def)
  next
    case (Some x)
    then obtain us where "scan_tokens l u = Good (us, st')"
      using 1(2) u by (auto simp: scan_tokens.simps[of l st] split: outcome.splits)
    with 1(1)[OF u refl Some] s Some show ?thesis by auto
  qed
qed

lemma yyparse_Good: "yyparse l st = Good (r, st') \<longleftrightarrow> (\<exists>ts. scan_tokens l st = Good (ts, st') \<and> p_program ts = Some r)"
  by (auto simp: yyparse_def sentence_value_eq split: outcome.splits option.splits)

text \<open>C23: a program without a data section is a syntax error: the second run of the parser finds no
  token, and the grammar has no empty program.\<close>

theorem no_data_section_rejected:
  assumes "\<not> sublist ''.data'' s"
  shows "parse_source s = Fail Syntax_error"
proof (rule ccontr)
  assume "parse_source s \<noteq> Fail Syntax_error"
  then obtain ds bs where "parse_source s = Good (ds, bs)" using parse_source_total by blast
  then obtain ts st1 us st2 d2 c2 where t: "scan_tokens code_sections (scanner_init s) = Good (ts, st1)"
    and u: "scan_tokens data_sections (st1\<lparr>sc_rest := s, sc_bol := True, sc_lineno := 1\<rparr>) = Good (us, st2)"
    and p: "p_program us = Some (d2, c2)"
    by (fastforce simp: parse_source_def yyparse_Good obind_eq_Good)
  have "outside_data (scanner_init s)" using assms by (simp add: outside_data_def scanner_init_def)
  from outside_data_tokens[OF t this] assms have "outside_data (st1\<lparr>sc_rest := s, sc_bol := True, sc_lineno := 1\<rparr>)"
    by (simp add: outside_data_def)
  from outside_data_tokens[OF u this] have "us = []" by simp
  with p show False
    by (simp add: p_program_def p_inst_bundle_list.simps p_inst_bundle_def p_instruction_list.simps p_instruction_def
        p_mnemonic_def expect_def)
qed

theorem no_data_section_rejected_witness:
  "parse_source (''.code'' @ [newline] @ concat (map text_bundle (take 1 sample_code))) = Fail Syntax_error"
proof -
  have "\<not> sublist ''.data'' (''.code'' @ [newline] @ concat (map text_bundle (take 1 sample_code)))" by code_simp
  then show ?thesis by (rule no_data_section_rejected)
qed

text \<open>The newline that ends a line comment is looked at but not taken; both the comment and the newline
  count a line.\<close>

lemma line_comment_counts_twice:
  assumes "sc_start st \<noteq> COMMENT" "newline \<notin> set x"
  shows "lexes l (pos st ('';#'' @ x @ newline # r) b n) [] (pos st r True (n + 1 + 1))"
proof -
  let ?y = "'';#'' @ x"
  have "span (\<lambda>c. c \<noteq> newline) (x @ newline # r) = length x"
    using span_append[of "\<lambda>c. c \<noteq> newline" x "newline # r"] assms(2) by (auto simp: list_all_iff)
  then have m: "m_line_comment (?y @ newline # r) = length ?y + 1"
    by (simp add: m_line_comment_def Let_def span_Cons)
  have s: "?y @ newline # r = CHR '';'' # CHR ''#'' # x @ newline # r" by simp
  have "next_rule (sc_start st) b (?y @ newline # r) = (R_line_comment, length ?y)"
    using m assms(1) unfolding s
    by (cases "sc_start st")
      (simp_all add: next_rule_def active_rules m_lit_def m_prefixed_def m_mnemonic_def m_integer_def m_digits_def m_label_def
        Let_def span_Cons)
  moreover have "newline \<notin> set ?y" using assms(2) by (simp add: newline_def)
  ultimately have "scan_step l (pos st (?y @ newline # r) b n) = Good (None, pos st (newline # r) False (n + 1))"
    using last_not_newline[of ?y] by (simp add: scan_step_def rule_action_def)
  from lexes_step[OF _ this] have "lexes l (pos st (?y @ newline # r) b n) [] (pos st (newline # r) False (n + 1))" by simp
  from lexes_trans[OF this lexes_newline[OF assms(1)]] show ?thesis by simp
qed

text \<open>An upper case letter inside a line of code is no error: it is copied to the output and left out.\<close>

lemma upper_case_ignored:
  assumes "sc_start st = CODE" "65 \<le> (of_char c :: nat)" "(of_char c :: nat) \<le> 90"
  shows "lexes l (pos st (c # r) False n) [] (pos (st\<lparr>sc_echo := sc_echo st @ [c]\<rparr>) r False n)"
proof -
  have c: "\<not> is_lower c" "\<not> c_isdigit c" "c \<noteq> CHR ''.''" "c \<noteq> CHR '';''" "c \<noteq> CHR ''/''" "c \<noteq> CHR ''|''" "c \<noteq> CHR '',''"
    "c \<noteq> CHR ''(''" "c \<noteq> CHR '')''" "c \<noteq> CHR ''!''" "c \<noteq> CHR ''$''" "c \<noteq> CHR ''#''" "c \<noteq> CHR ''-''" "c \<noteq> CHR '' ''"
    "c \<noteq> CHR ''0''" "c \<noteq> CHR ''i''" "c \<noteq> newline" "c \<noteq> tab_char"
    using assms(2,3) by (auto simp: is_lower_def c_isdigit_def newline_def tab_char_def)
  note c' = c(3-)[symmetric]
  have "next_rule CODE False (c # r) = (R_echo, 1)"
    using c c' by (simp add: next_rule_def active_rules match_defs)
  then have "scan_step l (pos st (c # r) False n) = Good (None, pos (st\<lparr>sc_echo := sc_echo st @ [c]\<rparr>) r False n)"
    using assms(1) c(17) by (simp add: scan_step_def rule_action_def pos_def)
  from lexes_step[OF _ this] show ?thesis by simp
qed

lemma sample_writable: "list_all writable_data sample_data" "sample_data \<noteq> []" "list_all writable_bundle sample_code" "sample_code \<noteq> []"
  by code_simp+

theorem source_reads_back_witness:
  "parse_source (text_program sample_data sample_code) = Good (sample_data, number_lines 7 sample_code)"
  using source_reads_back[OF sample_writable] by (simp add: sample_data_def)

section \<open>From the text to the memory files\<close>

text \<open>The command line with only the name of a file.\<close>

lemma asm_main_one_file:
  assumes "\<not> starts ''-'' f" "files f = Some s"
  shows "asm_main files [f] =
    obind (parse_source s) (\<lambda>(ds, bs).
      case asm_gen_opcodes False ds bs init of
        Good out \<Rightarrow> Good (output_files ''out'' out) | Fail e \<Rightarrow> Fail (Assembler_error e) | Undef \<Rightarrow> Undef)"
  using assms by (simp add: asm_main_def asm_arg_def Let_def)

text \<open>What the assembler writes for a file that is parsed.\<close>

lemma asm_main_images:
  assumes "\<not> starts ''-'' f" "files f = Some s" "parse_source s = Good (ds, bs)" "asm_main files [f] = Good outs"
  shows "\<exists>st ws vs. map fst outs = [''out.lineno'', ''out.dmem'', ''out.imem'', ''out.map''] \<and>
    map_of outs ''out.imem'' = Some (output_imem (unat (imem_addr st)) st) \<and>
    map_of outs ''out.dmem'' = Some (output_dmem (unat (dmem_addr st)) st) \<and>
    code_image (symtab_p st) bs 0 ws \<and> data_image (symtab_p st) ds = Some vs \<and>
    imem_addr st = of_nat (length ws) \<and> dmem_addr st = of_nat (length vs) \<and>
    (length ws \<le> 65536 \<longrightarrow> (\<forall>i<length ws. imem st (of_nat i) = ws ! i)) \<and>
    (length vs \<le> 65536 \<longrightarrow> (\<forall>i<length vs. dmem st (of_nat i) = vs ! i))"
proof -
  obtain st hex where out: "asm_gen_opcodes False ds bs init = Good (st, hex)" "outs = output_files ''out'' (st, hex)"
    using assms(4) by (auto simp: asm_main_one_file[where s = s and f = f and files = files, OF assms(1,2)] assms(3) split: outcome.splits)
  from run_images[OF out(1)] obtain ws vs where
    w: "code_image (symtab_p st) bs 0 ws" "data_image (symtab_p st) ds = Some vs"
    "imem_addr st = of_nat (length ws)" "dmem_addr st = of_nat (length vs)"
    "length ws \<le> 65536 \<Longrightarrow> \<forall>i<length ws. imem st (of_nat i) = ws ! i" "dmem st = store_words vs 0 (dmem init)" by metis
  have "dmem st (of_nat i) = vs ! i" if "length vs \<le> 65536" "i < length vs" for i
    using store_words_nth[OF that(2,1), of 0] by (simp add: w(6))
  moreover have "hex = output_hex False st" using out(1) by (auto simp: asm_gen_opcodes_def obind_eq_Good)
  ultimately show ?thesis using out(2) w(1-5) by (intro exI[of _ st] exI[of _ ws] exI[of _ vs])
      (auto simp: output_files_def output_hex_def)
qed

text \<open>C16: the assembler run on the text of a program writes the images of that program: when it succeeds,
  \<open>out.imem\<close> and \<open>out.dmem\<close> are the files of memories that hold the words of the bundles and of the data
  elements.\<close>

theorem assembler_writes_program:
  assumes "\<not> starts ''-'' f" "files f = Some (text_program ds bs)" "asm_main files [f] = Good outs"
    and "list_all writable_data ds" "ds \<noteq> []" "list_all writable_bundle bs" "bs \<noteq> []"
  shows "\<exists>st ws vs. map fst outs = [''out.lineno'', ''out.dmem'', ''out.imem'', ''out.map''] \<and>
    map_of outs ''out.imem'' = Some (output_imem (unat (imem_addr st)) st) \<and>
    map_of outs ''out.dmem'' = Some (output_dmem (unat (dmem_addr st)) st) \<and>
    code_image (symtab_p st) (number_lines (of_nat (length ds) + 3) bs) 0 ws \<and> data_image (symtab_p st) ds = Some vs \<and>
    imem_addr st = of_nat (length ws) \<and> dmem_addr st = of_nat (length vs) \<and>
    (length ws \<le> 65536 \<longrightarrow> (\<forall>i<length ws. imem st (of_nat i) = ws ! i)) \<and>
    (length vs \<le> 65536 \<longrightarrow> (\<forall>i<length vs. dmem st (of_nat i) = vs ! i))"
  by (rule asm_main_images[OF assms(1,2) parse_text[OF assms(4-7)] assms(3)])

lemma sample_numbered_run:
  "\<exists>out. asm_gen_opcodes False sample_data (number_lines 7 sample_code) init = Good out"
  by (simp add: exec_simps at_line_def)

theorem assembler_writes_program_witness:
  "\<exists>outs st. asm_main (\<lambda>_. Some (text_program sample_data sample_code)) [''prog.asm''] = Good outs \<and>
     map_of outs ''out.imem'' = Some (output_imem (unat (imem_addr st)) st) \<and>
     data_image (symtab_p st) sample_data \<noteq> None"
proof -
  let ?files = "\<lambda>_ :: string. Some (text_program sample_data sample_code)"
  obtain out where "asm_gen_opcodes False sample_data (number_lines 7 sample_code) init = Good out"
    using sample_numbered_run by blast
  moreover have "of_nat (length sample_data) + 3 = (7 :: i32)" by (simp add: sample_data_def)
  ultimately have m: "asm_main ?files [''prog.asm''] = Good (output_files ''out'' out)"
    using parse_text[OF sample_writable] by (simp add: asm_main_one_file)
  have "\<not> starts ''-'' ''prog.asm''" by simp
  from assembler_writes_program[of "''prog.asm''" ?files, OF this refl m sample_writable] obtain st vs
    where st: "map_of (output_files ''out'' out) ''out.imem'' = Some (output_imem (unat (imem_addr st)) st)"
      "data_image (symtab_p st) sample_data = Some vs" by blast
  show ?thesis by (rule exI[of _ "output_files ''out'' out"], rule exI[of _ st]) (simp only: m st option.distinct simp_thms)
qed

end
