(* ===== verification/GccData.thy ===== *)
theory GccData
  imports GccPrint AsmText
begin

text \<open>
  The data of a compiled program: what the GCC port prints for initialised and common variables, and how the
  assembler reads it.  The text of a name, the choice of the directive for a size and the printing of
  constants belong to GCC and are parameters; \<open>gcc_output_ok\<close> says what is documented of them.
\<close>

section \<open>What the port prints\<close>

definition TEXT_SECTION_ASM_OP :: string where "TEXT_SECTION_ASM_OP = ''.code''"
definition DATA_SECTION_ASM_OP :: string where "DATA_SECTION_ASM_OP = ''.data''"
definition READONLY_DATA_SECTION_ASM_OP :: string where "READONLY_DATA_SECTION_ASM_OP = ''.data''"

definition TARGET_ASM_BYTE_OP :: string where "TARGET_ASM_BYTE_OP = tab_char # ''.word'' @ [tab_char]"
definition TARGET_ASM_ALIGNED_HI_OP :: string where "TARGET_ASM_ALIGNED_HI_OP = tab_char # ''.dword'' @ [tab_char]"
definition TARGET_ASM_UNALIGNED_HI_OP :: string where "TARGET_ASM_UNALIGNED_HI_OP = tab_char # ''.dword'' @ [tab_char]"

record gcc_output =
  assemble_name :: "string \<Rightarrow> string"
  integer_asm_op :: "nat \<Rightarrow> bool \<Rightarrow> string option"
  output_addr_const :: "rtx \<Rightarrow> string"

text \<open>\<^term>\<open>None\<close> when there is no directive for the size.\<close>

definition ajardsp_assemble_integer :: "gcc_output \<Rightarrow> rtx \<Rightarrow> nat \<Rightarrow> bool \<Rightarrow> string option" where
  "ajardsp_assemble_integer out x sz aligned_p =
     (case integer_asm_op out sz aligned_p of
        None \<Rightarrow> None
      | Some op \<Rightarrow> Some (op @ output_addr_const out x @ [newline]))"

definition gcc_output_ok :: "gcc_output \<Rightarrow> bool" where
  "gcc_output_ok out \<longleftrightarrow>
     (\<forall>a. integer_asm_op out 1 a = Some TARGET_ASM_BYTE_OP) \<and>
     integer_asm_op out 2 True = Some TARGET_ASM_ALIGNED_HI_OP \<and> integer_asm_op out 2 False = Some TARGET_ASM_UNALIGNED_HI_OP \<and>
     (\<forall>v. output_addr_const out (Const_int_x v) = fmt_wide v) \<and>
     (\<forall>s. output_addr_const out (Symbol_ref_x s) = asm_output_symbol_ref (assemble_name out) s)"

text \<open>Pieces of data: a label with the default of \<open>ASM_OUTPUT_LABEL\<close>, and the calls of the hooks above.\<close>

datatype data_piece =
    Label_item string
  | Common_item string i32
  | Ascii_item "u8 list"
  | Skip_item i32
  | Integer_item rtx nat bool

definition item_text :: "gcc_output \<Rightarrow> data_piece \<Rightarrow> string" where
  "item_text out d =
     (case d of
        Label_item x \<Rightarrow> assemble_name out x @ '':'' @ [newline]
      | Common_item x sz \<Rightarrow> asm_output_common (assemble_name out) x sz
      | Ascii_item bs \<Rightarrow> ajardsp_asm_output_ascii bs
      | Skip_item n \<Rightarrow> asm_output_skip n
      | Integer_item x sz a \<Rightarrow> (case ajardsp_assemble_integer out x sz a of Some t \<Rightarrow> t | None \<Rightarrow> []))"

text \<open>The words the compiler counts for it: \<open>UNITS_PER_WORD\<close> is 1.\<close>

definition item_size :: "data_piece \<Rightarrow> nat" where
  "item_size d =
     (case d of
        Label_item x \<Rightarrow> 0
      | Common_item x sz \<Rightarrow> nat (sint sz)
      | Ascii_item bs \<Rightarrow> length bs
      | Skip_item n \<Rightarrow> nat (sint n)
      | Integer_item x sz a \<Rightarrow> sz)"

section \<open>What the assembler makes of it\<close>

definition word_element :: "i32 \<Rightarrow> data_element" where
  "word_element v = data_node None None v 0"

definition item_elements :: "gcc_output \<Rightarrow> data_piece \<Rightarrow> data_element list" where
  "item_elements out d =
     (case d of
        Label_item x \<Rightarrow> [data_node (Some (assemble_name out x)) None 0 0]
      | Common_item x sz \<Rightarrow> [data_node (Some (assemble_name out x)) None 0 0, data_node None None 0 sz]
      | Ascii_item bs \<Rightarrow> map (\<lambda>b. word_element (c_char b)) bs
      | Skip_item n \<Rightarrow> [data_node None None 0 n]
      | Integer_item (Const_int_x v) sz a \<Rightarrow> [word_element (word_of_int v)]
      | Integer_item (Symbol_ref_x s) sz a \<Rightarrow> [data_node None (Some (assemble_name out s)) 0 0]
      | _ \<Rightarrow> [])"

text \<open>Names of labels, positive lengths, integers and addresses of one word, and integers of two.\<close>

definition item_ok :: "gcc_output \<Rightarrow> data_piece \<Rightarrow> bool" where
  "item_ok out d \<longleftrightarrow>
     (case d of
        Label_item x \<Rightarrow> is_name symbol_char (assemble_name out x)
      | Common_item x sz \<Rightarrow> is_name symbol_char (assemble_name out x) \<and> 0 < sint sz
      | Ascii_item bs \<Rightarrow> True
      | Skip_item n \<Rightarrow> 0 < sint n
      | Integer_item (Const_int_x v) sz a \<Rightarrow> sz \<in> {1, 2}
      | Integer_item (Symbol_ref_x s) sz a \<Rightarrow> sz = 1 \<and> is_name symbol_char (assemble_name out s)
      | _ \<Rightarrow> False)"

section \<open>Scanning\<close>

definition toks_item :: "gcc_output \<Rightarrow> data_piece \<Rightarrow> token list" where
  "toks_item out d =
     (case d of
        Integer_item (Const_int_x v) sz a \<Rightarrow> [if sz = 1 then TOK_DATA_WORD else TOK_DATA_DWORD, TOK_DATA_INTEGER (word_of_int v)]
      | _ \<Rightarrow> concat (map toks_data (item_elements out d)))"

lemma data_tab_literals:
  "next_rule DATA b (''.word'' @ tab_char # r) = (R_data_word, 5)"
  "next_rule DATA b (''.dword'' @ tab_char # r) = (R_data_dword, 6)"
  "next_rule DATA b (''.skip'' @ tab_char # r) = (R_data_skip, 5)"
  by (simp_all add: next_rule_def active_rules match_defs)

lemma lexes_data_tab:
  assumes "sc_start st = DATA"
  shows "lexes l (pos st (''.word'' @ tab_char # r) b n) (seen l data_sections [TOK_DATA_WORD]) (pos st (tab_char # r) False n)"
    "lexes l (pos st (''.dword'' @ tab_char # r) b n) (seen l data_sections [TOK_DATA_DWORD]) (pos st (tab_char # r) False n)"
    "lexes l (pos st (''.skip'' @ tab_char # r) b n) (seen l data_sections [TOK_DATA_SKIP]) (pos st (tab_char # r) False n)"
  using lexes_token[of st b "''.word''" "tab_char # r" R_data_word] lexes_token[of st b "''.dword''" "tab_char # r" R_data_dword]
    lexes_token[of st b "''.skip''" "tab_char # r" R_data_skip]
  by (simp_all add: assms data_tab_literals[simplified] newline_def)

text \<open>A directive with a number or a symbol, between tabs.\<close>

lemma lexes_directive:
  assumes "sc_start st = DATA"
  shows "lexes l (pos st (tab_char # ''.word'' @ tab_char # fmt_d v @ newline # r) b n)
      (seen l data_sections [TOK_DATA_WORD, TOK_DATA_INTEGER v]) (pos st r True (n + 1))"
    "lexes l (pos st (tab_char # ''.dword'' @ tab_char # fmt_d v @ newline # r) b n)
      (seen l data_sections [TOK_DATA_DWORD, TOK_DATA_INTEGER v]) (pos st r True (n + 1))"
    "lexes l (pos st (tab_char # ''.skip'' @ tab_char # fmt_d v @ newline # r) b n)
      (seen l data_sections [TOK_DATA_SKIP, TOK_DATA_INTEGER v]) (pos st r True (n + 1))"
    "lexes l (pos st (''.skip'' @ CHR '' '' # fmt_d v @ newline # r) b n)
      (seen l data_sections [TOK_DATA_SKIP, TOK_DATA_INTEGER v]) (pos st r True (n + 1))"
    "is_name symbol_char x \<Longrightarrow> lexes l (pos st (tab_char # ''.word'' @ tab_char # CHR ''#'' # x @ newline # r) b n)
      (seen l data_sections [TOK_DATA_WORD, TOK_DATA_SYMBOL_REF x]) (pos st r True (n + 1))"
    "is_name symbol_char x \<Longrightarrow> lexes l (pos st (x @ CHR '':'' # newline # r) True n)
      (seen l data_sections [TOK_DATA_LABEL x]) (pos st r True (n + 1))"
proof -
  have sc: "sc_start st \<noteq> COMMENT" using assms by simp
  have d: "delimited (newline # r)" by (simp add: delimited_Cons)
  note steps = lexes_then lexes_data_tab[OF assms] lexes_space[OF sc] lexes_data_word[OF assms] lexes_label(2)[OF _ assms]
  have "lexes l (pos st (tab_char # ''.word'' @ tab_char # fmt_d v @ newline # r) b n)
      (seen l data_sections ([] @ [TOK_DATA_WORD] @ [] @ [TOK_DATA_INTEGER v] @ [])) (pos st r True (n + 1))"
    by (rule steps d)+
  then show "lexes l (pos st (tab_char # ''.word'' @ tab_char # fmt_d v @ newline # r) b n)
      (seen l data_sections [TOK_DATA_WORD, TOK_DATA_INTEGER v]) (pos st r True (n + 1))" by simp
  have "lexes l (pos st (tab_char # ''.dword'' @ tab_char # fmt_d v @ newline # r) b n)
      (seen l data_sections ([] @ [TOK_DATA_DWORD] @ [] @ [TOK_DATA_INTEGER v] @ [])) (pos st r True (n + 1))"
    by (rule steps d)+
  then show "lexes l (pos st (tab_char # ''.dword'' @ tab_char # fmt_d v @ newline # r) b n)
      (seen l data_sections [TOK_DATA_DWORD, TOK_DATA_INTEGER v]) (pos st r True (n + 1))" by simp
  have "lexes l (pos st (tab_char # ''.skip'' @ tab_char # fmt_d v @ newline # r) b n)
      (seen l data_sections ([] @ [TOK_DATA_SKIP] @ [] @ [TOK_DATA_INTEGER v] @ [])) (pos st r True (n + 1))"
    by (rule steps d)+
  then show "lexes l (pos st (tab_char # ''.skip'' @ tab_char # fmt_d v @ newline # r) b n)
      (seen l data_sections [TOK_DATA_SKIP, TOK_DATA_INTEGER v]) (pos st r True (n + 1))" by simp
  have "lexes l (pos st (''.skip'' @ CHR '' '' # fmt_d v @ newline # r) b n)
      (seen l data_sections ([TOK_DATA_SKIP] @ [] @ [TOK_DATA_INTEGER v] @ [])) (pos st r True (n + 1))"
    by (rule steps d)+
  then show "lexes l (pos st (''.skip'' @ CHR '' '' # fmt_d v @ newline # r) b n)
      (seen l data_sections [TOK_DATA_SKIP, TOK_DATA_INTEGER v]) (pos st r True (n + 1))" by simp
  show "lexes l (pos st (tab_char # ''.word'' @ tab_char # CHR ''#'' # x @ newline # r) b n)
      (seen l data_sections [TOK_DATA_WORD, TOK_DATA_SYMBOL_REF x]) (pos st r True (n + 1))" if "is_name symbol_char x"
  proof -
    have "lexes l (pos st (tab_char # ''.word'' @ tab_char # CHR ''#'' # x @ newline # r) b n)
        (seen l data_sections ([] @ [TOK_DATA_WORD] @ [] @ [TOK_DATA_SYMBOL_REF x] @ [])) (pos st r True (n + 1))"
      by (rule steps d that)+
    then show ?thesis by simp
  qed
  show "lexes l (pos st (x @ CHR '':'' # newline # r) True n) (seen l data_sections [TOK_DATA_LABEL x]) (pos st r True (n + 1))"
    if "is_name symbol_char x"
  proof -
    have "lexes l (pos st (x @ CHR '':'' # newline # r) True n) (seen l data_sections ([TOK_DATA_LABEL x] @ [])) (pos st r True (n + 1))"
      by (rule steps that)+
    then show ?thesis by simp
  qed
qed

text \<open>The text of a piece, line by line; a common variable begins the data section again.\<close>

lemma item_text_lines:
  "item_text out (Label_item x) @ r = assemble_name out x @ CHR '':'' # newline # r"
  "item_text out (Common_item x k) @ r = ''.data'' @ newline # assemble_name out x @ CHR '':'' # newline # ''.skip'' @ CHR '' '' # fmt_d k @ newline # r"
  "item_text out (Ascii_item []) @ r = r"
  "item_text out (Ascii_item (b # bs)) @ r = tab_char # ''.word'' @ tab_char # fmt_d (c_char b) @ newline # item_text out (Ascii_item bs) @ r"
  by (simp_all add: item_text_def asm_output_common_def ajardsp_asm_output_ascii_def)

lemma fmt_u_positive: "0 < sint n \<Longrightarrow> fmt_u n = fmt_d n"
proof -
  assume n: "0 < sint n"
  have "sint n = uint n"
    using n sint_uint[of n] uint_lt2p[of n] uint_ge_0[of n] take_bit_int_eq_self[of "uint n" 32]
    by (auto simp add: signed_take_bit_eq_take_bit_minus of_bool_def split: if_splits)
  then have "nat (sint n) = unat n" by simp
  with n show ?thesis by (simp add: fmt_u_def fmt_d_def)
qed

lemma skip_item_text: "0 < sint n \<Longrightarrow> item_text out (Skip_item n) @ r = tab_char # ''.skip'' @ tab_char # fmt_d n @ newline # r"
  by (simp add: item_text_def asm_output_skip_def fmt_u_positive)

lemma integer_item_text:
  assumes "gcc_output_ok out"
  shows "item_text out (Integer_item (Const_int_x v) 1 a) @ r = tab_char # ''.word'' @ tab_char # fmt_d (word_of_int v) @ newline # r"
    "item_text out (Integer_item (Const_int_x v) 2 a) @ r = tab_char # ''.dword'' @ tab_char # fmt_d (word_of_int v) @ newline # r"
    "item_text out (Integer_item (Symbol_ref_x s) 1 a) @ r = tab_char # ''.word'' @ tab_char # CHR ''#'' # assemble_name out s @ newline # r"
  using assms by (cases a; simp add: gcc_output_ok_def item_text_def ajardsp_assemble_integer_def TARGET_ASM_BYTE_OP_def
      TARGET_ASM_ALIGNED_HI_OP_def TARGET_ASM_UNALIGNED_HI_OP_def fmt_wide_def asm_output_symbol_ref_def)+

definition lexes_lines :: "lookfor_state \<Rightarrow> scanner \<Rightarrow> string \<Rightarrow> token list \<Rightarrow> string \<Rightarrow> bool" where
  "lexes_lines l st s ts r \<longleftrightarrow>
     (\<forall>n. \<exists>st' n'. sc_start st' = DATA \<and> lexes l (pos st s True n) (seen l data_sections ts) (pos st' r True n'))"

lemma lexes_lines_refl: "sc_start st = DATA \<Longrightarrow> lexes_lines l st r [] r"
  proof -
  assume "sc_start st = DATA"
  then show ?thesis unfolding lexes_lines_def
    by (intro allI, rule_tac x = st in exI, rule_tac x = n in exI) (simp add: lexes_refl)
qed

lemma lexes_lines_then:
  assumes "lexes_lines l st s ts s'" "\<And>st'. sc_start st' = DATA \<Longrightarrow> lexes_lines l st' s' us r"
  shows "lexes_lines l st s (ts @ us) r"
  unfolding lexes_lines_def
proof
  fix n
  obtain st1 n1 where 1: "sc_start st1 = DATA" "lexes l (pos st s True n) (seen l data_sections ts) (pos st1 s' True n1)"
    using assms(1) unfolding lexes_lines_def by blast
  obtain st2 n2 where 2: "sc_start st2 = DATA" "lexes l (pos st1 s' True n1) (seen l data_sections us) (pos st2 r True n2)"
    using assms(2)[OF 1(1)] unfolding lexes_lines_def by blast
  show "\<exists>st' n'. sc_start st' = DATA \<and> lexes l (pos st s True n) (seen l data_sections (ts @ us)) (pos st' r True n')"
    using 2(1) lexes_then[OF 1(2) 2(2)] by blast
qed

lemma lexes_linesI: "sc_start st' = DATA \<Longrightarrow> (\<And>n. lexes l (pos st s True n) (seen l data_sections ts) (pos st' r True (n + 1))) \<Longrightarrow> lexes_lines l st s ts r"
  unfolding lexes_lines_def by blast

lemma lexes_ascii:
  "sc_start st = DATA \<Longrightarrow> lexes_lines l st (item_text out (Ascii_item bs) @ r) (toks_item out (Ascii_item bs)) r"
proof (induction bs arbitrary: st)
  case Nil
  then show ?case by (simp add: item_text_lines toks_item_def item_elements_def lexes_lines_refl)
next
  case (Cons b bs)
  have "lexes_lines l st (item_text out (Ascii_item (b # bs)) @ r)
      ([TOK_DATA_WORD, TOK_DATA_INTEGER (c_char b)] @ toks_item out (Ascii_item bs)) r"
    unfolding item_text_lines(4)
    by (rule lexes_lines_then[OF lexes_linesI[OF Cons.prems lexes_directive(1)[OF Cons.prems]] Cons.IH])
  then show ?case by (simp add: toks_item_def item_elements_def word_element_def toks_data_def data_node_def)
qed

lemma lexes_item:
  assumes "gcc_output_ok out" "item_ok out d" "sc_start st = DATA"
  shows "lexes_lines l st (item_text out d @ r) (toks_item out d) r"
proof (cases d)
  case (Label_item x)
  then show ?thesis
    using assms lexes_linesI[OF assms(3) lexes_directive(6)[OF assms(3), where x = "assemble_name out x"]]
    by (simp add: item_text_lines item_ok_def toks_item_def item_elements_def toks_data_def data_node_def)
next
  case (Common_item x k)
  then have x: "is_name symbol_char (assemble_name out x)" "k \<noteq> 0" using assms(2) by (auto simp: item_ok_def)
  let ?st = "begin_section St_data DATA st"
  have d: "sc_start ?st = DATA" by (simp add: begin_section_def)
  have "lexes_lines l st (item_text out d @ r) ([] @ [TOK_DATA_LABEL (assemble_name out x)] @ [TOK_DATA_SKIP, TOK_DATA_INTEGER k]) r"
    unfolding Common_item item_text_lines(2)
  proof (rule lexes_lines_then)
    show "lexes_lines l st (''.data'' @ newline # assemble_name out x @ CHR '':'' # newline # ''.skip'' @ CHR '' '' # fmt_d k @ newline # r) []
        (assemble_name out x @ CHR '':'' # newline # ''.skip'' @ CHR '' '' # fmt_d k @ newline # r)"
      by (rule lexes_linesI[OF d]) (use lexes_section(1)[of st l] assms(3) in simp)
  next
    fix st' :: scanner assume s: "sc_start st' = DATA"
    show "lexes_lines l st' (assemble_name out x @ CHR '':'' # newline # ''.skip'' @ CHR '' '' # fmt_d k @ newline # r)
       ([TOK_DATA_LABEL (assemble_name out x)] @ [TOK_DATA_SKIP, TOK_DATA_INTEGER k]) r"
      by (rule lexes_lines_then[OF lexes_linesI[OF s lexes_directive(6)[OF s x(1)]]])
        (rule lexes_linesI, assumption, rule lexes_directive(4))
  qed
  then show ?thesis using x by (simp add: Common_item toks_item_def item_elements_def toks_data_def data_node_def)
next
  case (Ascii_item bs)
  then show ?thesis using lexes_ascii[OF assms(3)] by simp
next
  case (Skip_item n)
  then have n: "0 < sint n" "n \<noteq> 0" using assms(2) by (auto simp: item_ok_def)
  show ?thesis
    using lexes_linesI[OF assms(3) lexes_directive(3)[OF assms(3), where v = n]] n(2)
    by (simp add: Skip_item skip_item_text[OF n(1), simplified] toks_item_def item_elements_def toks_data_def data_node_def)
next
  case (Integer_item x k a)
  note i = lexes_linesI[OF assms(3) lexes_directive(1)[OF assms(3)]] lexes_linesI[OF assms(3) lexes_directive(2)[OF assms(3)]]
    lexes_linesI[OF assms(3) lexes_directive(5)[OF assms(3)]]
  from Integer_item assms(2) consider v where "x = Const_int_x v" "k = 1" | v where "x = Const_int_x v" "k = 2"
    | s where "x = Symbol_ref_x s" "k = 1" "is_name symbol_char (assemble_name out s)"
    by (auto simp: item_ok_def split: rtx.splits)
  then show ?thesis
    by cases (use i integer_item_text[OF assms(1)] in \<open>simp_all add: Integer_item toks_item_def item_elements_def toks_data_def data_node_def\<close>)
qed

lemma lexes_items:
  assumes "gcc_output_ok out" "list_all (item_ok out) ds" "sc_start st = DATA"
  shows "lexes_lines l st (concat (map (item_text out) ds) @ r) (concat (map (toks_item out) ds)) r"
  using assms(2,3)
proof (induction ds arbitrary: st)
  case (Cons d ds)
  then have d: "item_ok out d" and ds: "list_all (item_ok out) ds" by auto
  show ?case
    using lexes_lines_then[OF lexes_item[OF assms(1) d Cons.prems(2)] Cons.IH[OF ds]] by simp
qed (simp add: lexes_lines_refl)

section \<open>Parsing\<close>

lemma g_list_append: "g_data_element_list us es \<Longrightarrow> g_data_element_list ts ds \<Longrightarrow> g_data_element_list (ts @ us) (ds @ es)"
proof (induction us es rule: g_data_element_list.induct)
  case (g_data_one us d)
  then show ?case by (rule g_data_more[rotated])
next
  case (g_data_more us es vs e)
  then show ?case using g_data_element_list.g_data_more[of "ts @ us" "ds @ es" vs e] by simp
qed

lemma g_item:
  assumes "item_ok out d"
  shows "item_elements out d = [] \<and> toks_item out d = [] \<or> g_data_element_list (toks_item out d) (item_elements out d)"
proof -
  have w: "list_all writable_data (item_elements out d)"
    using assms by (auto simp: item_ok_def item_elements_def writable_data_def data_node_def word_element_def list_all_iff split: data_piece.splits rtx.splits)
  show ?thesis
  proof (cases "\<exists>v k a. d = Integer_item (Const_int_x v) k a")
    case True
    then obtain v k a where d: "d = Integer_item (Const_int_x v) k a" by blast
    then show ?thesis
      using g_data_one[OF g_word[of "word_of_int v"]] g_data_one[OF g_dword[of "word_of_int v"]]
      by (simp add: toks_item_def item_elements_def word_element_def)
  next
    case False
    then have "toks_item out d = concat (map toks_data (item_elements out d))"
      by (auto simp: toks_item_def split: data_piece.splits rtx.splits)
    then show ?thesis using g_writable_data_list[OF w] by (cases "item_elements out d = []") simp_all
  qed
qed

lemma g_items:
  "list_all (item_ok out) ds \<Longrightarrow>
     concat (map (item_elements out) ds) = [] \<and> concat (map (toks_item out) ds) = [] \<or>
     g_data_element_list (concat (map (toks_item out) ds)) (concat (map (item_elements out) ds))"
proof (induction ds)
  case (Cons d ds)
  then have "item_ok out d" "list_all (item_ok out) ds" by auto
  with g_item[of out d] Cons.IH show ?case using g_list_append by fastforce
qed simp

text \<open>A compiled file: its data and its code, after the names of their sections.\<close>

definition compiled_text :: "gcc_output \<Rightarrow> data_piece list \<Rightarrow> inst_bundle list \<Rightarrow> string" where
  "compiled_text out ds bs =
     DATA_SECTION_ASM_OP @ [newline] @ concat (map (item_text out) ds) @ TEXT_SECTION_ASM_OP @ [newline] @ concat (map text_bundle bs)"

text \<open>Such a file with any text in its code section that is scanned to some tokens.\<close>

definition sections_text :: "gcc_output \<Rightarrow> data_piece list \<Rightarrow> string \<Rightarrow> string" where
  "sections_text out ds code =
     DATA_SECTION_ASM_OP @ [newline] @ concat (map (item_text out) ds) @ TEXT_SECTION_ASM_OP @ [newline] @ code"

definition scans_code :: "string \<Rightarrow> (i32 \<Rightarrow> token list) \<Rightarrow> bool" where
  "scans_code code toks \<longleftrightarrow>
     (\<forall>l s n. sc_start s = CODE \<longrightarrow> (\<exists>n'. lexes l (pos s code True n) (seen l code_sections (toks n)) (pos s [] True n')))"

lemma scan_sections:
  assumes "gcc_output_ok out" "list_all (item_ok out) ds" "scans_code code toks"
    and "sc_start st \<noteq> COMMENT" "sc_rest st = sections_text out ds code" "sc_bol st"
  shows "\<exists>n st'. scan_tokens l st = Good (seen l data_sections (concat (map (toks_item out) ds)) @ seen l code_sections (toks n), st') \<and>
    sc_start st' = CODE"
proof -
  let ?d = "begin_section St_data DATA st" and ?data = "concat (map (item_text out) ds)"
  let ?n = "sc_lineno st"
  have st: "st = pos st (''.data'' @ newline # ?data @ ''.code'' @ newline # code) True ?n"
    using assms(5,6) by (simp add: pos_def sections_text_def DATA_SECTION_ASM_OP_def TEXT_SECTION_ASM_OP_def)
  have 1: "lexes l (pos st (''.data'' @ newline # ?data @ ''.code'' @ newline # code) True ?n) [] (pos ?d (?data @ ''.code'' @ newline # code) True (?n + 1))"
    by (rule lexes_section(1)[OF assms(4)])
  have "sc_start ?d = DATA" by (simp add: begin_section_def)
  from lexes_items[OF assms(1,2) this, of l "''.code'' @ newline # code"] obtain s n where
    2: "sc_start s = DATA" "lexes l (pos ?d (?data @ ''.code'' @ newline # code) True (?n + 1))
      (seen l data_sections (concat (map (toks_item out) ds))) (pos s (''.code'' @ newline # code) True n)"
    unfolding lexes_lines_def by blast
  let ?c = "begin_section St_code CODE s"
  have 3: "lexes l (pos s (''.code'' @ newline # code) True n) [] (pos ?c code True (n + 1))"
    by (rule lexes_section(2)) (simp add: 2(1))
  have c: "sc_start ?c = CODE" by (simp add: begin_section_def)
  with assms(3) obtain n' where 4: "lexes l (pos ?c code True (n + 1)) (seen l code_sections (toks (n + 1))) (pos ?c [] True n')"
    unfolding scans_code_def by blast
  have "lexes l st ([] @ seen l data_sections (concat (map (toks_item out) ds)) @ [] @ seen l code_sections (toks (n + 1))) (pos ?c [] True n')"
    by (subst st) (rule lexes_trans[OF 1 lexes_trans[OF 2(2) lexes_trans[OF 3 4]]])
  from lexes_end[OF this] c show ?thesis by (intro exI[of _ "n + 1"] exI[of _ "pos ?c [] True n'"]) simp
qed

lemma parse_sections:
  assumes "gcc_output_ok out" "list_all (item_ok out) ds" "scans_code code toks"
    and "\<And>n. g_inst_bundle_list (toks n) (nodes n)" "concat (map (item_elements out) ds) \<noteq> []"
  shows "\<exists>n. parse_source (sections_text out ds code) = Good (concat (map (item_elements out) ds), nodes n)"
proof -
  let ?s = "sections_text out ds code"
  obtain n st1 where st1: "scan_tokens code_sections (scanner_init ?s) = Good (toks n, st1)" "sc_start st1 = CODE"
    using scan_sections[OF assms(1-3), of "scanner_init ?s" code_sections] by (auto simp: scanner_init_def seen_def)
  obtain st2 where st2: "scan_tokens data_sections (st1\<lparr>sc_rest := ?s, sc_bol := True, sc_lineno := 1\<rparr>) = Good (concat (map (toks_item out) ds), st2)"
    using scan_sections[OF assms(1-3), of "st1\<lparr>sc_rest := ?s, sc_bol := True, sc_lineno := 1\<rparr>" data_sections] st1(2)
    by (auto simp: seen_def)
  have "g_data_element_list (concat (map (toks_item out) ds)) (concat (map (item_elements out) ds))"
    using g_items[OF assms(2)] assms(5) by blast
  from p_program_complete[OF g_code_only[OF assms(4)[of n]]] p_program_complete[OF g_data_only[OF this]]
  show ?thesis by (intro exI[of _ n]) (simp add: parse_source_def yyparse_def sentence_value_eq st1 st2 assigned_def)
qed

lemma parse_compiled:
  assumes "gcc_output_ok out" "list_all (item_ok out) ds" "list_all writable_bundle bs" "bs \<noteq> []"
    and "concat (map (item_elements out) ds) \<noteq> []"
  shows "\<exists>n. parse_source (compiled_text out ds bs) = Good (concat (map (item_elements out) ds), number_lines n bs)"
proof -
  have "scans_code (concat (map text_bundle bs)) (\<lambda>n. toks_bundles n bs)"
    using lexes_bundles[OF _ assms(3), of _ _ "[]"] unfolding scans_code_def by (metis append_Nil2)
  from parse_sections[OF assms(1,2) this g_writable_bundles[OF assms(3,4)] assms(5)]
  show ?thesis by (simp add: compiled_text_def sections_text_def)
qed

section \<open>The data memory of a compiled program\<close>

text \<open>The integers of two words: each is one word for the assembler.\<close>

definition double_words :: "data_piece list \<Rightarrow> nat" where
  "double_words ds = length (filter (\<lambda>d. case d of Integer_item x k a \<Rightarrow> k = 2 | _ \<Rightarrow> False) ds)"

lemma data_image_words:
  "data_image sy (map (\<lambda>b. word_element (f b)) bs) = Some (map (\<lambda>b. ucast (f b)) bs)"
  by (induction bs) (simp_all add: data_words_def word_element_def data_node_def)

lemma item_image_length:
  assumes "item_ok out d" "data_image sy (item_elements out d) = Some ws"
  shows "length ws + double_words [d] = item_size d"
proof -
  have z: "0 < sint k \<Longrightarrow> k \<noteq> 0" for k :: i32 by auto
  show ?thesis
    using assms z data_image_words[of sy c_char]
    by (auto simp: item_ok_def item_elements_def item_size_def double_words_def data_words_def data_node_def word_element_def
        split: data_piece.splits rtx.splits option.splits)
qed

lemma items_image_length:
  assumes "list_all (item_ok out) ds" "data_image sy (concat (map (item_elements out) ds)) = Some ws"
  shows "length ws + double_words ds = sum_list (map item_size ds)"
  using assms
proof (induction ds arbitrary: ws)
  case Nil
  then show ?case by (simp add: double_words_def)
next
  case (Cons d ds)
  from Cons.prems(2) obtain us vs where w: "ws = us @ vs" "data_image sy (item_elements out d) = Some us"
    "data_image sy (concat (map (item_elements out) ds)) = Some vs"
    by (auto simp: data_image_append)
  have "double_words (d # ds) = double_words [d] + double_words ds" by (simp add: double_words_def)
  then show ?case using item_image_length[OF _ w(2)] Cons.IH[OF _ w(3)] Cons.prems(1) w(1) by simp
qed

text \<open>C21: the data of a compiled program is in the data memory the assembler writes: the pieces the compiler prints are
  read back as the data elements they stand for, and the memory holds their words; of every integer of two
  words, which the compiler counts twice, only one is there.\<close>

theorem compiled_data_in_memory:
  assumes "gcc_output_ok out" "list_all (item_ok out) ds" "concat (map (item_elements out) ds) \<noteq> []"
    and "list_all writable_bundle bs" "bs \<noteq> []"
    and "\<not> starts ''-'' f" "files f = Some (compiled_text out ds bs)" "asm_main files [f] = Good outs"
  shows "\<exists>st vs. map_of outs ''out.dmem'' = Some (output_dmem (unat (dmem_addr st)) st) \<and>
    data_image (symtab_p st) (concat (map (item_elements out) ds)) = Some vs \<and> dmem_addr st = of_nat (length vs) \<and>
    (length vs \<le> 65536 \<longrightarrow> (\<forall>i<length vs. dmem st (of_nat i) = vs ! i)) \<and>
    length vs + double_words ds = sum_list (map item_size ds)"
proof -
  obtain n where p: "parse_source (compiled_text out ds bs) = Good (concat (map (item_elements out) ds), number_lines n bs)"
    using parse_compiled[OF assms(1,2,4,5,3)] by blast
  from asm_main_images[OF assms(6,7) p assms(8)] obtain st ws vs where
    s: "map_of outs ''out.dmem'' = Some (output_dmem (unat (dmem_addr st)) st)"
      "data_image (symtab_p st) (concat (map (item_elements out) ds)) = Some vs" "dmem_addr st = of_nat (length vs)"
      "length vs \<le> 65536 \<longrightarrow> (\<forall>i<length vs. dmem st (of_nat i) = vs ! i)"
    by (elim exE conjE) (rule that)
  from s items_image_length[OF assms(2) s(2)] show ?thesis by blast
qed

text \<open>Two variables: a string with its label, and an array.\<close>

definition sample_output :: gcc_output where
  "sample_output =
     \<lparr>assemble_name = id,
      integer_asm_op = (\<lambda>sz a. if sz = 1 then Some TARGET_ASM_BYTE_OP
         else if sz = 2 then Some (if a then TARGET_ASM_ALIGNED_HI_OP else TARGET_ASM_UNALIGNED_HI_OP) else None),
      output_addr_const = (\<lambda>x. case x of Const_int_x v \<Rightarrow> fmt_wide v | Symbol_ref_x s \<Rightarrow> asm_output_symbol_ref id s | _ \<Rightarrow> [])\<rparr>"

definition sample_items :: "data_piece list" where
  "sample_items =
     [Label_item ''msg'', Ascii_item [72, 105], Common_item ''buf'' 3, Label_item ''big'', Integer_item (Const_int_x 70000) 2 True,
      Integer_item (Symbol_ref_x ''msg'') 1 True]"

lemma sample_output_ok: "gcc_output_ok sample_output" "list_all (item_ok sample_output) sample_items"
    "concat (map (item_elements sample_output) sample_items) \<noteq> []"
proof -
  show "gcc_output_ok sample_output" by (simp add: gcc_output_ok_def sample_output_def)
  have "list_all symbol_char ''msg''" "list_all symbol_char ''buf''" "list_all symbol_char ''big''"
    by code_simp+
  then show "list_all (item_ok sample_output) sample_items"
    by (simp add: sample_items_def item_ok_def sample_output_def is_name_def)
  show "concat (map (item_elements sample_output) sample_items) \<noteq> []" by (simp add: sample_items_def item_elements_def)
qed

lemma sample_compiled_run:
  "\<exists>out. asm_gen_opcodes False (concat (map (item_elements sample_output) sample_items)) (number_lines n (take 2 sample_code)) init = Good out"
  by (simp add: sample_items_def sample_output_def item_elements_def word_element_def exec_simps at_line_def data_node_def)

theorem compiled_data_in_memory_witness:
  "\<exists>outs st vs. asm_main (\<lambda>_. Some (compiled_text sample_output sample_items (take 2 sample_code))) [''prog.asm''] = Good outs \<and>
     map_of outs ''out.dmem'' = Some (output_dmem (unat (dmem_addr st)) st) \<and>
     data_image (symtab_p st) (concat (map (item_elements sample_output) sample_items)) = Some vs \<and> length vs = 7"
proof -
  let ?bs = "take 2 sample_code" and ?t = "compiled_text sample_output sample_items (take 2 sample_code)"
  let ?files = "\<lambda>_ :: string. Some ?t"
  have b: "list_all writable_bundle ?bs" "?bs \<noteq> []"
    using sample_writable(3) by (simp_all add: list_all_iff sample_code_def)
  obtain n where p: "parse_source ?t = Good (concat (map (item_elements sample_output) sample_items), number_lines n ?bs)"
    using parse_compiled[OF sample_output_ok(1,2) b sample_output_ok(3)] by blast
  obtain out where "asm_gen_opcodes False (concat (map (item_elements sample_output) sample_items)) (number_lines n ?bs) init = Good out"
    using sample_compiled_run by blast
  with p have m: "asm_main ?files [''prog.asm''] = Good (output_files ''out'' out)"
    by (simp add: asm_main_one_file)
  have f: "\<not> starts ''-'' ''prog.asm''" by simp
  have sz: "double_words sample_items = 1" "sum_list (map item_size sample_items) = 8"
    by (simp_all add: double_words_def item_size_def sample_items_def)
  from compiled_data_in_memory[OF sample_output_ok b f refl m] obtain st vs where
    s: "map_of (output_files ''out'' out) ''out.dmem'' = Some (output_dmem (unat (dmem_addr st)) st)"
      "data_image (symtab_p st) (concat (map (item_elements sample_output) sample_items)) = Some vs"
      "length vs + double_words sample_items = sum_list (map item_size sample_items)"
    by (elim exE conjE) (rule that, assumption+)
  show ?thesis by (intro exI[of _ "output_files ''out'' out"] exI[of _ st] exI[of _ vs]) (use m s sz in simp)
qed

section \<open>Local common variables\<close>

text \<open>Characters of a data line that no rule takes are copied to the output.\<close>

lemma lexes_echo:
  assumes "sc_start st = DATA" "is_lower c \<or> c = CHR '','' \<or> c = CHR 0x22"
  shows "lexes l (pos st (c # r) False n) [] (pos (st\<lparr>sc_echo := sc_echo st @ [c]\<rparr>) r False n)"
proof -
  have c: "\<not> c_isdigit c" "c \<noteq> CHR ''.''" "c \<noteq> CHR '';''" "c \<noteq> CHR ''/''" "c \<noteq> CHR ''#''" "c \<noteq> CHR ''-''" "c \<noteq> CHR '' ''"
    "c \<noteq> CHR ''0''" "c \<noteq> newline" "c \<noteq> tab_char"
    using assms(2) lower_ne[of c] by (elim disjE; simp; simp add: newline_def tab_char_def c_isdigit_def)+
  have "next_rule DATA False (c # r) = (R_echo, 1)"
    using c c(2-)[symmetric] by (simp add: next_rule_def active_rules match_defs)
  then have "scan_step l (pos st (c # r) False n) = Good (None, pos (st\<lparr>sc_echo := sc_echo st @ [c]\<rparr>) r False n)"
    using assms(1) c(9) by (simp add: scan_step_def rule_action_def pos_def)
  from lexes_step[OF _ this] show ?thesis by simp
qed

lemma lexes_echoes:
  "sc_start st = DATA \<Longrightarrow> list_all (\<lambda>c. is_lower c \<or> c = CHR '','' \<or> c = CHR 0x22) xs \<Longrightarrow>
     lexes l (pos st (xs @ r) False n) [] (pos (st\<lparr>sc_echo := sc_echo st @ xs\<rparr>) r False n)"
proof (induction xs arbitrary: st)
  case (Cons c xs)
  let ?st = "st\<lparr>sc_echo := sc_echo st @ [c]\<rparr>"
  from Cons.prems have c: "is_lower c \<or> c = CHR '','' \<or> c = CHR 0x22" and d: "sc_start ?st = DATA" by auto
  from lexes_trans[OF lexes_echo[OF Cons.prems(1) c] Cons.IH[OF d]] Cons.prems(2)
  show ?case by simp
qed (simp add: lexes_refl)

lemma lexes_reserve:
  assumes "sc_start st = DATA"
  shows "lexes l (pos st (''.reserve '' @ r) False n) [] (pos (st\<lparr>sc_echo := sc_echo st @ ''.reserve''\<rparr>) r False n)"
proof -
  let ?st = "st\<lparr>sc_echo := sc_echo st @ ''.''\<rparr>"
  have "next_rule DATA False (CHR ''.'' # CHR ''r'' # s) = (R_echo, 1)" for s
    by (simp add: next_rule_def active_rules match_defs)
  then have "scan_step l (pos st (CHR ''.'' # ''reserve '' @ r) False n) = Good (None, pos ?st (''reserve '' @ r) False n)"
    using assms by (simp add: scan_step_def rule_action_def pos_def newline_def)
  from lexes_step[OF _ this] have 1: "lexes l (pos st (''.reserve '' @ r) False n) [] (pos ?st (''reserve '' @ r) False n)" by simp
  have d: "sc_start ?st = DATA" by (simp add: assms)
  have 2: "lexes l (pos ?st (''reserve'' @ CHR '' '' # r) False n) [] (pos (?st\<lparr>sc_echo := sc_echo ?st @ ''reserve''\<rparr>) (CHR '' '' # r) False n)"
    by (rule lexes_echoes[OF d]) (simp add: is_lower_def)
  have 3: "lexes l (pos (?st\<lparr>sc_echo := sc_echo ?st @ ''reserve''\<rparr>) (CHR '' '' # r) False n) []
      (pos (?st\<lparr>sc_echo := sc_echo ?st @ ''reserve''\<rparr>) r False n)"
    by (rule lexes_blank) (simp_all add: assms)
  from 1 have "lexes l (pos st (''.reserve '' @ r) False n) [] (pos ?st (''reserve'' @ CHR '' '' # r) False n)" by simp
  from lexes_trans[OF this lexes_trans[OF 2 3]] show ?thesis by simp
qed

text \<open>The assembler has no such directive: the number after the name is a syntax error.\<close>

lemma local_common_rejected:
  assumes "list_all is_lower (name_of x)" "0 < sint v"
  shows "yyparse data_sections (scanner_init (''.data'' @ [newline] @ asm_output_local name_of x v @ r)) = Fail Syntax_error"
proof -
  let ?st = "scanner_init (''.data'' @ [newline] @ asm_output_local name_of x v @ r)"
  let ?d = "begin_section St_data DATA ?st" and ?u = "fmt_d v"
  let ?e = "?d\<lparr>sc_echo := sc_echo ?d @ ''.reserve''\<rparr>"
  let ?f = "?e\<lparr>sc_echo := sc_echo ?e @ (name_of x @ '','')\<rparr>"
  let ?r = "CHR '','' # CHR 0x22 # ''bss'' @ CHR 0x22 # newline # r"
  have u: "delimited ?r" by (simp add: delimited_Cons)
  have s: "?st = pos ?st (''.data'' @ newline # tab_char # ''.reserve '' @ (name_of x @ '','') @ ?u @ ?r) True 1"
    by (simp add: scanner_init_def pos_def asm_output_local_def fmt_u_positive[OF assms(2)])
  have 1: "lexes data_sections (pos ?st (''.data'' @ newline # tab_char # ''.reserve '' @ (name_of x @ '','') @ ?u @ ?r) True 1) []
      (pos ?d (tab_char # ''.reserve '' @ (name_of x @ '','') @ ?u @ ?r) True (1 + 1))"
    by (rule lexes_section) (simp add: scanner_init_def)
  have 2: "lexes data_sections (pos ?d (tab_char # ''.reserve '' @ (name_of x @ '','') @ ?u @ ?r) True (1 + 1)) []
      (pos ?d (''.reserve '' @ (name_of x @ '','') @ ?u @ ?r) False (1 + 1))"
    by (rule lexes_blank) (simp_all add: begin_section_def)
  have 3: "lexes data_sections (pos ?d (''.reserve '' @ (name_of x @ '','') @ ?u @ ?r) False (1 + 1)) []
      (pos ?e ((name_of x @ '','') @ ?u @ ?r) False (1 + 1))"
    by (rule lexes_reserve) (simp add: begin_section_def)
  have 4: "lexes data_sections (pos ?e ((name_of x @ '','') @ ?u @ ?r) False (1 + 1)) [] (pos ?f (?u @ ?r) False (1 + 1))"
    by (rule lexes_echoes) (use assms in \<open>simp_all add: begin_section_def list_all_iff\<close>)
  have 5: "lexes data_sections (pos ?f (?u @ ?r) False (1 + 1)) (seen data_sections data_sections [TOK_DATA_INTEGER v]) (pos ?f ?r False (1 + 1))"
    by (rule lexes_data_word(4)[OF _ u]) (simp add: begin_section_def)
  have "scanner_ok (pos ?f ?r False (1 + 1))" by (simp add: scanner_ok_def begin_section_def)
  then obtain ts st' where "scan_tokens data_sections (pos ?f ?r False (1 + 1)) = Good (ts, st')" using scan_tokens_ok by blast
  then have "scan_tokens data_sections ?st = Good (TOK_DATA_INTEGER v # ts, st')"
    using lexes_trans[OF 1 lexes_trans[OF 2 lexes_trans[OF 3 lexes_trans[OF 4 5]]]] by (subst s) (simp add: lexes_def seen_def)
  moreover have "p_program (TOK_DATA_INTEGER v # ts) = None"
    by (simp add: p_program_def p_inst_bundle_list.simps p_inst_bundle_def p_instruction_list.simps p_instruction_def
        p_mnemonic_def expect_def p_data_element_list.simps p_data_element_def)
  ultimately show ?thesis by (simp add: yyparse_def sentence_value_eq)
qed

end
