(* ===== verification/GccInsns.thy ===== *)
theory GccInsns
  imports GccData
begin

text \<open>
  The instruction patterns of the machine description (\<open>sw/tools/gcc/config/ajardsp/ajardsp.md\<close>): their
  operands with modes, predicates and constraints, their output templates and the attributes the scheduler
  uses.  Every \<open>define_insn\<close> is there but for the commented ones, \<open>dummy_pattern\<close>, the loop patterns (see
  \<open>GccLoops\<close>), and \<open>block_repeat\<close>, whose template is made by C code and defined apart.  The meaning of
  constraints and templates is the one GCC documents.

  What is shown: the templates with operands that satisfy the constraints are instructions of the assembler's
  language that the instruction table encodes with every operand in its field, within the size the scheduler
  reckons with, but for eleven alternatives (see \<open>GccUnfit\<close>).
\<close>

section \<open>The patterns\<close>

definition SImode :: machine_mode where "SImode = Other_mode 4"

datatype itype =
    Itype_bmu | Itype_cu | Itype_cu_cmp | Itype_cu_fp | Itype_lsu | Itype_lsu_spec | Itype_lsu_all | Itype_pcu

record md_operand =
  mo_mode :: machine_mode
  mo_predicate :: string
  mo_constraint :: string

record md_insn =
  md_name :: string
  md_operands :: "md_operand list"
  md_templates :: "string list list"
  md_itype :: "itype list"
  md_isize :: "nat list"

definition mo :: "machine_mode \<Rightarrow> string \<Rightarrow> string \<Rightarrow> md_operand" where
  "mo m p c = \<lparr>mo_mode = m, mo_predicate = p, mo_constraint = c\<rparr>"

text \<open>The templates of the alternatives, each the list of the lines that \<open>\;\<close> separates.\<close>

definition md_insn_of :: "string \<Rightarrow> md_operand list \<Rightarrow> string list list \<Rightarrow> itype list \<Rightarrow> nat list \<Rightarrow> md_insn" where
  "md_insn_of nm os ts ty sz = \<lparr>md_name = nm, md_operands = os, md_templates = ts, md_itype = ty, md_isize = sz\<rparr>"

definition md_load_insns :: "md_insn list" where
  "md_load_insns =
    [md_insn_of ''*ld_qi''
       [mo QImode ''register_operand'' ''=r,r'', mo QImode ''memory_operand'' ''Qr,m'']
       [[''ld16 %1, %0''], [''ldoff16 %a1, %0'']] [Itype_lsu, Itype_lsu] [1, 2],
     md_insn_of ''*ld_inc_qi''
       [mo QImode ''register_operand'' ''=d'', mo QImode ''addr_register_operand'' ''b'']
       [[''ldinc16 %a1, %0'']] [Itype_lsu] [1],
     md_insn_of ''*ld_hi''
       [mo HImode ''register_operand'' ''=d,d'', mo HImode ''memory_operand'' ''Qr,m'']
       [[''ld32 %1, %0''], [''ldoff32 %a1, %0'']] [Itype_lsu, Itype_lsu] [1, 2],
     md_insn_of ''*ld_imm_qi''
       [mo QImode ''register_operand'' ''=r,r'', mo QImode ''const_int_operand'' ''i,Iu16'']
       [[''ldimm16 %c1, %0''], [''ldimm16 %c1, %0'']] [Itype_lsu] [2],
     md_insn_of ''*ld_zero_qi''
       [mo QImode ''register_operand'' ''=d'']
       [[''sub16 %0, %0'']] [Itype_cu] [1],
     md_insn_of ''*ld_zero_hi''
       [mo HImode ''register_operand'' ''=d'']
       [[''sub32 %0, %0, %0'']] [Itype_cu] [1],
     md_insn_of ''*symbolic_address_load''
       [mo QImode ''register_operand'' ''=r'', mo QImode ''symbolic_operand'' '''']
       [[''ldimm16 %s1, %0'']] [Itype_lsu] [2]]"

definition md_store_insns :: "md_insn list" where
  "md_store_insns =
    [md_insn_of ''*st_qi''
       [mo QImode ''memory_operand'' ''=Qr,m'', mo QImode ''register_operand'' ''c,r'']
       [[''st16 %1, %0''], [''stoff16 %1, %a0'']] [Itype_lsu_all, Itype_lsu_all] [1, 2],
     md_insn_of ''*store_word_hi''
       [mo HImode ''memory_operand'' ''=Qr,m'', mo HImode ''register_operand'' ''r,r'']
       [[''st32 %1, %0''], [''stoff32 %1, %a0'']] [Itype_lsu, Itype_lsu] [1, 2]]"

definition md_move_insns :: "md_insn list" where
  "md_move_insns =
    [md_insn_of ''*mv_qi''
       [mo QImode ''register_operand'' ''=r,q,r,q'', mo QImode ''register_operand'' ''r,r,q,0'']
       [[''mv16 %1, %0''], [''mvts16 %1, %0''], [''mvfs16 %1, %0''], [''dummy'']] [Itype_lsu, Itype_lsu_spec, Itype_lsu_spec, Itype_lsu] [1, 2, 2, 1],
     md_insn_of ''*mv_hi''
       [mo HImode ''register_operand'' ''=d'', mo HImode ''register_operand'' ''d'']
       [[''and32 %1, %1, %0'']] [Itype_bmu] [2],
     md_insn_of ''swap_spec_qi''
       [mo QImode ''register_operand'' ''=r,q'', mo QImode ''register_operand'' ''=q,r'']
       [[''mvfs16 %1, %0 | mvts16 %0, %1''], [''mvfs16 %0, %1 | mvts16 %1, %0'']] [Itype_lsu_all, Itype_lsu_all] [2, 2]]"

definition md_stack_insns :: "md_insn list" where
  "md_stack_insns =
    [md_insn_of ''pushqi1''
       [mo QImode ''register_operand'' ''r,q'']
       [[''nop'', ''push16 %0''], [''nop'', ''push16 %0'']] [Itype_lsu, Itype_lsu_spec] [2, 2],
     md_insn_of ''pushhi1''
       [mo HImode ''register_operand'' ''r'']
       [[''push32 %0'']] [Itype_lsu] [1],
     md_insn_of ''popqi1''
       [mo QImode ''register_operand'' ''=r,q'']
       [[''pop16 %0''], [''pop16 %0'']] [Itype_lsu, Itype_lsu_spec] [1, 1],
     md_insn_of ''pophi1''
       [mo HImode ''register_operand'' ''=r'']
       [[''pop32 %0'']] [Itype_lsu] [1]]"

definition md_arith_insns :: "md_insn list" where
  "md_arith_insns =
    [md_insn_of ''addqi3''
       [mo QImode ''register_operand'' ''=d,b'', mo QImode ''register_operand'' ''0,0'',
        mo QImode ''nonmemory_operand'' ''d,Is16'']
       [[''add16 %2, %0''], [''addptr16 %2, %0'']] [Itype_cu, Itype_lsu] [1, 2],
     md_insn_of ''addhi3''
       [mo HImode ''register_operand'' ''=d'', mo HImode ''register_operand'' ''d'',
        mo HImode ''nonmemory_operand'' ''d'']
       [[''add32 %1, %2, %0'']] [Itype_cu] [1],
     md_insn_of ''andqi3''
       [mo QImode ''register_operand'' ''=d'', mo QImode ''register_operand'' ''d'',
        mo QImode ''register_operand'' ''d'']
       [[''and16 %2, %1, %0'']] [Itype_bmu] [],
     md_insn_of ''andhi3''
       [mo HImode ''register_operand'' ''=d'', mo HImode ''register_operand'' ''d'',
        mo HImode ''register_operand'' ''d'']
       [[''and32 %2, %1, %0'']] [Itype_bmu] [],
     md_insn_of ''mulqihi3''
       [mo HImode ''register_operand'' ''=d'', mo QImode ''register_operand'' ''D'',
        mo QImode ''register_operand'' ''D'']
       [[''mpy16 %2, %1, %0'']] [Itype_cu] [],
     md_insn_of ''*mac_qi''
       [mo HImode ''register_operand'' ''=D'', mo HImode ''register_operand'' ''0'',
        mo QImode ''register_operand'' ''D'', mo QImode ''register_operand'' ''d'']
       [[''mac16 %2, %3, %0'']] [Itype_cu] [],
     md_insn_of ''one_cmplqi2''
       [mo QImode ''register_operand'' ''=d'', mo QImode ''register_operand'' ''d'']
       [[''not16 %1, %0'']] [Itype_bmu] [],
     md_insn_of ''one_cmplhi2''
       [mo HImode ''register_operand'' ''=d'', mo HImode ''register_operand'' ''d'']
       [[''not32 %1, %0'']] [Itype_bmu] [],
     md_insn_of ''iorqi3''
       [mo QImode ''register_operand'' ''=d'', mo QImode ''register_operand'' ''d'',
        mo QImode ''nonmemory_operand'' ''d'']
       [[''or16 %2, %1, %0'']] [Itype_bmu] [],
     md_insn_of ''iorhi3''
       [mo HImode ''register_operand'' ''=d'', mo HImode ''register_operand'' ''d'',
        mo HImode ''register_operand'' ''d'']
       [[''or32 %2, %1, %0'']] [Itype_bmu] [],
     md_insn_of ''xorqi3''
       [mo QImode ''register_operand'' ''=d'', mo QImode ''register_operand'' ''d'',
        mo QImode ''nonmemory_operand'' ''d'']
       [[''xor16 %2, %1, %0'']] [Itype_bmu] [2],
     md_insn_of ''xorhi3''
       [mo HImode ''register_operand'' ''=d'', mo HImode ''register_operand'' ''d'',
        mo HImode ''register_operand'' ''d'']
       [[''xor32 %2, %1, %0'']] [Itype_bmu] [],
     md_insn_of ''subqi3''
       [mo QImode ''register_operand'' ''=d'', mo QImode ''register_operand'' ''0'',
        mo QImode ''register_operand'' ''d'']
       [[''sub16 %2, %0'']] [Itype_cu] [1],
     md_insn_of ''subhi3''
       [mo HImode ''register_operand'' ''=d'', mo HImode ''register_operand'' ''d'',
        mo HImode ''register_operand'' ''d'']
       [[''sub32 %1, %2, %0'']] [Itype_cu] [1]]"

definition md_shift_insns :: "md_insn list" where
  "md_shift_insns =
    [md_insn_of ''ashlqi3''
       [mo QImode ''register_operand'' ''=d'', mo QImode ''register_operand'' ''d'',
        mo QImode ''register_operand'' ''d'']
       [[''shiftll16 %1, %2, %0'']] [Itype_bmu] [],
     md_insn_of ''ashrqi3''
       [mo QImode ''register_operand'' ''=d'', mo QImode ''register_operand'' ''d'',
        mo QImode ''register_operand'' ''d'']
       [[''shiftra16 %1, %2, %0'']] [Itype_bmu] [],
     md_insn_of ''lshrqi3''
       [mo QImode ''register_operand'' ''=d'', mo QImode ''register_operand'' ''d'',
        mo QImode ''register_operand'' ''d'']
       [[''shiftrl16 %1, %2, %0'']] [Itype_bmu] [],
     md_insn_of ''ashlhi3''
       [mo HImode ''register_operand'' ''=d'', mo HImode ''register_operand'' ''d'',
        mo QImode ''register_operand'' ''d'']
       [[''shiftll32 %1, %2, %0'']] [Itype_bmu] [],
     md_insn_of ''ashrhi3''
       [mo HImode ''register_operand'' ''=d'', mo HImode ''register_operand'' ''d'',
        mo QImode ''register_operand'' ''d'']
       [[''shiftra32 %1, %2, %0'']] [Itype_bmu] [],
     md_insn_of ''lshrhi3''
       [mo HImode ''register_operand'' ''=d'', mo HImode ''register_operand'' ''d'',
        mo QImode ''register_operand'' ''d'']
       [[''shiftrl32 %1, %2, %0'']] [Itype_bmu] [],
     md_insn_of ''ashlsi3''
       [mo SImode ''register_operand'' ''=d'', mo SImode ''register_operand'' ''d'',
        mo QImode ''register_operand'' ''d'']
       [[''shiftll32 %1, %2, %0'']] [Itype_bmu] [],
     md_insn_of ''ashrsi3''
       [mo SImode ''register_operand'' ''=d'', mo SImode ''register_operand'' ''d'',
        mo QImode ''register_operand'' ''d'']
       [[''shiftra32 %1, %2, %0'']] [Itype_bmu] [],
     md_insn_of ''lshrsi3''
       [mo SImode ''register_operand'' ''=d'', mo SImode ''register_operand'' ''d'',
        mo QImode ''register_operand'' ''d'']
       [[''shiftrl32 %1, %2, %0'']] [Itype_bmu] []]"

definition md_call_insns :: "md_insn list" where
  "md_call_insns =
    [md_insn_of ''call''
       [mo HImode ''memory_operand'' ''m'', mo QImode ''immediate_operand'' ''i'']
       [[''call %m0'']] [Itype_pcu] [],
     md_insn_of ''call_value''
       [mo QImode ''register_operand'' ''=r'', mo HImode ''memory_operand'' ''m'',
        mo QImode ''immediate_operand'' ''i'']
       [[''call %1'']] [Itype_pcu] [],
     md_insn_of ''*call_value_hi''
       [mo HImode ''register_operand'' ''=r'', mo HImode ''memory_operand'' ''m'',
        mo QImode ''immediate_operand'' ''i'']
       [[''call %1'']] [Itype_pcu] [],
     md_insn_of ''*call_sym''
       [mo HImode ''symbolic_operand'' ''S'', mo QImode ''immediate_operand'' ''i'']
       [[''call %s0'']] [Itype_pcu] [],
     md_insn_of ''*call_value_sym''
       [mo QImode ''register_operand'' ''=r'', mo HImode ''symbolic_operand'' ''S'',
        mo QImode ''immediate_operand'' ''i'']
       [[''call %s1'']] [Itype_pcu] [],
     md_insn_of ''*call_value_hi_sym''
       [mo HImode ''register_operand'' ''=r'', mo HImode ''symbolic_operand'' ''S'',
        mo QImode ''immediate_operand'' ''i'']
       [[''call %s1'']] [Itype_pcu] []]"

definition md_control_insns :: "md_insn list" where
  "md_control_insns =
    [md_insn_of ''ajardsp_return''
       []
       [[''rets'']] [Itype_pcu] [],
     md_insn_of ''jump''
       [mo VOIDmode ''label_ref'' '''']
       [[''bra #%l0'']] [Itype_pcu] [],
     md_insn_of ''indirect_jump''
       [mo QImode ''register_operand'' '''']
       [[''bra %0 /* indirect_jump */'']] [Itype_pcu] [],
     md_insn_of ''nop''
       []
       [[''nop'']] [Itype_pcu] [],
     md_insn_of ''mycmpqi''
       [mo BImode ''pred_register_operand'' ''=z'', mo VOIDmode ''comparison_operator'' '''',
        mo QImode ''register_operand'' ''d'', mo QImode ''nonmemory_operand'' ''d'']
       [[''cmp16%1 %2, %3, %0'']] [Itype_cu_cmp] [2],
     md_insn_of ''mybranch''
       [mo BImode ''pred_register_operand'' ''z'', mo VOIDmode ''label_ref'' '''']
       [[''if (%0) bra #%l1'']] [Itype_pcu] [],
     md_insn_of ''zero_extendbiqi2''
       [mo QImode ''register_operand'' ''=d'', mo BImode ''pred_register_operand'' ''z'']
       [[''zero_extendbiqi2'']] [] [],
     md_insn_of ''extendbiqi2''
       [mo QImode ''register_operand'' ''=d'', mo BImode ''pred_register_operand'' ''z'']
       [[''sign_extendbiqi2'']] [] []]"


definition md_insns :: "md_insn list" where
  "md_insns = md_load_insns @ md_store_insns @ md_move_insns @ md_stack_insns @ md_arith_insns @ md_shift_insns @
     md_call_insns @ md_control_insns"

lemmas md_group_defs = md_load_insns_def md_store_insns_def md_move_insns_def md_stack_insns_def md_arith_insns_def
  md_shift_insns_def md_call_insns_def md_control_insns_def

text \<open>An attribute: one value per alternative, one for all, or the default.\<close>

definition alt_value :: "'a list \<Rightarrow> 'a \<Rightarrow> nat \<Rightarrow> 'a" where
  "alt_value vs dflt k = (if vs = [] then dflt else if length vs = 1 then hd vs else vs ! k)"

definition insn_itype :: "md_insn \<Rightarrow> nat \<Rightarrow> itype" where
  "insn_itype d k = alt_value (md_itype d) Itype_pcu k"

definition insn_isize :: "md_insn \<Rightarrow> nat \<Rightarrow> nat" where
  "insn_isize d k = alt_value (md_isize d) 2 k"

section \<open>Constraints\<close>

fun split_char :: "char \<Rightarrow> string \<Rightarrow> string list" where
  "split_char c [] = [[]]"
| "split_char c (x # xs) =
     (if x = c then [] # split_char c xs
      else case split_char c xs of [] \<Rightarrow> [[x]] | y # ys \<Rightarrow> (x # y) # ys)"

definition constraint_of :: "md_operand \<Rightarrow> nat \<Rightarrow> string" where
  "constraint_of m k =
     (let cs = split_char CHR '','' (dropWhile (\<lambda>c. c = CHR ''='') (mo_constraint m)) in
      if k < length cs then cs ! k else [])"

text \<open>The register constraints of \<open>constraints.md\<close>, and \<open>r\<close>.\<close>

definition constraint_class :: "string \<Rightarrow> reg_class option" where
  "constraint_class c =
     map_of [(''r'', GENERAL_REGS), (''b'', PTR_REGS), (''q'', SPEC_REGS), (''d'', ACC_REGS), (''x'', ACC_REGS_LOW_PART),
       (''y'', ACC_REGS_HIGH_PART), (''D'', ACC_REGS_0_3), (''z'', PRED_REGS), (''c'', ACC_PTR)] c"

datatype operand_kind =
    Kind_reg machine_mode reg_class
  | Kind_int int int
  | Kind_const
  | Kind_symbolic
  | Kind_label
  | Kind_mem_reg
  | Kind_mem
  | Kind_mem_offset
  | Kind_comparison
  | Kind_same nat

text \<open>
  What an operand has to be in an alternative.  GCC takes the first alternative whose constraints hold, so
  \<open>m\<close> after \<open>Qr\<close> leaves the addresses that are not registers.  Integers of mode \<open>QImode\<close> are sign extended
  from 16 bits.
\<close>

definition operand_kind :: "md_operand \<Rightarrow> nat \<Rightarrow> operand_kind" where
  "operand_kind m k =
     (let c = constraint_of m k; p = mo_predicate m in
      case constraint_class c of
        Some cls \<Rightarrow> Kind_reg (mo_mode m) cls
      | None \<Rightarrow>
          if c = ''Qr'' then Kind_mem_reg
          else if c = ''m'' then (if \<exists>j\<in>set [0..<k]. constraint_of m j = ''Qr'' then Kind_mem_offset else Kind_mem)
          else if c = ''0'' then Kind_same 0
          else if c = ''i'' then (if p = ''const_int_operand'' then Kind_int (- 32768) 32767 else Kind_const)
          else if c = ''Iu16'' then Kind_int 0 65535
          else if c = ''Is16'' then Kind_int (- 32768) 32767
          else if p = ''symbolic_operand'' then Kind_symbolic
          else if p = ''label_ref'' then Kind_label
          else if p = ''comparison_operator'' then Kind_comparison
          else Kind_reg (mo_mode m) ALL_REGS)"

text \<open>The comparisons of integers, with the names of \<open>GET_RTX_NAME\<close>.\<close>

definition comparison_names :: "string list" where
  "comparison_names = [''eq'', ''ne'', ''lt'', ''le'', ''gt'', ''ge'', ''ltu'', ''leu'', ''gtu'', ''geu'']"

definition mode_class_of :: "machine_mode \<Rightarrow> mode_class" where
  "mode_class_of m = (if m = QFmode then MODE_FLOAT else MODE_INT)"

definition kind_sat :: "rtx list \<Rightarrow> operand_kind \<Rightarrow> rtx \<Rightarrow> bool" where
  "kind_sat ops kd x =
     (case kd of
        Kind_reg m cls \<Rightarrow> (case x of
            Reg_x m' r \<Rightarrow> m' = m \<and> 0 \<le> r \<and> r < FIRST_PSEUDO_REGISTER \<and> in_class r cls \<and> hard_regno_mode_ok mode_class_of r m
          | _ \<Rightarrow> False)
      | Kind_int lo hi \<Rightarrow> (case x of Const_int_x i \<Rightarrow> lo \<le> i \<and> i \<le> hi | _ \<Rightarrow> False)
      | Kind_const \<Rightarrow> CONSTANT_P x
      | Kind_symbolic \<Rightarrow> symbolic_operand x
      | Kind_label \<Rightarrow> (case x of Label_ref_x l \<Rightarrow> True | _ \<Rightarrow> False)
      | Kind_mem_reg \<Rightarrow> (case x of Mem_x a \<Rightarrow> legitimate_address_strict a \<and> is_reg a | _ \<Rightarrow> False)
      | Kind_mem \<Rightarrow> (case x of Mem_x a \<Rightarrow> legitimate_address_strict a | _ \<Rightarrow> False)
      | Kind_mem_offset \<Rightarrow> (case x of Mem_x a \<Rightarrow> legitimate_address_strict a \<and> \<not> is_reg a | _ \<Rightarrow> False)
      | Kind_comparison \<Rightarrow> (case x of Node c n xs \<Rightarrow> c = Comparison \<and> n \<in> set comparison_names | _ \<Rightarrow> False)
      | Kind_same n \<Rightarrow> n < length ops \<and> x = ops ! n)"

text \<open>The operands of an instruction that matches a pattern in an alternative.\<close>

definition operands_ok :: "md_insn \<Rightarrow> nat \<Rightarrow> rtx list \<Rightarrow> bool" where
  "operands_ok d k ops \<longleftrightarrow> list_all2 (\<lambda>m x. kind_sat ops (operand_kind m k) x) (md_operands d) ops"

section \<open>Templates\<close>

text \<open>
  \<open>output_asm_insn\<close> of GCC on one line: \<open>%l\<close>, \<open>%a\<close> and \<open>%c\<close> print labels, addresses and constants, other letters
  and digits alone go to \<open>print_operand\<close>.  The string of a label is the one of
  \<open>asm_generate_internal_label\<close>.
\<close>

definition cat :: "printed \<Rightarrow> printed \<Rightarrow> printed" where
  "cat a b = obind a (\<lambda>(s, m). obind b (\<lambda>(t, m'). Good (s @ t, if m = None then m' else m)))"

definition output_code :: "gcc_output \<Rightarrow> char \<Rightarrow> rtx \<Rightarrow> printed" where
  "output_code out c X =
     (if c = CHR ''l'' then (case X of Label_ref_x l \<Rightarrow> asm_text (assemble_name out l) | _ \<Rightarrow> Fail ())
      else if c = CHR ''a'' then print_operand_address X
      else if c = CHR ''c'' \<and> constant_address_p X then asm_text (output_addr_const out X)
      else print_operand (assemble_name out) X (Some c))"

definition nth_operand :: "rtx list \<Rightarrow> char \<Rightarrow> (rtx, unit) outcome" where
  "nth_operand ops c =
     (let n = of_char c - 48 :: nat in if c_isdigit c \<and> n < length ops then Good (ops ! n) else Fail ())"

fun output_template :: "gcc_output \<Rightarrow> rtx list \<Rightarrow> string \<Rightarrow> printed" where
  "output_template out ops [] = asm_text []"
| "output_template out ops (c # s) =
     (if c \<noteq> CHR ''%'' then cat (asm_text [c]) (output_template out ops s)
      else case s of
        [] \<Rightarrow> Fail ()
      | l # r \<Rightarrow>
          if c_isdigit l
          then cat (obind (nth_operand ops l) (\<lambda>x. print_operand (assemble_name out) x None)) (output_template out ops r)
          else (case r of
              [] \<Rightarrow> Fail ()
            | n # r' \<Rightarrow> cat (obind (nth_operand ops n) (output_code out l)) (output_template out ops r')))"

text \<open>The parts of a line: the condition, the mnemonic, the operand that completes it, the operands.\<close>

datatype template_arg = Arg "char option" nat | Label_arg nat

record template =
  tm_pred :: "nat option"
  tm_mnemonic :: string
  tm_cond :: "nat option"
  tm_args :: "template_arg list"

definition arg_text :: "template_arg \<Rightarrow> string" where
  "arg_text a =
     (case a of
        Arg None n \<Rightarrow> [CHR ''%'', digit n]
      | Arg (Some c) n \<Rightarrow> [CHR ''%'', c, digit n]
      | Label_arg n \<Rightarrow> ''#%l'' @ [digit n])"

definition template_text :: "template \<Rightarrow> string" where
  "template_text t =
     (case tm_pred t of None \<Rightarrow> [] | Some n \<Rightarrow> ''if (%'' @ digit n # '') '') @ tm_mnemonic t @
     (case tm_cond t of None \<Rightarrow> [] | Some n \<Rightarrow> [CHR ''%'', digit n]) @
     (if tm_args t = [] then [] else CHR '' '' # text_list '', '' arg_text (tm_args t))"

definition digit_number :: "char \<Rightarrow> nat" where "digit_number c = of_char c - 48"

definition parse_arg :: "string \<Rightarrow> template_arg" where
  "parse_arg s =
     (if length s = 4 then Label_arg (digit_number (s ! 3))
      else if length s = 3 then Arg (Some (s ! 1)) (digit_number (s ! 2))
      else Arg None (digit_number (last s)))"

definition parse_template :: "string \<Rightarrow> template" where
  "parse_template s =
     (let cond = starts ''if ('' s; s' = (if cond then drop 8 s else s);
          m = takeWhile (\<lambda>c. c \<noteq> CHR '' '') s'; rest = drop (length m + 1) s' in
      \<lparr>tm_pred = (if cond then Some (digit_number (s ! 5)) else None),
       tm_mnemonic = takeWhile (\<lambda>c. c \<noteq> CHR ''%'') m,
       tm_cond = (if CHR ''%'' \<in> set m then Some (digit_number (last m)) else None),
       tm_args = (if rest = [] then [] else map (\<lambda>x. parse_arg (dropWhile (\<lambda>c. c = CHR '' '') x)) (split_char CHR '','' rest))\<rparr>)"

section \<open>Shapes of operands\<close>

text \<open>
  What an argument of a template can be in the language of the assembler: pointers, the first accumulator
  halves or accumulators of a number, predicates, the stack pointer, integers in a range, symbols.
\<close>

datatype arg_shape = Shape_ptr | Shape_half nat | Shape_acc nat | Shape_pred | Shape_sp | Shape_int int int | Shape_sym

definition meets :: "reg_class \<Rightarrow> nat \<Rightarrow> nat \<Rightarrow> bool" where
  "meets cls a b \<longleftrightarrow> list_ex (\<lambda>r. in_class (int r) cls) [a..<b]"

definition reg_shapes :: "machine_mode \<Rightarrow> reg_class \<Rightarrow> arg_shape list" where
  "reg_shapes m cls =
     (if m = QImode then
        (if meets cls 0 8 then [Shape_ptr] else []) @
        (if meets cls 16 24 then [Shape_half 16] else if meets cls 8 16 then [Shape_half 8] else []) @
        (if meets cls 28 29 then [Shape_sp] else [])
      else if m = HImode then
        (if meets cls 16 24 then [Shape_acc 8] else if meets cls 8 16 then [Shape_acc 4] else [])
      else if m = BImode then (if meets cls 24 28 then [Shape_pred] else [])
      else [])"

definition arg_shapes :: "operand_kind list \<Rightarrow> template_arg \<Rightarrow> arg_shape list list option" where
  "arg_shapes ks a =
     (case a of
        Label_arg n \<Rightarrow> if n < length ks \<and> ks ! n = Kind_label then Some [[Shape_sym]] else None
      | Arg c n \<Rightarrow>
          if length ks \<le> n then None
          else (case ks ! n of
              Kind_reg m cls \<Rightarrow>
                if m \<noteq> QFmode \<and> (c = None \<or> c = Some CHR ''a'' \<and> m = QImode) then Some (map (\<lambda>s. [s]) (reg_shapes m cls)) else None
            | Kind_int lo hi \<Rightarrow> if c = Some CHR ''c'' then Some [[Shape_int lo hi]] else None
            | Kind_symbolic \<Rightarrow> if c = Some CHR ''s'' then Some [[Shape_sym]] else None
            | Kind_mem_reg \<Rightarrow> if c = None then Some [[Shape_ptr]] else None
            | Kind_mem_offset \<Rightarrow> if c = Some CHR ''a'' then Some [[Shape_ptr, Shape_int (- 2048) 2047], [Shape_ptr, Shape_sym]] else None
            | Kind_mem \<Rightarrow>
                if c \<in> {None, Some CHR ''m''}
                then Some [[Shape_ptr], [Shape_ptr, Shape_int (- 2048) 2047], [Shape_ptr, Shape_sym]] else None
            | _ \<Rightarrow> None))"

fun all_shapes :: "operand_kind list \<Rightarrow> template_arg list \<Rightarrow> arg_shape list list option" where
  "all_shapes ks [] = Some [[]]"
| "all_shapes ks (a # r) =
     (case (arg_shapes ks a, all_shapes ks r) of
        (Some xs, Some ys) \<Rightarrow> Some (concat (map (\<lambda>x. map (\<lambda>y. x @ y) ys) xs))
      | _ \<Rightarrow> None)"

text \<open>What matters of an entry of the table: the mnemonic, the size, and type, width and encoder of the operands.\<close>

type_synonym field_key = "operand_type \<times> nat \<times> encoder option"
type_synonym entry_key = "string \<times> insn_size \<times> field_key list"

definition field_key_of :: "operand_def \<Rightarrow> field_key" where
  "field_key_of f = (od_type f, unat (od_width f), od_encode f)"

definition entry_key_of :: "inst_def \<Rightarrow> entry_key" where
  "entry_key_of e = (id_mnemonic e, id_size e, map field_key_of (id_operands e))"

definition insn_keys :: "entry_key list" where
  "insn_keys = map entry_key_of ajardsp_insns"

text \<open>A field that takes every operand of a shape without loss.\<close>

fun shape_fits :: "arg_shape \<Rightarrow> field_key \<Rightarrow> bool" where
  "shape_fits Shape_ptr (ty, w, e) \<longleftrightarrow> ty = REG \<and> (e = Some Enc_ptr \<and> 3 \<le> w \<or> e = Some Enc_reg \<and> w = 5)"
| "shape_fits (Shape_half n) (ty, w, e) \<longleftrightarrow> ty = REG \<and> (e = Some Enc_acc_half \<and> n \<le> 2 ^ w \<or> e = Some Enc_reg \<and> w = 5)"
| "shape_fits (Shape_acc n) (ty, w, e) \<longleftrightarrow> ty = REG \<and> e = Some Enc_acc \<and> n \<le> 2 ^ w"
| "shape_fits Shape_pred (ty, w, e) \<longleftrightarrow> ty = REG \<and> e = Some Enc_pred \<and> 2 \<le> w"
| "shape_fits Shape_sp (ty, w, e) \<longleftrightarrow> ty = REG \<and> e = Some Enc_spec \<and> 2 \<le> w"
| "shape_fits (Shape_int lo hi) (ty, w, e) \<longleftrightarrow>
     ty = INTEGER \<and> e = Some Enc_int \<and> w < 31 \<and> - (2 ^ (w - 1)) \<le> lo \<and> hi < 2 ^ w"
| "shape_fits Shape_sym (ty, w, e) \<longleftrightarrow> ty = SYMBOL_REF \<and> e = Some Enc_symref"

definition entry_fits :: "string \<Rightarrow> arg_shape list \<Rightarrow> entry_key \<Rightarrow> bool" where
  "entry_fits mn ss k \<longleftrightarrow> fst k = mn \<and> list_all2 shape_fits ss (snd (snd k))"

definition entry_words :: "bool \<Rightarrow> entry_key \<Rightarrow> nat" where
  "entry_words cond k = (if fst (snd k) = INST_32 \<or> cond then 2 else 1)"

text \<open>The greatest number of words, and the sum; \<^term>\<open>None\<close> where something does not fit.\<close>

fun most_words :: "nat option list \<Rightarrow> nat option" where
  "most_words [] = Some 0"
| "most_words (None # xs) = None"
| "most_words (Some n # xs) = map_option (max n) (most_words xs)"

fun total_words :: "nat option list \<Rightarrow> nat option" where
  "total_words [] = Some 0"
| "total_words (None # xs) = None"
| "total_words (Some n # xs) = map_option ((+) n) (total_words xs)"

definition instruction_words :: "bool \<Rightarrow> string \<Rightarrow> arg_shape list \<Rightarrow> nat option" where
  "instruction_words cond mn ss =
     (case filter (entry_fits mn ss) insn_keys of
        [] \<Rightarrow> None
      | k # ks \<Rightarrow> Some (entry_words cond k))"

definition template_mnemonics :: "template \<Rightarrow> string list" where
  "template_mnemonics t =
     (case tm_cond t of None \<Rightarrow> [tm_mnemonic t] | Some n \<Rightarrow> map (\<lambda>c. tm_mnemonic t @ c) comparison_names)"

definition kind_is :: "operand_kind list \<Rightarrow> operand_kind \<Rightarrow> nat option \<Rightarrow> bool" where
  "kind_is ks kd x = (case x of None \<Rightarrow> True | Some n \<Rightarrow> n < length ks \<and> ks ! n = kd)"

definition template_words :: "operand_kind list \<Rightarrow> string \<Rightarrow> template \<Rightarrow> nat option" where
  "template_words ks s t =
     (if length ks \<le> 10 \<and> template_text t = s \<and> list_all is_mnemonic (template_mnemonics t) \<and>
         kind_is ks Kind_comparison (tm_cond t) \<and> kind_is ks (Kind_reg BImode PRED_REGS) (tm_pred t)
      then (case all_shapes ks (tm_args t) of
          None \<Rightarrow> None
        | Some sss \<Rightarrow>
            most_words (concat (map (\<lambda>mn. map (instruction_words (tm_pred t \<noteq> None) mn) sss) (template_mnemonics t))))
      else None)"

definition line_words :: "operand_kind list \<Rightarrow> string \<Rightarrow> nat option" where
  "line_words ks s = template_words ks s (parse_template s)"

definition alternative_words :: "md_insn \<Rightarrow> nat \<Rightarrow> nat option" where
  "alternative_words d k = total_words (map (line_words (map (\<lambda>m. operand_kind m k) (md_operands d))) (md_templates d ! k))"

definition alternative_fits :: "md_insn \<Rightarrow> nat \<Rightarrow> bool" where
  "alternative_fits d k \<longleftrightarrow> (case alternative_words d k of None \<Rightarrow> False | Some n \<Rightarrow> n \<le> insn_isize d k)"


section \<open>What is printed\<close>

definition printed_name :: "machine_mode \<Rightarrow> int \<Rightarrow> string" where
  "printed_name m r = (let nm = tl (reg_names ! nat r) in if m = HImode then take 4 nm else nm)"

definition constant_node :: "rtx \<Rightarrow> operand" where
  "constant_node c = (case c of Const_int_x i \<Rightarrow> int_operand (word_of_int i) | Symbol_ref_x s \<Rightarrow> sym_operand s | _ \<Rightarrow> int_operand 0)"

definition address_operands :: "rtx \<Rightarrow> operand list" where
  "address_operands a =
     (case a of
        Reg_x m r \<Rightarrow> [reg_operand (printed_name QImode r)]
      | Plus_x x y \<Rightarrow>
          (case x of
             Reg_x m r \<Rightarrow> [reg_operand (printed_name QImode r), constant_node y]
           | _ \<Rightarrow> (case y of Reg_x m r \<Rightarrow> [reg_operand (printed_name QImode r), constant_node x] | _ \<Rightarrow> []))
      | _ \<Rightarrow> [])"

definition arg_operands :: "gcc_output \<Rightarrow> rtx list \<Rightarrow> template_arg \<Rightarrow> operand list" where
  "arg_operands out ops a =
     (case ops ! (case a of Arg c n \<Rightarrow> n | Label_arg n \<Rightarrow> n) of
        Reg_x m r \<Rightarrow> [reg_operand (printed_name m r)]
      | Mem_x x \<Rightarrow> address_operands x
      | Const_int_x i \<Rightarrow> [int_operand (word_of_int i)]
      | Symbol_ref_x s \<Rightarrow> [sym_operand (assemble_name out s)]
      | Label_ref_x l \<Rightarrow> [sym_operand (assemble_name out l)]
      | _ \<Rightarrow> [])"

definition reg_of :: "rtx \<Rightarrow> int" where
  "reg_of x = (case x of Reg_x m r \<Rightarrow> r | _ \<Rightarrow> 0)"

definition node_name :: "rtx \<Rightarrow> string" where
  "node_name x = (case x of Node c n xs \<Rightarrow> n | _ \<Rightarrow> [])"

text \<open>The instruction of a line.\<close>

definition line_instruction :: "gcc_output \<Rightarrow> rtx list \<Rightarrow> template \<Rightarrow> instruction" where
  "line_instruction out ops t =
     \<lparr>inst_pred = map_option (\<lambda>n. printed_name BImode (reg_of (ops ! n))) (tm_pred t), inst_pred_neg = 0,
      inst_mnemonic = tm_mnemonic t @ (case tm_cond t of None \<Rightarrow> [] | Some n \<Rightarrow> node_name (ops ! n)),
      inst_ops = concat (map (arg_operands out ops) (tm_args t)), inst_lineno = 0\<rparr>"

text \<open>
  Operands the assembler can take: the base of an address is not the stack pointer, which is a base register of
  the port but not of the assembler; displacements are in the signed range of the hardware; symbols are
  names and defined; there are no sums of a symbol and a number, and labels only where a branch names them,
  since the port prints neither as an address.
\<close>

definition usable_base :: "rtx \<Rightarrow> bool" where
  "usable_base x = (case x of Reg_x m r \<Rightarrow> r \<noteq> AJARDSP_REGNO_SP | _ \<Rightarrow> False)"

definition usable_symbol :: "symtab \<Rightarrow> string \<Rightarrow> bool" where
  "usable_symbol sy s \<longleftrightarrow> is_name symbol_char s \<and> symtab_lookup s sy \<noteq> None"

definition usable_offset :: "symtab \<Rightarrow> rtx \<Rightarrow> bool" where
  "usable_offset sy c =
     (case c of
        Const_int_x i \<Rightarrow> - 2048 \<le> i \<and> i < 2048
      | Symbol_ref_x s \<Rightarrow> usable_symbol sy s \<and> (case symtab_lookup s sy of Some a \<Rightarrow> a < 2048 | None \<Rightarrow> False)
      | _ \<Rightarrow> False)"

definition usable :: "gcc_output \<Rightarrow> symtab \<Rightarrow> operand_kind \<Rightarrow> rtx \<Rightarrow> bool" where
  "usable out sy kd x =
     (case x of
        Mem_x (Reg_x m r) \<Rightarrow> usable_base (Reg_x m r)
      | Mem_x (Plus_x a b) \<Rightarrow> usable_base a \<and> usable_offset sy b \<or> usable_base b \<and> usable_offset sy a
      | Symbol_ref_x s \<Rightarrow> usable_symbol sy (assemble_name out s)
      | Label_ref_x l \<Rightarrow> kd = Kind_label \<and> usable_symbol sy (assemble_name out l)
      | Const_x y \<Rightarrow> False
      | _ \<Rightarrow> True)"

definition shape_sat :: "symtab \<Rightarrow> arg_shape \<Rightarrow> operand \<Rightarrow> bool" where
  "shape_sat sy s op \<longleftrightarrow>
     (case s of
        Shape_ptr \<Rightarrow> \<exists>n<8. op = reg_operand (''ptr'' @ [digit n])
      | Shape_half k \<Rightarrow> \<exists>n h. n < 8 \<and> 2 * n + 1 < k \<and> h < 2 \<and> op = reg_operand (''acc'' @ [digit n, if h = (0::nat) then CHR ''l'' else CHR ''h''])
      | Shape_acc k \<Rightarrow> \<exists>n<8. n < k \<and> op = reg_operand (''acc'' @ [digit n])
      | Shape_pred \<Rightarrow> \<exists>n<4. op = reg_operand (''pred'' @ [digit n])
      | Shape_sp \<Rightarrow> op = reg_operand ''sp''
      | Shape_int lo hi \<Rightarrow> \<exists>i. lo \<le> i \<and> i \<le> hi \<and> op = int_operand (word_of_int i)
      | Shape_sym \<Rightarrow> \<exists>s. usable_symbol sy s \<and> op = sym_operand s)"

section \<open>Encoding\<close>

definition register_names :: "encoder \<Rightarrow> string list" where
  "register_names e =
     (let ptrs = map (\<lambda>n. ''ptr'' @ [digit n]) [0..<8];
          halves = concat (map (\<lambda>n. [''acc'' @ [digit n, CHR ''l''], ''acc'' @ [digit n, CHR ''h'']]) [0..<8]) in
      case e of
        Enc_ptr \<Rightarrow> ptrs
      | Enc_acc_half \<Rightarrow> halves
      | Enc_acc \<Rightarrow> map (\<lambda>n. ''acc'' @ [digit n]) [0..<8]
      | Enc_pred \<Rightarrow> map (\<lambda>n. ''pred'' @ [digit n]) [0..<4]
      | Enc_reg \<Rightarrow> ptrs @ [[], [], [], [], [], [], [], []] @ halves
      | Enc_spec \<Rightarrow> [[], ''retpc'', ''sp'']
      | _ \<Rightarrow> [])"

text \<open>The field of an operand names the register, or is the integer or the address in the width of the field.\<close>

definition holds :: "symtab \<Rightarrow> operand_def \<Rightarrow> operand \<Rightarrow> u32 \<Rightarrow> bool" where
  "holds sy f op v \<longleftrightarrow>
     (case op_type op of
        INTEGER \<Rightarrow> get_field f v = op_offset op AND width_mask f
      | SYMBOL_REF \<Rightarrow> (\<exists>s a. op_name op = Some s \<and> symtab_lookup s sy = Some a \<and> get_field f v = a AND width_mask f)
      | _ \<Rightarrow> (\<exists>e. od_encode f = Some e \<and> unat (get_field f v) < length (register_names e) \<and>
               op_name op = Some (register_names e ! unat (get_field f v))))"

lemma holds_cong: "get_field f v = get_field f w \<Longrightarrow> holds sy f op v \<longleftrightarrow> holds sy f op w"
  by (cases "op_type op") (simp_all add: holds_def)

lemma holds_reg:
  assumes "od_encode f = Some e" "get_field f v = of_nat n" "n < length (register_names e)" "n < 32" "register_names e ! n = nm"
  shows "holds sy f (reg_operand nm) v"
proof -
  have "unat (of_nat n :: u32) = n" using assms(4) by (simp add: unat_of_nat)
  with assms show ?thesis by (simp add: holds_def reg_operand_def)
qed

definition encodable :: "symtab \<Rightarrow> operand_def \<Rightarrow> operand \<Rightarrow> bool" where
  "encodable sy f op \<longleftrightarrow> od_type f = op_type op \<and>
     (\<forall>p. p AND field_mask f = 0 \<longrightarrow>
        (\<exists>e q. od_encode f = Some e \<and> run_encode False sy e f op p = Good q \<and> holds sy f op q))"

lemma register_names_length:
  "length (register_names Enc_ptr) = 8" "length (register_names Enc_reg) = 32" "length (register_names Enc_acc) = 8"
  "length (register_names Enc_acc_half) = 16" "length (register_names Enc_pred) = 4" "length (register_names Enc_spec) = 3"
  by (simp_all add: register_names_def Let_def upt_rec)

lemma register_names_nth:
  "n < 8 \<Longrightarrow> register_names Enc_ptr ! n = ''ptr'' @ [digit n]" "n < 8 \<Longrightarrow> register_names Enc_reg ! n = ''ptr'' @ [digit n]"
  "n < 8 \<Longrightarrow> register_names Enc_acc ! n = ''acc'' @ [digit n]" "n < 4 \<Longrightarrow> register_names Enc_pred ! n = ''pred'' @ [digit n]"
  by (simp_all add: register_names_def Let_def nth_append)

lemma register_names_halves:
  assumes "n < 8"
  shows "register_names Enc_acc_half ! (2 * n) = ''acc'' @ [digit n, CHR ''l'']"
    and "register_names Enc_acc_half ! (2 * n + 1) = ''acc'' @ [digit n, CHR ''h'']"
    and "register_names Enc_reg ! (16 + 2 * n) = ''acc'' @ [digit n, CHR ''l'']"
    and "register_names Enc_reg ! (17 + 2 * n) = ''acc'' @ [digit n, CHR ''h'']"
proof -
  have "\<forall>n\<in>set [0..<8]. register_names Enc_acc_half ! (2 * n) = ''acc'' @ [digit n, CHR ''l''] \<and>
      register_names Enc_acc_half ! (2 * n + 1) = ''acc'' @ [digit n, CHR ''h''] \<and>
      register_names Enc_reg ! (16 + 2 * n) = ''acc'' @ [digit n, CHR ''l''] \<and>
      register_names Enc_reg ! (17 + 2 * n) = ''acc'' @ [digit n, CHR ''h'']"
    by (simp add: register_names_def Let_def upt_rec)
  with assms show "register_names Enc_acc_half ! (2 * n) = ''acc'' @ [digit n, CHR ''l'']"
    "register_names Enc_acc_half ! (2 * n + 1) = ''acc'' @ [digit n, CHR ''h'']"
    "register_names Enc_reg ! (16 + 2 * n) = ''acc'' @ [digit n, CHR ''l'']"
    "register_names Enc_reg ! (17 + 2 * n) = ''acc'' @ [digit n, CHR ''h'']" by simp_all
qed

lemma encodable_reg:
  assumes "od_type f = REG" "od_encode f = Some e" "n < length (register_names e)" "n < 32" "register_names e ! n = nm"
    and "\<And>p. p AND field_mask f = 0 \<Longrightarrow> \<exists>q. run_encode False sy e f (reg_operand nm) p = Good q \<and> get_field f q = of_nat n"
  shows "encodable sy f (reg_operand nm)"
proof -
  have "op_type (reg_operand nm) = REG" by (simp add: reg_operand_def)
  with assms holds_reg[OF assms(2) _ assms(3-5)] show ?thesis unfolding encodable_def by fastforce
qed

lemma unat_width_5: "unat (w :: u32) = 5 \<longleftrightarrow> w = 5"
  using word_unat_eq_iff[of w 5] by simp

lemma encodable_ptr:
  assumes "wf_field f" "shape_fits Shape_ptr (field_key_of f)" "n < 8"
  shows "encodable sy f (reg_operand (''ptr'' @ [digit n]))"
proof (cases "od_encode f = Some Enc_ptr")
  case True
  with assms(2) have w: "3 \<le> unat (od_width f)" "od_type f = REG" by (auto simp: field_key_of_def unat_width_5)
  have n: "n < 10" "n < 2 ^ unat (od_width f)" using assms(3) pow_mono_width[OF w(1), of n] by simp_all
  show ?thesis
    using register_fields[OF assms(1) _ n(1)] n(2) assms(3) True w(2)
    by (intro encodable_reg[where n = n]) (auto simp: register_names_nth register_names_length)
next
  case False
  with assms(2) have w: "od_width f = 5" "od_type f = REG" "od_encode f = Some Enc_reg" 
    by (auto simp: field_key_of_def unat_width_5)
  show ?thesis
    using core_register_fields[OF assms(1) w(1) _ assms(3)] assms(3) w
    by (intro encodable_reg[where n = n]) (auto simp: register_names_nth register_names_length)
qed


lemma half_field_value:
  assumes "wf_field f" "shape_fits (Shape_half k) (field_key_of f)" "n < 8" "2 * n + 1 < k" "h < 2"
  shows "encodable sy f (reg_operand (''acc'' @ [digit n, if h = (0 :: nat) then CHR ''l'' else CHR ''h'']))"
proof (cases "od_encode f = Some Enc_acc_half")
  case True
  with assms(2) have w: "k \<le> 2 ^ unat (od_width f)" "od_type f = REG" by (auto simp: field_key_of_def unat_width_5)
  have n: "n < 10" "2 * n + 1 < 2 ^ unat (od_width f)" using assms(3,4) w(1) by simp_all
  have h: "h = 0 \<or> h = 1" using assms(5) by auto
  show ?thesis
    using register_fields[OF assms(1) _ n(1)] n(2) assms(3) True w(2) h register_names_halves[OF assms(3)]
    by (intro encodable_reg[where n = "2 * n + h"]) (auto simp: register_names_length)
next
  case False
  with assms(2) have w: "od_width f = 5" "od_type f = REG" "od_encode f = Some Enc_reg"
    by (auto simp: field_key_of_def unat_width_5)
  have h: "h = 0 \<or> h = 1" using assms(5) by auto
  show ?thesis
    using core_register_fields[OF assms(1) w(1) _ assms(3)] assms(3) w h register_names_halves[OF assms(3)]
    by (intro encodable_reg[where n = "16 + 2 * n + h"]) (auto simp: register_names_length)
qed

lemma encodable_rest:
  assumes "wf_field f"
  shows "shape_fits (Shape_acc k) (field_key_of f) \<Longrightarrow> n < 8 \<Longrightarrow> n < k \<Longrightarrow> encodable sy f (reg_operand (''acc'' @ [digit n]))"
    and "shape_fits Shape_pred (field_key_of f) \<Longrightarrow> n < 4 \<Longrightarrow> encodable sy f (reg_operand (''pred'' @ [digit n]))"
    and "shape_fits Shape_sp (field_key_of f) \<Longrightarrow> encodable sy f (reg_operand ''sp'')"
    and "shape_fits (Shape_int lo hi) (field_key_of f) \<Longrightarrow> lo \<le> i \<Longrightarrow> i \<le> hi \<Longrightarrow> encodable sy f (int_operand (word_of_int i))"
    and "shape_fits Shape_sym (field_key_of f) \<Longrightarrow> usable_symbol sy s \<Longrightarrow> encodable sy f (sym_operand s)"
proof -
  assume s: "shape_fits (Shape_acc k) (field_key_of f)" and n: "n < 8" "n < k"
  then have w: "k \<le> 2 ^ unat (od_width f)" "od_type f = REG" "od_encode f = Some Enc_acc" by (auto simp: field_key_of_def unat_width_5)
  show "encodable sy f (reg_operand (''acc'' @ [digit n]))"
    using register_fields[OF assms(1), of _ n] n w
    by (intro encodable_reg[where n = n]) (auto simp: register_names_nth register_names_length)
next
  assume s: "shape_fits Shape_pred (field_key_of f)" and n: "n < 4"
  then have w: "2 \<le> unat (od_width f)" "od_type f = REG" "od_encode f = Some Enc_pred" by (auto simp: field_key_of_def unat_width_5)
  have m: "n < 2 ^ unat (od_width f)" using n pow_mono_width[OF w(1), of n] by simp
  show "encodable sy f (reg_operand (''pred'' @ [digit n]))"
    using register_fields[OF assms(1), of _ n] n m w
    by (intro encodable_reg[where n = n]) (auto simp: register_names_nth register_names_length)
next
  assume s: "shape_fits Shape_sp (field_key_of f)"
  then have w: "2 \<le> unat (od_width f)" "od_type f = REG" "od_encode f = Some Enc_spec" by (auto simp: field_key_of_def unat_width_5)
  have le: "unat (od_width f) \<le> 32" using assms by (simp add: wf_field_def)
  have "get_field f (put_field f 2 p) = 2" if "p AND field_mask f = 0" for p
    using get_put_field[OF assms that fits_width_nat[OF pow_mono_width[OF w(1), of 2] le]] by simp
  then show "encodable sy f (reg_operand ''sp'')"
    using w encode_spec_exact[of f "''sp''"]
    by (intro encodable_reg[where n = 2]) (auto simp: register_names_length register_names_def SpecialRegs_def)
next
  assume s: "shape_fits (Shape_int lo hi) (field_key_of f)" and i: "lo \<le> i" "i \<le> hi"
  then have w: "unat (od_width f) < 31" "od_type f = INTEGER" "od_encode f = Some Enc_int"
    "- (2 ^ (unat (od_width f) - 1)) \<le> i" "i < 2 ^ unat (od_width f)" by (auto simp: field_key_of_def unat_width_5)
  have "(2 :: int) ^ m \<le> 2 ^ 30" if "m \<le> 30" for m using that by (rule power_increasing) simp
  from this[of "unat (od_width f)"] this[of "unat (od_width f) - 1"] w(1)
  have "(2 :: int) ^ unat (od_width f) \<le> 2 ^ 30" "(2 :: int) ^ (unat (od_width f) - 1) \<le> 2 ^ 30" by simp_all
  then have "- (2 ^ 31) \<le> i" "i < 2 ^ 31" using w(4,5) by simp_all
  then have "sint (word_of_int i :: i32) = i" by (simp add: sint_sbintrunc' signed_take_bit_int_eq_self)
  with get_put_field_masked[OF assms] w show "encodable sy f (int_operand (word_of_int i))"
    by (auto simp: encodable_def encode_int_cases holds_def int_operand_def)
next
  assume "shape_fits Shape_sym (field_key_of f)" "usable_symbol sy s"
  then show "encodable sy f (sym_operand s)"
    using get_put_field_masked[OF assms]
    by (auto simp: field_key_of_def usable_symbol_def encodable_def sym_operand_def encode_symref_def holds_def)
qed

lemma shape_encodable:
  assumes "wf_field f" "shape_fits s (field_key_of f)" "shape_sat sy s op"
  shows "encodable sy f op"
  using assms(3) encodable_ptr[OF assms(1)] half_field_value[OF assms(1)] encodable_rest[OF assms(1)] assms(2)
  by (cases s) (auto simp: shape_sat_def)


lemma encode_fields:
  assumes "list_all2 (encodable sy) fs ops" "list_all wf_field fs" "fields_disjoint fs" "p AND fields_mask fs = 0"
  shows "\<exists>q. encode_operands False sy fs ops p = Good q \<and> list_all2 (\<lambda>f op. holds sy f op q) fs ops"
  using assms
proof (induction fs ops arbitrary: p rule: list_all2_induct)
  case (Cons f fs op ops)
  have wf: "wf_field f" "list_all wf_field fs" using Cons.prems(1) by simp_all
  have dis: "field_mask f AND fields_mask fs = 0" "fields_disjoint fs" using Cons.prems(2) by simp_all
  have clear: "\<not> bit p n" if "bit (field_mask f) n \<or> bit (fields_mask fs) n" for n
    using that Cons.prems(3) and_zero_bit[of p "fields_mask (f # fs)" n] by (auto simp: fields_mask_def bit_or_iff)
  have "p AND field_mask f = 0"
    using clear by (intro bit_word_eqI) (auto simp: bit_and_iff)
  with Cons.hyps(1) obtain e q where e: "od_encode f = Some e" "run_encode False sy e f op p = Good q" "holds sy f op q"
    by (auto simp: encodable_def)
  have "q AND fields_mask fs = 0"
    using clear run_enc.frame[OF wf(1) e(2)] and_zero_bit[OF dis(1)]
    by (intro bit_word_eqI) (auto simp: bit_and_iff)
  from Cons.IH[OF wf(2) dis(2) this] obtain v where
    v: "encode_operands False sy fs ops q = Good v" "list_all2 (\<lambda>f op. holds sy f op v) fs ops" by blast
  have "get_field f v = get_field f q"
    using encode_operands_bits[OF v(1) list_all2_lengthD[OF Cons.hyps(2)] wf(2)] and_zero_bit[OF dis(1)]
    by (intro get_field_cong[OF _ wf(1)]) blast
  from holds_cong[OF this] e v show ?case by simp
qed simp

lemma field_below_28:
  assumes "wf_insn e" "f \<in> set (id_operands e)" "bit (field_mask f) n"
  shows "n < 28"
proof (rule ccontr)
  assume n: "\<not> n < 28"
  have "n < 32" using bit_imp_le_length[OF assms(3)] by simp
  with n have "n = 28 \<or> n = 29 \<or> n = 30 \<or> n = 31" by arith
  then have "bit (reserved_mask (id_size e)) n"
    by (cases "id_size e") (auto simp: reserved_mask_def)
  moreover have "bit (fields_mask (id_operands e)) n" using assms(2,3) by (auto simp: bit_fields_mask)
  ultimately show False using assms(1) and_zero_bit by (auto simp: wf_insn_def)
qed

definition plain_condition :: "instruction \<Rightarrow> bool" where
  "plain_condition i \<longleftrightarrow> inst_pred_neg i = 0 \<and> (\<forall>p. inst_pred i = Some p \<longrightarrow> (\<exists>n<4. p = ''pred'' @ [digit n]))"

lemma entry_assembles:
  assumes "e \<in> set ajardsp_insns" "id_mnemonic e = inst_mnemonic i" "list_all2 (encodable sy) (id_operands e) (inst_ops i)"
    and "plain_condition i"
  shows "\<exists>p. assembles False sy e i nx p \<and> list_all2 (\<lambda>f op. holds sy f op p) (id_operands e) (inst_ops i)"
proof -
  have wf: "wf_insn e" using ajardsp.entry_wf[OF assms(1)] .
  then have wf': "list_all wf_field (id_operands e)" "fields_disjoint (id_operands e)"
    by (auto simp: wf_insn_def list_all_iff)
  let ?p = "if nx then id_pattern e OR push_bit PAR_BIT 1 else id_pattern e"
  have "?p AND fields_mask (id_operands e) = 0"
  proof (rule bit_word_eqI)
    fix n :: nat
    have "bit (reserved_mask (id_size e)) 0" by (cases "id_size e") (simp_all add: reserved_mask_def)
    then have "\<not> bit (fields_mask (id_operands e)) 0"
      using wf and_zero_bit[of "fields_mask (id_operands e)" "reserved_mask (id_size e)" 0] by (auto simp: wf_insn_def)
    moreover have "\<not> bit (fields_mask (id_operands e)) n" if "bit (id_pattern e) n"
      using wf that and_zero_bit by (auto simp: wf_insn_def)
    ultimately show "bit (?p AND fields_mask (id_operands e)) n \<longleftrightarrow> bit (0 :: u32) n"
      by (auto simp: bit_and_iff bit_or_iff PAR_BIT_def bit_1_iff)
  qed
  from encode_fields[OF assms(3) wf' this] obtain q where
    q: "encode_operands False sy (id_operands e) (inst_ops i) ?p = Good q"
      "list_all2 (\<lambda>f op. holds sy f op q) (id_operands e) (inst_ops i)" by blast
  obtain v where v: "encode_predicate i q = Good v"
  proof (cases "inst_pred i")
    case None
    then show ?thesis by (intro that[of q]) (simp add: encode_predicate_def)
  next
    case (Some pr)
    then obtain n where n: "n < 4" "pr = ''pred'' @ [digit n]" using assms(4) by (auto simp: plain_condition_def)
    have "\<forall>n\<in>set [0..<4]. atoi [digit n] \<noteq> None"
      by (simp add: upt_rec digit_def atoi_def atoi_value_def c_isdigit_def c_isspace_def Let_def)
    then have "atoi [digit n] \<noteq> None" using n(1) by simp
    with n Some show ?thesis
      by (auto simp: encode_predicate_def strncmp_eq_def Let_def intro: that)
  qed
  have "holds sy f op v" if "(f, op) \<in> set (zip (id_operands e) (inst_ops i))" for f op
  proof -
    have f: "f \<in> set (id_operands e)" using that by (rule set_zip_leftD)
    have "wf_field f" using wf' f by (simp add: list_all_iff)
    from get_field_cong[OF encode_predicate_bits[OF v field_below_28[OF wf f]] this] have g: "get_field f v = get_field f q" .
    have "holds sy f op q" using q(2) that by (auto simp: list_all2_iff)
    then show ?thesis unfolding holds_cong[OF g] .
  qed
  with q(2) have h: "list_all2 (\<lambda>f op. holds sy f op v) (id_operands e) (inst_ops i)" by (auto simp: list_all2_iff)
  have ty: "list_all2 (\<lambda>f op. od_type f = op_type op) (id_operands e) (inst_ops i)"
    using assms(3) by (rule list_all2_mono) (simp add: encodable_def)
  have "encode_insn False sy e i nx = Good v"
    unfolding encode_insn_def operand_array_def Let_def encode_operands_append[OF list_all2_lengthD[OF assms(3)]] q(1)
    by (simp add: v)
  with ty assms(2) operand_match_Good[OF wf] h show ?thesis by (auto simp: assembles_def)
qed


section \<open>Printing\<close>

lemma printed_of_name:
  assumes "reg_name r = Good (CHR ''$'' # nm)"
  shows "printed_name m r = (if m = HImode then take 4 nm else nm)"
proof -
  have "reg_names ! nat r = CHR ''$'' # nm" using assms by (simp add: reg_name_def split: if_splits)
  then show ?thesis by (simp add: printed_name_def)
qed

lemma digit_names:
  "n < 8 \<Longrightarrow> is_name reg_char (''ptr'' @ [digit n])" "n < 8 \<Longrightarrow> is_name reg_char (''acc'' @ [digit n])"
  "n < 8 \<Longrightarrow> is_name reg_char (''acc'' @ [digit n, CHR ''l''])" "n < 8 \<Longrightarrow> is_name reg_char (''acc'' @ [digit n, CHR ''h''])"
  "n < 8 \<Longrightarrow> is_name reg_char (''pred'' @ [digit n])" "is_name reg_char ''sp''"
proof -
  have "\<forall>n\<in>set [0..<8]. reg_char (digit n)" by (simp add: upt_rec digit_def reg_char_def is_lower_def c_isdigit_def)
  then show "n < 8 \<Longrightarrow> is_name reg_char (''ptr'' @ [digit n])" "n < 8 \<Longrightarrow> is_name reg_char (''acc'' @ [digit n])"
    "n < 8 \<Longrightarrow> is_name reg_char (''acc'' @ [digit n, CHR ''l''])" "n < 8 \<Longrightarrow> is_name reg_char (''acc'' @ [digit n, CHR ''h''])"
    "n < 8 \<Longrightarrow> is_name reg_char (''pred'' @ [digit n])" "is_name reg_char ''sp''"
    by (simp_all add: is_name_def reg_char_def is_lower_def)
qed

lemma meetsI: "in_class (int n) cls \<Longrightarrow> a \<le> n \<Longrightarrow> n < b \<Longrightarrow> meets cls a b"
  by (auto simp: meets_def list_ex_iff)

definition printed_as :: "symtab \<Rightarrow> machine_mode \<Rightarrow> reg_class \<Rightarrow> int \<Rightarrow> bool" where
  "printed_as sy m cls r \<longleftrightarrow>
     (\<exists>s\<in>set (reg_shapes m cls). shape_sat sy s (reg_operand (printed_name m r))) \<and>
     print_reg m r = asm_text (CHR ''$'' # printed_name m r) \<and> is_name reg_char (printed_name m r) \<and>
     (m \<noteq> HImode \<longrightarrow> reg_name r = Good (CHR ''$'' # printed_name m r))"

lemma printed_as_ptr:
  assumes "n < 8" "in_class (int n) cls"
  shows "printed_as sy QImode cls (int n)"
  using assms(1) reg_name_ptr[OF assms(1)] printed_of_name[OF reg_name_ptr[OF assms(1)]] digit_names meetsI[OF assms(2), of 0 8]
  by (auto simp: printed_as_def reg_shapes_def shape_sat_def print_reg_def)

lemma printed_as_acc:
  assumes "n < 8" "h < (2 :: nat)" "in_class (int (8 + 2 * n + h)) cls"
  shows "printed_as sy QImode cls (int (8 + 2 * n + h))"
proof -
  let ?c = "if h = 0 then CHR ''l'' else CHR ''h''"
  have h: "h = 0 \<or> h = 1" using assms(2) by auto
  have nm: "reg_name (int (8 + 2 * n + h)) = Good (CHR ''$'' # ''acc'' @ [digit n, ?c])"
    using h reg_name_acc[OF assms(1)] by (auto simp: algebra_simps)
  have "\<exists>k. Shape_half k \<in> set (reg_shapes QImode cls) \<and> 2 * n + 1 < k"
  proof (cases "meets cls 16 24")
    case True
    then show ?thesis using assms(1) by (intro exI[of _ 16]) (simp add: reg_shapes_def)
  next
    case False
    have "\<not> 16 \<le> 8 + 2 * n + h" using meetsI[OF assms(3), of 16 24] False assms(1,2) by auto
    then have "n < 4" by simp
    moreover have "meets cls 8 16" using meetsI[OF assms(3), of 8 16] \<open>n < 4\<close> assms(2) by simp
    ultimately show ?thesis using False by (intro exI[of _ 8]) (simp add: reg_shapes_def)
  qed
  then obtain k where k: "Shape_half k \<in> set (reg_shapes QImode cls)" "2 * n + 1 < k" by blast
  have "shape_sat sy (Shape_half k) (reg_operand (''acc'' @ [digit n, ?c]))"
    unfolding shape_sat_def arg_shape.case using assms(1,2) k(2) by (intro exI[of _ n] exI[of _ h]) simp
  then have "\<exists>s\<in>set (reg_shapes QImode cls). shape_sat sy s (reg_operand (''acc'' @ [digit n, ?c]))" using k(1) by blast
  moreover have "is_name reg_char (''acc'' @ [digit n, ?c])" using digit_names(3,4)[OF assms(1)] by simp
  ultimately show ?thesis
    unfolding printed_as_def printed_of_name[OF nm] nm print_reg_def by (simp del: append_Cons)
qed

lemma printed_as_pair:
  assumes "n < 8" "in_class (int (8 + 2 * n)) cls"
  shows "printed_as sy HImode cls (int (8 + 2 * n))"
proof -
  have nm: "reg_name (int (8 + 2 * n)) = Good (CHR ''$'' # ''acc'' @ [digit n, CHR ''l''])"
    using reg_name_acc[OF assms(1)] by (simp add: algebra_simps)
  have "\<exists>k. Shape_acc k \<in> set (reg_shapes HImode cls) \<and> n < k"
  proof (cases "meets cls 16 24")
    case True
    then show ?thesis using assms(1) by (intro exI[of _ 8]) (simp add: reg_shapes_def)
  next
    case False
    then have "\<not> 16 \<le> 8 + 2 * n" using meetsI[OF assms(2), of 16 24] assms(1) by auto
    then have "n < 4" by simp
    moreover have "meets cls 8 16" using meetsI[OF assms(2), of 8 16] \<open>n < 4\<close> by simp
    ultimately show ?thesis using False by (intro exI[of _ 4]) (simp add: reg_shapes_def)
  qed
  then obtain k where "Shape_acc k \<in> set (reg_shapes HImode cls)" "n < k" by blast
  then have "\<exists>s\<in>set (reg_shapes HImode cls). shape_sat sy s (reg_operand (''acc'' @ [digit n]))"
    using assms(1) by (intro bexI[of _ "Shape_acc k"]) (auto simp: shape_sat_def)
  then show ?thesis
    using digit_names(2)[OF assms(1)] unfolding printed_as_def printed_of_name[OF nm] nm print_reg_def by simp
qed

lemma printed_as_pred:
  assumes "n < 4" "in_class (24 + int n) cls"
  shows "printed_as sy BImode cls (24 + int n)"
proof -
  have "meets cls 24 28" using meetsI[of "24 + n" cls 24 28] assms by simp
  then show ?thesis
    using assms(1) reg_name_pred[OF assms(1)] printed_of_name[OF reg_name_pred[OF assms(1)]] digit_names(5)[of n]
    by (auto simp: printed_as_def reg_shapes_def shape_sat_def print_reg_def)
qed

lemma reg_prints:
  assumes "0 \<le> r" "in_class r cls" "hard_regno_mode_ok mode_class_of r m" "m \<noteq> QFmode"
  shows "printed_as sy m cls r"
proof -
  have acc: "r = int (8 + 2 * nat ((r - 8) div 2) + nat (r mod 2)) \<and> nat ((r - 8) div 2) < 8 \<and> nat (r mod 2) < 2"
    if "8 \<le> r" "r \<le> 23"
  proof -
    have "r = 8 + 2 * ((r - 8) div 2) + r mod 2" "0 \<le> (r - 8) div 2" "(r - 8) div 2 < 8" "0 \<le> r mod 2" "r mod 2 < 2"
      using that by presburger+
    then show ?thesis by (simp add: nat_less_iff)
  qed
  have "m = BImode \<and> 24 \<le> r \<and> r \<le> 27 \<or> m = QImode \<and> r \<le> 23 \<or> m = HImode \<and> 8 \<le> r \<and> r \<le> 23 \<and> r mod 2 = 0 \<or> m = QImode \<and> r = 28"
    using assms(3,4) by (auto simp: hard_regno_mode_ok_def mode_class_of_def regno_preds regno_defs split: if_splits)
  then consider (p) "m = BImode" "24 \<le> r" "r \<le> 27" | (q) "m = QImode" "r < 8" | (a) "m = QImode" "8 \<le> r" "r \<le> 23"
    | (h) "m = HImode" "8 \<le> r" "r \<le> 23" "r mod 2 = 0" | (s) "m = QImode" "r = 28"
    by linarith
  then show ?thesis
  proof cases
    case p
    then show ?thesis using printed_as_pred[of "nat (r - 24)" cls sy] assms(2) by simp
  next
    case q
    then show ?thesis using printed_as_ptr[of "nat r" cls sy] assms(1,2) by simp
  next
    case a
    then show ?thesis using printed_as_acc[of "nat ((r - 8) div 2)" "nat (r mod 2)" cls sy] acc assms(2) by metis
  next
    case h
    then show ?thesis using printed_as_pair[of "nat ((r - 8) div 2)" cls sy] acc assms(2) by simp
  next
    case s
    have "reg_name 28 = Good ''$sp''" by (simp add: reg_name_def reg_names_def)
    moreover from printed_of_name[OF this] have "printed_name QImode 28 = ''sp''" by simp
    moreover have "meets cls 28 29" using meetsI[of 28 cls 28 29] assms(2) s by simp
    ultimately show ?thesis
      using s digit_names(6) by (auto simp: printed_as_def reg_shapes_def shape_sat_def print_reg_def)
  qed
qed

definition arg_output :: "gcc_output \<Rightarrow> rtx list \<Rightarrow> template_arg \<Rightarrow> printed" where
  "arg_output out ops a =
     (case a of
        Arg None n \<Rightarrow> print_operand (assemble_name out) (ops ! n) None
      | Arg (Some c) n \<Rightarrow> output_code out c (ops ! n)
      | Label_arg n \<Rightarrow> cat (asm_text ''#'') (output_code out (CHR ''l'') (ops ! n)))"

definition prints_operands :: "symtab \<Rightarrow> arg_shape list list \<Rightarrow> printed \<Rightarrow> operand list \<Rightarrow> bool" where
  "prints_operands sy sss txt os \<longleftrightarrow> (\<exists>ss\<in>set sss. list_all2 (shape_sat sy) ss os) \<and>
     txt = asm_text (text_list '', '' text_operand os) \<and> list_all writable_operand os \<and> os \<noteq> []"

lemma node_texts:
  "text_operand (reg_operand nm) = CHR ''$'' # nm" "text_operand (int_operand v) = fmt_d v"
  "text_operand (sym_operand s) = CHR ''#'' # s" "writable_operand (reg_operand nm) \<longleftrightarrow> is_name reg_char nm"
  "writable_operand (int_operand v)" "writable_operand (sym_operand s) \<longleftrightarrow> is_name symbol_char s"
  by (simp_all add: text_operand_def writable_operand_def reg_operand_def int_operand_def sym_operand_def)

lemma base_register:
  assumes "is_base_reg r" "r \<noteq> AJARDSP_REGNO_SP"
  shows "shape_sat sy Shape_ptr (reg_operand (printed_name QImode r))" "is_name reg_char (printed_name QImode r)"
    "reg_name r = Good (CHR ''$'' # printed_name QImode r)" "reg_names ! nat r = CHR ''$'' # printed_name QImode r"
proof -
  have n: "nat r < 8" "int (nat r) = r" using assms by (auto simp: is_base_reg_def regno_defs)
  note nm = reg_name_ptr[OF n(1), unfolded n(2)]
  show "shape_sat sy Shape_ptr (reg_operand (printed_name QImode r))" "is_name reg_char (printed_name QImode r)"
    "reg_name r = Good (CHR ''$'' # printed_name QImode r)"
    using printed_of_name[OF nm] nm n(1) digit_names(1) by (auto simp: shape_sat_def)
  then show "reg_names ! nat r = CHR ''$'' # printed_name QImode r" by (simp add: reg_name_def split: if_splits)
qed

lemma offset_prints:
  assumes "usable_offset sy c" "is_base_reg r" "r \<noteq> AJARDSP_REGNO_SP"
  shows "displaced_text r c = asm_text (CHR ''$'' # printed_name QImode r @ '', '' @ text_operand (constant_node c))"
    and "writable_operand (constant_node c)"
    and "shape_sat sy (Shape_int (- 2048) 2047) (constant_node c) \<or> shape_sat sy Shape_sym (constant_node c)"
  using assms(1) base_register[OF assms(2,3)]
  by (auto simp: usable_offset_def displaced_text_def constant_node_def node_texts fmt_wide_def usable_symbol_def shape_sat_def
      split: rtx.splits)

lemma reg_not_offset: "usable_base x \<Longrightarrow> \<not> usable_offset sy x"
  by (auto simp: usable_base_def usable_offset_def split: rtx.splits)

lemma address_prints:
  assumes "legitimate_address_strict a" "usable out sy kd (Mem_x a)"
  shows "prints_operands sy
      (if is_reg a then [[Shape_ptr]] else [[Shape_ptr, Shape_int (- 2048) 2047], [Shape_ptr, Shape_sym]])
      (print_operand_address a) (address_operands a)"
proof (cases a)
  case (Reg_x m r)
  with assms have r: "is_base_reg r" "r \<noteq> AJARDSP_REGNO_SP"
    by (simp_all add: legitimate_address_strict_def usable_def usable_base_def)
  with Reg_x base_register[OF r] show ?thesis
    by (simp add: prints_operands_def print_operand_address_def named_reg_def regno_of_def address_operands_def is_reg_def node_texts)
next
  case (Plus_x x y)
  with assms(2) obtain b c where bc: "usable_base b" "usable_offset sy c" "(x = b \<and> y = c) \<or> (x = c \<and> y = b)"
    by (auto simp: usable_def)
  then obtain m r where b: "b = Reg_x m r" "r \<noteq> AJARDSP_REGNO_SP" by (auto simp: usable_base_def split: rtx.splits)
  have c: "\<not> is_reg c" "constant_address_p c \<Longrightarrow> True" using bc(2) by (auto simp: usable_offset_def is_reg_def split: rtx.splits)
  have r: "is_base_reg r" "constant_address_p c"
    using assms(1) Plus_x bc(3) b(1) c(1)
    by (auto simp: legitimate_address_strict_def is_reg_def split: rtx.splits)
  have "print_operand_address a = displaced_text r c"
    using print_displaced[OF r, of m] bc(3) Plus_x b(1) by auto
  moreover have "address_operands a = [reg_operand (printed_name QImode r), constant_node c]"
    using bc(3) Plus_x b(1) c(1) by (auto simp: address_operands_def is_reg_def split: rtx.splits)
  ultimately show ?thesis
    using offset_prints[OF bc(2) r(1) b(2)] base_register[OF r(1) b(2)] Plus_x
    by (auto simp: prints_operands_def is_reg_def node_texts)
qed (use assms(1) in \<open>simp_all add: legitimate_address_strict_def\<close>)

lemma arg_prints:
  assumes "arg_shapes ks a = Some sss" "list_all2 (kind_sat ops) ks ops" "list_all2 (usable out sy) ks ops" "gcc_output_ok out"
  shows "prints_operands sy sss (arg_output out ops a) (arg_operands out ops a)"
proof (cases a)
  case (Label_arg n)
  with assms(1) have n: "n < length ks" "ks ! n = Kind_label" "sss = [[Shape_sym]]" by (auto simp: arg_shapes_def split: if_splits)
  have s: "kind_sat ops (ks ! n) (ops ! n)" "usable out sy (ks ! n) (ops ! n)"
    using assms(2,3) n(1) by (auto simp: list_all2_conv_all_nth)
  with n(2) obtain l where l: "ops ! n = Label_ref_x l" by (auto simp: kind_sat_def split: rtx.splits)
  with s(2) have "usable_symbol sy (assemble_name out l)" by (simp add: usable_def)
  then show ?thesis using Label_arg n(3) l
    by (auto simp: prints_operands_def arg_output_def arg_operands_def output_code_def cat_def asm_text_def node_texts
        shape_sat_def usable_symbol_def)
next
  case (Arg c n)
  with assms(1) have n: "n < length ks" by (auto simp: arg_shapes_def split: if_splits)
  have s: "kind_sat ops (ks ! n) (ops ! n)" "usable out sy (ks ! n) (ops ! n)"
    using assms(2,3) n by (auto simp: list_all2_conv_all_nth)
  show ?thesis
  proof (cases "ks ! n")
    case (Kind_reg m cls)
    with s(1) obtain r where r: "ops ! n = Reg_x m r" "0 \<le> r" "in_class r cls" "hard_regno_mode_ok mode_class_of r m"
      by (auto simp: kind_sat_def split: rtx.splits)
    have c: "m \<noteq> QFmode" "c = None \<or> c = Some CHR ''a'' \<and> m = QImode" "sss = map (\<lambda>s. [s]) (reg_shapes m cls)"
      using assms(1) Arg n Kind_reg by (auto simp: arg_shapes_def split: if_splits)
    note p = reg_prints[OF r(2-4) c(1), of sy, unfolded printed_as_def]
    have "arg_output out ops a = asm_text (CHR ''$'' # printed_name m r)"
      using c(2) p Arg r(1)
      by (auto simp: arg_output_def print_operand_def output_code_def print_operand_address_def named_reg_def regno_of_def)
    with p Arg r(1) c(3) show ?thesis
      by (auto simp: prints_operands_def arg_operands_def node_texts)
  next
    case (Kind_int lo hi)
    with s(1) obtain i where i: "ops ! n = Const_int_x i" "lo \<le> i" "i \<le> hi" by (auto simp: kind_sat_def split: rtx.splits)
    have c: "c = Some CHR ''c''" "sss = [[Shape_int lo hi]]"
      using assms(1) Arg n Kind_int by (auto simp: arg_shapes_def split: if_splits)
    have "output_addr_const out (Const_int_x i) = fmt_wide i" using assms(4) by (simp add: gcc_output_ok_def)
    with i c Arg show ?thesis
      by (auto simp: prints_operands_def arg_output_def arg_operands_def output_code_def constant_address_p_def is_node_def
          fmt_wide_def node_texts shape_sat_def)
  next
    case Kind_symbolic
    with s obtain t where t: "ops ! n = Symbol_ref_x t" "usable_symbol sy (assemble_name out t)"
      by (auto simp: kind_sat_def symbolic_operand_def usable_def split: rtx.splits)
    have c: "c = Some CHR ''s''" "sss = [[Shape_sym]]"
      using assms(1) Arg n Kind_symbolic by (auto simp: arg_shapes_def split: if_splits)
    with t Arg show ?thesis
      by (auto simp: prints_operands_def arg_output_def arg_operands_def output_code_def print_operand_def asm_output_symbol_ref_def
          node_texts shape_sat_def usable_symbol_def)
  next
    case Kind_mem_reg
    with s(1) obtain x where x: "ops ! n = Mem_x x" "legitimate_address_strict x" "is_reg x"
      by (auto simp: kind_sat_def split: rtx.splits)
    have c: "c = None" "sss = [[Shape_ptr]]" using assms(1) Arg n Kind_mem_reg by (auto simp: arg_shapes_def split: if_splits)
    show ?thesis using address_prints[OF x(2)] s(2) x c Arg
      by (auto simp: arg_output_def arg_operands_def print_operand_def)
  next
    case Kind_mem_offset
    with s(1) obtain x where x: "ops ! n = Mem_x x" "legitimate_address_strict x" "\<not> is_reg x"
      by (auto simp: kind_sat_def split: rtx.splits)
    have c: "c = Some CHR ''a''" "sss = [[Shape_ptr, Shape_int (- 2048) 2047], [Shape_ptr, Shape_sym]]"
      using assms(1) Arg n Kind_mem_offset by (auto simp: arg_shapes_def split: if_splits)
    have "print_operand_address (Mem_x x) = print_operand_address x"
      using x(2) by (simp add: print_operand_address_def legitimate_address_strict_def split: rtx.splits)
    then show ?thesis using address_prints[OF x(2)] s(2) x c Arg
      by (auto simp: arg_output_def arg_operands_def output_code_def)
  next
    case Kind_mem
    with s(1) obtain x where x: "ops ! n = Mem_x x" "legitimate_address_strict x"
      by (auto simp: kind_sat_def split: rtx.splits)
    have c: "c = None \<or> c = Some CHR ''m''"
      "sss = [[Shape_ptr], [Shape_ptr, Shape_int (- 2048) 2047], [Shape_ptr, Shape_sym]]"
      using assms(1) Arg n Kind_mem by (auto simp: arg_shapes_def split: if_splits)
    have "arg_output out ops a = print_operand_address x" using x(1) c(1) Arg
      by (auto simp: arg_output_def output_code_def print_operand_def)
    moreover have "prints_operands sy (if is_reg x then [[Shape_ptr]] else [[Shape_ptr, Shape_int (- 2048) 2047], [Shape_ptr, Shape_sym]])
        (print_operand_address x) (address_operands x)"
      using address_prints[OF x(2)] s(2) x(1) by simp
    moreover have "arg_operands out ops a = address_operands x" using Arg x(1) by (simp add: arg_operands_def)
    ultimately show ?thesis using c(2) by (cases "is_reg x") (auto simp: prints_operands_def)
  qed (use assms(1) Arg n in \<open>auto simp: arg_shapes_def split: if_splits\<close>)
qed

section \<open>Lines\<close>

lemma cat_simps [simp]:
  "cat (asm_text []) x = x" "cat (asm_text s) (asm_text t) = asm_text (s @ t)" "cat (cat x y) z = cat x (cat y z)"
proof -
  show "cat (asm_text []) x = x" by (cases x) (auto simp: cat_def asm_text_def)
  show "cat (asm_text s) (asm_text t) = asm_text (s @ t)" by (simp add: cat_def asm_text_def)
  show "cat (cat x y) z = cat x (cat y z)" by (cases x; cases y; cases z) (auto simp: cat_def)
qed

lemma output_plain:
  assumes "CHR ''%'' \<notin> set s"
  shows "output_template out ops (s @ r) = cat (asm_text s) (output_template out ops r)"
  using assms
proof (induction s)
  case (Cons c s)
  then have "output_template out ops ((c # s) @ r) = cat (asm_text [c]) (cat (asm_text s) (output_template out ops r))" by auto
  also have "\<dots> = cat (cat (asm_text [c]) (asm_text s)) (output_template out ops r)" by (simp only: cat_simps(3))
  finally show ?case by simp
qed simp

lemma digit_facts:
  assumes "n < 10"
  shows "c_isdigit (digit n)" "of_char (digit n) = (48 + n :: nat)"
proof -
  have "\<forall>n\<in>set [0..<10]. c_isdigit (digit n) \<and> of_char (digit n) = (48 + n :: nat)"
    by (simp add: upt_rec digit_def c_isdigit_def)
  with assms show "c_isdigit (digit n)" "of_char (digit n) = (48 + n :: nat)" by simp_all
qed

lemma nth_operand_digit: "n < 10 \<Longrightarrow> n < length ops \<Longrightarrow> nth_operand ops (digit n) = Good (ops ! n)"
  using digit_facts[of n] by (simp add: nth_operand_def)

definition arg_number :: "template_arg \<Rightarrow> nat" where
  "arg_number a = (case a of Arg c n \<Rightarrow> n | Label_arg n \<Rightarrow> n)"

lemma output_arg:
  assumes "arg_shapes ks a = Some sss" "length ks = length ops" "length ks \<le> 10"
  shows "output_template out ops (arg_text a @ r) = cat (arg_output out ops a) (output_template out ops r)"
proof -
  have n: "arg_number a < length ops" "arg_number a < 10"
    using assms by (auto simp: arg_shapes_def arg_number_def split: template_arg.splits if_splits)
  note d = nth_operand_digit[OF n(2,1)] digit_facts(1)[OF n(2)]
  have c: "\<not> c_isdigit c" if "a = Arg (Some c) m" for c m
    using assms(1) that by (auto simp: arg_shapes_def c_isdigit_def split: if_splits operand_kind.splits)
  have l: "\<not> c_isdigit CHR ''l''" by (simp add: c_isdigit_def)
  show ?thesis
  proof (cases a)
    case (Arg c m)
    then show ?thesis using d c by (cases c) (auto simp: arg_text_def arg_output_def arg_number_def)
  next
    case (Label_arg m)
    then show ?thesis using d l by (simp add: arg_text_def arg_output_def arg_number_def)
  qed
qed

lemma text_list_append:
  "xs \<noteq> [] \<Longrightarrow> ys \<noteq> [] \<Longrightarrow> text_list sep f (xs @ ys) = text_list sep f xs @ sep @ text_list sep f ys"
proof (induction sep f xs rule: text_list.induct)
  case (2 sep f x)
  then show ?case by (cases ys) simp_all
qed simp_all

lemma all_shapes_Some:
  "all_shapes ks (a # r) = Some sss \<longleftrightarrow>
     (\<exists>xs ys. arg_shapes ks a = Some xs \<and> all_shapes ks r = Some ys \<and> sss = concat (map (\<lambda>x. map (\<lambda>y. x @ y) ys) xs))"
  by (auto split: option.splits)

lemma args_print:
  assumes "all_shapes ks args = Some sss" "list_all2 (kind_sat ops) ks ops" "list_all2 (usable out sy) ks ops" "gcc_output_ok out"
    and "length ks \<le> 10" "args \<noteq> []"
  shows "prints_operands sy sss (output_template out ops (text_list '', '' arg_text args)) (concat (map (arg_operands out ops) args))"
  using assms(1,6)
proof (induction args arbitrary: sss)
  case (Cons a r)
  have len: "length ks = length ops" using assms(2) by (rule list_all2_lengthD)
  from Cons.prems(1) obtain xs ys where xy: "arg_shapes ks a = Some xs" "all_shapes ks r = Some ys"
    "sss = concat (map (\<lambda>x. map (\<lambda>y. x @ y) ys) xs)" unfolding all_shapes_Some by blast
  note a = arg_prints[OF xy(1) assms(2-4)] and o = output_arg[OF xy(1) len assms(5), of out]
  show ?case
  proof (cases "r = []")
    case True
    moreover from this xy(2) have "ys = [[]]" by simp
    ultimately show ?thesis using a o[of "[]"] xy by (simp add: prints_operands_def)
  next
    case False
    note IH = Cons.IH[OF xy(2) False]
    have "text_list '', '' arg_text (a # r) = arg_text a @ '', '' @ text_list '', '' arg_text r"
      using False by (cases r) simp_all
    then have "output_template out ops (text_list '', '' arg_text (a # r)) =
        cat (arg_output out ops a) (cat (asm_text '', '') (output_template out ops (text_list '', '' arg_text r)))"
      using o output_plain[of "'', ''"] by simp
    moreover obtain x y where "x \<in> set xs" "list_all2 (shape_sat sy) x (arg_operands out ops a)"
      "y \<in> set ys" "list_all2 (shape_sat sy) y (concat (map (arg_operands out ops) r))"
      using a IH by (auto simp: prints_operands_def)
    then have "\<exists>ss\<in>set sss. list_all2 (shape_sat sy) ss (arg_operands out ops a @ concat (map (arg_operands out ops) r))"
      unfolding xy(3) by (intro bexI[of _ "x @ y"]) (auto intro: list_all2_appendI)
    ultimately show ?thesis using a IH text_list_append[of "arg_operands out ops a"]
      by (simp add: prints_operands_def)
  qed
qed simp

lemma mnemonic_plain: "is_mnemonic (m @ x) \<Longrightarrow> CHR ''%'' \<notin> set m"
proof -
  have "\<not> mnemonic_char CHR ''%''" by (simp add: mnemonic_char_def is_lower_def c_isdigit_def)
  then show "is_mnemonic (m @ x) \<Longrightarrow> CHR ''%'' \<notin> set m" by (auto simp: is_mnemonic_def list_all_iff)
qed

lemma most_wordsD: "most_words xs = Some w \<Longrightarrow> x \<in> set xs \<Longrightarrow> \<exists>n\<le>w. x = Some n"
  by (induction xs arbitrary: w rule: most_words.induct) (auto intro: le_trans)

lemma comparison_prints:
  assumes "kind_sat ops Kind_comparison x"
  shows "print_operand an x None = asm_text (node_name x)" "node_name x \<in> set comparison_names"
  using assms by (auto simp: kind_sat_def print_operand_def constant_address_p_def COMPARISON_P_def node_name_def is_node_def split: rtx.splits)

lemma predicate_prints:
  assumes "kind_sat ops (Kind_reg BImode PRED_REGS) x"
  shows "\<exists>k<4. printed_name BImode (reg_of x) = ''pred'' @ [digit k]" 
    "print_operand an x None = asm_text (CHR ''$'' # printed_name BImode (reg_of x))"
    "is_name reg_char (printed_name BImode (reg_of x))"
proof -
  obtain r where r: "x = Reg_x BImode r" "0 \<le> r" "in_class r PRED_REGS" "hard_regno_mode_ok mode_class_of r BImode"
    using assms by (auto simp: kind_sat_def split: rtx.splits)
  from reg_prints[OF r(2-4), of "[]"] r(1)
  show "\<exists>k<4. printed_name BImode (reg_of x) = ''pred'' @ [digit k]"
    "print_operand an x None = asm_text (CHR ''$'' # printed_name BImode (reg_of x))"
    "is_name reg_char (printed_name BImode (reg_of x))"
    by (auto simp: printed_as_def reg_shapes_def shape_sat_def reg_of_def reg_operand_def print_operand_def split: if_splits)
qed

text \<open>A line with the shape of a template, whether or not the table has an entry for it.\<close>

definition line_ok :: "operand_kind list \<Rightarrow> string \<Rightarrow> bool" where
  "line_ok ks s \<longleftrightarrow>
     (let t = parse_template s in
      length ks \<le> 10 \<and> template_text t = s \<and> list_all is_mnemonic (template_mnemonics t) \<and>
      kind_is ks Kind_comparison (tm_cond t) \<and> kind_is ks (Kind_reg BImode PRED_REGS) (tm_pred t) \<and> all_shapes ks (tm_args t) \<noteq> None)"

lemma line_okD:
  assumes "line_ok ks s"
  obtains sss where "length ks \<le> 10" "template_text (parse_template s) = s" "list_all is_mnemonic (template_mnemonics (parse_template s))"
    "kind_is ks Kind_comparison (tm_cond (parse_template s))" "kind_is ks (Kind_reg BImode PRED_REGS) (tm_pred (parse_template s))"
    "all_shapes ks (tm_args (parse_template s)) = Some sss"
  using assms that unfolding line_ok_def Let_def by blast

lemma line_wordsD:
  assumes "line_words ks s = Some w"
  shows "line_ok ks s"
    "\<exists>sss. all_shapes ks (tm_args (parse_template s)) = Some sss \<and>
      most_words (concat (map (\<lambda>mn. map (instruction_words (tm_pred (parse_template s) \<noteq> None) mn) sss) (template_mnemonics (parse_template s)))) = Some w"
  using assms unfolding line_ok_def line_words_def template_words_def by (auto simp: Let_def split: if_splits option.splits)

lemma kind_isD:
  assumes "kind_is ks kd (Some n)" "list_all2 (kind_sat ops) ks ops"
  shows "n < length ks" "kind_sat ops kd (ops ! n)"
  using assms list_all2_nthD[OF assms(2)] by (auto simp: kind_is_def)

text \<open>The parts of the instruction of a line.\<close>

lemma line_parts:
  fixes out :: gcc_output and s :: string
  assumes "line_ok ks s" "list_all2 (kind_sat ops) ks ops"
  defines "t \<equiv> parse_template s" and "i \<equiv> line_instruction out ops (parse_template s)"
  shows "inst_mnemonic i \<in> set (template_mnemonics t)" "is_mnemonic (inst_mnemonic i)"
    "inst_pred_neg i = 0" "inst_pred i = map_option (\<lambda>n. printed_name BImode (reg_of (ops ! n))) (tm_pred t)"
    "inst_mnemonic i = tm_mnemonic t @ (case tm_cond t of None \<Rightarrow> [] | Some n \<Rightarrow> node_name (ops ! n))"
    "inst_ops i = concat (map (arg_operands out ops) (tm_args t))"
    "\<And>p. inst_pred i = Some p \<Longrightarrow> is_name reg_char p \<and> (\<exists>k<4. p = ''pred'' @ [digit k])"
proof -
  obtain mn: "list_all is_mnemonic (template_mnemonics t)" and ci: "kind_is ks Kind_comparison (tm_cond t)"
    and pi: "kind_is ks (Kind_reg BImode PRED_REGS) (tm_pred t)"
    using line_okD[OF assms(1)] unfolding t_def by blast
  show parts: "inst_pred_neg i = 0" "inst_pred i = map_option (\<lambda>n. printed_name BImode (reg_of (ops ! n))) (tm_pred t)"
    "inst_mnemonic i = tm_mnemonic t @ (case tm_cond t of None \<Rightarrow> [] | Some n \<Rightarrow> node_name (ops ! n))"
    "inst_ops i = concat (map (arg_operands out ops) (tm_args t))"
    by (simp_all add: i_def t_def line_instruction_def)
  have "node_name (ops ! n) \<in> set comparison_names" if "tm_cond t = Some n" for n
    using kind_isD(2)[OF ci[unfolded that] assms(2)] by (rule comparison_prints(2))
  then show m: "inst_mnemonic i \<in> set (template_mnemonics t)"
    by (auto simp: parts(3) template_mnemonics_def split: option.splits)
  then show "is_mnemonic (inst_mnemonic i)" using mn by (simp add: list_all_iff)
  fix p assume "inst_pred i = Some p"
  then obtain n where n: "tm_pred t = Some n" "p = printed_name BImode (reg_of (ops ! n))" using parts(2) by auto
  from predicate_prints(1,3)[OF kind_isD(2)[OF pi[unfolded n(1)] assms(2)]] n(2)
  show "is_name reg_char p \<and> (\<exists>k<4. p = ''pred'' @ [digit k])" by simp
qed

lemma line_operands:
  fixes out :: gcc_output and s :: string
  assumes "line_ok ks s" "list_all2 (kind_sat ops) ks ops" "list_all2 (usable out sy) ks ops" "gcc_output_ok out"
    and "all_shapes ks (tm_args (parse_template s)) = Some sss"
  defines "t \<equiv> parse_template s" and "i \<equiv> line_instruction out ops (parse_template s)"
  shows "list_all writable_operand (inst_ops i)" "\<exists>ss\<in>set sss. list_all2 (shape_sat sy) ss (inst_ops i)"
    "output_template out ops (if tm_args t = [] then [] else CHR '' '' # text_list '', '' arg_text (tm_args t)) =
      asm_text (if inst_ops i = [] then [] else CHR '' '' # text_list '', '' text_operand (inst_ops i))"
proof -
  have k10: "length ks \<le> 10" using line_okD[OF assms(1)] by blast
  have "inst_ops i = concat (map (arg_operands out ops) (tm_args t))" by (simp add: i_def t_def line_instruction_def)
  then have "if tm_args t = [] then inst_ops i = [] \<and> sss = [[]] else
      prints_operands sy sss (output_template out ops (text_list '', '' arg_text (tm_args t))) (inst_ops i)"
    using args_print[OF assms(5,2-4) k10] assms(5) by (auto simp: t_def)
  then show "list_all writable_operand (inst_ops i)" "\<exists>ss\<in>set sss. list_all2 (shape_sat sy) ss (inst_ops i)"
    "output_template out ops (if tm_args t = [] then [] else CHR '' '' # text_list '', '' arg_text (tm_args t)) =
      asm_text (if inst_ops i = [] then [] else CHR '' '' # text_list '', '' text_operand (inst_ops i))"
    by (auto simp: prints_operands_def split: if_splits)
qed

lemma line_prints:
  fixes out :: gcc_output and s :: string
  assumes "line_ok ks s" "list_all2 (kind_sat ops) ks ops" "list_all2 (usable out sy) ks ops" "gcc_output_ok out"
  defines "i \<equiv> line_instruction out ops (parse_template s)"
  shows "output_template out ops s = asm_text (text_instruction i)"
proof -
  define t where "t = parse_template s"
  obtain sss where k10: "length ks \<le> 10" and tt: "template_text t = s" and ci: "kind_is ks Kind_comparison (tm_cond t)"
    and pi: "kind_is ks (Kind_reg BImode PRED_REGS) (tm_pred t)" and sss: "all_shapes ks (tm_args t) = Some sss"
    using line_okD[OF assms(1)] unfolding t_def by blast
  note parts = line_parts[where out = out, OF assms(1,2), folded t_def, folded i_def[folded t_def]]
  have plain: "CHR ''%'' \<notin> set (tm_mnemonic t)" using parts(2) unfolding parts(5) by (rule mnemonic_plain)
  have nth: "nth_operand ops (digit n) = Good (ops ! n)" "c_isdigit (digit n)" if "n < length ks" for n
    using that k10 list_all2_lengthD[OF assms(2)] nth_operand_digit[of n ops] digit_facts(1)[of n] by simp_all
  define A where "A = (if tm_args t = [] then [] else CHR '' '' # text_list '', '' arg_text (tm_args t))"
  define B where "B = (if inst_ops i = [] then [] else CHR '' '' # text_list '', '' text_operand (inst_ops i))"
  define C where "C = (case tm_cond t of None \<Rightarrow> [] | Some n \<Rightarrow> [CHR ''%'', digit n])"
  have o_args: "output_template out ops A = asm_text B"
    using line_operands(3)[OF assms(1-4)] sss unfolding A_def B_def i_def t_def by blast
  have o_mn: "output_template out ops (tm_mnemonic t @ C @ A) = asm_text (inst_mnemonic i @ B)"
  proof (cases "tm_cond t")
    case None
    then show ?thesis using output_plain[OF plain] o_args parts(5) by (simp add: C_def)
  next
    case (Some n)
    note c = kind_isD[OF ci[unfolded Some] assms(2)]
    from comparison_prints(1)[OF c(2)] nth[OF c(1)] Some show ?thesis
      using output_plain[OF plain] o_args parts(5) by (simp add: C_def)
  qed
  have ti: "text_instruction i = (case inst_pred i of None \<Rightarrow> [] | Some p \<Rightarrow> ''if ('' @ CHR ''$'' # p @ '') '') @ inst_mnemonic i @ B"
    by (simp add: text_instruction_def parts(3) B_def split: option.split)
  have s: "s = (case tm_pred t of None \<Rightarrow> [] | Some n \<Rightarrow> ''if (%'' @ digit n # '') '') @ tm_mnemonic t @ C @ A"
    unfolding A_def C_def by (rule tt[unfolded template_text_def, symmetric])
  show ?thesis
  proof (cases "tm_pred t")
    case None
    with ti parts(4) o_mn show ?thesis by (subst s) simp
  next
    case (Some n)
    note p = kind_isD[OF pi[unfolded Some] assms(2)]
    show ?thesis by (subst s) (use ti parts(4) o_mn Some nth[OF p(1)] predicate_prints(2)[OF p(2)] in simp)
  qed
qed

lemma line_entry:
  fixes out :: gcc_output and s :: string
  assumes "line_words ks s = Some w" "list_all2 (kind_sat ops) ks ops" "list_all2 (usable out sy) ks ops" "gcc_output_ok out"
  defines "i \<equiv> line_instruction out ops (parse_template s)"
  shows "\<exists>e\<in>set ajardsp_insns. id_mnemonic e = inst_mnemonic i \<and> list_all2 (encodable sy) (id_operands e) (inst_ops i) \<and>
    entry_words (inst_pred i \<noteq> None) (entry_key_of e) \<le> w"
proof -
  define t where "t = parse_template s"
  obtain sss where sss: "all_shapes ks (tm_args t) = Some sss"
    and w: "most_words (concat (map (\<lambda>mn. map (instruction_words (tm_pred t \<noteq> None) mn) sss) (template_mnemonics t))) = Some w"
    using line_wordsD(2)[OF assms(1)] unfolding t_def by blast
  define m where "m = inst_mnemonic i"
  have m: "m \<in> set (template_mnemonics t)" using line_parts(1)[OF line_wordsD(1)[OF assms(1)] assms(2)] by (simp add: m_def i_def t_def)
  obtain ss where ss: "ss \<in> set sss" "list_all2 (shape_sat sy) ss (inst_ops i)"
    using line_operands(2)[OF line_wordsD(1)[OF assms(1)] assms(2-4)] sss unfolding i_def t_def by blast
  with m most_wordsD[OF w, of "instruction_words (tm_pred t \<noteq> None) m ss"]
  obtain n where n: "n \<le> w" "instruction_words (tm_pred t \<noteq> None) m ss = Some n" by auto
  then obtain k ks' where "filter (entry_fits m ss) insn_keys = k # ks'" and kn: "n = entry_words (tm_pred t \<noteq> None) k"
    by (auto simp: instruction_words_def split: list.splits)
  then have "k \<in> set (filter (entry_fits m ss) insn_keys)" by simp
  then obtain e where e: "k = entry_key_of e" "entry_fits m ss (entry_key_of e)" "e \<in> set ajardsp_insns" by (auto simp: insn_keys_def)
  then have e': "id_mnemonic e = m" "list_all2 (\<lambda>s f. shape_fits s (field_key_of f)) ss (id_operands e)"
    by (auto simp: entry_fits_def entry_key_of_def list_all2_map2)
  have "list_all2 (encodable sy) (id_operands e) (inst_ops i)"
  proof (rule list_all2_all_nthI)
    show "length (id_operands e) = length (inst_ops i)" using list_all2_lengthD[OF e'(2)] list_all2_lengthD[OF ss(2)] by simp
    fix j assume j: "j < length (id_operands e)"
    have "wf_field (id_operands e ! j)" using ajardsp.entry_wf[OF e(3)] j by (auto simp: wf_insn_def list_all_iff)
    then show "encodable sy (id_operands e ! j) (inst_ops i ! j)"
      using shape_encodable e'(2) ss(2) j by (auto simp: list_all2_conv_all_nth)
  qed
  moreover have "inst_pred i \<noteq> None \<longleftrightarrow> tm_pred t \<noteq> None" by (simp add: i_def line_instruction_def t_def)
  ultimately show ?thesis using e n(1) kn e'(1) by (intro bexI[of _ e]) (simp_all add: m_def)
qed

lemma line_writable:
  assumes "line_ok ks s" "list_all2 (kind_sat ops) ks ops" "list_all2 (usable out sy) ks ops" "gcc_output_ok out"
  shows "writable_instruction (line_instruction out ops (parse_template s))"
proof -
  note parts = line_parts[where out = out, OF assms(1,2)]
  obtain sss where "all_shapes ks (tm_args (parse_template s)) = Some sss" using line_okD[OF assms(1)] by blast
  from line_operands(1)[OF assms this] parts(2,3,7) show ?thesis
    by (auto simp: writable_instruction_def split: option.splits)
qed

lemma line_assembles:
  fixes s :: string and out :: gcc_output
  defines "i \<equiv> (\<lambda>ops. line_instruction out ops (parse_template s))"
  assumes "line_words ks s = Some w" "list_all2 (kind_sat ops) ks ops" "list_all2 (usable out sy) ks ops" "gcc_output_ok out"
  shows "output_template out ops s = asm_text (text_instruction (i ops))" "writable_instruction (i ops)" "plain_condition (i ops)"
    "\<exists>e\<in>set ajardsp_insns. id_mnemonic e = inst_mnemonic (i ops) \<and> list_all2 (encodable sy) (id_operands e) (inst_ops (i ops)) \<and>
       entry_words (inst_pred (i ops) \<noteq> None) (entry_key_of e) \<le> w"
proof -
  note ok = line_wordsD(1)[OF assms(2)]
  show "output_template out ops s = asm_text (text_instruction (i ops))" unfolding i_def by (rule line_prints[OF ok assms(3-5)])
  show "\<exists>e\<in>set ajardsp_insns. id_mnemonic e = inst_mnemonic (i ops) \<and> list_all2 (encodable sy) (id_operands e) (inst_ops (i ops)) \<and>
       entry_words (inst_pred (i ops) \<noteq> None) (entry_key_of e) \<le> w" unfolding i_def by (rule line_entry[OF assms(2-5)])
  note parts = line_parts[where out = out, OF ok assms(3), folded i_def]
  show "writable_instruction (i ops)" unfolding i_def by (rule line_writable[OF ok assms(3-5)])
  show "plain_condition (i ops)" using parts(3,7) by (auto simp: plain_condition_def i_def)
qed

section \<open>The alternatives that fit\<close>

text \<open>The alternatives whose template the assembler does not take, or does not take for all operands.\<close>

definition unfit_alternatives :: "(string \<times> nat) list" where
  "unfit_alternatives =
     [(''*mv_qi'', 3), (''swap_spec_qi'', 0), (''swap_spec_qi'', 1), (''addqi3'', 1), (''*mac_qi'', 0), (''call'', 0),
      (''call_value'', 0), (''*call_value_hi'', 0), (''indirect_jump'', 0), (''zero_extendbiqi2'', 0), (''extendbiqi2'', 0)]"

definition fits_or_listed :: "md_insn \<Rightarrow> bool" where
  "fits_or_listed d \<longleftrightarrow>
     list_all (\<lambda>k. alternative_fits d k \<longleftrightarrow> (md_name d, k) \<notin> set unfit_alternatives) [0..<length (md_templates d)]"

lemma insn_keys_code [code]:
  "insn_keys =
    [(''nop'', INST_16, []),
     (''and32'', INST_32, [(REG, 3, Some Enc_acc), (REG, 3, Some Enc_acc), (REG, 3, Some Enc_acc)]),
     (''or32'', INST_32, [(REG, 3, Some Enc_acc), (REG, 3, Some Enc_acc), (REG, 3, Some Enc_acc)]),
     (''xor32'', INST_32, [(REG, 3, Some Enc_acc), (REG, 3, Some Enc_acc), (REG, 3, Some Enc_acc)]),
     (''not32'', INST_32, [(REG, 3, Some Enc_acc), (REG, 3, Some Enc_acc)]),
     (''shiftra32'', INST_32, [(REG, 3, Some Enc_acc), (REG, 4, Some Enc_acc_half), (REG, 3, Some Enc_acc)]),
     (''shiftrl32'', INST_32, [(REG, 3, Some Enc_acc), (REG, 4, Some Enc_acc_half), (REG, 3, Some Enc_acc)]),
     (''shiftll32'', INST_32, [(REG, 3, Some Enc_acc), (REG, 4, Some Enc_acc_half), (REG, 3, Some Enc_acc)]),
     (''and16'', INST_32, [(REG, 4, Some Enc_acc_half), (REG, 4, Some Enc_acc_half), (REG, 4, Some Enc_acc_half)]),
     (''or16'', INST_32, [(REG, 4, Some Enc_acc_half), (REG, 4, Some Enc_acc_half), (REG, 4, Some Enc_acc_half)]),
     (''xor16'', INST_32, [(REG, 4, Some Enc_acc_half), (REG, 4, Some Enc_acc_half), (REG, 4, Some Enc_acc_half)]),
     (''not16'', INST_32, [(REG, 4, Some Enc_acc_half), (REG, 4, Some Enc_acc_half)]),
     (''shiftra16'', INST_32, [(REG, 4, Some Enc_acc_half), (REG, 4, Some Enc_acc_half), (REG, 4, Some Enc_acc_half)]),
     (''shiftrl16'', INST_32, [(REG, 4, Some Enc_acc_half), (REG, 4, Some Enc_acc_half), (REG, 4, Some Enc_acc_half)]),
     (''shiftll16'', INST_32, [(REG, 4, Some Enc_acc_half), (REG, 4, Some Enc_acc_half), (REG, 4, Some Enc_acc_half)]),
     (''add32'', INST_16, [(REG, 3, Some Enc_acc), (REG, 3, Some Enc_acc), (REG, 3, Some Enc_acc)]),
     (''sub32'', INST_16, [(REG, 3, Some Enc_acc), (REG, 3, Some Enc_acc), (REG, 3, Some Enc_acc)]),
     (''add16'', INST_16, [(REG, 4, Some Enc_acc_half), (REG, 4, Some Enc_acc_half)]),
     (''sub16'', INST_16, [(REG, 4, Some Enc_acc_half), (REG, 4, Some Enc_acc_half)]),
     (''mpy16'', INST_16, [(REG, 3, Some Enc_acc_half), (REG, 3, Some Enc_acc_half), (REG, 3, Some Enc_acc)]),
     (''mac16'', INST_16, [(REG, 3, Some Enc_acc_half), (REG, 3, Some Enc_acc_half), (REG, 3, Some Enc_acc)]),
     (''cmp16eq'', INST_32, [(REG, 4, Some Enc_acc_half), (REG, 4, Some Enc_acc_half), (REG, 2, Some Enc_pred)]),
     (''cmp16ne'', INST_32, [(REG, 4, Some Enc_acc_half), (REG, 4, Some Enc_acc_half), (REG, 2, Some Enc_pred)]),
     (''cmp16lt'', INST_32, [(REG, 4, Some Enc_acc_half), (REG, 4, Some Enc_acc_half), (REG, 2, Some Enc_pred)]),
     (''cmp16ltu'', INST_32, [(REG, 4, Some Enc_acc_half), (REG, 4, Some Enc_acc_half), (REG, 2, Some Enc_pred)]),
     (''cmp16le'', INST_32, [(REG, 4, Some Enc_acc_half), (REG, 4, Some Enc_acc_half), (REG, 2, Some Enc_pred)]),
     (''cmp16leu'', INST_32, [(REG, 4, Some Enc_acc_half), (REG, 4, Some Enc_acc_half), (REG, 2, Some Enc_pred)]),
     (''cmp16gt'', INST_32, [(REG, 4, Some Enc_acc_half), (REG, 4, Some Enc_acc_half), (REG, 2, Some Enc_pred)]),
     (''cmp16gtu'', INST_32, [(REG, 4, Some Enc_acc_half), (REG, 4, Some Enc_acc_half), (REG, 2, Some Enc_pred)]),
     (''cmp16ge'', INST_32, [(REG, 4, Some Enc_acc_half), (REG, 4, Some Enc_acc_half), (REG, 2, Some Enc_pred)]),
     (''cmp16geu'', INST_32, [(REG, 4, Some Enc_acc_half), (REG, 4, Some Enc_acc_half), (REG, 2, Some Enc_pred)]),
     (''ld16'', INST_16, [(REG, 3, Some Enc_ptr), (REG, 5, Some Enc_reg)]),
     (''ldinc16'', INST_16, [(REG, 3, Some Enc_ptr), (REG, 5, Some Enc_reg)]),
     (''st16'', INST_16, [(REG, 5, Some Enc_reg), (REG, 3, Some Enc_ptr)]),
     (''stinc16'', INST_16, [(REG, 5, Some Enc_reg), (REG, 3, Some Enc_ptr)]),
     (''ld32'', INST_16, [(REG, 3, Some Enc_ptr), (REG, 3, Some Enc_acc)]),
     (''ldinc32'', INST_16, [(REG, 3, Some Enc_ptr), (REG, 3, Some Enc_acc)]),
     (''st32'', INST_16, [(REG, 3, Some Enc_acc), (REG, 3, Some Enc_ptr)]),
     (''stinc32'', INST_16, [(REG, 3, Some Enc_acc), (REG, 3, Some Enc_ptr)]),
     (''ldimm16'', INST_32, [(INTEGER, 16, Some Enc_int), (REG, 4, Some Enc_acc_half)]),
     (''ldimm16'', INST_32, [(INTEGER, 16, Some Enc_int), (REG, 4, Some Enc_ptr)]),
     (''ldimm16'', INST_32, [(SYMBOL_REF, 16, Some Enc_symref), (REG, 4, Some Enc_ptr)]),
     (''ldimm16'', INST_32, [(SYMBOL_REF, 16, Some Enc_symref), (REG, 4, Some Enc_acc_half)]),
     (''ldoff16'', INST_32, [(REG, 3, Some Enc_ptr), (INTEGER, 12, Some Enc_int), (REG, 5, Some Enc_reg)]),
     (''ldoff16'', INST_32, [(REG, 3, Some Enc_ptr), (SYMBOL_REF, 12, Some Enc_symref), (REG, 5, Some Enc_reg)]),
     (''ldoff32'', INST_32, [(REG, 3, Some Enc_ptr), (INTEGER, 12, Some Enc_int), (REG, 3, Some Enc_acc)]),
     (''ldoff32'', INST_32, [(REG, 3, Some Enc_ptr), (SYMBOL_REF, 12, Some Enc_symref), (REG, 3, Some Enc_acc)]),
     (''stoff16'', INST_32, [(REG, 5, Some Enc_reg), (REG, 3, Some Enc_ptr), (INTEGER, 12, Some Enc_int)]),
     (''stoff16'', INST_32, [(REG, 5, Some Enc_reg), (REG, 3, Some Enc_ptr), (SYMBOL_REF, 12, Some Enc_symref)]),
     (''stoff32'', INST_32, [(REG, 3, Some Enc_acc), (REG, 3, Some Enc_ptr), (INTEGER, 12, Some Enc_int)]),
     (''stoff32'', INST_32, [(REG, 3, Some Enc_acc), (REG, 3, Some Enc_ptr), (SYMBOL_REF, 12, Some Enc_symref)]),
     (''addptr16'', INST_32, [(INTEGER, 12, Some Enc_int), (REG, 3, Some Enc_ptr)]),
     (''mvts16'', INST_32, [(REG, 5, Some Enc_reg), (REG, 6, Some Enc_spec)]),
     (''mvfs16'', INST_32, [(REG, 6, Some Enc_spec), (REG, 5, Some Enc_reg)]),
     (''push16'', INST_16, [(REG, 5, Some Enc_reg)]), (''push16'', INST_16, [(REG, 5, Some Enc_spec)]),
     (''push32'', INST_16, [(REG, 3, Some Enc_acc)]), (''pop16'', INST_16, [(REG, 5, Some Enc_reg)]),
     (''pop16'', INST_16, [(REG, 5, Some Enc_spec)]), (''pop32'', INST_16, [(REG, 3, Some Enc_acc)]),
     (''mv16'', INST_16, [(REG, 3, Some Enc_ptr), (REG, 4, Some Enc_acc_half)]),
     (''mv16'', INST_16, [(REG, 4, Some Enc_acc_half), (REG, 3, Some Enc_ptr)]),
     (''mv16'', INST_16, [(REG, 3, Some Enc_ptr), (REG, 3, Some Enc_ptr)]),
     (''mv16'', INST_16, [(REG, 4, Some Enc_acc_half), (REG, 4, Some Enc_acc_half)]),
     (''stext32'', INST_32, [(REG, 3, Some Enc_acc), (REG, 3, Some Enc_ptr), (REG, 3, Some Enc_ptr)]),
     (''ldext32'', INST_32, [(REG, 3, Some Enc_ptr), (REG, 3, Some Enc_ptr), (REG, 3, Some Enc_acc)]),
     (''extburst'', INST_32, [(INTEGER, 8, Some Enc_int), (REG, 3, Some Enc_ptr), (REG, 3, Some Enc_ptr), (REG, 3, Some Enc_acc)]),
     (''bra'', INST_32, [(SYMBOL_REF, 16, Some Enc_symref)]),
     (''bra.2ds'', INST_32, [(SYMBOL_REF, 16, Some Enc_symref)]),
     (''bra.1ds'', INST_32, [(SYMBOL_REF, 16, Some Enc_symref)]),
     (''call'', INST_32, [(SYMBOL_REF, 16, Some Enc_symref)]),
     (''call.2ds'', INST_32, [(SYMBOL_REF, 16, Some Enc_symref)]),
     (''call.1ds'', INST_32, [(SYMBOL_REF, 16, Some Enc_symref)]), (''rets'', INST_16, []),
     (''rets.2ds'', INST_16, []), (''rets.1ds'', INST_16, []), (''reti'', INST_16, []), (''reti.2ds'', INST_16, []),
     (''reti.1ds'', INST_16, []), (''eint'', INST_16, []), (''dint'', INST_16, []),
     (''bkrep'', INST_32, [(SYMBOL_REF, 16, Some Enc_symref)]), (''halt'', INST_16, [])]"
  by (simp add: insn_keys_def entry_key_of_def field_key_of_def table_eval)

lemma load_fits: "list_all fits_or_listed md_load_insns" by code_simp
lemma store_fits: "list_all fits_or_listed md_store_insns" by code_simp
lemma move_fits: "list_all fits_or_listed md_move_insns" by code_simp
lemma stack_fits: "list_all fits_or_listed md_stack_insns" by code_simp
lemma arith_fits: "list_all fits_or_listed md_arith_insns" by code_simp
lemma shift_fits: "list_all fits_or_listed md_shift_insns" by code_simp
lemma call_fits: "list_all fits_or_listed md_call_insns" by code_simp
lemma control_fits: "list_all fits_or_listed md_control_insns" by code_simp

lemma md_fits:
  assumes "d \<in> set md_insns" "k < length (md_templates d)" "(md_name d, k) \<notin> set unfit_alternatives"
  shows "alternative_fits d k"
proof -
  have "list_all fits_or_listed md_insns"
    using load_fits store_fits move_fits stack_fits arith_fits shift_fits call_fits control_fits by (simp add: md_insns_def)
  with assms show ?thesis by (auto simp: list_all_iff fits_or_listed_def)
qed

lemma total_wordsD:
  "total_words xs = Some n \<Longrightarrow> \<exists>ns. xs = map Some ns \<and> n = sum_list ns"
proof (induction xs arbitrary: n rule: total_words.induct)
  case (3 m xs)
  then obtain n' ns where "xs = map Some ns" "n = m + sum_list ns" by auto
  then show ?case by (intro exI[of _ "m # ns"]) simp
qed simp_all

definition operands_usable :: "gcc_output \<Rightarrow> symtab \<Rightarrow> md_insn \<Rightarrow> nat \<Rightarrow> rtx list \<Rightarrow> bool" where
  "operands_usable out sy d k ops \<longleftrightarrow> list_all2 (\<lambda>m x. usable out sy (operand_kind m k) x) (md_operands d) ops"

definition alternative_instructions :: "gcc_output \<Rightarrow> md_insn \<Rightarrow> nat \<Rightarrow> rtx list \<Rightarrow> instruction list" where
  "alternative_instructions out d k ops = map (\<lambda>s. line_instruction out ops (parse_template s)) (md_templates d ! k)"

definition entry_size :: "inst_def \<Rightarrow> instruction \<Rightarrow> nat" where
  "entry_size e i = (if is_32 e i then 2 else 1)"

text \<open>An entry that assembles the instruction, in every place of a bundle, with each operand in its field.\<close>

definition encodes_exactly :: "symtab \<Rightarrow> instruction \<Rightarrow> inst_def \<Rightarrow> bool" where
  "encodes_exactly sy i e \<longleftrightarrow> e \<in> set ajardsp_insns \<and>
     (\<forall>nx. \<exists>p. assembles False sy e i nx p \<and> list_all2 (\<lambda>f op. holds sy f op p) (id_operands e) (inst_ops i))"

lemma alternative_assembles:
  assumes "alternative_fits d k" "operands_ok d k ops" "operands_usable out sy d k ops" "gcc_output_ok out"
  shows "map (output_template out ops) (md_templates d ! k) =
      map (\<lambda>i. asm_text (text_instruction i)) (alternative_instructions out d k ops)"
    "list_all (\<lambda>i. writable_instruction i \<and> plain_condition i) (alternative_instructions out d k ops)"
    "\<exists>es. list_all2 (encodes_exactly sy) (alternative_instructions out d k ops) es \<and>
       list_all2 (\<lambda>i e. id_mnemonic e = inst_mnemonic i \<and> length (id_operands e) = length (inst_ops i)) (alternative_instructions out d k ops) es \<and>
       sum_list (map2 entry_size es (alternative_instructions out d k ops)) \<le> insn_isize d k"
proof -
  define ks where "ks = map (\<lambda>m. operand_kind m k) (md_operands d)"
  let ?ts = "md_templates d ! k"
  let ?i = "\<lambda>s. line_instruction out ops (parse_template s)"
  have k: "list_all2 (kind_sat ops) ks ops" "list_all2 (usable out sy) ks ops"
    using assms(2,3) by (simp_all add: ks_def operands_ok_def operands_usable_def list_all2_map1)
  obtain n ns where n: "map (line_words ks) ?ts = map Some ns" "n = sum_list ns" "n \<le> insn_isize d k"
    using assms(1) total_wordsD by (auto simp: alternative_fits_def alternative_words_def ks_def split: option.splits)
  then have len: "length ns = length ?ts" by (auto dest: map_eq_imp_length_eq)
  have line: "line_words ks (?ts ! j) = Some (ns ! j)" if "j < length ?ts" for j
    using n(1) that len by (metis nth_map)
  note L = line_assembles[OF line k assms(4)]
  show "map (output_template out ops) ?ts = map (\<lambda>i. asm_text (text_instruction i)) (alternative_instructions out d k ops)"
    using L(1) by (auto simp: alternative_instructions_def list_eq_iff_nth_eq)
  show "list_all (\<lambda>i. writable_instruction i \<and> plain_condition i) (alternative_instructions out d k ops)"
    using L(2,3) by (simp add: alternative_instructions_def list_all_length)
  have "\<forall>j\<in>{..<length ?ts}. \<exists>e. e \<in> set ajardsp_insns \<and> id_mnemonic e = inst_mnemonic (?i (?ts ! j)) \<and>
      list_all2 (encodable sy) (id_operands e) (inst_ops (?i (?ts ! j))) \<and>
      entry_words (inst_pred (?i (?ts ! j)) \<noteq> None) (entry_key_of e) \<le> ns ! j"
    using L(4) by blast
  then obtain f where f: "\<And>j. j < length ?ts \<Longrightarrow> f j \<in> set ajardsp_insns \<and> id_mnemonic (f j) = inst_mnemonic (?i (?ts ! j)) \<and>
      list_all2 (encodable sy) (id_operands (f j)) (inst_ops (?i (?ts ! j))) \<and>
      entry_words (inst_pred (?i (?ts ! j)) \<noteq> None) (entry_key_of (f j)) \<le> ns ! j"
    by (metis bchoice lessThan_iff)
  let ?es = "map f [0..<length ?ts]"
  have "encodes_exactly sy (?i (?ts ! j)) (f j)" if "j < length ?ts" for j
    using f[OF that] L(3)[OF that] entry_assembles by (auto simp: encodes_exactly_def)
  then have 1: "list_all2 (encodes_exactly sy) (alternative_instructions out d k ops) ?es"
    by (auto simp: alternative_instructions_def list_all2_conv_all_nth)
  have 2: "list_all2 (\<lambda>i e. id_mnemonic e = inst_mnemonic i \<and> length (id_operands e) = length (inst_ops i)) (alternative_instructions out d k ops) ?es"
    using f by (auto simp: alternative_instructions_def list_all2_conv_all_nth dest: list_all2_lengthD)
  have "list_all2 (\<le>) (map2 entry_size ?es (alternative_instructions out d k ops)) ns"
    using f len by (auto simp: alternative_instructions_def list_all2_conv_all_nth entry_size_def entry_words_def entry_key_of_def is_32_def)
  moreover have "sum_list xs \<le> sum_list ys" if "list_all2 (\<le>) xs ys" for xs ys :: "nat list"
    using that by (induction rule: list_all2_induct) auto
  ultimately have "sum_list (map2 entry_size ?es (alternative_instructions out d k ops)) \<le> insn_isize d k"
    using n(2,3) by (meson le_trans)
  with 1 2 show "\<exists>es. list_all2 (encodes_exactly sy) (alternative_instructions out d k ops) es \<and>
       list_all2 (\<lambda>i e. id_mnemonic e = inst_mnemonic i \<and> length (id_operands e) = length (inst_ops i)) (alternative_instructions out d k ops) es \<and>
       sum_list (map2 entry_size es (alternative_instructions out d k ops)) \<le> insn_isize d k" by blast
qed

text \<open>C19: every alternative but the eleven of \<open>unfit_alternatives\<close>, without a condition and with operands that
  satisfy its constraints and are usable, is printed as instructions of the assembler's language that the
  instruction table encodes, with the registers, numbers and addresses in the fields, in no more words than
  the scheduler reckons with.  Usable means what the constraints do not ask: the base of an address is not the stack pointer, a displacement is from -2048 to 2047 (a symbol as displacement is
  defined below 2048), every other symbol is defined, labels are the targets of branches only, and there
  are no sums of symbols and numbers.\<close>

theorem patterns_assemble:
  assumes "d \<in> set md_insns" "k < length (md_templates d)" "(md_name d, k) \<notin> set unfit_alternatives"
    and "operands_ok d k ops" "operands_usable out sy d k ops" "gcc_output_ok out"
  shows "\<exists>insts es. map (output_template out ops) (md_templates d ! k) = map (\<lambda>i. asm_text (text_instruction i)) insts \<and>
    list_all writable_instruction insts \<and> list_all2 (encodes_exactly sy) insts es \<and>
    sum_list (map2 entry_size es insts) \<le> insn_isize d k"
  using alternative_assembles[OF md_fits[OF assms(1-3)] assms(4-6)]
  by (intro exI[of _ "alternative_instructions out d k ops"]) (auto simp: list_all_iff)

text \<open>A load with a displacement and a call.\<close>

lemma sample_patterns:
  "md_load_insns ! 0 \<in> set md_insns" "md_call_insns ! 3 \<in> set md_insns"
  by (simp_all add: md_insns_def md_load_insns_def md_call_insns_def)

definition sample_load_operands :: "rtx list" where
  "sample_load_operands = [Reg_x QImode 21, Mem_x (Plus_x (Reg_x QImode 3) (Const_int_x (- 7)))]"

theorem patterns_assemble_witness:
  "\<exists>insts es. map (output_template sample_output sample_load_operands) [''ldoff16 %a1, %0''] = map (\<lambda>i. asm_text (text_instruction i)) insts \<and>
     list_all writable_instruction insts \<and> list_all2 (encodes_exactly []) insts es \<and> sum_list (map2 entry_size es insts) \<le> 2"
proof -
  have t: "md_templates (md_load_insns ! 0) = [[''ld16 %1, %0''], [''ldoff16 %a1, %0'']]" "md_name (md_load_insns ! 0) = ''*ld_qi''"
    by (simp_all add: md_load_insns_def md_insn_of_def)
  have z: "insn_isize (md_load_insns ! 0) 1 = 2" by code_simp
  have o: "operands_ok (md_load_insns ! 0) 1 sample_load_operands" by code_simp
  have u: "operands_usable sample_output [] (md_load_insns ! 0) 1 sample_load_operands" by code_simp
  have g: "gcc_output_ok sample_output" by (simp add: gcc_output_ok_def sample_output_def)
  have l: "1 < length (md_templates (md_load_insns ! 0))" "(md_name (md_load_insns ! 0), 1 :: nat) \<notin> set unfit_alternatives"
    by (simp_all add: t unfit_alternatives_def)
  from patterns_assemble[OF sample_patterns(1) l o u g] z t(1) show ?thesis by simp
qed


end
