(* ===== verification/GccIssue.thy ===== *)
theory GccIssue
  imports GccInsns
begin

text \<open>
  Issue groups.  The scheduler packs instructions whose reservations of issue slots and functional units (the
  automaton at the end of \<open>ajardsp.md\<close>) are disjoint; the final pass prints the first one with two blanks, so
  that it starts a bundle, and the others with a bar.  A group of patterns that fit is read back by the
  assembler as bundles of at most four words, and they are assembled.
\<close>

section \<open>Units and reservations\<close>

datatype cpu_unit =
    Unit_bmu | Unit_pcu | Unit_lsu0 | Unit_lsu1 | Unit_cu0 | Unit_cu1 | Unit_bus_spec
  | Islot nat

definition one_islot :: "cpu_unit list list" where
  "one_islot = [[Islot 0], [Islot 1], [Islot 2], [Islot 3]]"

definition two_islots :: "cpu_unit list list" where
  "two_islots =
     [[Islot 0, Islot 1], [Islot 0, Islot 2], [Islot 0, Islot 3], [Islot 1, Islot 0], [Islot 1, Islot 2], [Islot 1, Islot 3],
      [Islot 2, Islot 0], [Islot 2, Islot 1], [Islot 2, Islot 3], [Islot 3, Islot 0], [Islot 3, Islot 1], [Islot 3, Islot 2]]"

definition both :: "cpu_unit list list \<Rightarrow> cpu_unit list list \<Rightarrow> cpu_unit list list" where
  "both xs ys = concat (map (\<lambda>x. map (\<lambda>y. x @ y) ys) xs)"

text \<open>The alternatives of a reservation; no comparison and no floating point instruction has size 1.\<close>

definition insn_reservation :: "itype \<Rightarrow> nat \<Rightarrow> cpu_unit list list" where
  "insn_reservation ty sz =
     (let cu = [[Unit_cu0], [Unit_cu1]]; lsu = [[Unit_lsu0], [Unit_lsu1]];
          slots = (if sz = 1 then one_islot else if sz = 2 then two_islots else []) in
      case ty of
        Itype_bmu \<Rightarrow> both slots [[Unit_bmu]]
      | Itype_cu \<Rightarrow> both slots cu
      | Itype_cu_cmp \<Rightarrow> if sz = 2 then both slots cu else []
      | Itype_cu_fp \<Rightarrow> if sz = 2 then both slots cu else []
      | Itype_lsu \<Rightarrow> both slots lsu
      | Itype_lsu_spec \<Rightarrow> both slots (both lsu [[Unit_bus_spec]])
      | Itype_lsu_all \<Rightarrow> both slots [[Unit_lsu0, Unit_lsu1, Unit_bus_spec]]
      | Itype_pcu \<Rightarrow> both slots [[Unit_pcu]])"

text \<open>The instructions of one cycle get disjoint units.\<close>

fun issues :: "cpu_unit list \<Rightarrow> (itype \<times> nat) list \<Rightarrow> bool" where
  "issues used [] = True"
| "issues used ((ty, sz) # xs) =
     list_ex (\<lambda>us. list_all (\<lambda>u. u \<notin> set used) us \<and> issues (us @ used) xs) (insn_reservation ty sz)"

fun islots :: "cpu_unit list \<Rightarrow> nat list" where
  "islots [] = []"
| "islots (Islot n # us) = n # islots us"
| "islots (u # us) = islots us"

lemma islots_append [simp]: "islots (us @ vs) = islots us @ islots vs"
  by (induction us rule: islots.induct) simp_all

lemma set_islots: "n \<in> set (islots us) \<longleftrightarrow> Islot n \<in> set us"
  by (induction us rule: islots.induct) auto

lemma reservation_islots:
  assumes "us \<in> set (insn_reservation ty sz)"
  shows "length (islots us) = sz" "distinct (islots us)" "set (islots us) \<subseteq> {..<4}"
proof -
  have "list_all (\<lambda>ty. list_all (\<lambda>sz. list_all (\<lambda>us. length (islots us) = sz \<and> distinct (islots us) \<and> list_all (\<lambda>n. n < 4) (islots us))
      (insn_reservation ty sz)) [1, 2])
    [Itype_bmu, Itype_cu, Itype_cu_cmp, Itype_cu_fp, Itype_lsu, Itype_lsu_spec, Itype_lsu_all, Itype_pcu]"
    by code_simp
  moreover have "sz \<in> {1, 2}"
    using assms by (cases ty) (auto simp: insn_reservation_def both_def split: if_splits)
  ultimately have "length (islots us) = sz \<and> distinct (islots us) \<and> list_all (\<lambda>n. n < 4) (islots us)"
    using assms by (cases ty) (auto simp: list_all_iff)
  then show "length (islots us) = sz" "distinct (islots us)" "set (islots us) \<subseteq> {..<4}"
    by (auto simp: list_all_iff)
qed

lemma issues_words:
  "issues used xs \<Longrightarrow> distinct (islots used) \<Longrightarrow> set (islots used) \<subseteq> {..<4} \<Longrightarrow> length (islots used) + sum_list (map snd xs) \<le> 4"
proof (induction used xs rule: issues.induct)
  case (1 used)
  then have "card (set (islots used)) \<le> card {..<4 :: nat}" by (intro card_mono) simp_all
  with 1 show ?case by (simp add: distinct_card)
next
  case (2 used ty sz xs)
  then obtain us where us: "us \<in> set (insn_reservation ty sz)" "list_all (\<lambda>u. u \<notin> set used) us" "issues (us @ used) xs"
    by (auto simp: list_ex_iff)
  note r = reservation_islots[OF us(1)]
  have "set (islots us) \<inter> set (islots used) = {}" using us(2) by (auto simp: set_islots list_all_iff)
  then have "length (islots (us @ used)) + sum_list (map snd xs) \<le> 4"
    using 2 us r by (intro "2.IH"[OF us(1)]) auto
  with r(1) show ?case by simp
qed

section \<open>Groups\<close>

type_synonym issue_insn = "md_insn \<times> nat \<times> rtx list"

definition insn_ok :: "gcc_output \<Rightarrow> symtab \<Rightarrow> issue_insn \<Rightarrow> bool" where
  "insn_ok out sy x =
     (case x of (d, k, ops) \<Rightarrow> d \<in> set md_insns \<and> k < length (md_templates d) \<and> (md_name d, k) \<notin> set unfit_alternatives \<and>
        operands_ok d k ops \<and> operands_usable out sy d k ops)"

definition insn_reserves :: "issue_insn \<Rightarrow> itype \<times> nat" where
  "insn_reserves x = (case x of (d, k, ops) \<Rightarrow> (insn_itype d k, insn_isize d k))"

definition issue_group :: "gcc_output \<Rightarrow> symtab \<Rightarrow> issue_insn list \<Rightarrow> bool" where
  "issue_group out sy g \<longleftrightarrow> g \<noteq> [] \<and> list_all (insn_ok out sy) g \<and> issues [] (map insn_reserves g)"

definition insn_lines :: "gcc_output \<Rightarrow> issue_insn \<Rightarrow> instruction list" where
  "insn_lines out x = (case x of (d, k, ops) \<Rightarrow> alternative_instructions out d k ops)"

text \<open>
  The mark of \<open>ajardsp_asm_output_opcode\<close> is printed before every line of a template, so each line of the
  first instruction starts a bundle, and all other lines continue the last one.
\<close>

definition group_bundles :: "gcc_output \<Rightarrow> issue_insn list \<Rightarrow> instruction list list" where
  "group_bundles out g =
     (case g of
        [] \<Rightarrow> []
      | x # xs \<Rightarrow> map (\<lambda>i. [i]) (butlast (insn_lines out x)) @ [last (insn_lines out x) # concat (map (insn_lines out) xs)])"

section \<open>Assembling a bundle\<close>

lemma same_arity: "list_all (\<lambda>d. list_all (\<lambda>e. fst d = fst e \<longrightarrow> length (snd (snd d)) = length (snd (snd e))) insn_keys) insn_keys"
  by code_simp

definition encoder_type :: "encoder \<Rightarrow> operand_type" where
  "encoder_type e = (case e of Enc_int \<Rightarrow> INTEGER | Enc_symref \<Rightarrow> SYMBOL_REF | _ \<Rightarrow> REG)"

lemma typed_encoders:
  "list_all (\<lambda>k. list_all (\<lambda>(ty, w, e). case e of None \<Rightarrow> False | Some e \<Rightarrow> ty = encoder_type e) (snd (snd k))) insn_keys"
  by code_simp

lemma table_arity:
  assumes "d \<in> set ajardsp_insns" "e \<in> set ajardsp_insns" "id_mnemonic d = id_mnemonic e"
  shows "length (id_operands d) = length (id_operands e)"
proof -
  have "entry_key_of d \<in> set insn_keys" "entry_key_of e \<in> set insn_keys" using assms(1,2) by (simp_all add: insn_keys_def)
  from bspec[OF bspec[OF same_arity[unfolded list_all_iff] this(1)] this(2)] assms(3) show ?thesis
    by (simp add: entry_key_of_def)
qed

lemma table_encoders:
  assumes "d \<in> set ajardsp_insns" "f \<in> set (id_operands d)"
  shows "\<exists>e. od_encode f = Some e \<and> od_type f = encoder_type e"
proof -
  have "entry_key_of d \<in> set insn_keys" "field_key_of f \<in> set (snd (snd (entry_key_of d)))"
    using assms by (simp_all add: insn_keys_def entry_key_of_def)
  from bspec[OF bspec[OF typed_encoders[unfolded list_all_iff] this(1)] this(2)] show ?thesis
    by (auto simp: field_key_of_def split: option.splits)
qed

text \<open>A name no encoder reads beyond its end.\<close>

definition safe_operand :: "symtab \<Rightarrow> operand \<Rightarrow> bool" where
  "safe_operand sy op \<longleftrightarrow>
     (case op_type op of
        INTEGER \<Rightarrow> True
      | SYMBOL_REF \<Rightarrow> op_name op \<noteq> None
      | _ \<Rightarrow> (case op_name op of None \<Rightarrow> False | Some nm \<Rightarrow> 4 \<le> length nm \<or> length nm < 3))"

lemma register_names_safe: "nm \<in> set (register_names e) \<Longrightarrow> 4 \<le> length nm \<or> length nm < 3"
  by (cases e) (auto simp: register_names_def Let_def)

lemma holds_safe: "holds sy f op v \<Longrightarrow> safe_operand sy op"
proof (cases "op_type op")
  case REG
  assume "holds sy f op v"
  with REG obtain e where "unat (get_field f v) < length (register_names e)" "op_name op = Some (register_names e ! unat (get_field f v))"
    by (auto simp: holds_def)
  with REG register_names_safe[OF nth_mem] show ?thesis by (simp add: safe_operand_def)
next
  case REG_WITH_OFFSET
  assume "holds sy f op v"
  with REG_WITH_OFFSET obtain e where "unat (get_field f v) < length (register_names e)" "op_name op = Some (register_names e ! unat (get_field f v))"
    by (auto simp: holds_def)
  with REG_WITH_OFFSET register_names_safe[OF nth_mem] show ?thesis by (simp add: safe_operand_def)
qed (auto simp: safe_operand_def holds_def)

lemma c_index_safe: "i \<le> length nm \<Longrightarrow> \<exists>c. c_index nm i = Some c"
  by (simp add: c_index_def)

lemma encode_safe:
  assumes "safe_operand sy op" "od_type f = op_type op" "od_encode f = Some e" "od_type f = encoder_type e"
  shows "run_encode ign sy e f op p \<noteq> Undef"
proof (cases "od_type f = REG")
  case True
  then obtain nm where nm: "op_name op = Some nm" "4 \<le> length nm \<or> length nm < 3"
    using assms(1,2) by (auto simp: safe_operand_def split: option.splits)
  have long: "4 \<le> length nm" if "strncmp_eq nm x k" "length x = k" "3 \<le> k" for x k
  proof -
    have "length (take k nm) = k" using that by (simp add: strncmp_eq_def)
    then show ?thesis using nm(2) that(3) by auto
  qed
  have idx: "\<exists>c. c_index nm 3 = Some c" "\<exists>c. c_index nm 4 = Some c" if "4 \<le> length nm"
    using c_index_safe[of _ nm] that by simp_all
  from assms(4) True show ?thesis
    using nm(1) idx long[of "''ptr''" 3] long[of "''acc''" 3] long[of "''pred''" 4]
    by (cases e) (auto simp: encoder_type_def encode_ptr_def encode_acc_def encode_acc_half_def encode_pred_def encode_reg_def encode_spec_def Let_def
        split: option.splits if_splits)
next
  case False
  with assms show ?thesis
    by (cases e) (auto simp: encoder_type_def encode_int_def encode_symref_def safe_operand_def split: option.splits operand_type.splits)
qed

lemma encode_operands_safe:
  assumes "list_all2 (\<lambda>f op. od_type f = op_type op) fs ops" "list_all (safe_operand sy) ops"
    and "\<And>f. f \<in> set fs \<Longrightarrow> \<exists>e. od_encode f = Some e \<and> od_type f = encoder_type e"
  shows "encode_operands ign sy fs ops p \<noteq> Undef"
  using assms
proof (induction fs ops arbitrary: p rule: list_all2_induct)
  case (Cons f fs op ops)
  from Cons.prems(2)[of f] obtain e where e: "od_encode f = Some e" "od_type f = encoder_type e" by auto
  have "run_encode ign sy e f op p \<noteq> Undef"
    using Cons.prems(1) Cons.hyps(1) e by (intro encode_safe[of sy]) simp_all
  moreover have "encode_operands ign sy fs ops q \<noteq> Undef" for q using Cons by simp
  ultimately show ?case using e(1) by (cases "run_encode ign sy e f op p") auto
qed simp

lemma predicate_safe: "plain_condition i \<Longrightarrow> encode_predicate i q \<noteq> Undef"
proof (cases "inst_pred i")
  case (Some pr)
  assume "plain_condition i"
  with Some obtain n where n: "n < 4" "pr = ''pred'' @ [digit n]" by (auto simp: plain_condition_def)
  have "\<forall>n\<in>set [0..<4]. atoi [digit n] \<noteq> None"
    by (simp add: upt_rec digit_def atoi_def atoi_value_def c_isdigit_def c_isspace_def Let_def)
  then have "atoi [digit n] \<noteq> None" using n(1) by simp
  with n Some show ?thesis by (auto simp: encode_predicate_def strncmp_eq_def Let_def)
qed (simp add: encode_predicate_def)

lemma exact_no_crash:
  assumes "encodes_exactly sy i e" "id_mnemonic e = inst_mnemonic i" "length (id_operands e) = length (inst_ops i)" "plain_condition i"
    and "d \<in> set ajardsp_insns"
  shows "no_crash False sy i d"
  unfolding no_crash_def
proof (intro impI conjI allI)
  assume mn: "id_mnemonic d = inst_mnemonic i"
  have e: "e \<in> set ajardsp_insns" using assms(1) by (simp add: encodes_exactly_def)
  have len: "length (id_operands d) = length (inst_ops i)" using table_arity[OF assms(5) e] mn assms(2,3) by simp
  have wf: "wf_insn d" using ajardsp.entry_wf[OF assms(5)] .
  show "operand_match d i \<noteq> Undef"
    using len by (simp add: operand_match_def take_operand_array[OF wf] operand_match_loop_Undef)
  fix nx assume "operand_match d i = Good ()"
  then have ty: "list_all2 (\<lambda>f op. od_type f = op_type op) (id_operands d) (inst_ops i)" by (simp add: operand_match_Good[OF wf])
  obtain p where "list_all2 (\<lambda>f op. holds sy f op p) (id_operands e) (inst_ops i)" using assms(1) unfolding encodes_exactly_def by blast
  then have "list_all (safe_operand sy) (inst_ops i)"
    using holds_safe by (auto simp: list_all2_conv_all_nth list_all_length)
  from encode_operands_safe[OF ty this table_encoders[OF assms(5)]] predicate_safe[OF assms(4)]
  show "encode_insn False sy d i nx \<noteq> Undef"
    unfolding encode_insn_def operand_array_def Let_def encode_operands_append[OF len]
    by (cases "encode_operands False sy (id_operands d) (inst_ops i) (if nx then id_pattern d OR push_bit PAR_BIT 1 else id_pattern d)") auto
qed

text \<open>Instructions that are encoded, of at most four words together, are assembled as a bundle.\<close>

definition bundle_of :: "instruction list \<Rightarrow> inst_bundle" where
  "bundle_of insts = \<lparr>ib_insts = insts, ib_label = None, ib_align = 0\<rparr>"

definition exact_lines :: "symtab \<Rightarrow> instruction list \<Rightarrow> inst_def list \<Rightarrow> bool" where
  "exact_lines sy insts es \<longleftrightarrow> list_all2 (encodes_exactly sy) insts es \<and> list_all plain_condition insts \<and>
     list_all2 (\<lambda>i e. id_mnemonic e = inst_mnemonic i \<and> length (id_operands e) = length (inst_ops i)) insts es"

lemma exact_assembled:
  assumes "exact_lines sy insts es"
  shows "\<exists>ps. assembled False sy ajardsp_insns insts ps \<and> length (bundle_words insts ps) = sum_list (map2 entry_size es insts)"
proof -
  have "list_all2 (encodes_exactly sy) insts es" using assms by (simp add: exact_lines_def)
  then show ?thesis
  proof (induction insts es rule: list_all2_induct)
    case (Cons i insts e es)
    then obtain ps p where "assembled False sy ajardsp_insns insts ps" "length (bundle_words insts ps) = sum_list (map2 entry_size es insts)"
      "e \<in> set ajardsp_insns" "assembles False sy e i (insts \<noteq> []) p"
      unfolding encodes_exactly_def by blast
    then show ?case by (intro exI[of _ "(e, p) # ps"]) (simp add: insn_words_def Let_def entry_size_def)
  qed simp
qed

lemma exact_bundle:
  assumes "exact_lines sy insts es" "sum_list (map2 entry_size es insts) \<le> 4"
    and "\<not> ignore_sym_refs st" "symtab_p st = sy" "unat (imem_addr st) \<le> 65532"
  shows "\<exists>ws. length ws \<le> 4 \<and> try_assemble_inst_bundle (bundle_of insts) st = Good (write_imem ws st)"
proof -
  obtain ps where ps: "assembled False sy ajardsp_insns insts ps" "length (bundle_words insts ps) \<le> 4"
    using exact_assembled[OF assms(1)] assms(2) by auto
  have "\<forall>i\<in>set insts. \<forall>d\<in>set ajardsp_insns. no_crash False sy i d"
  proof (intro ballI)
    fix i d assume "i \<in> set insts" and d: "d \<in> set ajardsp_insns"
    then obtain j where j: "j < length insts" "i = insts ! j" by (auto simp: in_set_conv_nth)
    have "encodes_exactly sy i (es ! j)" "plain_condition i" "id_mnemonic (es ! j) = inst_mnemonic i"
      "length (id_operands (es ! j)) = length (inst_ops i)"
      using assms(1) j by (auto simp: exact_lines_def list_all_length dest: list_all2_nthD)
    then show "no_crash False sy i d" using exact_no_crash d by blast
  qed
  with ajardsp.bundle_loop_complete[of st insts ps 0] ps assms(3-5)
  show ?thesis by (intro exI[of _ "bundle_words insts ps"]) (simp add: try_assemble_inst_bundle_def bundle_of_def)
qed


section \<open>The bundles of a group\<close>

lemma exact_lines_append:
  "exact_lines sy ins es \<Longrightarrow> exact_lines sy js fs \<Longrightarrow> exact_lines sy (ins @ js) (es @ fs)"
  by (simp add: exact_lines_def list_all2_appendI)

lemma exact_lines_length: "exact_lines sy ins es \<Longrightarrow> length es = length ins"
  by (auto simp: exact_lines_def dest: list_all2_lengthD)

lemma exact_lines_split:
  assumes "exact_lines sy (ins @ js) es"
  obtains fs gs where "es = fs @ gs" "exact_lines sy ins fs" "exact_lines sy js gs"
    "sum_list (map2 entry_size es (ins @ js)) = sum_list (map2 entry_size fs ins) + sum_list (map2 entry_size gs js)"
proof -
  let ?fs = "take (length ins) es" and ?gs = "drop (length ins) es"
  have len: "length es = length ins + length js" using exact_lines_length[OF assms] by simp
  have "list_all2 P ins ?fs \<and> list_all2 P js ?gs" if "list_all2 P (ins @ js) es" for P :: "instruction \<Rightarrow> inst_def \<Rightarrow> bool"
    using that len list_all2_append[of ins ?fs P js ?gs] by simp
  then have "exact_lines sy ins ?fs" "exact_lines sy js ?gs" using assms by (auto simp: exact_lines_def)
  moreover have "map2 entry_size es (ins @ js) = map2 entry_size ?fs ins @ map2 entry_size ?gs js"
    using len zip_append[of ?fs ins ?gs js] by simp
  ultimately show thesis by (intro that[of ?fs ?gs]) simp_all
qed

lemma md_lines: "d \<in> set md_insns \<Longrightarrow> k < length (md_templates d) \<Longrightarrow> md_templates d ! k \<noteq> []"
proof -
  have "list_all (\<lambda>d. list_all (\<lambda>t. t \<noteq> []) (md_templates d)) md_insns" by code_simp
  then show "d \<in> set md_insns \<Longrightarrow> k < length (md_templates d) \<Longrightarrow> md_templates d ! k \<noteq> []"
    by (auto simp: list_all_iff)
qed

lemma insn_exact:
  assumes "insn_ok out sy x" "gcc_output_ok out"
  shows "\<exists>es. exact_lines sy (insn_lines out x) es \<and> sum_list (map2 entry_size es (insn_lines out x)) \<le> snd (insn_reserves x)"
    and "insn_lines out x \<noteq> []" "list_all writable_instruction (insn_lines out x)"
proof -
  obtain d k ops where x: "x = (d, k, ops)" by (cases x)
  have d: "d \<in> set md_insns" "k < length (md_templates d)" "(md_name d, k) \<notin> set unfit_alternatives" "operands_ok d k ops"
    "operands_usable out sy d k ops" using assms(1) by (auto simp: insn_ok_def x)
  note a = alternative_assembles[OF md_fits[OF d(1-3)] d(4,5) assms(2)]
  show "\<exists>es. exact_lines sy (insn_lines out x) es \<and> sum_list (map2 entry_size es (insn_lines out x)) \<le> snd (insn_reserves x)"
    using a(2,3) by (auto simp: exact_lines_def insn_lines_def insn_reserves_def x list_all_iff)
  show "insn_lines out x \<noteq> []" using md_lines[OF d(1,2)] by (simp add: insn_lines_def x alternative_instructions_def)
  show "list_all writable_instruction (insn_lines out x)" using a(2) by (auto simp: insn_lines_def x list_all_iff)
qed

lemma insns_exact:
  assumes "list_all (insn_ok out sy) xs" "gcc_output_ok out"
  shows "\<exists>es. exact_lines sy (concat (map (insn_lines out) xs)) es \<and>
    sum_list (map2 entry_size es (concat (map (insn_lines out) xs))) \<le> sum_list (map (\<lambda>x. snd (insn_reserves x)) xs)"
  using assms(1)
proof (induction xs)
  case (Cons x xs)
  then obtain es fs where
    e: "exact_lines sy (insn_lines out x) es" "sum_list (map2 entry_size es (insn_lines out x)) \<le> snd (insn_reserves x)" and
    f: "exact_lines sy (concat (map (insn_lines out) xs)) fs"
      "sum_list (map2 entry_size fs (concat (map (insn_lines out) xs))) \<le> sum_list (map (\<lambda>x. snd (insn_reserves x)) xs)"
    using insn_exact(1)[of out sy x, OF _ assms(2)] by auto
  with exact_lines_append[OF e(1) f(1)] exact_lines_length[OF e(1)] show ?case
    by (intro exI[of _ "es @ fs"]) simp
qed (simp add: exact_lines_def)

lemma group_bundle_exact:
  assumes "issue_group out sy g" "gcc_output_ok out" "b \<in> set (group_bundles out g)"
  shows "\<exists>es. exact_lines sy b es \<and> sum_list (map2 entry_size es b) \<le> 4"
proof -
  obtain x xs where g: "g = x # xs" using assms(1) by (cases g) (auto simp: issue_group_def)
  have ok: "insn_ok out sy x" "list_all (insn_ok out sy) xs" and w: "snd (insn_reserves x) + sum_list (map (\<lambda>x. snd (insn_reserves x)) xs) \<le> 4"
    using assms(1) issues_words[of "[]" "map insn_reserves g"] by (auto simp: issue_group_def g comp_def)
  obtain es where es: "exact_lines sy (insn_lines out x) es" "sum_list (map2 entry_size es (insn_lines out x)) \<le> snd (insn_reserves x)"
    using insn_exact(1)[OF ok(1) assms(2)] by blast
  obtain fs where fs: "exact_lines sy (concat (map (insn_lines out) xs)) fs"
    "sum_list (map2 entry_size fs (concat (map (insn_lines out) xs))) \<le> sum_list (map (\<lambda>x. snd (insn_reserves x)) xs)"
    using insns_exact[OF ok(2) assms(2)] by blast
  consider i where "i \<in> set (insn_lines out x)" "b = [i]" | "b = last (insn_lines out x) # concat (map (insn_lines out) xs)"
    using assms(3) by (auto simp: group_bundles_def g dest: in_set_butlastD)
  then show ?thesis
  proof cases
    case 1
    then obtain pre post where "insn_lines out x = (pre @ [i]) @ post" by (auto dest: split_list)
    with es(1) obtain h1 h2 where h: "exact_lines sy (pre @ [i]) h1"
      "sum_list (map2 entry_size es (insn_lines out x)) = sum_list (map2 entry_size h1 (pre @ [i])) + h2"
      by (metis exact_lines_split)
    from h(1) obtain h3 h4 h5 where "exact_lines sy [i] h4" "sum_list (map2 entry_size h1 (pre @ [i])) = h5 + sum_list (map2 entry_size h4 [i])"
      by (metis exact_lines_split)
    with h(2) es(2) w 1(2) show ?thesis by (intro exI[of _ h4]) simp
  next
    case 2
    let ?a = "butlast (insn_lines out x)" and ?l = "last (insn_lines out x)"
    have "insn_lines out x = ?a @ [?l]" using insn_exact(2)[OF ok(1) assms(2)] by simp
    with es(1) obtain h1 h2 where "exact_lines sy [?l] h2"
      "sum_list (map2 entry_size es (insn_lines out x)) = h1 + sum_list (map2 entry_size h2 [?l])"
      by (metis exact_lines_split)
    moreover from this(1) obtain e where "h2 = [e]" using exact_lines_length[of sy "[?l]" h2] by (cases h2) auto
    ultimately show ?thesis using exact_lines_append[OF _ fs(1), of "[?l]" h2] es(2) fs(2) w 2
      by (intro exI[of _ "h2 @ fs"]) simp
  qed
qed

section \<open>The text of compiled code\<close>

text \<open>
  The lines the final pass prints for an instruction: a tab, the mark, the line of the template.  The first
  instruction of a group has mode \<open>TImode\<close>, which \<open>ajardsp_final_prescan_insn\<close> turns into the flag for
  \<open>ajardsp_asm_output_opcode\<close>.
\<close>

definition line_output :: "gcc_output \<Rightarrow> bool \<Rightarrow> rtx list \<Rightarrow> string \<Rightarrow> printed" where
  "line_output out start ops s =
     cat (asm_text (tab_char # ajardsp_asm_output_opcode True start)) (cat (output_template out ops s) (asm_text [newline]))"

fun cat_list :: "printed list \<Rightarrow> printed" where
  "cat_list [] = asm_text []"
| "cat_list (x # xs) = cat x (cat_list xs)"

definition insn_output :: "gcc_output \<Rightarrow> machine_mode \<Rightarrow> issue_insn \<Rightarrow> printed" where
  "insn_output out m x =
     (case x of (d, k, ops) \<Rightarrow> cat_list (map (line_output out (ajardsp_final_prescan_insn True m False True) ops) (md_templates d ! k)))"

definition group_output :: "gcc_output \<Rightarrow> issue_insn list \<Rightarrow> printed" where
  "group_output out g =
     (case g of [] \<Rightarrow> asm_text [] | x # xs \<Rightarrow> cat_list (insn_output out TImode x # map (insn_output out VOIDmode) xs))"

text \<open>Code: labels and groups.\<close>

datatype code_piece = Code_label string | Issue "issue_insn list"

definition piece_output :: "gcc_output \<Rightarrow> code_piece \<Rightarrow> printed" where
  "piece_output out c =
     (case c of
        Code_label x \<Rightarrow> asm_text (assemble_name out x @ '':'' @ [newline])
      | Issue g \<Rightarrow> group_output out g)"

definition piece_ok :: "gcc_output \<Rightarrow> symtab \<Rightarrow> code_piece \<Rightarrow> bool" where
  "piece_ok out sy c =
     (case c of Code_label x \<Rightarrow> is_name symbol_char (assemble_name out x) | Issue g \<Rightarrow> issue_group out sy g)"

text \<open>The nodes the assembler makes of it, with the numbers of the lines.\<close>

fun numbered :: "i32 \<Rightarrow> instruction list \<Rightarrow> instruction list" where
  "numbered n [] = []"
| "numbered n (i # ins) = i\<lparr>inst_lineno := n\<rparr> # numbered (n + 1) ins"

fun bundle_nodes :: "i32 \<Rightarrow> instruction list list \<Rightarrow> inst_bundle list" where
  "bundle_nodes n [] = []"
| "bundle_nodes n (b # bs) = insts_node (numbered n b) # bundle_nodes (n + of_nat (length b)) bs"

definition piece_lines :: "gcc_output \<Rightarrow> code_piece \<Rightarrow> nat" where
  "piece_lines out c = (case c of Code_label x \<Rightarrow> 1 | Issue g \<Rightarrow> sum_list (map (\<lambda>x. length (insn_lines out x)) g))"

definition piece_nodes :: "gcc_output \<Rightarrow> i32 \<Rightarrow> code_piece \<Rightarrow> inst_bundle list" where
  "piece_nodes out n c =
     (case c of Code_label x \<Rightarrow> [label_node (assemble_name out x)] | Issue g \<Rightarrow> bundle_nodes n (group_bundles out g))"

fun code_nodes :: "gcc_output \<Rightarrow> i32 \<Rightarrow> code_piece list \<Rightarrow> inst_bundle list" where
  "code_nodes out n [] = []"
| "code_nodes out n (c # cs) = piece_nodes out n c @ code_nodes out (n + of_nat (piece_lines out c)) cs"

section \<open>Reading it\<close>

text \<open>A bundle over several lines.\<close>

fun bundle_text :: "bool \<Rightarrow> instruction list \<Rightarrow> string" where
  "bundle_text start [] = []"
| "bundle_text start (i # ins) =
     tab_char # ajardsp_asm_output_opcode True start @ text_instruction i @ newline # bundle_text False ins"

fun toks_lines :: "bool \<Rightarrow> i32 \<Rightarrow> instruction list \<Rightarrow> token list" where
  "toks_lines start n [] = []"
| "toks_lines start n (i # ins) = (if start then [] else [TOK_PIPE]) @ toks_instruction n i @ toks_lines False (n + 1) ins"

lemma lexes_bundle_text:
  assumes "sc_start st = CODE" "list_all writable_instruction ins"
  shows "lexes l (pos st (bundle_text b ins @ r) True n) (seen l code_sections (toks_lines b n ins)) (pos st r True (n + of_nat (length ins)))"
  using assms(2)
proof (induction ins arbitrary: b n)
  case Nil
  then show ?case by (simp add: lexes_refl)
next
  case (Cons i ins)
  have sc: "sc_start st \<noteq> COMMENT" using assms(1) by simp
  let ?r = "newline # bundle_text False ins @ r"
  have d: "delimited ?r" by (simp add: delimited_Cons)
  have w: "writable_instruction i" "list_all writable_instruction ins" using Cons.prems by simp_all
  have rest: "lexes l (pos st (text_instruction i @ ?r) b' n) (seen l code_sections (toks_instruction n i @ [] @ toks_lines False (n + 1) ins))
      (pos st r True (n + 1 + of_nat (length ins)))" for b'
    by (rule lexes_then[OF lexes_instruction[OF assms(1) w(1) d] lexes_then[OF lexes_space(3)[OF sc] Cons.IH[OF w(2)]]])
  have mark: "\<exists>b'. lexes l (pos st (tab_char # ajardsp_asm_output_opcode True b @ s) True n) (seen l code_sections (if b then [] else [TOK_PIPE])) (pos st s b' n)" for s
  proof (cases b)
    case True
    have "lexes l (pos st (tab_char # CHR '' '' # CHR '' '' # s) True n) (seen l code_sections ([] @ [] @ [])) (pos st s False n)"
      by (rule lexes_then[OF lexes_space(2)[OF sc] lexes_then[OF lexes_space(1)[OF sc] lexes_space(1)[OF sc]]])
    with True show ?thesis by (auto simp: ajardsp_asm_output_opcode_def)
  next
    case False
    have "lexes l (pos st (tab_char # CHR ''|'' # CHR '' '' # s) True n) (seen l code_sections ([] @ [TOK_PIPE] @ [])) (pos st s False n)"
      by (rule lexes_then[OF lexes_space(2)[OF sc] lexes_then[OF lexes_code_literal(1)[OF assms(1)] lexes_space(1)[OF sc]]])
    with False show ?thesis by (auto simp: ajardsp_asm_output_opcode_def)
  qed
  obtain b' where "lexes l (pos st (tab_char # ajardsp_asm_output_opcode True b @ text_instruction i @ ?r) True n)
      (seen l code_sections (if b then [] else [TOK_PIPE])) (pos st (text_instruction i @ ?r) b' n)"
    using mark by blast
  from lexes_then[OF this rest] show ?case by (simp add: algebra_simps)
qed

lemma g_bundle_lines:
  "list_all writable_instruction ins \<Longrightarrow> ins \<noteq> [] \<Longrightarrow> g_instruction_list (toks_lines True n ins) (numbered n ins)"
proof (induction ins arbitrary: n)
  case (Cons i ins)
  have i: "g_instruction (toks_instruction n i) (i\<lparr>inst_lineno := n\<rparr>)" using Cons.prems by (simp add: g_writable_instruction)
  show ?case
  proof (cases ins)
    case Nil
    with i show ?thesis by (simp add: g_insts_one)
  next
    case (Cons i2 ins2)
    have "g_instruction_list (toks_instruction n i @ TOK_PIPE # toks_lines True (n + 1) ins) (i\<lparr>inst_lineno := n\<rparr> # numbered (n + 1) ins)"
      using Cons.IH[of "n + 1"] Cons.prems Cons by (intro g_instruction_list_cons i) simp_all
    with Cons show ?thesis by simp
  qed
qed simp

text \<open>Bundles one after the other.\<close>

fun toks_bundle_list :: "i32 \<Rightarrow> instruction list list \<Rightarrow> token list" where
  "toks_bundle_list n [] = []"
| "toks_bundle_list n (b # bs) = toks_lines True n b @ toks_bundle_list (n + of_nat (length b)) bs"

definition lines_of :: "instruction list list \<Rightarrow> nat" where
  "lines_of bs = sum_list (map length bs)"

lemma lexes_bundle_texts:
  assumes "sc_start st = CODE" "list_all (list_all writable_instruction) bs"
  shows "lexes l (pos st (concat (map (bundle_text True) bs) @ r) True n) (seen l code_sections (toks_bundle_list n bs))
    (pos st r True (n + of_nat (lines_of bs)))"
  using assms(2)
proof (induction bs arbitrary: n)
  case (Cons b bs)
  from Cons.prems have w: "list_all writable_instruction b" "list_all (list_all writable_instruction) bs" by simp_all
  from lexes_then[OF lexes_bundle_text[OF assms(1) w(1)] Cons.IH[OF w(2)]] show ?case
    by (simp add: lines_of_def algebra_simps)
qed (simp add: lexes_refl lines_of_def)

lemma g_bundle_nodes:
  "list_all (list_all writable_instruction) bs \<Longrightarrow> list_all (\<lambda>b. b \<noteq> []) bs \<Longrightarrow> bs \<noteq> [] \<Longrightarrow>
   g_inst_bundle_list (toks_bundle_list n bs) (bundle_nodes n bs)"
proof (induction bs arbitrary: n)
  case (Cons b bs)
  then have b: "g_inst_bundle (toks_lines True n b) (insts_node (numbered n b))" by (simp add: g_bundle g_bundle_lines)
  show ?case
  proof (cases "bs = []")
    case True
    with b show ?thesis by (simp add: g_bundles_one)
  next
    case False
    with Cons b show ?thesis by (simp add: g_inst_bundle_list_cons)
  qed
qed simp

lemma g_bundle_list_append:
  "g_inst_bundle_list us bs \<Longrightarrow> g_inst_bundle_list ts as \<Longrightarrow> g_inst_bundle_list (ts @ us) (as @ bs)"
proof (induction us bs rule: g_inst_bundle_list.induct)
  case (g_bundles_one us b)
  then show ?case by (rule g_bundles_more[rotated])
next
  case (g_bundles_more us bs vs b)
  then show ?case using g_inst_bundle_list.g_bundles_more[of "ts @ us" "as @ bs" vs b] by simp
qed

text \<open>What a group prints are the texts of its bundles.\<close>

lemma bundle_text_append: "bundle_text False (ins @ js) = bundle_text False ins @ bundle_text False js"
  by (induction ins) simp_all

lemma insn_output_lines:
  assumes "insn_ok out sy x" "gcc_output_ok out"
  shows "insn_output out TImode x = asm_text (concat (map (\<lambda>i. bundle_text True [i]) (insn_lines out x)))"
    and "insn_output out VOIDmode x = asm_text (bundle_text False (insn_lines out x))"
proof -
  obtain d k ops where x: "x = (d, k, ops)" by (cases x)
  have d: "d \<in> set md_insns" "k < length (md_templates d)" "(md_name d, k) \<notin> set unfit_alternatives" "operands_ok d k ops"
    "operands_usable out sy d k ops" using assms(1) by (auto simp: insn_ok_def x)
  define ts where "ts = md_templates d ! k"
  let ?i = "\<lambda>s. line_instruction out ops (parse_template s)"
  have "map (output_template out ops) ts = map (\<lambda>i. asm_text (text_instruction i)) (map ?i ts)"
    using alternative_assembles(1)[OF md_fits[OF d(1-3)] d(4,5) assms(2)] by (simp add: alternative_instructions_def ts_def)
  then have t: "\<forall>s\<in>set ts. output_template out ops s = asm_text (text_instruction (?i s))" by simp
  have start: "cat_list (map (line_output out True ops) ss) = asm_text (concat (map (\<lambda>i. bundle_text True [i]) (map ?i ss)))"
    if "set ss \<subseteq> set ts" for ss
    using that by (induction ss) (simp_all add: t line_output_def)
  have more: "cat_list (map (line_output out False ops) ss) = asm_text (bundle_text False (map ?i ss))" if "set ss \<subseteq> set ts" for ss
    using that by (induction ss) (simp_all add: t line_output_def)
  show "insn_output out TImode x = asm_text (concat (map (\<lambda>i. bundle_text True [i]) (insn_lines out x)))"
    "insn_output out VOIDmode x = asm_text (bundle_text False (insn_lines out x))"
    using start[of ts] more[of ts]
    by (simp_all add: insn_output_def insn_lines_def alternative_instructions_def x ts_def[symmetric] ajardsp_final_prescan_insn_def)
qed

lemma group_output_text:
  assumes "issue_group out sy g" "gcc_output_ok out"
  shows "group_output out g = asm_text (concat (map (bundle_text True) (group_bundles out g)))"
proof -
  obtain x xs where g: "g = x # xs" using assms(1) by (cases g) (auto simp: issue_group_def)
  have ok: "insn_ok out sy x" "list_all (insn_ok out sy) xs" using assms(1) by (auto simp: issue_group_def g)
  have rest: "cat_list (map (insn_output out VOIDmode) ys) = asm_text (bundle_text False (concat (map (insn_lines out) ys)))"
    if "list_all (insn_ok out sy) ys" for ys
    using that by (induction ys) (simp_all add: insn_output_lines(2)[of out sy, OF _ assms(2)] bundle_text_append)
  let ?l = "insn_lines out x"
  have "?l = butlast ?l @ [last ?l]" using insn_exact(2)[OF ok(1) assms(2)] by simp
  moreover have "concat (map (\<lambda>i. bundle_text True [i]) (butlast ?l @ [last ?l])) =
      concat (map (\<lambda>i. bundle_text True [i]) (butlast ?l)) @ bundle_text True [last ?l]"
    by (simp only: map_append concat_append list.map concat.simps append_Nil2)
  ultimately have "concat (map (\<lambda>i. bundle_text True [i]) ?l) =
      concat (map (\<lambda>i. bundle_text True [i]) (butlast ?l)) @ bundle_text True [last ?l]" by metis
  then show ?thesis
    by (simp add: group_output_def g insn_output_lines(1)[OF ok(1) assms(2)] rest[OF ok(2)] group_bundles_def comp_def)
qed

lemma group_bundles_writable:
  assumes "issue_group out sy g" "gcc_output_ok out"
  shows "list_all (list_all writable_instruction) (group_bundles out g)" "list_all (\<lambda>b. b \<noteq> []) (group_bundles out g)"
    "group_bundles out g \<noteq> []" "lines_of (group_bundles out g) = sum_list (map (\<lambda>x. length (insn_lines out x)) g)"
proof -
  obtain x xs where g: "g = x # xs" using assms(1) by (cases g) (auto simp: issue_group_def)
  have ok: "insn_ok out sy x" "list_all (insn_ok out sy) xs" using assms(1) by (auto simp: issue_group_def g)
  note x = insn_exact(2,3)[OF ok(1) assms(2)]
  have "list_all writable_instruction (concat (map (insn_lines out) ys))" if "list_all (insn_ok out sy) ys" for ys
    using that insn_exact(3)[OF _ assms(2)] by (induction ys) auto
  from this[OF ok(2)] x show "list_all (list_all writable_instruction) (group_bundles out g)"
    by (auto simp: group_bundles_def g list_all_iff dest: in_set_butlastD)
  show "list_all (\<lambda>b. b \<noteq> []) (group_bundles out g)" "group_bundles out g \<noteq> []"
    by (auto simp: group_bundles_def g list_all_iff)
  have "sum_list (map length (map (\<lambda>i. [i]) ys)) = length ys" for ys :: "instruction list" by (induction ys) simp_all
  then show "lines_of (group_bundles out g) = sum_list (map (\<lambda>x. length (insn_lines out x)) g)"
    using x(1) by (simp add: lines_of_def group_bundles_def g length_concat comp_def)
qed

section \<open>Pieces of code\<close>

definition piece_text :: "gcc_output \<Rightarrow> code_piece \<Rightarrow> string" where
  "piece_text out c =
     (case c of Code_label x \<Rightarrow> assemble_name out x @ '':'' @ [newline] | Issue g \<Rightarrow> concat (map (bundle_text True) (group_bundles out g)))"

definition toks_piece :: "gcc_output \<Rightarrow> i32 \<Rightarrow> code_piece \<Rightarrow> token list" where
  "toks_piece out n c =
     (case c of Code_label x \<Rightarrow> [TOK_LABEL (assemble_name out x)] | Issue g \<Rightarrow> toks_bundle_list n (group_bundles out g))"

fun toks_pieces :: "gcc_output \<Rightarrow> i32 \<Rightarrow> code_piece list \<Rightarrow> token list" where
  "toks_pieces out n [] = []"
| "toks_pieces out n (c # cs) = toks_piece out n c @ toks_pieces out (n + of_nat (piece_lines out c)) cs"

lemma piece_reads:
  assumes "piece_ok out sy c" "gcc_output_ok out"
  shows "piece_output out c = asm_text (piece_text out c)"
    and "sc_start st = CODE \<Longrightarrow> lexes l (pos st (piece_text out c @ r) True n) (seen l code_sections (toks_piece out n c))
      (pos st r True (n + of_nat (piece_lines out c)))"
    and "g_inst_bundle_list (toks_piece out n c) (piece_nodes out n c)"
proof -
  show "piece_output out c = asm_text (piece_text out c)"
    using assms group_output_text by (cases c) (simp_all add: piece_output_def piece_text_def piece_ok_def)
  show "lexes l (pos st (piece_text out c @ r) True n) (seen l code_sections (toks_piece out n c)) (pos st r True (n + of_nat (piece_lines out c)))"
    if "sc_start st = CODE"
  proof (cases c)
    case (Code_label x)
    have sc: "sc_start st \<noteq> COMMENT" using that by simp
    have "is_name symbol_char (assemble_name out x)" using assms(1) Code_label by (simp add: piece_ok_def)
    from lexes_then[OF lexes_label(1)[OF this that] lexes_space(3)[OF sc]] Code_label show ?thesis
      by (simp add: piece_text_def toks_piece_def piece_lines_def)
  next
    case (Issue g)
    with assms group_bundles_writable(1,4)[of out sy g] lexes_bundle_texts[OF that, of "group_bundles out g"] show ?thesis
      by (simp add: piece_text_def toks_piece_def piece_lines_def piece_ok_def)
  qed
  show "g_inst_bundle_list (toks_piece out n c) (piece_nodes out n c)"
  proof (cases c)
    case (Code_label x)
    then show ?thesis by (simp add: toks_piece_def piece_nodes_def g_bundles_one g_label)
  next
    case (Issue g)
    with assms group_bundles_writable(1-3)[of out sy g] g_bundle_nodes[of "group_bundles out g"] show ?thesis
      by (simp add: toks_piece_def piece_nodes_def piece_ok_def)
  qed
qed

lemma pieces_read:
  assumes "list_all (piece_ok out sy) cs" "gcc_output_ok out"
  shows "cat_list (map (piece_output out) cs) = asm_text (concat (map (piece_text out) cs))"
    and "scans_code (concat (map (piece_text out) cs)) (\<lambda>n. toks_pieces out n cs)"
    and "cs \<noteq> [] \<Longrightarrow> g_inst_bundle_list (toks_pieces out n cs) (code_nodes out n cs)"
proof -
  show "cat_list (map (piece_output out) cs) = asm_text (concat (map (piece_text out) cs))"
    using assms(1) piece_reads(1)[OF _ assms(2)] by (induction cs) auto
  have "\<exists>n'. lexes l (pos st (concat (map (piece_text out) cs)) True n) (seen l code_sections (toks_pieces out n cs)) (pos st [] True n')"
    if "sc_start st = CODE" for l st n
    using assms(1)
  proof (induction cs arbitrary: n)
    case Nil
    then show ?case by (auto intro: lexes_refl)
  next
    case (Cons c cs)
    then have c: "piece_ok out sy c" by simp
    from Cons obtain n' where "lexes l (pos st (concat (map (piece_text out) cs)) True (n + of_nat (piece_lines out c)))
      (seen l code_sections (toks_pieces out (n + of_nat (piece_lines out c)) cs)) (pos st [] True n')" by fastforce
    from lexes_then[OF piece_reads(2)[OF c assms(2) that] this] show ?case by (intro exI[of _ n']) simp
  qed
  then show "scans_code (concat (map (piece_text out) cs)) (\<lambda>n. toks_pieces out n cs)" by (simp add: scans_code_def)
  show "g_inst_bundle_list (toks_pieces out n cs) (code_nodes out n cs)" if "cs \<noteq> []"
    using assms(1) that
  proof (induction cs arbitrary: n)
    case (Cons c cs)
    then have c: "piece_ok out sy c" by simp
    show ?case
    proof (cases "cs = []")
      case True
      with piece_reads(3)[OF c assms(2)] show ?thesis by simp
    next
      case False
      with Cons g_bundle_list_append[OF Cons.IH piece_reads(3)[OF c assms(2)]] show ?thesis by simp
    qed
  qed simp
qed


section \<open>Compiled code is assembled\<close>

lemma numbered_exact: "exact_lines sy (numbered n ins) es \<longleftrightarrow> exact_lines sy ins es"
proof -
  have "list_all2 P (numbered n ins) es \<longleftrightarrow> list_all2 P ins es" if "\<And>i m e. P (i\<lparr>inst_lineno := m\<rparr>) e \<longleftrightarrow> P i e" for P :: "instruction \<Rightarrow> inst_def \<Rightarrow> bool"
    using that by (induction ins arbitrary: es n) (auto simp: list_all2_Cons1)
  moreover have "list_all plain_condition (numbered n ins) \<longleftrightarrow> list_all plain_condition ins"
    by (induction ins arbitrary: n) (simp_all add: plain_condition_def)
  moreover have "encodes_exactly sy (i\<lparr>inst_lineno := m\<rparr>) e \<longleftrightarrow> encodes_exactly sy i e" for i m e
  proof -
    have "encode_predicate (i\<lparr>inst_lineno := m\<rparr>) = encode_predicate i" by (rule ext) (simp add: encode_predicate_def)
    then show ?thesis by (simp add: encodes_exactly_def assembles_def encode_insn_def operand_match_def)
  qed
  ultimately show ?thesis by (simp add: exact_lines_def)
qed

lemma numbered_sizes: "map2 entry_size es (numbered n ins) = map2 entry_size es ins"
  by (induction ins arbitrary: es n) (auto simp: zip_Cons split: list.split, auto simp: entry_size_def is_32_def)

lemma bundle_nodes_of: "ib \<in> set (bundle_nodes n bs) \<Longrightarrow> \<exists>m b. b \<in> set bs \<and> ib = bundle_of (numbered m b)"
  by (induction n bs rule: bundle_nodes.induct) (auto simp: insts_node_def bundle_of_def)

lemma code_nodes_of:
  "ib \<in> set (code_nodes out n cs) \<Longrightarrow> ib_label ib = None \<Longrightarrow>
     \<exists>g m b. Issue g \<in> set cs \<and> b \<in> set (group_bundles out g) \<and> ib = bundle_of (numbered m b)"
proof (induction out n cs rule: code_nodes.induct)
  case (2 out n c cs)
  from "2.prems"(1) consider "ib \<in> set (piece_nodes out n c)" | "ib \<in> set (code_nodes out (n + of_nat (piece_lines out c)) cs)" by auto
  then show ?case
  proof cases
    case 1
    with "2.prems"(2) obtain g where "c = Issue g" "ib \<in> set (bundle_nodes n (group_bundles out g))"
      by (auto simp: piece_nodes_def label_node_def split: code_piece.splits)
    with bundle_nodes_of show ?thesis by fastforce
  next
    case 2
    from "2.IH"[OF this "2.prems"(2)] show ?thesis by auto
  qed
qed simp

text \<open>The bundle is assembled wherever the symbols it names are those of the table.\<close>

definition assembles_everywhere :: "symtab \<Rightarrow> inst_bundle \<Rightarrow> bool" where
  "assembles_everywhere sy ib \<longleftrightarrow>
     (\<forall>st. \<not> ignore_sym_refs st \<and> symtab_p st = sy \<and> unat (imem_addr st) \<le> 65532 \<longrightarrow>
        (\<exists>ws. length ws \<le> 4 \<and> try_assemble_inst_bundle ib st = Good (write_imem ws st)))"

text \<open>C18: the text the compiler prints for labels and issue groups, behind the data, is read by the assembler as
  the labels and the bundles of the groups, and every bundle is assembled to at most four words.  The
  instructions are not conditional and not of \<open>unfit_alternatives\<close>, and their operands are usable: the base of
  an address is not the stack pointer, a displacement is from -2048 to 2047 (a symbol as displacement is
  defined below 2048), every other symbol is defined, labels are the targets of branches only, and there
  are no sums of symbols and numbers.  Code and data are not empty, labels are names of the assembler, and the
  data is what \<open>item_ok\<close> admits (no symbols of two words, positive sizes).  Conditional instructions need not
  fit: \<open>predicated_group_overflows\<close>.\<close>

theorem compiled_code_assembles:
  assumes "list_all (piece_ok out sy) cs" "cs \<noteq> []" "gcc_output_ok out"
    and "list_all (item_ok out) ds" "concat (map (item_elements out) ds) \<noteq> []"
  shows "\<exists>code n. cat_list (map (piece_output out) cs) = asm_text code \<and>
    parse_source (sections_text out ds code) = Good (concat (map (item_elements out) ds), code_nodes out n cs) \<and>
    (\<forall>ib\<in>set (code_nodes out n cs). ib_label ib = None \<longrightarrow> assembles_everywhere sy ib)"
proof -
  let ?code = "concat (map (piece_text out) cs)"
  obtain n where n: "parse_source (sections_text out ds ?code) = Good (concat (map (item_elements out) ds), code_nodes out n cs)"
    using parse_sections[OF assms(3,4) pieces_read(2,3)[OF assms(1,3)] assms(5)] assms(2) by blast
  have "assembles_everywhere sy ib" if "ib \<in> set (code_nodes out n cs)" "ib_label ib = None" for ib
  proof -
    from code_nodes_of[OF that] obtain g m b where b: "Issue g \<in> set cs" "b \<in> set (group_bundles out g)" "ib = bundle_of (numbered m b)"
      by blast
    then have "issue_group out sy g" using assms(1) by (auto simp: list_all_iff piece_ok_def)
    from group_bundle_exact[OF this assms(3) b(2)] obtain es where
      "exact_lines sy (numbered m b) es" "sum_list (map2 entry_size es (numbered m b)) \<le> 4"
      unfolding numbered_exact numbered_sizes by blast
    from exact_bundle[OF this] show ?thesis by (simp add: assembles_everywhere_def b(3))
  qed
  with n pieces_read(1)[OF assms(1,3)] show ?thesis by blast
qed

text \<open>A label and a group of a subtraction and a branch back to the label.\<close>

definition sample_symbols :: symtab where "sample_symbols = [\<lparr>se_name = ''loop'', se_address = 0x10\<rparr>]"

definition sample_group :: "issue_insn list" where
  "sample_group =
     [(md_arith_insns ! 12, 0, [Reg_x QImode 9, Reg_x QImode 9, Reg_x QImode 20]),
      (md_control_insns ! 1, 0, [Label_ref_x ''loop''])]"

definition sample_pieces :: "code_piece list" where
  "sample_pieces = [Code_label ''loop'', Issue sample_group]"

lemma sample_pieces_ok: "list_all (piece_ok sample_output sample_symbols) sample_pieces"
proof -
  have n: "md_name (md_arith_insns ! 12) = ''subqi3''" "md_name (md_control_insns ! 1) = ''jump''"
    "length (md_templates (md_arith_insns ! 12)) = 1" "length (md_templates (md_control_insns ! 1)) = 1"
    by (simp_all add: md_arith_insns_def md_control_insns_def md_insn_of_def)
  have m: "md_arith_insns ! 12 \<in> set md_insns" "md_control_insns ! 1 \<in> set md_insns"
    by (simp_all add: md_insns_def md_arith_insns_def md_control_insns_def)
  have "operands_ok (md_arith_insns ! 12) 0 [Reg_x QImode 9, Reg_x QImode 9, Reg_x QImode 20]"
    "operands_ok (md_control_insns ! 1) 0 [Label_ref_x ''loop'']"
    "operands_usable sample_output sample_symbols (md_arith_insns ! 12) 0 [Reg_x QImode 9, Reg_x QImode 9, Reg_x QImode 20]"
    "operands_usable sample_output sample_symbols (md_control_insns ! 1) 0 [Label_ref_x ''loop'']"
    "issues [] (map insn_reserves sample_group)" "is_name symbol_char ''loop''"
    by code_simp+
  with n m show ?thesis
    by (simp add: sample_pieces_def piece_ok_def issue_group_def insn_ok_def sample_group_def unfit_alternatives_def sample_output_def)
qed

theorem compiled_code_assembles_witness:
  "\<exists>code n. cat_list (map (piece_output sample_output) sample_pieces) = asm_text code \<and>
    parse_source (sections_text sample_output sample_items code) =
      Good (concat (map (item_elements sample_output) sample_items), code_nodes sample_output n sample_pieces)"
  using compiled_code_assembles[OF sample_pieces_ok _ sample_output_ok] by (auto simp: sample_pieces_def)


text \<open>
  The pattern of \<open>define_cond_exec\<close> prints a condition before a template and keeps its attributes, but an
  instruction with a condition takes two words.  Four instructions the scheduler puts into one group do
  not fit into a bundle when they are conditional.
\<close>

definition conditional :: "int \<Rightarrow> instruction \<Rightarrow> instruction" where
  "conditional r i = i\<lparr>inst_pred := Some (printed_name BImode r)\<rparr>"

definition crowded_group :: "issue_insn list" where
  "crowded_group =
     [(md_arith_insns ! 12, 0, [Reg_x QImode 9, Reg_x QImode 9, Reg_x QImode 20]),
      (md_arith_insns ! 12, 0, [Reg_x QImode 10, Reg_x QImode 10, Reg_x QImode 20]),
      (md_load_insns ! 0, 0, [Reg_x QImode 11, Mem_x (Reg_x QImode 1)]),
      (md_load_insns ! 0, 0, [Reg_x QImode 12, Mem_x (Reg_x QImode 2)])]"

lemma crowded_bundles:
  "group_bundles sample_output crowded_group =
     [[plain_inst ''sub16'' [reg_operand ''acc6l'', reg_operand ''acc0h'']\<lparr>inst_lineno := 0\<rparr>,
       plain_inst ''sub16'' [reg_operand ''acc6l'', reg_operand ''acc1l'']\<lparr>inst_lineno := 0\<rparr>,
       plain_inst ''ld16'' [reg_operand ''ptr1'', reg_operand ''acc1h'']\<lparr>inst_lineno := 0\<rparr>,
       plain_inst ''ld16'' [reg_operand ''ptr2'', reg_operand ''acc2l'']\<lparr>inst_lineno := 0\<rparr>]]"
  by code_simp

lemma predicated_group_overflows:
  "issues [] (map insn_reserves crowded_group)"
  "\<exists>m. try_assemble_inst_bundle (bundle_of (map (conditional 25) (hd (group_bundles sample_output crowded_group)))) init =
     Fail (VLIW_size_exceeded m)"
proof -
  show "issues [] (map insn_reserves crowded_group)" by code_simp
  have "printed_name BImode 25 = ''pred1''" by code_simp
  then show "\<exists>m. try_assemble_inst_bundle (bundle_of (map (conditional 25) (hd (group_bundles sample_output crowded_group)))) init =
     Fail (VLIW_size_exceeded m)"
    unfolding crowded_bundles by (simp add: conditional_def bundle_of_def plain_inst_def exec_simps)
qed

end
