(* ===== verification/GccUnfit.thy ===== *)
theory GccUnfit
  imports GccInsns
begin

text \<open>
  The alternatives of the machine description that the assembler does not take: the unknown mnemonics and the
  calls through memory never assemble; a sum with a pointer loses the upper bits of its constant; the upper
  accumulator halves of a multiplication are encoded as the lower ones; and the counter of a block repeat is
  an integer where the instruction takes a register.
\<close>

section \<open>Instructions no entry takes\<close>

lemma try_defs_skips:
  "(\<And>e. e \<in> set ds \<Longrightarrow> id_mnemonic e = inst_mnemonic inst \<Longrightarrow> operand_match e inst = Fail ()) \<Longrightarrow>
   try_defs ds inst nx s b = Good (s, b)"
  by (induction ds) auto

lemma no_entry_fails:
  assumes "\<And>e. e \<in> set ajardsp_insns \<Longrightarrow> id_mnemonic e = inst_mnemonic inst \<Longrightarrow> operand_match e inst = Fail ()"
  shows "try_assemble_inst_bundle \<lparr>ib_insts = inst # insts, ib_label = l, ib_align = a\<rparr> st = Fail (Could_not_encode (inst_mnemonic inst))"
  using try_defs_skips[OF assms, of ajardsp_insns] by (simp add: try_assemble_inst_bundle_def)

definition rejected_alternatives :: "(string \<times> nat) list" where
  "rejected_alternatives =
     [(''*mv_qi'', 3), (''zero_extendbiqi2'', 0), (''extendbiqi2'', 0), (''call'', 0), (''call_value'', 0), (''*call_value_hi'', 0)]"

fun calls_memory :: "operand_kind list \<Rightarrow> template_arg list \<Rightarrow> bool" where
  "calls_memory ks [Arg c n] = (n < length ks \<and> ks ! n = Kind_mem)"
| "calls_memory ks _ = False"

text \<open>One line, without a comparison, that has an unknown mnemonic or calls its memory operand.\<close>

definition rejected_line :: "md_insn \<Rightarrow> nat \<Rightarrow> bool" where
  "rejected_line d k \<longleftrightarrow>
     (case md_templates d ! k of
        [s] \<Rightarrow>
          (let ks = map (\<lambda>m. operand_kind m k) (md_operands d); t = parse_template s in
           line_ok ks s \<and> tm_cond t = None \<and>
           (tm_mnemonic t \<in> {''dummy'', ''zero_extendbiqi2'', ''sign_extendbiqi2''} \<or>
            tm_mnemonic t = ''call'' \<and> calls_memory ks (tm_args t)))
      | _ \<Rightarrow> False)"

lemma rejected_lines: "list_all (\<lambda>d. list_all (\<lambda>k. (md_name d, k) \<in> set rejected_alternatives \<longrightarrow> rejected_line d k) [0..<length (md_templates d)]) md_insns"
  by code_simp

lemma rejected_mnemonics:
  "e \<in> set ajardsp_insns \<Longrightarrow> id_mnemonic e \<notin> {''dummy'', ''zero_extendbiqi2'', ''sign_extendbiqi2''}"
proof -
  have "list_all (\<lambda>e. id_mnemonic e \<notin> {''dummy'', ''zero_extendbiqi2'', ''sign_extendbiqi2''}) ajardsp_insns" by (simp add: table_eval)
  then show "e \<in> set ajardsp_insns \<Longrightarrow> id_mnemonic e \<notin> {''dummy'', ''zero_extendbiqi2'', ''sign_extendbiqi2''}"
    by (simp add: list_all_iff)
qed

lemma call_entries:
  assumes "e \<in> set ajardsp_insns" "id_mnemonic e = ''call''" "inst_ops inst = op # ops" "op_type op = REG"
  shows "operand_match e inst = Fail ()"
proof -
  have "list_all (\<lambda>e. id_mnemonic e = ''call'' \<longrightarrow> map od_type (take (id_nr_operands e) (operand_array e)) = [SYMBOL_REF]) ajardsp_insns"
    by (simp add: table_eval operand_array_def MAX_OPERANDS_def)
  with assms(1,2) have "map od_type (take (id_nr_operands e) (operand_array e)) = [SYMBOL_REF]" by (simp add: list_all_iff)
  then obtain f where "take (id_nr_operands e) (operand_array e) = [f]" "od_type f = SYMBOL_REF" by auto
  with assms(3,4) show ?thesis by (simp add: operand_match_def)
qed

lemma memory_operand_reg:
  assumes "kind_sat ops Kind_mem (ops ! n)" "usable out sy Kind_mem (ops ! n)"
  shows "\<exists>op r. arg_operands out ops (Arg c n) = op # r \<and> op_type op = REG"
proof -
  obtain a where a: "ops ! n = Mem_x a" using assms(1) by (auto simp: kind_sat_def split: rtx.splits)
  with assms show ?thesis
    by (auto simp: kind_sat_def usable_def usable_base_def arg_operands_def address_operands_def reg_operand_def legitimate_address_strict_def split: rtx.splits)
qed

text \<open>C20: an alternative with an unknown mnemonic, and a call through memory, is printed as one instruction of the
  assembler's language for all operands the port can print, and no bundle that begins with it is assembled.\<close>

theorem unfit_patterns_fail:
  assumes "d \<in> set md_insns" "k < length (md_templates d)" "(md_name d, k) \<in> set rejected_alternatives"
    and "operands_ok d k ops" "operands_usable out sy d k ops" "gcc_output_ok out"
  shows "\<exists>inst. map (output_template out ops) (md_templates d ! k) = [asm_text (text_instruction inst)] \<and> writable_instruction inst \<and>
    (\<forall>insts st. try_assemble_inst_bundle \<lparr>ib_insts = inst # insts, ib_label = None, ib_align = 0\<rparr> st =
       Fail (Could_not_encode (inst_mnemonic inst)))"
proof -
  define ks where "ks = map (\<lambda>m. operand_kind m k) (md_operands d)"
  have k: "list_all2 (kind_sat ops) ks ops" "list_all2 (usable out sy) ks ops"
    using assms(4,5) by (simp_all add: ks_def operands_ok_def operands_usable_def list_all2_map1)
  have "rejected_line d k" using rejected_lines assms(1-3) by (simp add: list_all_iff)
  then obtain s where s: "md_templates d ! k = [s]" "line_ok ks s" "tm_cond (parse_template s) = None"
    "tm_mnemonic (parse_template s) \<in> {''dummy'', ''zero_extendbiqi2'', ''sign_extendbiqi2''} \<or>
     tm_mnemonic (parse_template s) = ''call'' \<and> calls_memory ks (tm_args (parse_template s))"
    unfolding rejected_line_def ks_def[symmetric] Let_def by (auto split: list.splits)
  let ?i = "line_instruction out ops (parse_template s)"
  note p = line_prints[OF s(2) k assms(6)] and w = line_writable[OF s(2) k assms(6)]
  have mn: "inst_mnemonic ?i = tm_mnemonic (parse_template s)" by (simp add: line_instruction_def s(3))
  have "operand_match e ?i = Fail ()" if e: "e \<in> set ajardsp_insns" "id_mnemonic e = inst_mnemonic ?i" for e
  proof -
    obtain c n where n: "tm_mnemonic (parse_template s) = ''call''" "tm_args (parse_template s) = [Arg c n]" "n < length ks" "ks ! n = Kind_mem"
      using s(4) rejected_mnemonics[OF e(1)] e(2) unfolding mn by (auto elim: calls_memory.elims)
    from list_all2_nthD[OF k(1) n(3)] list_all2_nthD[OF k(2) n(3)]
    obtain op r where "arg_operands out ops (Arg c n) = op # r" "op_type op = REG"
      using memory_operand_reg[of ops n out sy c] unfolding n(4) by blast
    then have "inst_ops ?i = op # r" "op_type op = REG" by (simp_all add: line_instruction_def n(2))
    then show ?thesis using call_entries[OF e(1)] e(2) n(1) unfolding mn by simp
  qed
  then have "try_assemble_inst_bundle \<lparr>ib_insts = ?i # insts, ib_label = None, ib_align = 0\<rparr> st = Fail (Could_not_encode (inst_mnemonic ?i))" for insts st
    by (rule no_entry_fails)
  with p w s(1) show ?thesis by auto
qed

text \<open>A call through a pointer.\<close>

theorem unfit_patterns_fail_witness:
  "\<exists>inst. output_template sample_output [Mem_x (Reg_x QImode 3), Const_int_x 0] ''call %m0'' = asm_text (text_instruction inst) \<and>
     (\<forall>st. try_assemble_inst_bundle \<lparr>ib_insts = [inst], ib_label = None, ib_align = 0\<rparr> st = Fail (Could_not_encode (inst_mnemonic inst)))"
proof -
  let ?d = "md_call_insns ! 0"
  have d: "?d \<in> set md_insns" "md_templates ?d = [[''call %m0'']]" "md_name ?d = ''call''"
    by (simp_all add: md_insns_def md_call_insns_def md_insn_of_def)
  have o: "operands_ok ?d 0 [Mem_x (Reg_x QImode 3), Const_int_x 0]" by code_simp
  have u: "operands_usable sample_output [] ?d 0 [Mem_x (Reg_x QImode 3), Const_int_x 0]" by code_simp
  have g: "gcc_output_ok sample_output" by (simp add: gcc_output_ok_def sample_output_def)
  have r: "0 < length (md_templates ?d)" "(md_name ?d, 0 :: nat) \<in> set rejected_alternatives" by (simp_all add: d rejected_alternatives_def)
  from unfit_patterns_fail[OF d(1) r o u g] d(2) show ?thesis by auto
qed

section \<open>A constant added to a pointer\<close>



definition alternative_bundle :: "gcc_output \<Rightarrow> md_insn \<Rightarrow> nat \<Rightarrow> rtx list \<Rightarrow> inst_bundle" where
  "alternative_bundle out d k ops = \<lparr>ib_insts = alternative_instructions out d k ops, ib_label = None, ib_align = 0\<rparr>"













section \<open>The upper halves in a multiplication\<close>

text \<open>Instructions that every entry treats alike are assembled alike.\<close>

lemma try_defs_cong:
  assumes "inst_mnemonic i = inst_mnemonic j" "inst_pred i = inst_pred j"
    and "\<And>e. e \<in> set ds \<Longrightarrow> id_mnemonic e = inst_mnemonic i \<Longrightarrow>
      operand_match e i = operand_match e j \<and> (\<forall>ign tab nx. encode_insn ign tab e i nx = encode_insn ign tab e j nx)"
  shows "try_defs ds i nx s b = try_defs ds j nx s b"
  using assms(3)
proof (induction ds arbitrary: s b)
  case (Cons e ds)
  have "emit_insn e i = emit_insn e j" using assms(2) by (auto simp: emit_insn_def is_32_def fun_eq_iff)
  with Cons assms(1) show ?case by (cases "id_mnemonic e = inst_mnemonic j") (simp_all cong: obind_cong split: outcome.split)
qed simp

definition mac_pattern :: md_insn where "mac_pattern = md_arith_insns ! 5"

lemma operand_match_loop_cong:
  "map op_type xs = map op_type ys \<Longrightarrow> operand_match_loop ds xs = operand_match_loop ds ys"
proof (induction ds xs arbitrary: ys rule: operand_match_loop.induct)
  case (4 d ds op ops)
  then show ?case by (cases ys) auto
qed auto

lemma half_wraps:
  assumes "od_width f = 3" "n < 8"
  shows "encode_acc_half f (reg_operand (printed_name QImode (int (16 + n)))) p =
    encode_acc_half f (reg_operand (printed_name QImode (int (8 + n)))) p"
proof -
  have "list_all (\<lambda>n. printed_name QImode (int (16 + n)) = ''acc'' @ [digit (4 + n div 2), if even n then CHR ''l'' else CHR ''h''] \<and>
      printed_name QImode (int (8 + n)) = ''acc'' @ [digit (n div 2), if even n then CHR ''l'' else CHR ''h'']) [0..<8]" by code_simp
  with assms(2) have nm: "printed_name QImode (int (16 + n)) = ''acc'' @ [digit (4 + n div 2), if even n then CHR ''l'' else CHR ''h'']"
    "printed_name QImode (int (8 + n)) = ''acc'' @ [digit (n div 2), if even n then CHR ''l'' else CHR ''h'']"
    by (auto simp: list_all_iff)
  consider "n = 0" | "n = 1" | "n = 2" | "n = 3" | "n = 4" | "n = 5" | "n = 6" | "n = 7" using assms(2) by linarith
  then show ?thesis unfolding nm by cases (simp_all add: exec_simps assms(1) digit_def)
qed

lemma mac_instruction:
  "alternative_instructions out mac_pattern 0 [Reg_x HImode a, x, Reg_x QImode b, Reg_x QImode r] =
     [\<lparr>inst_pred = None, inst_pred_neg = 0, inst_mnemonic = ''mac16'',
       inst_ops = [reg_operand (printed_name QImode b), reg_operand (printed_name QImode r), reg_operand (printed_name HImode a)], inst_lineno = 0\<rparr>]"
proof -
  have t: "md_templates mac_pattern ! 0 = [''mac16 %2, %3, %0'']" by (simp add: mac_pattern_def md_arith_insns_def md_insn_of_def)
  have "parse_template ''mac16 %2, %3, %0'' = \<lparr>tm_pred = None, tm_mnemonic = ''mac16'', tm_cond = None, tm_args = [Arg None 2, Arg None 3, Arg None 0]\<rparr>"
    by code_simp
  then show ?thesis by (simp add: alternative_instructions_def t line_instruction_def arg_operands_def)
qed

lemma mac_upper_halves:
  assumes "n < 8"
  shows "try_assemble_inst_bundle (alternative_bundle out mac_pattern 0 [Reg_x HImode a, x, Reg_x QImode b, Reg_x QImode (int (16 + n))]) st =
    try_assemble_inst_bundle (alternative_bundle out mac_pattern 0 [Reg_x HImode a, x, Reg_x QImode b, Reg_x QImode (int (8 + n))]) st"
    (is "_ (_ ?hi) st = _ (_ ?lo) st")
proof -
  let ?i = "\<lambda>r. \<lparr>inst_pred = None, inst_pred_neg = 0, inst_mnemonic = ''mac16'',
       inst_ops = [reg_operand (printed_name QImode b), reg_operand (printed_name QImode r), reg_operand (printed_name HImode a)], inst_lineno = 0\<rparr>"
  have e: "list_all (\<lambda>e. id_mnemonic e = ''mac16'' \<longrightarrow>
      (case operand_array e of f # g # fs \<Rightarrow> od_encode g = Some Enc_acc_half \<and> od_width g = 3 | _ \<Rightarrow> False)) ajardsp_insns"
    by (simp add: table_eval operand_array_def MAX_OPERANDS_def)
  have "try_defs ajardsp_insns (?i (int (16 + n))) nx s c = try_defs ajardsp_insns (?i (int (8 + n))) nx s c" for nx s c
  proof (rule try_defs_cong)
    fix d assume d: "d \<in> set ajardsp_insns" "id_mnemonic d = inst_mnemonic (?i (int (16 + n)))"
    have m: "operand_match d (?i (int (16 + n))) = operand_match d (?i (int (8 + n)))"
      unfolding operand_match_def by (rule operand_match_loop_cong) (simp add: reg_operand_def)
    from e d have c: "case operand_array d of f # g # fs \<Rightarrow> od_encode g = Some Enc_acc_half \<and> od_width g = 3 | _ \<Rightarrow> False"
      by (simp add: list_all_iff)
    obtain f g fs where f: "operand_array d = f # g # fs" "od_encode g = Some Enc_acc_half" "od_width g = 3"
    proof (cases "operand_array d")
      case (Cons f gs)
      with c that show thesis by (cases gs) simp_all
    qed (use c in simp)
    have p: "encode_predicate (?i (int (16 + n))) = encode_predicate (?i (int (8 + n)))"
      by (rule ext) (simp add: encode_predicate_def)
    have "encode_operands ign tab (g # fs) (reg_operand (printed_name QImode (int (16 + n))) # xs) =
        encode_operands ign tab (g # fs) (reg_operand (printed_name QImode (int (8 + n))) # xs)" for ign tab xs
      by (rule ext) (simp add: f(2) half_wraps[OF f(3) assms] del: of_nat_add)
    then have o: "encode_operands ign tab (f # g # fs) (u # reg_operand (printed_name QImode (int (16 + n))) # xs) w =
        encode_operands ign tab (f # g # fs) (u # reg_operand (printed_name QImode (int (8 + n))) # xs) w" for ign tab u xs w
      unfolding encode_operands.simps(3)[of _ _ f] by (simp only:)
    have "encode_insn ign tab d (?i (int (16 + n))) nx = encode_insn ign tab d (?i (int (8 + n))) nx" for ign tab nx
      unfolding encode_insn_def p f(1) instruction.select_convs o ..
    with m show "operand_match d (?i (int (16 + n))) = operand_match d (?i (int (8 + n))) \<and>
      (\<forall>ign tab nx. encode_insn ign tab d (?i (int (16 + n))) nx = encode_insn ign tab d (?i (int (8 + n))) nx)" by blast
  qed simp_all
  then show ?thesis by (simp only: alternative_bundle_def mac_instruction try_assemble_inst_bundle_def inst_bundle.select_convs bundle_loop.simps instruction.select_convs)
qed

lemma mac_upper_halves_ok:
  assumes "n < 8"
  shows "operands_ok mac_pattern 0 [Reg_x HImode 8, Reg_x HImode 8, Reg_x QImode 9, Reg_x QImode (int (16 + n))]"
proof -
  have "list_all (\<lambda>n. operands_ok mac_pattern 0 [Reg_x HImode 8, Reg_x HImode 8, Reg_x QImode 9, Reg_x QImode (int (16 + n))]) [0..<8]"
    by code_simp
  with assms show ?thesis by (simp add: list_all_iff)
qed

section \<open>The counter of a block repeat\<close>

definition block_repeat_template :: "i32 \<Rightarrow> string list" where
  "block_repeat_template v =
     [''mvts16 '' @ tab_char # fmt_d v @ '', $bkrepcnt'', ''nop'', ''nop'', ''bkrep '' @ tab_char # ''#%l1'']"

text \<open>The first instruction of a block repeat, and its text but for the tabulator.\<close>

definition counter_instruction :: "i32 \<Rightarrow> instruction" where
  "counter_instruction v =
     \<lparr>inst_pred = None, inst_pred_neg = 0, inst_mnemonic = ''mvts16'',
      inst_ops = [int_operand v, reg_operand ''bkrepcnt''], inst_lineno = 0\<rparr>"

lemma block_repeat_rejected:
  "\<exists>a b. hd (block_repeat_template v) = a @ tab_char # b \<and> a @ b = text_instruction (counter_instruction v)"
  "try_assemble_inst_bundle \<lparr>ib_insts = counter_instruction v # insts, ib_label = None, ib_align = 0\<rparr> st = Fail (Could_not_encode ''mvts16'')"
proof -
  show "\<exists>a b. hd (block_repeat_template v) = a @ tab_char # b \<and> a @ b = text_instruction (counter_instruction v)"
    by (rule exI[of _ "''mvts16 ''"]) (simp add: block_repeat_template_def counter_instruction_def text_instruction_def text_operand_def int_operand_def reg_operand_def)
  show "try_assemble_inst_bundle \<lparr>ib_insts = counter_instruction v # insts, ib_label = None, ib_align = 0\<rparr> st = Fail (Could_not_encode ''mvts16'')"
    by (simp add: counter_instruction_def exec_simps)
qed

end
