(* ===== verification/DebugBus.thy ===== *)
theory DebugBus
  imports Target
begin

text \<open>
  The debug unit \<open>rtl/verilog/soc/wb_debug.v\<close> clock by clock: the byte state machine of \<open>Target\<close>, the state
  machine of the bus and the one that sends the word read.  The serial receiver and transmitter are inputs (a
  byte arrives, the transmitter is ready), and so is the bus (acknowledge and data); reset gives the first state.

  What is shown: for every command the abstract receiver \<open>rx_byte\<close> recognises the unit makes the access it
  stands for, once when the bus takes back its acknowledge, and sends the word read; so \<open>dump_mem\<close> of the
  loader prints what is in a memory on the bus.
\<close>

section \<open>The unit\<close>

datatype wb_state = WB_IDLE | WB_WRITE_0 | WB_WRITE_1 | WB_WRITE_2 | WB_READ_0 | WB_READ_1 | WB_READ_2

datatype tx_state = TX_IDLE | TX_WAIT | TX_0 | TX_1 | TX_2 | TX_3

record wb_debug =
  wd_rx :: rx_state
  wb_state_r :: wb_state
  wb_cyc_o :: bool
  wb_stb_o :: bool
  wb_we_o :: bool
  rd_data_32_r :: u32
  wd_tx_state :: tx_state

text \<open>The inputs at a clock edge; \<open>rx_en\<close> comes with the byte.\<close>

record debug_in =
  rx_en :: "u8 option"
  wb_ack_i :: bool
  wb_dat_i :: u32
  tx_ready_w :: bool

definition wb_clk :: "debug_in \<Rightarrow> wb_debug \<Rightarrow> wb_debug" where
  "wb_clk i s =
     (case wb_state_r s of
        WB_IDLE \<Rightarrow>
          (if rx_phase (wd_rx s) = S_READ_ADDR_3 then s\<lparr>wb_state_r := WB_READ_0\<rparr>
           else if rx_phase (wd_rx s) = S_WRITE_DATA_3 then s\<lparr>wb_state_r := WB_WRITE_0\<rparr> else s)
      | WB_WRITE_0 \<Rightarrow> (if rx_phase (wd_rx s) = S_IDLE then s\<lparr>wb_state_r := WB_WRITE_1\<rparr> else s)
      | WB_WRITE_1 \<Rightarrow>
          s\<lparr>wb_cyc_o := True, wb_stb_o := True, wb_we_o := True,
            wb_state_r := (if wb_ack_i i then WB_WRITE_2 else WB_WRITE_1)\<rparr>
      | WB_WRITE_2 \<Rightarrow> s\<lparr>wb_cyc_o := False, wb_stb_o := False, wb_we_o := False, wb_state_r := WB_IDLE\<rparr>
      | WB_READ_0 \<Rightarrow> (if rx_phase (wd_rx s) = S_IDLE then s\<lparr>wb_state_r := WB_READ_1\<rparr> else s)
      | WB_READ_1 \<Rightarrow>
          s\<lparr>wb_cyc_o := True, wb_stb_o := True, wb_state_r := (if wb_ack_i i then WB_READ_2 else WB_READ_1)\<rparr>
      | WB_READ_2 \<Rightarrow> s\<lparr>rd_data_32_r := wb_dat_i i, wb_cyc_o := False, wb_stb_o := False, wb_state_r := WB_IDLE\<rparr>)"

definition next_tx_state :: "debug_in \<Rightarrow> wb_debug \<Rightarrow> tx_state" where
  "next_tx_state i s =
     (case wd_tx_state s of
        TX_IDLE \<Rightarrow> if wb_state_r s = WB_READ_2 then TX_WAIT else TX_IDLE
      | TX_WAIT \<Rightarrow> if wb_state_r s = WB_IDLE then TX_0 else TX_WAIT
      | TX_0 \<Rightarrow> if tx_ready_w i then TX_1 else TX_0
      | TX_1 \<Rightarrow> if tx_ready_w i then TX_2 else TX_1
      | TX_2 \<Rightarrow> if tx_ready_w i then TX_3 else TX_2
      | TX_3 \<Rightarrow> if tx_ready_w i then TX_IDLE else TX_3)"

text \<open>The byte offered to the transmitter, \<^term>\<open>None\<close> when \<open>tx_en\<close> is 0.\<close>

definition tx_byte :: "wb_debug \<Rightarrow> u8 option" where
  "tx_byte s =
     (case wd_tx_state s of
        TX_0 \<Rightarrow> Some (ucast (rd_data_32_r s))
      | TX_1 \<Rightarrow> Some (ucast (drop_bit 8 (rd_data_32_r s)))
      | TX_2 \<Rightarrow> Some (ucast (drop_bit 16 (rd_data_32_r s)))
      | TX_3 \<Rightarrow> Some (ucast (drop_bit 24 (rd_data_32_r s)))
      | _ \<Rightarrow> None)"

definition rx_clk :: "debug_in \<Rightarrow> rx_state \<Rightarrow> rx_state" where
  "rx_clk i r = (case rx_en i of None \<Rightarrow> r | Some b \<Rightarrow> fst (rx_byte b r))"

definition debug_clk :: "debug_in \<Rightarrow> wb_debug \<Rightarrow> wb_debug" where
  "debug_clk i s = (wb_clk i s)\<lparr>wd_rx := rx_clk i (wd_rx s), wd_tx_state := next_tx_state i s\<rparr>"

definition debug_reset :: "wb_debug \<Rightarrow> wb_debug" where
  "debug_reset s =
     s\<lparr>wd_rx := (wd_rx s)\<lparr>rx_phase := S_IDLE, addr_0_r := 0, addr_1_r := 0\<rparr>,
       wb_cyc_o := False, wb_stb_o := False, wb_we_o := False, wb_state_r := WB_IDLE, wd_tx_state := TX_IDLE\<rparr>"

text \<open>What happens in a clock: an acknowledged access, a byte taken by the transmitter.\<close>

definition bus_clk :: "debug_in \<Rightarrow> wb_debug \<Rightarrow> bus_access list" where
  "bus_clk i s =
     (if wb_cyc_o s \<and> wb_stb_o s \<and> wb_ack_i i
      then [if wb_we_o s then Bus_write (wb_adr_o (wd_rx s)) (wb_dat_o (wd_rx s)) else Bus_read (wb_adr_o (wd_rx s))]
      else [])"

definition tx_clk :: "debug_in \<Rightarrow> wb_debug \<Rightarrow> u8 list" where
  "tx_clk i s = (case tx_byte s of Some b \<Rightarrow> if tx_ready_w i then [b] else [] | None \<Rightarrow> [])"

fun debug_run :: "debug_in list \<Rightarrow> wb_debug \<Rightarrow> wb_debug \<times> bus_access list \<times> u8 list" where
  "debug_run [] s = (s, [], [])"
| "debug_run (i # is) s =
     (let (s', accs, sent) = debug_run is (debug_clk i s) in (s', bus_clk i s @ accs, tx_clk i s @ sent))"

definition received :: "debug_in list \<Rightarrow> u8 list" where
  "received is = List.map_filter rx_en is"

definition quiescent :: "wb_debug \<Rightarrow> bool" where
  "quiescent s \<longleftrightarrow>
     rx_phase (wd_rx s) = S_IDLE \<and> wb_state_r s = WB_IDLE \<and> wd_tx_state s = TX_IDLE \<and> \<not> wb_cyc_o s \<and> \<not> wb_stb_o s \<and> \<not> wb_we_o s"

lemma reset_quiescent: "quiescent (debug_reset s)"
  by (simp add: quiescent_def debug_reset_def)

lemma received_simps [simp]:
  "received [] = []" "received (i # is) = (case rx_en i of None \<Rightarrow> [] | Some b \<Rightarrow> [b]) @ received is"
  "received (xs @ ys) = received xs @ received ys"
  by (auto simp: received_def List.map_filter_simps List.map_filter_def split: option.splits)

lemma debug_run_append:
  "debug_run (xs @ ys) s =
     (let (s1, a1, t1) = debug_run xs s; (s2, a2, t2) = debug_run ys s1 in (s2, a1 @ a2, t1 @ t2))"
  by (induction xs arbitrary: s) (auto simp: Let_def split: prod.splits)

lemma run_join:
  "debug_run xs s = (s1, a1, t1) \<Longrightarrow> debug_run ys s1 = (s2, a2, t2) \<Longrightarrow> debug_run (xs @ ys) s = (s2, a1 @ a2, t1 @ t2)"
  by (simp add: debug_run_append)

lemma silent_clk [simp]: "rx_en i = None \<Longrightarrow> rx_clk i r = r"
  by (simp add: rx_clk_def)

lemma clk_fields [simp]: "wd_rx (debug_clk i s) = rx_clk i (wd_rx s)" "wd_tx_state (debug_clk i s) = next_tx_state i s"
  by (simp_all add: debug_clk_def)

section \<open>From the bytes to the access\<close>

text \<open>A command is coming in; the command is complete and its access pending; the access is on the bus.\<close>

definition incoming :: "wb_debug \<Rightarrow> bool" where
  "incoming s \<longleftrightarrow> \<not> wb_cyc_o s \<and> \<not> wb_stb_o s \<and> \<not> wb_we_o s \<and> wd_tx_state s = TX_IDLE \<and>
     (wb_state_r s = WB_IDLE \<or> wb_state_r s = WB_WRITE_0 \<and> rx_phase (wd_rx s) = S_WRITE_DATA_3 \<or>
      wb_state_r s = WB_READ_0 \<and> rx_phase (wd_rx s) = S_READ_ADDR_3)"

definition access_of :: "bus_access \<Rightarrow> wb_debug \<Rightarrow> bool" where
  "access_of acc s \<longleftrightarrow> rx_phase (wd_rx s) = S_IDLE \<and> wd_tx_state s = TX_IDLE \<and>
     (case acc of Bus_write a d \<Rightarrow> wb_adr_o (wd_rx s) = a \<and> wb_dat_o (wd_rx s) = d | Bus_read a \<Rightarrow> wb_adr_o (wd_rx s) = a)"

definition phase_of :: "bus_access \<Rightarrow> wb_state \<Rightarrow> wb_state \<Rightarrow> wb_state" where
  "phase_of acc w r = (case acc of Bus_write a d \<Rightarrow> w | Bus_read a \<Rightarrow> r)"

definition lines_low :: "wb_debug \<Rightarrow> bool" where
  "lines_low s \<longleftrightarrow> \<not> wb_cyc_o s \<and> \<not> wb_stb_o s \<and> \<not> wb_we_o s"

definition bus_lines :: "bus_access \<Rightarrow> wb_debug \<Rightarrow> bool" where
  "bus_lines acc s \<longleftrightarrow> wb_cyc_o s \<and> wb_stb_o s \<and> wb_we_o s = (case acc of Bus_write a d \<Rightarrow> True | Bus_read a \<Rightarrow> False)"

lemma incoming_clk:
  assumes "incoming s" "case rx_en i of None \<Rightarrow> True | Some b \<Rightarrow> snd (rx_byte b (wd_rx s)) = []"
  shows "incoming (debug_clk i s)" "bus_clk i s = []" "tx_clk i s = []"
proof -
  show "incoming (debug_clk i s)"
    using assms by (auto simp: incoming_def debug_clk_def wb_clk_def next_tx_state_def rx_clk_def rx_byte_def Let_def split: option.splits wb_state.splits if_splits rx_phase.splits)
  show "bus_clk i s = []" "tx_clk i s = []"
    using assms(1) by (simp_all add: incoming_def bus_clk_def tx_clk_def tx_byte_def)
qed

lemma incoming_run:
  assumes "incoming s" "snd (rx_bytes (received is) (wd_rx s)) = []"
  shows "\<exists>s'. debug_run is s = (s', [], []) \<and> incoming s' \<and> wd_rx s' = fst (rx_bytes (received is) (wd_rx s))"
  using assms
proof (induction "is" arbitrary: s)
  case (Cons i "is")
  have "case rx_en i of None \<Rightarrow> True | Some b \<Rightarrow> snd (rx_byte b (wd_rx s)) = []"
    using Cons.prems(2) by (auto simp: Let_def split: option.splits prod.splits)
  note 1 = incoming_clk[OF Cons.prems(1) this]
  have "snd (rx_bytes (received is) (rx_clk i (wd_rx s))) = []"
    and f: "fst (rx_bytes (received (i # is)) (wd_rx s)) = fst (rx_bytes (received is) (rx_clk i (wd_rx s)))"
    using Cons.prems(2) by (auto simp: rx_clk_def Let_def split: option.splits prod.splits)
  with Cons.IH[OF 1(1)] 1 show ?case by auto
qed simp

lemma last_byte:
  assumes "incoming s" "rx_en i = Some b" "snd (rx_byte b (wd_rx s)) = [acc]"
  shows "access_of acc (debug_clk i s)" "wb_state_r (debug_clk i s) = phase_of acc WB_WRITE_0 WB_READ_0"
    "lines_low (debug_clk i s)" "bus_clk i s = []" "tx_clk i s = []"
  using assms
  by (auto simp: incoming_def access_of_def phase_of_def lines_low_def debug_clk_def wb_clk_def next_tx_state_def rx_clk_def rx_byte_def
      bus_clk_def tx_clk_def tx_byte_def Let_def wb_adr_o_def wb_dat_o_def split: wb_state.splits if_splits rx_phase.splits)

section \<open>The access and the answer\<close>

definition silent :: "debug_in \<Rightarrow> bool" where
  "silent i \<longleftrightarrow> rx_en i = None"

definition waiting :: "debug_in \<Rightarrow> bool" where
  "waiting i \<longleftrightarrow> silent i \<and> \<not> wb_ack_i i"

lemmas clk_defs = debug_clk_def wb_clk_def next_tx_state_def bus_clk_def tx_clk_def tx_byte_def

lemma wait_first:
  assumes "access_of acc s" "wb_state_r s = phase_of acc WB_WRITE_0 WB_READ_0" "lines_low s" "waiting i" "waiting j"
  shows "\<exists>s'. debug_run [i, j] s = (s', [], []) \<and> access_of acc s' \<and> wb_state_r s' = phase_of acc WB_WRITE_1 WB_READ_1 \<and> bus_lines acc s'"
  using assms
  by (simp add: access_of_def phase_of_def lines_low_def bus_lines_def waiting_def silent_def clk_defs split: bus_access.splits)

lemma wait_more:
  assumes "access_of acc s" "wb_state_r s = phase_of acc WB_WRITE_1 WB_READ_1" "bus_lines acc s" "list_all waiting is"
  shows "\<exists>s'. debug_run is s = (s', [], []) \<and> access_of acc s' \<and> wb_state_r s' = phase_of acc WB_WRITE_1 WB_READ_1 \<and> bus_lines acc s'"
  using assms
proof (induction "is" arbitrary: s)
  case (Cons i "is")
  then have "access_of acc (debug_clk i s)" "wb_state_r (debug_clk i s) = phase_of acc WB_WRITE_1 WB_READ_1" "bus_lines acc (debug_clk i s)"
    "bus_clk i s = []" "tx_clk i s = []"
    by (simp_all add: access_of_def phase_of_def bus_lines_def waiting_def silent_def clk_defs split: bus_access.splits)
  with Cons.IH[of "debug_clk i s"] Cons.prems(4) show ?case by auto
qed simp

text \<open>The strobe is still on the bus in the clock after the acknowledge.\<close>

lemma acknowledged:
  assumes "access_of acc s" "wb_state_r s = phase_of acc WB_WRITE_1 WB_READ_1" "bus_lines acc s"
    and "silent i" "wb_ack_i i" "silent j"
  shows "\<exists>s'. debug_run [i, j] s = (s', acc # (if wb_ack_i j then [acc] else []), []) \<and> rx_phase (wd_rx s') = S_IDLE \<and>
    wd_rx s' = wd_rx s \<and> wb_state_r s' = WB_IDLE \<and> lines_low s' \<and>
    (case acc of Bus_write a d \<Rightarrow> wd_tx_state s' = TX_IDLE | Bus_read a \<Rightarrow> wd_tx_state s' = TX_WAIT \<and> rd_data_32_r s' = wb_dat_i j)"
  using assms
  by (simp add: access_of_def phase_of_def lines_low_def bus_lines_def silent_def clk_defs split: bus_access.splits)

text \<open>The bytes still to be sent in a state of the transmission.\<close>

definition to_send :: "wb_debug \<Rightarrow> u8 list" where
  "to_send s =
     (let w = rd_data_32_r s; b = (\<lambda>k. ucast (drop_bit (8 * k) w)) in
      case wd_tx_state s of
        TX_IDLE \<Rightarrow> [] | TX_WAIT \<Rightarrow> map b [0, 1, 2, 3] | TX_0 \<Rightarrow> map b [0, 1, 2, 3] | TX_1 \<Rightarrow> map b [1, 2, 3] | TX_2 \<Rightarrow> map b [2, 3] | TX_3 \<Rightarrow> [b 3])"

definition at_rest :: "wb_debug \<Rightarrow> bool" where
  "at_rest s \<longleftrightarrow> rx_phase (wd_rx s) = S_IDLE \<and> wb_state_r s = WB_IDLE \<and> lines_low s"

lemma le_bytes_word: "le_bytes w = map (\<lambda>k. ucast (drop_bit (8 * k) w)) [0, 1, 2, 3]"
proof -
  have "(ucast (mask 8 AND x) :: u8) = ucast x" for x :: u32
    by (rule bit_word_eqI) (auto simp: bit_simps)
  then show ?thesis by (simp add: le_bytes_def upt_rec mask_ff del: mask_numeral)
qed

lemma sending_clk:
  assumes "at_rest s" "wd_tx_state s \<noteq> TX_WAIT" "silent i"
  shows "at_rest (debug_clk i s)" "wd_tx_state (debug_clk i s) \<noteq> TX_WAIT" "wd_rx (debug_clk i s) = wd_rx s" "bus_clk i s = []"
    "to_send s = tx_clk i s @ to_send (debug_clk i s)"
    "tx_ready_w i \<Longrightarrow> length (to_send (debug_clk i s)) = length (to_send s) - 1"
  using assms
  by (auto simp: at_rest_def lines_low_def silent_def clk_defs to_send_def Let_def split: tx_state.splits)

lemma sending:
  assumes "at_rest s" "wd_tx_state s \<noteq> TX_WAIT" "list_all silent is" "length (to_send s) \<le> length (filter tx_ready_w is)"
  shows "\<exists>s'. debug_run is s = (s', [], to_send s) \<and> quiescent s' \<and> wd_rx s' = wd_rx s"
  using assms
proof (induction "is" arbitrary: s)
  case Nil
  then have "wd_tx_state s = TX_IDLE" by (auto simp: to_send_def Let_def split: tx_state.splits)
  with Nil show ?case by (auto simp: quiescent_def at_rest_def lines_low_def)
next
  case (Cons i "is")
  then have i: "silent i" "list_all silent is" by simp_all
  note c = sending_clk[OF Cons.prems(1,2) i(1)]
  have "length (to_send (debug_clk i s)) \<le> length (filter tx_ready_w is)"
  proof (cases "tx_ready_w i")
    case True
    with Cons.prems(4) c(6) show ?thesis by simp
  next
    case False
    have "length (to_send s) = length (tx_clk i s) + length (to_send (debug_clk i s))" by (subst c(5)) simp
    with False Cons.prems(4) show ?thesis by simp
  qed
  from Cons.IH[OF c(1,2) i(2) this] obtain s' where
    s': "debug_run is (debug_clk i s) = (s', [], to_send (debug_clk i s))" "quiescent s'" "wd_rx s' = wd_rx (debug_clk i s)"
    by blast
  then have "debug_run (i # is) s = (s', [], to_send s)" by (simp add: c(4) c(5)[symmetric])
  with s'(2,3) c(3) show ?case by metis
qed

section \<open>A command from the first byte to the answer\<close>

text \<open>
  The clocks of a command: those in which its bytes arrive, the last one with the last byte, those the bus
  waits, the one of the acknowledge and the one after it, and those the answer takes.
\<close>

record transfer =
  tr_access :: bus_access
  tr_bytes :: "debug_in list"
  tr_last :: debug_in
  tr_wait :: "debug_in list"
  tr_ack :: debug_in
  tr_end :: debug_in
  tr_send :: "debug_in list"

definition tr_clocks :: "transfer \<Rightarrow> debug_in list" where
  "tr_clocks tr = tr_bytes tr @ [tr_last tr] @ tr_wait tr @ [tr_ack tr, tr_end tr] @ tr_send tr"

definition command_bytes :: "bus_access \<Rightarrow> u8 list" where
  "command_bytes acc = (case acc of Bus_write a d \<Rightarrow> w32_bytes a d | Bus_read a \<Rightarrow> CMD_READ # le_bytes a)"

definition answer_bytes :: "transfer \<Rightarrow> u8 list" where
  "answer_bytes tr = (case tr_access tr of Bus_write a d \<Rightarrow> [] | Bus_read a \<Rightarrow> le_bytes (wb_dat_i (tr_end tr)))"

text \<open>
  The bus takes two clocks at least, and acknowledges in one clock only; the data is read in the clock after it.
  The transmitter gets one clock to start and takes as many bytes as are sent.
\<close>

definition transfer_ok :: "transfer \<Rightarrow> bool" where
  "transfer_ok tr \<longleftrightarrow>
     received (tr_bytes tr @ [tr_last tr]) = command_bytes (tr_access tr) \<and> \<not> silent (tr_last tr) \<and>
     2 \<le> length (tr_wait tr) \<and> list_all waiting (tr_wait tr) \<and>
     silent (tr_ack tr) \<and> wb_ack_i (tr_ack tr) \<and> waiting (tr_end tr) \<and>
     list_all silent (tr_send tr) \<and> length (answer_bytes tr) \<le> length (filter tx_ready_w (tl (tr_send tr)))"

lemma rx_read:
  assumes "rx_phase r = S_IDLE"
  shows "\<exists>r'. rx_bytes (CMD_READ # le_bytes a) r = (r', [Bus_read a]) \<and> rx_phase r' = S_IDLE"
proof -
  obtain a0 a1 a2 a3 where a: "le_bytes a = [a0, a1, a2, a3]" using le_bytes_list by blast
  then have "of_le_bytes [a0, a1, a2, a3] = a" using of_le_bytes_le_bytes[of a] by simp
  then show ?thesis using assms by (simp add: a rx_byte_def Let_def wb_adr_o_def CMD_READ_def CMD_WRITE_def)
qed

lemma rx_command:
  assumes "rx_phase r = S_IDLE"
  shows "\<exists>r'. rx_bytes (command_bytes acc) r = (r', [acc]) \<and> rx_phase r' = S_IDLE"
  using rx_write[OF assms] rx_read[OF assms] by (simp add: command_bytes_def split: bus_access.split)

lemma answer_sent:
  assumes "at_rest s"
    and "case tr_access tr of Bus_write a d \<Rightarrow> wd_tx_state s = TX_IDLE
      | Bus_read a \<Rightarrow> wd_tx_state s = TX_WAIT \<and> rd_data_32_r s = wb_dat_i (tr_end tr)"
    and "list_all silent is" "length (answer_bytes tr) \<le> length (filter tx_ready_w (tl is))"
  shows "\<exists>s'. debug_run is s = (s', [], answer_bytes tr) \<and> quiescent s'"
proof (cases "tr_access tr")
  case (Bus_write a d)
  then have "wd_tx_state s = TX_IDLE" "to_send s = []" using assms(2) by (simp_all add: to_send_def)
  with sending[OF assms(1) _ assms(3)] Bus_write show ?thesis by (auto simp: answer_bytes_def)
next
  case (Bus_read a)
  then have tx: "wd_tx_state s = TX_WAIT" "rd_data_32_r s = wb_dat_i (tr_end tr)" using assms(2) by simp_all
  have "length (answer_bytes tr) = 4" by (simp add: answer_bytes_def Bus_read le_bytes_def)
  with assms(4) obtain i js where i: "is = i # js" by (cases "is") auto
  let ?s = "debug_clk i s"
  have s: "at_rest ?s" "wd_tx_state ?s = TX_0" "rd_data_32_r ?s = rd_data_32_r s" "bus_clk i s = []" "tx_clk i s = []"
    using assms(1,3) tx(1) i by (auto simp: at_rest_def lines_low_def silent_def clk_defs)
  then have ts: "to_send ?s = answer_bytes tr"
    by (simp add: to_send_def Let_def answer_bytes_def Bus_read tx(2) le_bytes_word)
  have tx0: "wd_tx_state ?s \<noteq> TX_WAIT" by (simp only: s(2)) simp
  have l: "list_all silent js" "length (to_send ?s) \<le> length (filter tx_ready_w js)" unfolding ts using assms(3,4) i by simp_all
  from sending[OF s(1) tx0 l] s(4,5) show ?thesis unfolding i ts by auto
qed

text \<open>The abstract receiver makes its access with the last byte.\<close>

lemma command_split:
  assumes "transfer_ok tr" "rx_phase r = S_IDLE"
  obtains b where "rx_en (tr_last tr) = Some b" "snd (rx_bytes (received (tr_bytes tr)) r) = []"
    "snd (rx_byte b (fst (rx_bytes (received (tr_bytes tr)) r))) = [tr_access tr]"
proof -
  obtain b where b: "rx_en (tr_last tr) = Some b" using assms(1) by (auto simp: transfer_ok_def silent_def)
  then have cb: "command_bytes (tr_access tr) = received (tr_bytes tr) @ [b]" using assms(1) by (simp add: transfer_ok_def)
  have "snd (rx_bytes (butlast (command_bytes (tr_access tr))) r) = []"
  proof (cases "tr_access tr")
    case (Bus_write a d)
    obtain a0 a1 a2 a3 where a: "le_bytes a = [a0, a1, a2, a3]" using le_bytes_list by blast
    obtain d0 d1 d2 d3 where d: "le_bytes d = [d0, d1, d2, d3]" using le_bytes_list by blast
    from assms(2) Bus_write show ?thesis by (simp add: command_bytes_def w32_bytes_def a d rx_byte_def Let_def)
  next
    case (Bus_read a)
    obtain a0 a1 a2 a3 where a: "le_bytes a = [a0, a1, a2, a3]" using le_bytes_list by blast
    from assms(2) Bus_read show ?thesis by (simp add: command_bytes_def a rx_byte_def Let_def CMD_READ_def CMD_WRITE_def)
  qed
  then have e: "snd (rx_bytes (received (tr_bytes tr)) r) = []" by (simp add: cb)
  moreover have "snd (rx_bytes (command_bytes (tr_access tr)) r) = [tr_access tr]"
    using rx_command[OF assms(2), of "tr_access tr"] by auto
  ultimately have "snd (rx_byte b (fst (rx_bytes (received (tr_bytes tr)) r))) = [tr_access tr]"
    unfolding cb rx_bytes_append by (auto simp: Let_def split: prod.splits)
  with b e that show ?thesis by blast
qed

lemma transfer_runs:
  assumes "quiescent s" "transfer_ok tr"
  shows "\<exists>s'. debug_run (tr_clocks tr) s = (s', [tr_access tr], answer_bytes tr) \<and> quiescent s'"
proof -
  let ?acc = "tr_access tr"
  have in0: "incoming s" and ph: "rx_phase (wd_rx s) = S_IDLE" using assms(1) by (simp_all add: quiescent_def incoming_def)
  obtain b where b: "rx_en (tr_last tr) = Some b" "snd (rx_bytes (received (tr_bytes tr)) (wd_rx s)) = []"
    "snd (rx_byte b (fst (rx_bytes (received (tr_bytes tr)) (wd_rx s)))) = [?acc]" by (rule command_split[OF assms(2) ph])
  obtain s1 where s1: "debug_run (tr_bytes tr) s = (s1, [], [])" "incoming s1" "wd_rx s1 = fst (rx_bytes (received (tr_bytes tr)) (wd_rx s))"
    using incoming_run[OF in0 b(2)] by blast
  note s2 = last_byte[OF s1(2) b(1), unfolded s1(3), OF b(3)]
  obtain i j ws where w: "tr_wait tr = [i, j] @ ws" "waiting i" "waiting j" "list_all waiting ws"
    using assms(2) by (auto simp: transfer_ok_def Suc_le_length_iff numeral_2_eq_2)
  obtain s3 where s3: "debug_run [i, j] (debug_clk (tr_last tr) s1) = (s3, [], [])" "access_of ?acc s3" "wb_state_r s3 = phase_of ?acc WB_WRITE_1 WB_READ_1" "bus_lines ?acc s3"
    using wait_first[OF s2(1-3) w(2,3)] by blast
  obtain s4 where s4: "debug_run ws s3 = (s4, [], [])" "access_of ?acc s4" "wb_state_r s4 = phase_of ?acc WB_WRITE_1 WB_READ_1" "bus_lines ?acc s4"
    using wait_more[OF s3(2-4) w(4)] by blast
  have ack: "silent (tr_ack tr)" "wb_ack_i (tr_ack tr)" "silent (tr_end tr)" "\<not> wb_ack_i (tr_end tr)"
    using assms(2) by (simp_all add: transfer_ok_def waiting_def)
  obtain s5 where s5: "debug_run [tr_ack tr, tr_end tr] s4 = (s5, [?acc], [])" "at_rest s5"
    "case ?acc of Bus_write a d \<Rightarrow> wd_tx_state s5 = TX_IDLE | Bus_read a \<Rightarrow> wd_tx_state s5 = TX_WAIT \<and> rd_data_32_r s5 = wb_dat_i (tr_end tr)"
    using acknowledged[OF s4(2-4) ack(1-3)] ack(4) by (auto simp: at_rest_def)
  have send: "list_all silent (tr_send tr)" "length (answer_bytes tr) \<le> length (filter tx_ready_w (tl (tr_send tr)))"
    using assms(2) by (simp_all add: transfer_ok_def)
  obtain s6 where s6: "debug_run (tr_send tr) s5 = (s6, [], answer_bytes tr)" "quiescent s6"
    using answer_sent[OF s5(2,3) send] by blast
  have "debug_run [tr_last tr] s1 = (debug_clk (tr_last tr) s1, [], [])" by (simp add: s2(4,5))
  from run_join[OF s1(1) run_join[OF this run_join[OF run_join[OF s3(1) s4(1)] run_join[OF s5(1) s6(1)]]]]
  have "debug_run (tr_clocks tr) s = (s6, [?acc], answer_bytes tr)" by (simp add: tr_clocks_def w(1) del: debug_run.simps)
  with s6(2) show ?thesis by blast
qed

text \<open>Any number of commands: each is made on the bus, in order, and each word read is sent.\<close>

lemma transfers_run:
  assumes "quiescent s" "list_all transfer_ok trs"
  shows "\<exists>s'. debug_run (concat (map tr_clocks trs)) s = (s', map tr_access trs, concat (map answer_bytes trs)) \<and> quiescent s'"
  using assms
proof (induction trs arbitrary: s)
  case (Cons tr trs)
  then have tr: "transfer_ok tr" "list_all transfer_ok trs" by simp_all
  obtain s1 where s1: "debug_run (tr_clocks tr) s = (s1, [tr_access tr], answer_bytes tr)" "quiescent s1"
    using transfer_runs[OF Cons.prems(1) tr(1)] by blast
  from Cons.IH[OF s1(2) tr(2)] obtain s2 where
    "debug_run (concat (map tr_clocks trs)) s1 = (s2, map tr_access trs, concat (map answer_bytes trs))" "quiescent s2" by blast
  then show ?case by (simp add: debug_run_append s1(1))
qed simp

section \<open>A memory on the bus\<close>

text \<open>What the command stores, and the words a memory answers with.\<close>

definition bus_store :: "bus_access \<Rightarrow> (u32 \<Rightarrow> u32) \<Rightarrow> u32 \<Rightarrow> u32" where
  "bus_store acc m = (case acc of Bus_write a d \<Rightarrow> m(a := d) | Bus_read a \<Rightarrow> m)"

fun memory_answers :: "(u32 \<Rightarrow> u32) \<Rightarrow> transfer list \<Rightarrow> bool" where
  "memory_answers m [] = True"
| "memory_answers m (tr # trs) \<longleftrightarrow>
     (case tr_access tr of Bus_write a d \<Rightarrow> True | Bus_read a \<Rightarrow> wb_dat_i (tr_end tr) = m a) \<and>
     memory_answers (bus_store (tr_access tr) m) trs"

lemma memory_answers_append:
  "memory_answers m (xs @ ys) \<longleftrightarrow> memory_answers m xs \<and> memory_answers (fold (bus_store \<circ> tr_access) xs m) ys"
  by (induction xs arbitrary: m) auto

definition dump_line :: "u32 \<Rightarrow> u32 \<Rightarrow> string" where
  "dump_line a d = ''0x'' @ fmt_X 8 a @ '': 0x'' @ fmt_X 8 d @ [newline]"

definition dump_reads :: "u32 \<Rightarrow> nat \<Rightarrow> bus_access list" where
  "dump_reads a n = map (\<lambda>k. Bus_read (a + 4 * of_nat k)) [0..<n]"

lemma dump_reads_simps [simp]:
  "dump_reads a 0 = []" "dump_reads a (Suc n) = Bus_read a # dump_reads (a + 4) n"
proof -
  have "[0..<Suc n] = 0 # map Suc [0..<n]" by (simp add: map_Suc_upt upt_conv_Cons)
  then show "dump_reads a (Suc n) = Bus_read a # dump_reads (a + 4) n" by (simp add: dump_reads_def comp_def algebra_simps)
qed (simp add: dump_reads_def)

lemma answered_writes: "list_all (\<lambda>tr. \<exists>a d. tr_access tr = Bus_write a d) trs \<Longrightarrow> concat (map answer_bytes trs) = []"
  by (induction trs) (auto simp: answer_bytes_def)

lemma dump_words_print:
  assumes "map tr_access trs = dump_reads a n" "memory_answers m trs"
  shows "dump_words n a (t\<lparr>uart_in := concat (map answer_bytes trs)\<rparr>) =
    Good (t\<lparr>uart_out := uart_out t @ concat (map command_bytes (dump_reads a n)), uart_in := [],
      target_stdout := target_stdout t @ concat (map (\<lambda>acc. case acc of Bus_read a \<Rightarrow> dump_line a (m a) | _ \<Rightarrow> []) (dump_reads a n))\<rparr>)"
  using assms
proof (induction n arbitrary: a trs t)
  case (Suc n)
  then obtain tr trs' where trs: "trs = tr # trs'" "tr_access tr = Bus_read a" "map tr_access trs' = dump_reads (a + 4) n"
    by (cases trs) auto
  with Suc.prems(2) have m: "wb_dat_i (tr_end tr) = m a" "memory_answers m trs'" by (simp_all add: bus_store_def)
  have ans: "answer_bytes tr = le_bytes (m a)" by (simp add: answer_bytes_def trs(2) m(1))
  have len: "length (le_bytes w) = 4" for w by (simp add: le_bytes_def)
  let ?t = "t\<lparr>uart_out := uart_out t @ command_bytes (Bus_read a), target_stdout := target_stdout t @ dump_line a (m a)\<rparr>"
  have "dump_words (Suc n) a (t\<lparr>uart_in := concat (map answer_bytes trs)\<rparr>) =
      dump_words n (a + 4) (?t\<lparr>uart_in := concat (map answer_bytes trs')\<rparr>)"
    by (cases t) (simp add: trs(1) ans wb_debug_r32_def len command_bytes_def print_out_def dump_line_def)
  also note Suc.IH[OF trs(3) m(2), of ?t]
  finally show ?case by simp
qed simp

text \<open>C33: the debug unit, clock by clock on a bus with a memory, makes every access the loader asks for, once and
  in order; and what the loader dumps after its writes are the words of the memory they leave.\<close>

theorem dump_prints_memory:
  assumes "quiescent s" "list_all transfer_ok (ws @ rs)" "memory_answers m (ws @ rs)"
    and "list_all (\<lambda>tr. \<exists>a d. tr_access tr = Bus_write a d) ws" "map tr_access rs = dump_reads addr ((unat len + 3) div 4)"
    and "len \<le> 0x7ffffffc"
  shows "\<exists>s' sent. debug_run (concat (map tr_clocks (ws @ rs))) s = (s', map tr_access ws @ map tr_access rs, sent) \<and> quiescent s' \<and>
    dump_mem addr len (t\<lparr>uart_in := sent\<rparr>) =
      Good (t\<lparr>uart_out := uart_out t @ concat (map command_bytes (map tr_access rs)), uart_in := [],
        target_stdout := target_stdout t @
          concat (map (\<lambda>k. dump_line (addr + 4 * of_nat k) (fold bus_store (map tr_access ws) m (addr + 4 * of_nat k)))
            [0..<(unat len + 3) div 4]) @ [newline]\<rparr>)"
proof -
  let ?n = "(unat len + 3) div 4" and ?m = "fold bus_store (map tr_access ws) m"
  from transfers_run[OF assms(1,2)] obtain s' where s': "quiescent s'"
    "debug_run (concat (map tr_clocks (ws @ rs))) s = (s', map tr_access (ws @ rs), concat (map answer_bytes (ws @ rs)))" by blast
  have m: "memory_answers ?m rs" using assms(3) by (simp add: memory_answers_append fold_map)
  have sent: "concat (map answer_bytes (ws @ rs)) = concat (map answer_bytes rs)" using answered_writes[OF assms(4)] by simp
  from dump_words_print[OF assms(5) m, of t] assms(6)
  have "dump_mem addr len (t\<lparr>uart_in := concat (map answer_bytes (ws @ rs))\<rparr>) =
      Good (t\<lparr>uart_out := uart_out t @ concat (map command_bytes (dump_reads addr ?n)), uart_in := [],
        target_stdout := target_stdout t @ concat (map (\<lambda>k. dump_line (addr + 4 * of_nat k) (?m (addr + 4 * of_nat k))) [0..<?n]) @ [newline]\<rparr>)"
    unfolding sent by (simp add: dump_mem_def print_out_def dump_reads_def comp_def not_less[symmetric])
  with s' assms(5) show ?thesis by simp
qed

definition sample_clock :: "u8 option \<Rightarrow> bool \<Rightarrow> u32 \<Rightarrow> debug_in" where
  "sample_clock b ack d = \<lparr>rx_en = b, wb_ack_i = ack, wb_dat_i = d, tx_ready_w = True\<rparr>"

definition sample_transfer :: "bus_access \<Rightarrow> u32 \<Rightarrow> transfer" where
  "sample_transfer acc d =
     \<lparr>tr_access = acc, tr_bytes = map (\<lambda>b. sample_clock (Some b) False 0) (butlast (command_bytes acc)),
      tr_last = sample_clock (Some (last (command_bytes acc))) False 0, tr_wait = replicate 3 (sample_clock None False 0),
      tr_ack = sample_clock None True 0, tr_end = sample_clock None False d, tr_send = replicate 5 (sample_clock None False 0)\<rparr>"

definition sample_unit :: wb_debug where
  "sample_unit = debug_reset
     \<lparr>wd_rx = \<lparr>rx_phase = S_READ_ADDR_1, addr_0_r = 1, addr_1_r = 2, addr_2_r = 3, addr_3_r = 4, byte0_r = 5, byte1_r = 6, byte2_r = 7, byte3_r = 8\<rparr>,
      wb_state_r = WB_READ_1, wb_cyc_o = True, wb_stb_o = True, wb_we_o = False, rd_data_32_r = 9, wd_tx_state = TX_2\<rparr>"

theorem dump_prints_memory_witness:
  "\<exists>s' sent. debug_run (concat (map tr_clocks [sample_transfer (Bus_write 0x10 0xdeadbeef) 0, sample_transfer (Bus_read 0x10) 0xdeadbeef])) sample_unit =
      (s', [Bus_write 0x10 0xdeadbeef, Bus_read 0x10], sent) \<and> quiescent s' \<and>
    dump_mem 0x10 4 \<lparr>uart_hex_files = [], uart_out = [], uart_in = sent, target_stdout = []\<rparr> =
      Good \<lparr>uart_hex_files = [], uart_out = [0xc2, 0x10, 0, 0, 0], uart_in = [], target_stdout = ''0x00000010: 0xDEADBEEF'' @ [newline, newline]\<rparr>"
proof -
  let ?w = "sample_transfer (Bus_write 0x10 0xdeadbeef) 0" and ?r = "sample_transfer (Bus_read 0x10) 0xdeadbeef"
  have ok: "list_all transfer_ok ([?w] @ [?r])" by code_simp
  have m: "memory_answers (\<lambda>_. 0) ([?w] @ [?r])" by (simp add: sample_transfer_def sample_clock_def bus_store_def)
  have w: "list_all (\<lambda>tr. \<exists>a d. tr_access tr = Bus_write a d) [?w]" by (simp add: sample_transfer_def)
  have n: "(unat (4 :: u32) + 3) div 4 = Suc 0" by simp
  have r: "map tr_access [?r] = dump_reads 0x10 ((unat (4 :: u32) + 3) div 4)" unfolding n by (simp add: sample_transfer_def)
  have q: "quiescent sample_unit" unfolding sample_unit_def by (rule reset_quiescent)
  have k: "8 = Suc (Suc (Suc (Suc (Suc (Suc (Suc (Suc 0)))))))" by simp
  have h: "hex_digits 8 0x10 = ''00000010''" "hex_digits 8 0xdeadbeef = ''deadbeef''"
    unfolding k hex_digits.simps by (simp_all add: hex_digit_def)
  have u: "map hex_upper ''00000010'' = ''00000010''" "map hex_upper ''deadbeef'' = ''DEADBEEF''" by code_simp+
  have l: "dump_line 0x10 0xdeadbeef = ''0x00000010: 0xDEADBEEF'' @ [newline]"
    unfolding dump_line_def fmt_X_def by (simp add: fmt_x_digits h u del: list.map)
  have c: "command_bytes (Bus_read 0x10) = [0xc2, 0x10, 0, 0, 0]" by code_simp
  have a: "map tr_access [?w] = [Bus_write 0x10 0xdeadbeef]" "map tr_access [?r] = [Bus_read 0x10]" by (simp_all add: sample_transfer_def)
  have len: "(4 :: u32) \<le> 0x7ffffffc" by simp
  from dump_prints_memory[OF q ok m w r len, of "\<lparr>uart_hex_files = [], uart_out = [], uart_in = [], target_stdout = []\<rparr>"]
  show ?thesis unfolding n a by (simp add: bus_store_def l c)
qed

end
