(* ===== verification/Spec2Isabelle.thy ===== *)
theory Spec2Isabelle
  imports Limits Monitor Fonts Ethraw GccFrame GccFloat GccNops GccLoops SimWindows AsmText GccIssue GccUnfit DebugBus
begin

text \<open>
  A model of the tools of the AjarDSP processor: the assembler and the disassembler (\<open>src/sw/tools/asm\<close>), the
  port of GCC (\<open>src/sw/tools/gcc/config/ajardsp\<close>), the simulation debugger (\<open>src/sw/tools/simdebug\<close>), the
  two loaders of the target board and a network test (\<open>src/sw/tools/target\<close>), the font generator
  (\<open>src/sw/tools/misc\<close>), and the hardware that consumes their output (in \<open>src/rtl/verilog\<close>: the packet decoder
  \<open>vliwdec.v\<close>, the receivers \<open>soc/wb_debug.v\<close> and \<open>top_top.v\<close>, the block repeat of \<open>pcu.v\<close> and
  \<open>vliwfetch.v\<close>), with the theorems that make the tool chain correct.

  \<^bold>\<open>The program.\<close>  The compiler prints assembly text.  The scanner (\<open>asm.l\<close>) and the parser (\<open>asm.y\<close>) turn
  it into a list of bundles (a label, an alignment, or instructions executed in parallel) and a list of
  data elements; they run twice over the file, for the code and for the data sections.
  \<open>asm_gen_opcodes\<close> walks both lists twice: pass 0 gives every label an address in the symbol table
  (\<open>symtab.c\<close>), pass 1 fills the instruction and data memories, and \<open>output_hex\<close> writes them to files.  A
  bundle is assembled by searching the instruction table (\<open>ajardsp-insns.c\<close>) for each instruction: the
  operands are matched with an entry's definitions and each is put into its bit field by the encoder the
  entry names.  The words of a bundle carry a parallel bit (another instruction follows) and a size bit
  (the instruction has a second word); \<open>vliwdec.v\<close> takes them apart again, and \<open>disasm.c\<close> names single
  instruction words with the same table.  The loader \<open>wb_debug.c\<close> sends the memory files to the board, where
  \<open>wb_debug.v\<close> turns the bytes into bus accesses; the older \<open>targetmon.c\<close> sends them to the memory ports of
  the processor through \<open>top_top.v\<close>, starts it and reads the data memory back.  The debugger shows the
  registers and memories of a simulated design beside the source lines, which it finds by the listing.

  \<^bold>\<open>Theories.\<close>
  \<^item> \<open>Prelude\<close>: outcomes of C calls (\<open>Good\<close>, \<open>Fail\<close> for error returns and \<open>exit(1)\<close>, \<open>Undef\<close> for
    undefined behaviour), C strings, \<open>atoi\<close>, \<open>printf\<close> conversions, stores to a 16-bit memory.
  \<^item> \<open>AsmTypes\<close>: the structures of \<open>asm.h\<close>; bit fields, what writing and reading a field does.
  \<^item> \<open>Symtab\<close>: \<open>symtab.c\<close>; the interface \<open>symbol_table\<close> and its instance.
  \<^item> \<open>Encode\<close>: the eight operand encoders of \<open>asm.c\<close>; the contract \<open>field_encoder\<close> with an instance for
    each and for the call through the function pointer; what each encoder accepts and stores.
  \<^item> \<open>InsnTable\<close>: the 83 entries of \<open>ajardsp_insns\<close> in the order of the source, grouped by functional
    unit; the interface \<open>insn_set\<close> (well-formed entries, alternatives of a mnemonic exclude each other).
  \<^item> \<open>Assemble\<close>: \<open>operand_match\<close> and \<open>try_assemble_inst_bundle\<close>; \<open>assembled\<close> is the abstract result of a
    bundle and \<open>bundle_words\<close> its words, and the detailed loops refine them.
  \<^item> \<open>Passes\<close>: \<open>init\<close>, the two passes, the listing, the output files, \<open>asm_gen_opcodes\<close>.
  \<^item> \<open>Samples\<close>: small programs, run by evaluation, on which the properties are instantiated.
  \<^item> \<open>Packet\<close>: \<open>split_packet\<close>, the abstract packet format, and \<open>vliwdec\<close>; assembled bundles are recovered by
    both; when a bundle assembles, and what it writes.
  \<^item> \<open>Layout\<close>: both passes reach the same addresses; \<open>code_image\<close> and \<open>data_image\<close> describe the memories;
    the locale \<open>label_pass\<close> is the contract of pass 0 for code and for data.
  \<^item> \<open>Disasm\<close>: \<open>disasm\<close>, \<open>str2int\<close> and \<open>main\<close> of \<open>disasm.c\<close>; the locale \<open>recognisable\<close> extends
    \<open>insn_set\<close> by codes that keep mnemonics apart; assembling and disassembling, writing and reading.
  \<^item> \<open>Limits\<close>: inputs on which the tools do something else than their source says.
  \<^item> \<open>AsmScan\<close>: the rules of \<open>asm.l\<close> (longest match, start conditions, anchors), their actions and \<open>yylex\<close>.
  \<^item> \<open>AsmParse\<close>: the grammar of \<open>asm.y\<close> as inductive predicates with its semantic actions; \<open>sentence_value\<close> is
    the one meaning it gives to a list of tokens.  The functions \<open>p_program\<close> and those it calls decide the
    grammar, so that programs can be evaluated; they model no code of the repository.
  \<^item> \<open>AsmMain\<close>: \<open>main\<close> of the assembler: the options, the two runs of the parser, the names of the files.
  \<^item> \<open>AsmText\<close>: programs printed as text; the scanner and the parser read them back; the assembler from
    the text to the memory files; texts that are rejected or read otherwise than they look.
  \<^item> \<open>Target\<close>: the loader \<open>wb_debug.c\<close> with its command line, \<open>fscanf\<close> of the memory files and the
    byte protocol, and the receiver of \<open>wb_debug.v\<close>; what the assembler wrote reaches the bus.
  \<^item> \<open>DebugBus\<close>: \<open>wb_debug.v\<close> clock by clock with its bus and its transmitter; a dump prints the memory on the
    bus.
  \<^item> \<open>Monitor\<close>: \<open>targetmon.c\<close> and the receiver of \<open>top_top.v\<close> with the data memory port; both memories are
    loaded, the data memory is read back, the resets resynchronise the receiver.
  \<^item> \<open>Ethraw\<close>, \<open>Fonts\<close>: the frame that \<open>ethraw.c\<close> sends; the two outputs of \<open>genvgafonts.c\<close>.
  \<^item> \<open>GccRegs\<close>: the register file of \<open>ajardsp.h\<close> and the predicates and calling convention of \<open>ajardsp.c\<close>.
  \<^item> \<open>GccPrint\<close>: legitimate addresses, the printing of operands and directives, the hooks of the final pass
    and of the scheduler; what the compiler prints is what the encoders read.
  \<^item> \<open>GccFrame\<close>: prologue and epilogue as instructions with a semantics on registers and stack.
  \<^item> \<open>GccFloat\<close>: the 16-bit floating point format.
  \<^item> \<open>GccNops\<close>: the pass that separates dependent instructions by nops, on a control flow graph.
  \<^item> \<open>BlockRepeat\<close>: the program counter and the block repeat registers of the processor, clock by clock; which
    bundles a loop issues.
  \<^item> \<open>GccLoops\<close>: the pass that turns counted loops into block repeats, the pattern it recognises and the
    optimization options; the loops it makes, run by the hardware of \<open>BlockRepeat\<close>.
  \<^item> \<open>GccData\<close>: data, labels and sections as the compiler prints them, read by the assembler; which words of
    them reach the data memory.
  \<^item> \<open>GccInsns\<close>: the instruction patterns of \<open>ajardsp.md\<close> with operands, constraints, templates and sizes;
    every alternative but eleven is printed as instructions that the table encodes, when its operands are usable.
  \<^item> \<open>GccUnfit\<close>: what becomes of most of the eleven: which never assemble, which sums with a pointer are wrong,
    which accumulators are confused; the counter of a block repeat.
  \<^item> \<open>GccIssue\<close>: the functional units and issue slots of the pipeline description; the groups the scheduler
    issues in one cycle are printed as bundles, read back and assembled to at most four words.
  \<^item> \<open>SimView\<close>: registers, memories and pipelines of the design as the debugger reads, shows and edits them.
  \<^item> \<open>SimSource\<close>: the listing, the source window and the breakpoints.
  \<^item> \<open>SimRun\<close>: the callback of the clock and the buttons as steps of two threads; reachable states.
  \<^item> \<open>SimWindows\<close>: the widgets and what is connected to them, what a click on each button does to a reachable
    state, the file with the geometry of the windows, the routines registered with the simulator.
  \<^item> This theory: the properties that span components.

  \<^bold>\<open>State.\<close>  The static variables of \<open>asm.c\<close> and \<open>symtab.c\<close> are the record \<open>asm_state\<close>: \<open>imem\<close>, \<open>imem_addr\<close>,
  \<open>dmem\<close>, \<open>dmem_addr\<close>, \<open>ignore_sym_refs\<close>, \<open>symtab_p\<close> and the text written to \<open>lineno_fp\<close>; those of the scanner
  are the record \<open>scanner\<close>, those of the debugger \<open>view\<close>, \<open>source\<close> and \<open>debugger\<close>; the registers of the hardware
  are the records \<open>rx_state\<close>, \<open>board\<close> and \<open>pcu\<close>, and a serial line is the record \<open>serial\<close>.  Linked lists are
  lists, NULL strings are \<^const>\<open>None\<close>, and integers are words of their C width.  A failing call ends the
  program in every caller, so the state it leaves is not kept.  The design under simulation is a function
  from its objects to values, and an rtx of the compiler a datatype with the codes the port looks at.

  \<^bold>\<open>Bounds.\<close>  Memories have 65536 words and addresses wrap around as in C.  The statements about memory
  contents ask for images of at most 65536 words; those about labels ask that the alignments before the
  label are between 1 and \<open>0x7fff0000\<close> (where the \<open>int\<close> arithmetic of pass 1 does not overflow) and the
  skips are not negative.  Every loop of the model is structural or decreases the length of a rest, except
  the scan of \<open>insert_nop_bb_scan\<close> through the blocks of a function: it has fuel, since in the source it
  need not end, and \<open>insert_nop_returns\<close> shows when the fuel it is given is enough.

  \<^bold>\<open>Not modelled.\<close>  The automaton that Bison generates from \<open>asm.y\<close> (it is not in the repository: \<open>yyparse\<close> returns
  the meaning the grammar gives to the tokens, and a syntax error when there is none); messages to \<open>stderr\<close>, memory exhaustion and files that cannot be created; how the threads
  and the serial lines are set up, and the shadows, borders and packing of the widgets; in the GCC port the
  machine description's RTL semantics, expanders, latencies and \<open>dummy_pattern\<close> (its patterns, templates, sizes
  and reservations are modelled), and the macros that only name types and functions; the rest of the hardware: the data paths of the functional units, the fetch queue,
  the memories and the controllers of the board.
\<close>

section \<open>From a label to the branch that names it\<close>

lemma bit_final_word:
  assumes "encode_predicate inst q = Good p" "n < 28" "n \<noteq> 1"
  shows "bit (final_word d inst p) n = bit q n"
  using encode_predicate_bits[OF assms(1,2)] assms(3)
  by (auto simp: final_word_def SIZE_BIT_def bit_simps dest: bit_imp_le_length)

text \<open>C1: a branch, call or block repeat whose operand is a label of the program carries the address at
  which the code after the label was placed: the 16-bit target field of the assembled word is the
  number of words of the code before the label.\<close>

theorem branch_reaches_label:
  assumes "asm_gen_opcodes fill data (pre @ ib # post) st = Good (st2, files)"
    and "list_all good_bundle pre" "ib_label ib = Some l"
    and "d \<in> set ajardsp_insns" "id_size d = INST_32" "id_operands d = [f]"
    and "od_encode f = Some Enc_symref" "od_width f = 16"
    and "inst_ops inst = [op]" "op_name op = Some l"
    and "assembles False (symtab_p st2) d inst has_next p"
  shows "\<exists>ws. code_image (symtab_p st2) pre 0 ws \<and>
    get_field f (final_word d inst p) = ucast (of_nat (length ws) :: u16)"
proof -
  note wf = ajardsp.entry_wf[OF assms(4)]
  from code_label_placed[OF assms(1-3)] obtain ws where
    ws: "code_image (symtab_p st2) pre 0 ws"
      "symtab_lookup l (symtab_p st2) = Some (ucast (of_nat (length ws) :: u16))" by blast
  let ?a = "ucast (of_nat (length ws) :: u16) :: u32"
  let ?p0 = "if has_next then id_pattern d OR 1 else id_pattern d"
  from assembles_operands(2)[OF wf assms(11)] assms(6-10) ws(2) have
    pred: "encode_predicate inst (put_field f ?a ?p0) = Good p"
    by (simp add: encode_symref_def)
  have f: "wf_field f" "field_mask f AND id_pattern d = 0" "field_mask f AND reserved_mask INST_32 = 0"
    using wf assms(5,6) by (simp_all add: wf_insn_def fields_mask_def)
  have range: "n < 28" "7 < n" if "bit (field_mask f) n" for n
  proof -
    have "\<not> bit (reserved_mask INST_32) n" using and_zero_bit[OF f(3) that] .
    moreover have "n < 32" using that by (simp add: bit_field_mask)
    ultimately show "n < 28" "7 < n" by (auto simp: reserved_mask_def mask_literals bit_simps)
  qed
  have "get_field f (final_word d inst p) = get_field f (put_field f ?a ?p0)"
    by (rule get_field_cong[OF _ f(1)]) (use bit_final_word[OF pred] range in fastforce)
  moreover have "?p0 AND field_mask f = 0"
  proof (rule bit_word_eqI)
    fix n :: nat
    show "bit (?p0 AND field_mask f) n \<longleftrightarrow> bit (0 :: u32) n"
    proof (cases "bit (field_mask f) n")
      case True
      with range[OF True] and_zero_bit[OF f(2) True] show ?thesis by (simp add: bit_simps)
    qed (simp add: bit_and_iff)
  qed
  moreover have "?a AND NOT (width_mask f) = 0"
    using assms(8) uint_bounded[of "of_nat (length ws) :: u16"]
    by (intro fits_width) (simp add: uint_ucast_u16)
  ultimately have "get_field f (final_word d inst p) = ?a"
    using get_put_field[OF f(1)] by simp
  with ws(1) show ?thesis by blast
qed

definition sample_branch :: instruction where
  "sample_branch = plain_inst ''bra'' [sym_operand ''main'']"

theorem branch_reaches_label_witness:
  "\<exists>st2 ws. asm_gen_opcodes False sample_data sample_code init = Good (st2, output_hex False st2) \<and>
     code_image (symtab_p st2) (take 2 sample_code) 0 ws \<and>
     get_field (hd (id_operands (hd pcu_bra_insns))) (final_word (hd pcu_bra_insns) sample_branch 0x20000440)
       = ucast (of_nat (length ws) :: u16)"
proof -
  obtain st2 where run: "asm_gen_opcodes False sample_data sample_code init = Good (st2, output_hex False st2)"
    and sy: "symtab_p st2 = [\<lparr>se_name = ''main'', se_address = 4\<rparr>, \<lparr>se_name = ''tab'', se_address = 4\<rparr>]"
    using sample_run by blast
  have run': "asm_gen_opcodes False sample_data
      (take 2 sample_code @ label_bundle ''main'' # drop 3 sample_code) init = Good (st2, output_hex False st2)"
    by (subst sample_label_main [symmetric]) (rule run)
  have good: "list_all good_bundle (take 2 sample_code)"
    by (simp add: sample_code_def good_bundle_def good_align_def align_bundle_def code_bundle_def)
  have e: "hd pcu_bra_insns \<in> set ajardsp_insns" "id_size (hd pcu_bra_insns) = INST_32"
    "id_operands (hd pcu_bra_insns) = [opnd SYMBOL_REF 8 16 Enc_symref]"
    by (simp_all add: ajardsp_insns_def pcu_bra_insns_def insn_def)
  have a: "assembles False (symtab_p st2) (hd pcu_bra_insns) sample_branch False 0x20000440"
    by (simp add: sy assembles_def sample_branch_def exec_simps)
  show ?thesis
    using branch_reaches_label[OF run' good _ e _ _ _ _ a, of "''main''" "sym_operand ''main''"] run e(3)
    by (auto simp: opnd_def label_bundle_def sample_branch_def plain_inst_def sym_operand_def)
qed

section \<open>The instruction table and the encoders\<close>

text \<open>C13: the instruction table is well formed: every entry has as many operand definitions as it says,
  at most eight, each with an encoder; its fields lie in the word, are disjoint, and leave alone the
  opcode pattern and the bits reserved for the format; and bit 29 marks exactly the 32-bit entries.\<close>

theorem insn_table_well_formed: "list_all wf_insn ajardsp_insns \<and> length ajardsp_insns = 83"
  using ajardsp.all_wf by (simp add: ajardsp_insns_def insn_group_defs)

text \<open>C12: every operand encoder only adds bits inside its field, and whether it accepts an operand does
  not depend on the word built so far.\<close>

theorem encoder_contract:
  assumes "wf_field d" "run_encode ign tab e d op p = Good q"
  shows "q AND NOT (field_mask d) = p AND NOT (field_mask d) \<and> p AND q = p \<and>
    (\<exists>q'. run_encode ign tab e d op p' = Good q')"
proof (intro conjI)
  show "q AND NOT (field_mask d) = p AND NOT (field_mask d)"
    by (rule run_enc.keeps_outside[OF assms]) (rule bit_word_eqI, simp add: bit_simps)
  show "p AND q = p"
    using run_enc.keeps_bits[OF assms] by (intro bit_word_eqI) (auto simp: bit_simps)
  show "\<exists>q'. run_encode ign tab e d op p' = Good q'"
    by (rule run_enc.succeeds_anywhere[OF assms(2)])
qed

theorem encoder_contract_witness:
  "\<exists>q. run_encode False [] Enc_int int_field (int_operand 13) 0x20 = Good q \<and>
     q AND NOT (field_mask int_field) = 0x20 AND NOT (field_mask int_field)"
proof -
  have "run_encode False [] Enc_int int_field (int_operand 13) 0x20 = Good 0x1A20" "wf_field int_field"
    by (simp_all add: encode_int_def field_eval)
  with encoder_contract[OF this(2,1)] show ?thesis by blast
qed

end
